(* ===== verification/Zim_Prelude.thy ===== *)
theory Zim_Prelude
  imports Main "HOL-Library.Word" "HOL-Library.List_Lexorder"
begin

unbundle bit_operations_syntax

text \<open>
  Vocabulary shared by every component: the machine types of \<^verbatim>\<open>include/zim/zim.h\<close>, the
  failures a call can end in, the error-propagating bind that stands for C++ exceptions, the
  simp collections of the development, and generic facts on lists and words.
\<close>

section \<open>Machine types\<close>

type_synonym byte = "8 word"
type_synonym u8 = "8 word"
type_synonym u16 = "16 word"
type_synonym u32 = "32 word"
type_synonym u64 = "64 word"

text \<open>
  A \<^verbatim>\<open>std::string\<close>, a \<^verbatim>\<open>char\<close> array and a file's contents are lists of bytes. The order on
  such lists (theory \<^verbatim>\<open>List_Lexorder\<close> over the unsigned order of the bytes) is the order of
  \<^verbatim>\<open>std::string::compare\<close>, whose \<^verbatim>\<open>char_traits<char>\<close> compares characters as
  \<^verbatim>\<open>unsigned char\<close>.
\<close>

type_synonym bytes = "byte list"

type_synonym entry_index_type = u32
type_synonym cluster_index_type = u32
type_synonym blob_index_type = u32
type_synonym size_type = u64
type_synonym offset_type = u64

definition str :: "string \<Rightarrow> bytes" where
  "str s = map of_char s"

section \<open>Failures\<close>

text \<open>
  The exceptions the library throws, and three ways a call can end without a value that C++ has no
  exception for: a failed \<^verbatim>\<open>ASSERT\<close> (which throws \<^verbatim>\<open>std::runtime_error\<close> in a build without
  \<^verbatim>\<open>NDEBUG\<close>, the build modelled here), an access outside an allocated object (undefined
  behaviour) and a loop that never ends.
\<close>

datatype zim_error =
    ZimFileFormatError string
  | RuntimeError string
  | OutOfRange string
  | RangeError string
  | FutureError
  | SystemError
  | InvalidType string
  | EntryNotFound string
  | AssertFailed
  | MemoryFault
  | NoReturn

type_synonym 'a res = "zim_error + 'a"

text \<open>What a C++ \<^verbatim>\<open>catch (...)\<close> can see: exceptions, but neither undefined behaviour nor an
  endless loop.\<close>

fun is_exception :: "zim_error \<Rightarrow> bool" where
  "is_exception MemoryFault = False"
| "is_exception NoReturn = False"
| "is_exception _ = True"

text \<open>What derives from \<^verbatim>\<open>std::runtime_error\<close>; \<^verbatim>\<open>out_of_range\<close>, \<^verbatim>\<open>future_error\<close> and \<^verbatim>\<open>InvalidType\<close> are logic
  errors.\<close>

fun is_runtime_error :: "zim_error \<Rightarrow> bool" where
  "is_runtime_error (OutOfRange _) = False"
| "is_runtime_error FutureError = False"
| "is_runtime_error (InvalidType _) = False"
| "is_runtime_error e = is_exception e"

text \<open>Messages that the code composes with numbers or file names are kept up to their constant part.\<close>

fun rbind :: "'a res \<Rightarrow> ('a \<Rightarrow> 'b res) \<Rightarrow> 'b res" where
  "rbind (Inl e) f = Inl e"
| "rbind (Inr x) f = f x"

definition ASSERT :: "bool \<Rightarrow> 'a res \<Rightarrow> 'a res" where
  "ASSERT c k = (if c then k else Inl AssertFailed)"

fun rmap_list :: "('a \<Rightarrow> 'b res) \<Rightarrow> 'a list \<Rightarrow> 'b list res" where
  "rmap_list f [] = Inr []"
| "rmap_list f (x # xs) = rbind (f x) (\<lambda>y. rbind (rmap_list f xs) (\<lambda>ys. Inr (y # ys)))"

fun rfoldl :: "('s \<Rightarrow> 'a \<Rightarrow> 's res) \<Rightarrow> 's \<Rightarrow> 'a list \<Rightarrow> 's res" where
  "rfoldl f s [] = Inr s"
| "rfoldl f s (x # xs) = rbind (f s x) (\<lambda>s'. rfoldl f s' xs)"

named_theorems zim_simps \<open>unfolding rules of small operations\<close>
named_theorems zim_inv \<open>preservation of invariants\<close>

lemma ASSERT_simps [simp]:
  "ASSERT True k = k" "ASSERT False k = Inl AssertFailed"
  by (simp_all add: ASSERT_def)

lemma ASSERT_Inr_iff [simp]: "ASSERT c k = Inr x \<longleftrightarrow> c \<and> k = Inr x"
  by (simp add: ASSERT_def)

lemma rbind_Inr_iff: "rbind m f = Inr y \<longleftrightarrow> (\<exists>x. m = Inr x \<and> f x = Inr y)"
  by (cases m) auto

lemma rbind_InrE [elim]:
  assumes "rbind m f = Inr y"
  obtains x where "m = Inr x" "f x = Inr y"
  using assms by (auto simp: rbind_Inr_iff)

lemma rbind_assoc: "rbind (rbind m f) g = rbind m (\<lambda>x. rbind (f x) g)"
  by (cases m) auto

lemma rbind_cong [fundef_cong]:
  "m = m' \<Longrightarrow> (\<And>x. m' = Inr x \<Longrightarrow> f x = g x) \<Longrightarrow> rbind m f = rbind m' g"
  by (cases m') auto

lemma rmap_list_Inr_iff:
  "rmap_list f xs = Inr ys \<longleftrightarrow> list_all2 (\<lambda>x y. f x = Inr y) xs ys"
  by (induction xs arbitrary: ys) (auto simp: rbind_Inr_iff list_all2_Cons1)

lemma rmap_list_all: "(\<And>x. x \<in> set xs \<Longrightarrow> f x = Inr (g x)) \<Longrightarrow> rmap_list f xs = Inr (map g xs)"
  by (induction xs) auto

lemma rfoldl_append: "rfoldl f s (xs @ ys) = rbind (rfoldl f s xs) (\<lambda>s'. rfoldl f s' ys)"
  by (induction xs arbitrary: s) (auto split: sum.splits intro!: rbind_cong simp: rbind_assoc)

section \<open>Lists\<close>

lemma take_drop_append_assoc: "take n xs @ take m (drop n xs) = take (n + m) xs"
  by (simp add: take_add)

lemma list_split_at:
  assumes "n \<le> length xs"
  obtains ys zs where "xs = ys @ zs" "length ys = n"
  using assms by (metis append_take_drop_id length_take min.absorb2)

lemma lex_nil_le [simp]: "([] :: 'a::linorder list) \<le> xs"
  by (cases xs) auto

lemma lex_append_le [simp]: "(xs :: 'a::linorder list) \<le> xs @ ys"
  by (induction xs) auto

lemma lex_append_cancel [simp]:
  "((xs :: 'a::linorder list) @ ys < xs @ zs) \<longleftrightarrow> ys < zs"
  "((xs :: 'a::linorder list) @ ys \<le> xs @ zs) \<longleftrightarrow> ys \<le> zs"
  by (induction xs) auto

section \<open>Words\<close>

lemma unat_bound: "unat (a :: 'a::len word) < 2 ^ LENGTH('a)"
  by (rule unsigned_less)

lemma unat_of_nat_small: "n < 2 ^ LENGTH('a::len) \<Longrightarrow> unat (of_nat n :: 'a word) = n"
  by (simp add: unat_of_nat take_bit_nat_eq_self)

lemma unat_minus_of_nat: "n \<le> unat a \<Longrightarrow> unat (a - of_nat n) = unat (a :: 'a::len word) - n"
proof -
  assume n: "n \<le> unat a"
  then have "n < 2 ^ LENGTH('a)" using unat_bound [of a] by linarith
  then have "unat (of_nat n :: 'a word) = n" by (rule unat_of_nat_small)
  with n show ?thesis by (simp add: unat_sub word_le_nat_alt)
qed

lemma unat_plus_of_nat:
  "unat a + n < 2 ^ LENGTH('a) \<Longrightarrow> unat (a + of_nat n) = unat (a :: 'a::len word) + n"
  by (subst unat_add_lem [THEN iffD1]) (simp_all add: unat_of_nat_small)

lemma unat_add_small:
  "unat a + unat b < 2 ^ LENGTH('a) \<Longrightarrow> unat (a + b) = unat a + unat (b :: 'a::len word)"
  by (rule unat_add_lem [THEN iffD1])

lemma unat_diff: "unat b \<le> unat a \<Longrightarrow> unat (a - b) = unat a - unat (b :: 'a::len word)"
  by (simp add: unat_sub word_le_nat_alt)

lemma unat_min: "unat (min a b) = min (unat a) (unat (b :: 'a::len word))"
  by (simp add: min_def word_le_nat_alt)

lemmas word_nat_alt = word_le_nat_alt word_less_nat_alt

lemma unat_drop_bit: "unat (drop_bit k (w :: 'a::len word)) = unat w div 2 ^ k"
  by (rule trans [OF unat_drop_bit_eq drop_bit_eq_div])

lemma unat_and_mask: "unat (w AND mask k) = unat (w :: 'a::len word) mod 2 ^ k"
  unfolding take_bit_eq_mask [symmetric]
  by (rule trans [OF unsigned_take_bit_eq take_bit_eq_mod])

lemma unat_ucast_mod: "unat (ucast (w :: 'a::len word) :: 'b::len word) = unat w mod 2 ^ LENGTH('b)"
  by (simp add: unsigned_ucast_eq take_bit_eq_mod)

lemma unat_ucast_32: "unat (ucast (w :: u64) :: u32) = unat w mod 2 ^ 32"
  by (simp add: unat_ucast_mod)

lemma unat_u64_bound [simp]: "unat (x :: u64) < 18446744073709551616"
  using unsigned_less [of x] by simp

lemma unat_u32_bound [simp]: "unat (x :: u32) < 4294967296"
  using unsigned_less [of x] by simp

end
