(* ===== verification/Endian_Tools.thy ===== *)
theory Endian_Tools
  imports Zim_Prelude
begin

text \<open>
  The little-endian encoding of \<^verbatim>\<open>src/endian_tools.h\<close> and the sequential reader over a memory
  buffer of \<^verbatim>\<open>src/bufferstreamer.h\<close>. Every on-disk structure of a ZIM archive goes through
  these two. The lemmas show that the writer and the reader are inverse to each other in both
  directions, at every width the library uses.
\<close>

section \<open>Encoding\<close>

definition toLittleEndian16 :: "u16 \<Rightarrow> bytes" where
  "toLittleEndian16 v = [ucast v, ucast (drop_bit 8 v)]"

definition toLittleEndian32 :: "u32 \<Rightarrow> bytes" where
  "toLittleEndian32 v =
     [ucast v, ucast (drop_bit 8 v), ucast (drop_bit 16 v), ucast (drop_bit 24 v)]"

definition toLittleEndian64 :: "u64 \<Rightarrow> bytes" where
  "toLittleEndian64 v =
     [ucast v, ucast (drop_bit 8 v), ucast (drop_bit 16 v), ucast (drop_bit 24 v),
      ucast (drop_bit 32 v), ucast (drop_bit 40 v), ucast (drop_bit 48 v), ucast (drop_bit 56 v)]"

section \<open>Decoding\<close>

text \<open>The loop of \<^verbatim>\<open>fromLittleEndian<T>\<close>: at step \<open>i\<close> the byte \<open>ptr[i]\<close> is converted to
  \<open>T\<close>, shifted left by \<open>8 i\<close> and or-ed into the result; \<open>n\<close> is \<^verbatim>\<open>sizeof(T)\<close>.\<close>

fun fromLittleEndian_loop :: "nat \<Rightarrow> nat \<Rightarrow> bytes \<Rightarrow> 'a::len word \<Rightarrow> 'a word" where
  "fromLittleEndian_loop i 0 ptr ret = ret"
| "fromLittleEndian_loop i (Suc n) ptr ret =
     fromLittleEndian_loop (Suc i) n ptr (ret OR push_bit (i * 8) (ucast (ptr ! i)))"

definition sizeof :: "'a::len itself \<Rightarrow> nat" where
  "sizeof _ = LENGTH('a) div 8"

definition fromLittleEndian :: "bytes \<Rightarrow> 'a::len word" where
  "fromLittleEndian ptr = fromLittleEndian_loop 0 (sizeof TYPE('a)) ptr 0"

section \<open>Inverse laws\<close>

lemma bit_fromLittleEndian_loop:
  assumes "8 * (i + n) \<le> LENGTH('a::len)"
  shows "bit (fromLittleEndian_loop i n ptr (ret :: 'a word)) k \<longleftrightarrow>
     bit ret k \<or> (8 * i \<le> k \<and> k < 8 * (i + n) \<and> bit (ptr ! (k div 8)) (k mod 8))"
  using assms
proof (induction n arbitrary: i ret)
  case 0
  then show ?case by auto
next
  case (Suc n)
  have step: "bit (ret OR push_bit (i * 8) (ucast (ptr ! i))) k \<longleftrightarrow>
      bit ret k \<or> (8 * i \<le> k \<and> k < 8 * Suc i \<and> bit (ptr ! (k div 8)) (k mod 8))"
  proof (cases "8 * i \<le> k \<and> k < 8 * Suc i")
    case True
    then obtain j where j: "k = i * 8 + j" "j < 8"
      by (metis add.commute le_add_diff_inverse mult.commute mult_Suc_right nat_add_left_cancel_less)
    then have "k div 8 = i" "k mod 8 = j" by simp_all
    with j Suc.prems show ?thesis
      by (simp add: bit_or_iff bit_push_bit_iff bit_unsigned_iff)
  next
    case False
    then have "\<not> bit (push_bit (i * 8) (ucast (ptr ! i) :: 'a word)) k"
      by (auto simp: bit_push_bit_iff bit_unsigned_iff dest: bit_imp_le_length)
    with False show ?thesis by (auto simp: bit_or_iff)
  qed
  have "bit (fromLittleEndian_loop i (Suc n) ptr ret) k \<longleftrightarrow>
      bit (ret OR push_bit (i * 8) (ucast (ptr ! i))) k \<or>
      (8 * Suc i \<le> k \<and> k < 8 * (Suc i + n) \<and> bit (ptr ! (k div 8)) (k mod 8))"
    using Suc.IH [of "Suc i"] Suc.prems by simp
  then show ?case unfolding step by auto
qed

lemma bit_fromLittleEndian:
  "bit (fromLittleEndian ptr :: 'a::len word) k \<longleftrightarrow>
     k < 8 * (LENGTH('a) div 8) \<and> bit (ptr ! (k div 8)) (k mod 8)"
  unfolding fromLittleEndian_def sizeof_def
  by (subst bit_fromLittleEndian_loop) auto

lemma fromLittleEndian_eqI:
  assumes "LENGTH('a::len) = 8 * n"
    and "\<And>i. i < n \<Longrightarrow> ptr ! i = ucast (drop_bit (8 * i) (v :: 'a word))"
  shows "fromLittleEndian ptr = v"
proof (rule bit_word_eqI)
  fix k assume k: "k < LENGTH('a)"
  then have "k div 8 < n" using assms(1) by (simp add: less_mult_imp_div_less mult.commute)
  moreover have "8 * (k div 8) + k mod 8 = k" by simp
  ultimately show "bit (fromLittleEndian ptr :: 'a word) k = bit v k"
    using k assms by (simp add: bit_fromLittleEndian bit_unsigned_iff bit_drop_bit_eq)
qed

lemma less_2_cases_nat: "(i::nat) < 2 \<Longrightarrow> i = 0 \<or> i = 1"
  by auto

lemma less_4_cases_nat: "(i::nat) < 4 \<Longrightarrow> i = 0 \<or> i = 1 \<or> i = 2 \<or> i = 3"
  by auto

lemma less_8_cases_nat:
  "(i::nat) < 8 \<Longrightarrow> i = 0 \<or> i = 1 \<or> i = 2 \<or> i = 3 \<or> i = 4 \<or> i = 5 \<or> i = 6 \<or> i = 7"
  by auto

lemma from_to_16 [simp]: "fromLittleEndian (toLittleEndian16 v @ r) = v"
  by (rule fromLittleEndian_eqI [where n = 2])
    (auto simp: toLittleEndian16_def dest!: less_2_cases_nat)

lemma from_to_32 [simp]: "fromLittleEndian (toLittleEndian32 v @ r) = v"
  by (rule fromLittleEndian_eqI [where n = 4])
    (auto simp: toLittleEndian32_def dest!: less_4_cases_nat)

lemma from_to_64 [simp]: "fromLittleEndian (toLittleEndian64 v @ r) = v"
  by (rule fromLittleEndian_eqI [where n = 8])
    (auto simp: toLittleEndian64_def dest!: less_8_cases_nat)

lemma length_toLittleEndian [simp]:
  "length (toLittleEndian16 a) = 2" "length (toLittleEndian32 b) = 4"
  "length (toLittleEndian64 c) = 8"
  by (simp_all add: toLittleEndian16_def toLittleEndian32_def toLittleEndian64_def)

lemmas from_to_nil [simp] =
  from_to_16 [of _ "[]", simplified] from_to_32 [of _ "[]", simplified]
  from_to_64 [of _ "[]", simplified]

text \<open>The other direction: every run of bytes of the right length is the encoding of what it
  decodes to, so the encoding is a bijection between words and byte strings.\<close>

lemma ucast_fromLittleEndian:
  assumes "LENGTH('a::len) = 8 * n" "i < n"
  shows "ucast (drop_bit (8 * i) (fromLittleEndian ptr :: 'a word)) = ptr ! i"
proof (rule bit_word_eqI)
  fix k assume "k < LENGTH(8)"
  then have k: "k < 8" by simp
  then have "(8 * i + k) div 8 = i" "(8 * i + k) mod 8 = k" by auto
  moreover have "8 * i + k < 8 * n" using k assms(2) by auto
  ultimately show "bit (ucast (drop_bit (8 * i) (fromLittleEndian ptr :: 'a word)) :: 8 word) k
      = bit (ptr ! i) k"
    using k assms by (simp add: bit_unsigned_iff bit_drop_bit_eq bit_fromLittleEndian)
qed

lemma toLittleEndian_nth:
  "toLittleEndian16 a = map (\<lambda>i. ucast (drop_bit (8 * i) a)) [0..<2]"
  "toLittleEndian32 b = map (\<lambda>i. ucast (drop_bit (8 * i) b)) [0..<4]"
  "toLittleEndian64 c = map (\<lambda>i. ucast (drop_bit (8 * i) c)) [0..<8]"
  by (simp_all add: toLittleEndian16_def toLittleEndian32_def toLittleEndian64_def upt_rec)

lemma to_from_nth:
  assumes "LENGTH('a::len) = 8 * n" "length bs = n"
  shows "map (\<lambda>i. ucast (drop_bit (8 * i) (fromLittleEndian bs :: 'a word))) [0..<n] = bs"
  using assms by (intro nth_equalityI) (simp_all add: ucast_fromLittleEndian)

lemma to_from_16: "length bs = 2 \<Longrightarrow> toLittleEndian16 (fromLittleEndian bs) = bs"
  unfolding toLittleEndian_nth by (rule to_from_nth) auto

lemma to_from_32: "length bs = 4 \<Longrightarrow> toLittleEndian32 (fromLittleEndian bs) = bs"
  unfolding toLittleEndian_nth by (rule to_from_nth) auto

lemma to_from_64: "length bs = 8 \<Longrightarrow> toLittleEndian64 (fromLittleEndian bs) = bs"
  unfolding toLittleEndian_nth by (rule to_from_nth) auto

lemmas to_from = to_from_16 to_from_32 to_from_64

text \<open>A 64-bit value is its low half followed by its high half.\<close>

lemma toLittleEndian64_split:
  "toLittleEndian64 w = toLittleEndian32 (ucast w) @ toLittleEndian32 (ucast (drop_bit 32 w))"
proof -
  have "(ucast (drop_bit k (ucast v :: u32)) :: byte) = ucast (drop_bit k v)"
    if "k \<le> 24" for k and v :: u64
    using that by (intro bit_word_eqI) (simp add: bit_unsigned_iff bit_drop_bit_eq)
  note this [of 8] this [of 16] this [of 24]
  moreover have "(ucast (ucast v :: u32) :: byte) = ucast v" for v :: u64
    by (intro bit_word_eqI) (simp add: bit_unsigned_iff)
  ultimately show ?thesis
    by (simp add: toLittleEndian64_def toLittleEndian32_def drop_bit_drop_bit)
qed

section \<open>BufferStreamer\<close>

text \<open>
  A \<^verbatim>\<open>BufferStreamer\<close> holds a pointer into a buffer and the number of bytes left. The pointer is
  modelled by the bytes from it to the end of the buffer, the counter by a 64-bit word that wraps
  below zero as \<^verbatim>\<open>zsize_t\<close> does. Reading past the end of the buffer is undefined behaviour in the
  source (\<^verbatim>\<open>memcpy\<close> from outside the object), hence \<open>MemoryFault\<close>.
\<close>

record streamer =
  m_current :: bytes
  m_size :: u64

definition BufferStreamer :: "bytes \<Rightarrow> u64 \<Rightarrow> streamer" where
  "BufferStreamer buffer sz = \<lparr>m_current = buffer, m_size = sz\<rparr>"

definition skip :: "nat \<Rightarrow> streamer \<Rightarrow> streamer" where
  "skip n s = s\<lparr>m_current := drop n (m_current s), m_size := m_size s - of_nat n\<rparr>"

definition left :: "streamer \<Rightarrow> u64" where
  "left s = m_size s"

definition stream_read :: "streamer \<Rightarrow> ('a::len word \<times> streamer) res" where
  "stream_read s =
     (let N = sizeof TYPE('a) in
      if length (m_current s) < N then Inl MemoryFault
      else Inr (fromLittleEndian (take N (m_current s)), skip N s))"

text \<open>A streamer whose counter agrees with what is really left of its buffer.\<close>

definition streamer_ok :: "streamer \<Rightarrow> bool" where
  "streamer_ok s \<longleftrightarrow> unat (m_size s) = length (m_current s)"

lemma sizeof_simps [simp]:
  "sizeof TYPE(8) = 1" "sizeof TYPE(16) = 2" "sizeof TYPE(32) = 4" "sizeof TYPE(64) = 8"
  by (simp_all add: sizeof_def)

lemma BufferStreamer_ok: "length b < 2 ^ 64 \<Longrightarrow> streamer_ok (BufferStreamer b (of_nat (length b)))"
  by (simp add: streamer_ok_def BufferStreamer_def unat_of_nat_small)

lemma skip_ok: "streamer_ok s \<Longrightarrow> n \<le> length (m_current s) \<Longrightarrow> streamer_ok (skip n s)"
  by (simp add: streamer_ok_def skip_def unat_minus_of_nat)

lemma stream_read_ok: "streamer_ok s \<Longrightarrow> stream_read s = Inr (v, s') \<Longrightarrow> streamer_ok s'"
  by (auto simp: stream_read_def Let_def intro: skip_ok split: if_splits)

lemma m_current_skip [simp]: "m_current (skip n s) = drop n (m_current s)"
  by (simp add: skip_def)

lemma m_size_skip [simp]: "m_size (skip n s) = m_size s - of_nat n"
  by (simp add: skip_def)

text \<open>Reading back what the encoders wrote.\<close>

lemma stream_read_16:
  "m_current s = toLittleEndian16 v @ r \<Longrightarrow> stream_read s = Inr (v, skip 2 s)"
  by (simp add: stream_read_def)

lemma stream_read_32:
  "m_current s = toLittleEndian32 v @ r \<Longrightarrow> stream_read s = Inr (v, skip 4 s)"
  by (simp add: stream_read_def)

lemma stream_read_64:
  "m_current s = toLittleEndian64 v @ r \<Longrightarrow> stream_read s = Inr (v, skip 8 s)"
  by (simp add: stream_read_def)

lemma fromLittleEndian_byte [simp]: "fromLittleEndian (b # r) = (b :: byte)"
  by (simp add: fromLittleEndian_def)

lemma stream_read_8: "m_current s = b # r \<Longrightarrow> stream_read s = Inr (b :: byte, skip 1 s)"
  by (simp add: stream_read_def)

end
