(* ===== verification/Block_Hash.thy ===== *)
theory Block_Hash
  imports Zim_Prelude
begin

text \<open>
  What the block-oriented digests of the library have in common: cutting a message into full
  blocks, and the contract of an incremental digest, stated as a locale. A context that has
  \<^emph>\<open>absorbed\<close> a message stands for exactly that message; feeding it another chunk absorbs the
  chunk; finishing it yields the digest of what was absorbed. Clients (the checksum of a whole
  archive, computed byte by byte by the reader and in chunks of 1024 bytes by the writer) rest on
  the locale's lemmas only.
\<close>

section \<open>Blocks\<close>

function blocks :: "nat \<Rightarrow> 'a list \<Rightarrow> 'a list list" where
  "blocks n xs = (if n = 0 \<or> length xs < n then [] else take n xs # blocks n (drop n xs))"
  by pat_completeness auto
termination
  by (relation "measure (\<lambda>(n, xs). length xs)") auto

declare blocks.simps [simp del]

lemma blocks_short: "length xs < n \<Longrightarrow> blocks n xs = []"
  by (subst blocks.simps) simp

lemma blocks_step: "0 < n \<Longrightarrow> n \<le> length xs \<Longrightarrow> blocks n xs = take n xs # blocks n (drop n xs)"
  by (subst blocks.simps) simp

lemma blocks_Cons: "0 < n \<Longrightarrow> length b = n \<Longrightarrow> blocks n (b @ xs) = b # blocks n xs"
  by (subst blocks_step) auto

lemma blocks_append:
  assumes "0 < n" "length xs mod n = 0"
  shows "blocks n (xs @ ys) = blocks n xs @ blocks n ys"
  using assms
proof (induction n xs rule: blocks.induct)
  case (1 n xs)
  show ?case
  proof (cases "length xs < n")
    case True
    with 1 have "xs = []" by auto
    with 1 show ?thesis by (simp add: blocks_short)
  next
    case False
    with 1 have "blocks n (drop n xs @ ys) = blocks n (drop n xs) @ blocks n ys"
      by (auto simp: le_mod_geq)
    with False 1 show ?thesis by (simp add: blocks_step)
  qed
qed

lemma blocks_drop_tail:
  assumes "0 < n"
  shows "blocks n (take (n * (length xs div n)) xs) = blocks n xs"
proof -
  let ?k = "n * (length xs div n)"
  have "length (take ?k xs) mod n = 0" by simp
  from blocks_append [OF assms this, of "drop ?k xs"] assms show ?thesis
    by (simp add: blocks_short minus_mult_div_eq_mod)
qed

text \<open>The message splits into its full blocks and a rest shorter than a block.\<close>

lemma blocks_rest_append:
  assumes "0 < n" "length xs = n * k + r" "r < n"
  shows "blocks n (xs @ ys) = blocks n xs @ blocks n (drop (n * k) xs @ ys)"
proof -
  have "xs @ ys = take (n * k) xs @ (drop (n * k) xs @ ys)" by simp
  moreover have "length (take (n * k) xs) mod n = 0" using assms by simp
  moreover have "length xs div n = k" using assms by simp
  ultimately show ?thesis
    using blocks_append assms(1) blocks_drop_tail by metis
qed

section \<open>The contract of an incremental digest\<close>

locale incremental_digest =
  fixes update :: "'c \<Rightarrow> bytes \<Rightarrow> 'c res"
    and final :: "'c \<Rightarrow> (bytes \<times> 'c) res"
    and absorbed :: "'c \<Rightarrow> bytes \<Rightarrow> bool"
    and chunk_ok :: "bytes \<Rightarrow> bool"
    and digest :: "bytes \<Rightarrow> bytes"
  assumes update_absorbs:
      "absorbed c m \<Longrightarrow> chunk_ok x \<Longrightarrow> \<exists>c'. update c x = Inr c' \<and> absorbed c' (m @ x)"
    and final_digest: "absorbed c m \<Longrightarrow> \<exists>c'. final c = Inr (digest m, c')"
begin

lemma update_all:
  assumes "absorbed c m" "\<And>x. x \<in> set xs \<Longrightarrow> chunk_ok x"
  shows "\<exists>c'. rfoldl update c xs = Inr c' \<and> absorbed c' (m @ concat xs)"
  using assms
proof (induction xs arbitrary: c m)
  case Nil
  then show ?case by simp
next
  case (Cons x xs)
  then obtain c' where c': "update c x = Inr c'" "absorbed c' (m @ x)"
    using update_absorbs [of c m x] by auto
  with Cons.IH [OF c'(2)] Cons.prems show ?case by auto
qed

lemma digest_of_chunks:
  assumes "absorbed c []" "\<And>x. x \<in> set xs \<Longrightarrow> chunk_ok x"
  shows "\<exists>c'. rbind (rfoldl update c xs) final = Inr (digest (concat xs), c')"
proof -
  from update_all [OF assms] obtain c' where
    "rfoldl update c xs = Inr c'" "absorbed c' (concat xs)" by auto
  with final_digest show ?thesis by fastforce
qed

end

end
