(* ===== verification/Md5.thy ===== *)
theory Md5
  imports Endian_Tools Block_Hash
begin

unbundle bit_operations_syntax

text \<open>
  The MD5 message digest of \<^verbatim>\<open>src/md5.c\<close>, which the library uses for the checksum of an archive
  and for generated UUIDs. The model follows the C code: the context with its two 32-bit bit
  counters and its 64-byte buffer, the unrolled transformation, the update loop with its
  \<^verbatim>\<open>unsigned int\<close> index, and the finalisation that pads through the update function.

  Shown here: the unrolled transformation computes the 64 steps of RFC 1321 given by one loop
  over a step table; a context fed in any chunking holds the RFC state of the concatenation; the
  digest is the one of RFC 1321 (padding, length, little-endian output).
\<close>

section \<open>The basic functions\<close>

definition md5_F :: "u32 \<Rightarrow> u32 \<Rightarrow> u32 \<Rightarrow> u32" where
  "md5_F x y z = (x AND y) OR (NOT x AND z)"
definition md5_G :: "u32 \<Rightarrow> u32 \<Rightarrow> u32 \<Rightarrow> u32" where
  "md5_G x y z = (x AND z) OR (y AND NOT z)"
definition md5_H :: "u32 \<Rightarrow> u32 \<Rightarrow> u32 \<Rightarrow> u32" where
  "md5_H x y z = x XOR y XOR z"
definition md5_I :: "u32 \<Rightarrow> u32 \<Rightarrow> u32 \<Rightarrow> u32" where
  "md5_I x y z = y XOR (x OR NOT z)"

definition ROTATE_LEFT :: "u32 \<Rightarrow> nat \<Rightarrow> u32" where
  "ROTATE_LEFT x n = push_bit n x OR drop_bit (32 - n) x"

type_synonym md5_macro = "u32 \<Rightarrow> u32 \<Rightarrow> u32 \<Rightarrow> u32 \<Rightarrow> u32 \<Rightarrow> nat \<Rightarrow> u32 \<Rightarrow> u32"

text \<open>The macros assign to their first argument; the model returns its new value.\<close>

definition FF :: md5_macro where
  "FF a b c d x s ac = ROTATE_LEFT (a + (md5_F b c d + x + ac)) s + b"
definition GG :: md5_macro where
  "GG a b c d x s ac = ROTATE_LEFT (a + (md5_G b c d + x + ac)) s + b"
definition HH :: md5_macro where
  "HH a b c d x s ac = ROTATE_LEFT (a + (md5_H b c d + x + ac)) s + b"
definition II :: md5_macro where
  "II a b c d x s ac = ROTATE_LEFT (a + (md5_I b c d + x + ac)) s + b"

abbreviation S11 :: nat where "S11 \<equiv> 7"
abbreviation S12 :: nat where "S12 \<equiv> 12"
abbreviation S13 :: nat where "S13 \<equiv> 17"
abbreviation S14 :: nat where "S14 \<equiv> 22"
abbreviation S21 :: nat where "S21 \<equiv> 5"
abbreviation S22 :: nat where "S22 \<equiv> 9"
abbreviation S23 :: nat where "S23 \<equiv> 14"
abbreviation S24 :: nat where "S24 \<equiv> 20"
abbreviation S31 :: nat where "S31 \<equiv> 4"
abbreviation S32 :: nat where "S32 \<equiv> 11"
abbreviation S33 :: nat where "S33 \<equiv> 16"
abbreviation S34 :: nat where "S34 \<equiv> 23"
abbreviation S41 :: nat where "S41 \<equiv> 6"
abbreviation S42 :: nat where "S42 \<equiv> 10"
abbreviation S43 :: nat where "S43 \<equiv> 15"
abbreviation S44 :: nat where "S44 \<equiv> 21"

section \<open>Encode and Decode\<close>

fun Encode :: "u32 list \<Rightarrow> bytes" where
  "Encode [] = []"
| "Encode (w # ws) =
     [ucast (w AND 0xff), ucast (drop_bit 8 w AND 0xff), ucast (drop_bit 16 w AND 0xff),
      ucast (drop_bit 24 w AND 0xff)] @ Encode ws"

fun Decode :: "bytes \<Rightarrow> u32 list" where
  "Decode (b0 # b1 # b2 # b3 # bs) =
     (ucast b0 OR push_bit 8 (ucast b1) OR push_bit 16 (ucast b2) OR push_bit 24 (ucast b3))
       # Decode bs"
| "Decode _ = []"

section \<open>The block transformation\<close>

type_synonym md5_regs = "u32 \<times> u32 \<times> u32 \<times> u32"

text \<open>Four consecutive lines of \<^verbatim>\<open>MD5Transform\<close>: the macro is applied with the roles of
  \<open>a, b, c, d\<close> rotated, each line with its message word, rotation and additive constant.\<close>

fun md5_four :: "md5_macro \<Rightarrow> u32 list \<Rightarrow> md5_regs \<Rightarrow> (nat \<times> nat \<times> u32) list \<Rightarrow> md5_regs" where
  "md5_four R x (a, b, c, d) [(k0, s0, t0), (k1, s1, t1), (k2, s2, t2), (k3, s3, t3)] =
     (let a = R a b c d (x ! k0) s0 t0;
          d = R d a b c (x ! k1) s1 t1;
          c = R c d a b (x ! k2) s2 t2;
          b = R b c d a (x ! k3) s3 t3
      in (a, b, c, d))"
| "md5_four R x v _ = v"

definition MD5Transform :: "md5_regs \<Rightarrow> bytes \<Rightarrow> md5_regs" where
  "MD5Transform st block =
     (let x = Decode block;
          v = st;
      v = md5_four FF x v [(0, S11, 0xd76aa478), (1, S12, 0xe8c7b756), (2, S13, 0x242070db), (3, S14, 0xc1bdceee)];
      v = md5_four FF x v [(4, S11, 0xf57c0faf), (5, S12, 0x4787c62a), (6, S13, 0xa8304613), (7, S14, 0xfd469501)];
      v = md5_four FF x v [(8, S11, 0x698098d8), (9, S12, 0x8b44f7af), (10, S13, 0xffff5bb1), (11, S14, 0x895cd7be)];
      v = md5_four FF x v [(12, S11, 0x6b901122), (13, S12, 0xfd987193), (14, S13, 0xa679438e), (15, S14, 0x49b40821)];
      v = md5_four GG x v [(1, S21, 0xf61e2562), (6, S22, 0xc040b340), (11, S23, 0x265e5a51), (0, S24, 0xe9b6c7aa)];
      v = md5_four GG x v [(5, S21, 0xd62f105d), (10, S22, 0x2441453), (15, S23, 0xd8a1e681), (4, S24, 0xe7d3fbc8)];
      v = md5_four GG x v [(9, S21, 0x21e1cde6), (14, S22, 0xc33707d6), (3, S23, 0xf4d50d87), (8, S24, 0x455a14ed)];
      v = md5_four GG x v [(13, S21, 0xa9e3e905), (2, S22, 0xfcefa3f8), (7, S23, 0x676f02d9), (12, S24, 0x8d2a4c8a)];
      v = md5_four HH x v [(5, S31, 0xfffa3942), (8, S32, 0x8771f681), (11, S33, 0x6d9d6122), (14, S34, 0xfde5380c)];
      v = md5_four HH x v [(1, S31, 0xa4beea44), (4, S32, 0x4bdecfa9), (7, S33, 0xf6bb4b60), (10, S34, 0xbebfbc70)];
      v = md5_four HH x v [(13, S31, 0x289b7ec6), (0, S32, 0xeaa127fa), (3, S33, 0xd4ef3085), (6, S34, 0x4881d05)];
      v = md5_four HH x v [(9, S31, 0xd9d4d039), (12, S32, 0xe6db99e5), (15, S33, 0x1fa27cf8), (2, S34, 0xc4ac5665)];
      v = md5_four II x v [(0, S41, 0xf4292244), (7, S42, 0x432aff97), (14, S43, 0xab9423a7), (5, S44, 0xfc93a039)];
      v = md5_four II x v [(12, S41, 0x655b59c3), (3, S42, 0x8f0ccc92), (10, S43, 0xffeff47d), (1, S44, 0x85845dd1)];
      v = md5_four II x v [(8, S41, 0x6fa87e4f), (15, S42, 0xfe2ce6e0), (6, S43, 0xa3014314), (13, S44, 0x4e0811a1)];
      v = md5_four II x v [(4, S41, 0xf7537e82), (11, S42, 0xbd3af235), (2, S43, 0x2ad7d2bb), (9, S44, 0xeb86d391)]
      in case (st, v) of ((s0, s1, s2, s3), (a, b, c, d)) \<Rightarrow> (s0 + a, s1 + b, s2 + c, s3 + d))"

section \<open>Contexts\<close>

record zim_MD5_CTX =
  md5_state :: md5_regs
  md5_count :: "u32 \<times> u32"
  md5_buffer :: bytes

definition md5_init_regs :: md5_regs where
  "md5_init_regs = (0x67452301, 0xefcdab89, 0x98badcfe, 0x10325476)"

definition zim_MD5Init :: "zim_MD5_CTX \<Rightarrow> zim_MD5_CTX" where
  "zim_MD5Init context = context\<lparr>md5_count := (0, 0), md5_state := md5_init_regs\<rparr>"

text \<open>\<^verbatim>\<open>memcpy(&buffer[index], src, n)\<close> on a buffer of known size.\<close>

definition memcpy_at :: "bytes \<Rightarrow> nat \<Rightarrow> bytes \<Rightarrow> nat \<Rightarrow> bytes" where
  "memcpy_at dst index src n = take index dst @ take n src @ drop (index + n) dst"

text \<open>The loop \<^verbatim>\<open>for (i = partLen; i + 63 < inputLen; i += 64)\<close>. The sum \<open>i + 63\<close> is computed in
  \<^verbatim>\<open>unsigned int\<close> and wraps; a block that does not lie inside the input is an access outside the
  object.\<close>

function MD5Update_loop :: "md5_regs \<Rightarrow> bytes \<Rightarrow> nat \<Rightarrow> nat \<Rightarrow> (md5_regs \<times> nat) res" where
  "MD5Update_loop st input i inputLen =
     (if (i + 63) mod 2 ^ 32 < inputLen then
        (if i + 64 \<le> length input
         then MD5Update_loop (MD5Transform st (take 64 (drop i input))) input (i + 64) inputLen
         else Inl MemoryFault)
      else Inr (st, i))"
  by pat_completeness auto
termination
  by (relation "measure (\<lambda>(st, input, i, n). length input - i)") auto

declare MD5Update_loop.simps [simp del]

definition md5_index :: "zim_MD5_CTX \<Rightarrow> nat" where
  "md5_index context = unat (drop_bit 3 (fst (md5_count context)) AND 0x3f)"

definition md5_add_count :: "u32 \<times> u32 \<Rightarrow> u32 \<Rightarrow> u32 \<times> u32" where
  "md5_add_count c inputLen =
     (let c0 = fst c + push_bit 3 inputLen;
          c1 = (if c0 < push_bit 3 inputLen then snd c + 1 else snd c)
      in (c0, c1 + drop_bit 29 inputLen))"

definition zim_MD5Update :: "zim_MD5_CTX \<Rightarrow> bytes \<Rightarrow> u32 \<Rightarrow> zim_MD5_CTX res" where
  "zim_MD5Update context input inputLen =
     (let index = md5_index context;
          n = unat inputLen;
          context = context\<lparr>md5_count := md5_add_count (md5_count context) inputLen\<rparr>;
          partLen = 64 - index
      in if length input < n then Inl MemoryFault
         else if partLen \<le> n then
           (let buf = memcpy_at (md5_buffer context) index input partLen in
            rbind (MD5Update_loop (MD5Transform (md5_state context) buf) input partLen n) (\<lambda>(st, i).
            Inr (context\<lparr>md5_state := st, md5_buffer := memcpy_at buf 0 (drop i input) (n - i)\<rparr>)))
         else Inr (context\<lparr>md5_buffer := memcpy_at (md5_buffer context) index input n\<rparr>))"

definition MD5_PADDING :: bytes where
  "MD5_PADDING = 0x80 # replicate 63 0"

definition md5_regs_list :: "md5_regs \<Rightarrow> u32 list" where
  "md5_regs_list r = (case r of (a, b, c, d) \<Rightarrow> [a, b, c, d])"

definition zim_MD5Final :: "zim_MD5_CTX \<Rightarrow> (bytes \<times> zim_MD5_CTX) res" where
  "zim_MD5Final context =
     (let bits = Encode [fst (md5_count context), snd (md5_count context)];
          index = md5_index context;
          padLen = (if index < 56 then 56 - index else 120 - index)
      in rbind (zim_MD5Update context MD5_PADDING (of_nat padLen)) (\<lambda>context.
         rbind (zim_MD5Update context bits 8) (\<lambda>context.
         Inr (Encode (md5_regs_list (md5_state context)),
              \<lparr>md5_state = (0, 0, 0, 0), md5_count = (0, 0), md5_buffer = replicate 64 0\<rparr>))))"

section \<open>The reference transformation\<close>

text \<open>
  RFC 1321 describes one step, repeated 64 times, with tables for the message word, the rotation and
  the additive constant of each step; the registers are renamed after every step.
\<close>

definition md5_word_index :: "nat \<Rightarrow> nat" where
  "md5_word_index i =
     (if i < 16 then i else if i < 32 then (5 * i + 1) mod 16
      else if i < 48 then (3 * i + 5) mod 16 else (7 * i) mod 16)"

definition md5_shift :: "nat \<Rightarrow> nat" where
  "md5_shift i =
     [[7, 12, 17, 22], [5, 9, 14, 20], [4, 11, 16, 23], [6, 10, 15, 21]] ! (i div 16) ! (i mod 4)"

definition md5_sine_table :: "u32 list" where
  "md5_sine_table = [
     0xd76aa478, 0xe8c7b756, 0x242070db, 0xc1bdceee, 0xf57c0faf, 0x4787c62a, 0xa8304613, 0xfd469501,
     0x698098d8, 0x8b44f7af, 0xffff5bb1, 0x895cd7be, 0x6b901122, 0xfd987193, 0xa679438e, 0x49b40821,
     0xf61e2562, 0xc040b340, 0x265e5a51, 0xe9b6c7aa, 0xd62f105d, 0x02441453, 0xd8a1e681, 0xe7d3fbc8,
     0x21e1cde6, 0xc33707d6, 0xf4d50d87, 0x455a14ed, 0xa9e3e905, 0xfcefa3f8, 0x676f02d9, 0x8d2a4c8a,
     0xfffa3942, 0x8771f681, 0x6d9d6122, 0xfde5380c, 0xa4beea44, 0x4bdecfa9, 0xf6bb4b60, 0xbebfbc70,
     0x289b7ec6, 0xeaa127fa, 0xd4ef3085, 0x04881d05, 0xd9d4d039, 0xe6db99e5, 0x1fa27cf8, 0xc4ac5665,
     0xf4292244, 0x432aff97, 0xab9423a7, 0xfc93a039, 0x655b59c3, 0x8f0ccc92, 0xffeff47d, 0x85845dd1,
     0x6fa87e4f, 0xfe2ce6e0, 0xa3014314, 0x4e0811a1, 0xf7537e82, 0xbd3af235, 0x2ad7d2bb, 0xeb86d391]"

definition md5_round_function :: "nat \<Rightarrow> u32 \<Rightarrow> u32 \<Rightarrow> u32 \<Rightarrow> u32" where
  "md5_round_function i =
     (if i < 16 then md5_F else if i < 32 then md5_G else if i < 48 then md5_H else md5_I)"

definition md5_step :: "u32 list \<Rightarrow> md5_regs \<Rightarrow> nat \<Rightarrow> md5_regs" where
  "md5_step X v i = (case v of (a, b, c, d) \<Rightarrow>
     (d, b + word_rotl (md5_shift i)
               (a + md5_round_function i b c d + X ! md5_word_index i + md5_sine_table ! i), b, c))"

definition md5_compress :: "md5_regs \<Rightarrow> bytes \<Rightarrow> md5_regs" where
  "md5_compress st block =
     (case (st, foldl (md5_step (Decode block)) st [0..<64]) of
        ((s0, s1, s2, s3), (a, b, c, d)) \<Rightarrow> (s0 + a, s1 + b, s2 + c, s3 + d))"

lemma ROTATE_LEFT_eq_rotl:
  assumes "0 < n" "n < 32"
  shows "ROTATE_LEFT x n = word_rotl n x"
proof (rule bit_word_eqI)
  fix k assume k: "k < LENGTH(32)"
  show "bit (ROTATE_LEFT x n) k = bit (word_rotl n x) k"
  proof (cases "n \<le> k")
    case True
    then have "(k + 32 - n) mod 32 = k - n" using k by (simp add: mod_if)
    moreover have "\<not> bit x (32 + k - n)" using True by (auto dest: bit_imp_le_length)
    ultimately show ?thesis using k assms True
      by (simp add: ROTATE_LEFT_def bit_or_iff bit_push_bit_iff bit_drop_bit_eq bit_word_rotl_iff)
  next
    case False
    then have "(k + 32 - n) mod 32 = 32 + k - n" using k by simp
    with k assms False show ?thesis
      by (simp add: ROTATE_LEFT_def bit_or_iff bit_push_bit_iff bit_drop_bit_eq bit_word_rotl_iff)
  qed
qed

definition md5_macro_of :: "nat \<Rightarrow> md5_macro" where
  "md5_macro_of i = (if i < 16 then FF else if i < 32 then GG else if i < 48 then HH else II)"

lemma md5_shift_bounds:
  assumes "i < 64"
  shows "0 < md5_shift i" "md5_shift i < 32"
proof -
  have "\<forall>i<64. 0 < md5_shift i \<and> md5_shift i < 32" by code_simp
  with assms show "0 < md5_shift i" "md5_shift i < 32" by auto
qed

lemma md5_step_macro:
  assumes "i < 64"
  shows "md5_step X (a, b, c, d) i =
    (d, md5_macro_of i a b c d (X ! md5_word_index i) (md5_shift i) (md5_sine_table ! i), b, c)"
  using ROTATE_LEFT_eq_rotl [OF md5_shift_bounds [OF assms]]
  by (simp add: md5_step_def md5_macro_of_def md5_round_function_def FF_def GG_def HH_def II_def
      add.commute add.left_commute)

lemma md5_four_steps:
  assumes "i + 3 < 64" "\<And>j. j < 4 \<Longrightarrow> md5_macro_of (i + j) = R"
  shows "foldl (md5_step X) v [i, i + 1, i + 2, i + 3] =
    md5_four R X v (map (\<lambda>j. (md5_word_index (i + j), md5_shift (i + j), md5_sine_table ! (i + j)))
      [0, 1, 2, 3])"
proof -
  have R: "md5_macro_of i = R" "md5_macro_of (i + 1) = R" "md5_macro_of (i + 2) = R"
    "md5_macro_of (i + 3) = R"
    using assms(2) [of 0] assms(2) [of 1] assms(2) [of 2] assms(2) [of 3] by auto
  show ?thesis
    using assms(1) R by (cases v) (simp add: md5_step_macro Let_def)
qed

lemma upt_64: "[0..<64] = concat (map (\<lambda>i. [i, i + 1, i + 2, i + 3])
    [0, 4, 8, 12, 16, 20, 24, 28, 32, 36, 40, 44, 48, 52, 56, 60 :: nat])"
  by code_simp

lemma md5_macro_of_add:
  assumes "j < 4" "i mod 4 = 0"
  shows "md5_macro_of (i + j) = md5_macro_of i"
proof -
  have "i + j < 16 \<longleftrightarrow> i < 16" "i + j < 32 \<longleftrightarrow> i < 32" "i + j < 48 \<longleftrightarrow> i < 48"
    using assms by presburger+
  then show ?thesis by (simp add: md5_macro_of_def)
qed

lemma md5_quad:
  assumes "i + 3 < 64" "i mod 4 = 0"
  shows "foldl (md5_step X) v [i, i + 1, i + 2, i + 3] = md5_four (md5_macro_of i) X v
    [(md5_word_index i, md5_shift i, md5_sine_table ! i),
     (md5_word_index (i + 1), md5_shift (i + 1), md5_sine_table ! (i + 1)),
     (md5_word_index (i + 2), md5_shift (i + 2), md5_sine_table ! (i + 2)),
     (md5_word_index (i + 3), md5_shift (i + 3), md5_sine_table ! (i + 3))]"
  using md5_four_steps [OF assms(1) md5_macro_of_add, of X v] assms(2) by simp

lemma foldl_concat_map: "foldl f v (concat (map g xs)) = foldl (\<lambda>v x. foldl f v (g x)) v xs"
  by (induction xs arbitrary: v) auto

lemma md5_steps_unrolled:
  "foldl (md5_step x) v [0..<64] =
    foldl (\<lambda>v i. md5_four (md5_macro_of i) x v
      [(md5_word_index i, md5_shift i, md5_sine_table ! i),
       (md5_word_index (i + 1), md5_shift (i + 1), md5_sine_table ! (i + 1)),
       (md5_word_index (i + 2), md5_shift (i + 2), md5_sine_table ! (i + 2)),
       (md5_word_index (i + 3), md5_shift (i + 3), md5_sine_table ! (i + 3))]) v
      [0, 4, 8, 12, 16, 20, 24, 28, 32, 36, 40, 44, 48, 52, 56, 60]"
  unfolding upt_64 foldl_concat_map
proof (rule foldl_cong)
  fix a :: md5_regs and i :: nat
  assume "i \<in> set [0, 4, 8, 12, 16, 20, 24, 28, 32, 36, 40, 44, 48, 52, 56, 60]"
  then have "i + 3 < 64" "i mod 4 = 0" by auto
  then show "foldl (md5_step x) a [i, i + 1, i + 2, i + 3] = md5_four (md5_macro_of i) x a
    [(md5_word_index i, md5_shift i, md5_sine_table ! i),
     (md5_word_index (i + 1), md5_shift (i + 1), md5_sine_table ! (i + 1)),
     (md5_word_index (i + 2), md5_shift (i + 2), md5_sine_table ! (i + 2)),
     (md5_word_index (i + 3), md5_shift (i + 3), md5_sine_table ! (i + 3))]"
    by (rule md5_quad)
qed simp_all

lemma MD5Transform_eq_compress: "MD5Transform st block = md5_compress st block"
  unfolding MD5Transform_def md5_compress_def md5_steps_unrolled Let_def
  by (simp add: md5_macro_of_def md5_word_index_def md5_shift_def md5_sine_table_def
      numeral_2_eq_2 [symmetric] del: md5_four.simps)

section \<open>Byte order\<close>

lemma ucast_and_ff [simp]: "(ucast (w AND 0xff :: u32) :: byte) = ucast w"
proof (rule bit_word_eqI)
  fix k assume "k < LENGTH(8)"
  moreover have ff: "(0xff :: u32) = mask 8" by (simp add: mask_eq_exp_minus_1)
  ultimately show "bit (ucast (w AND 0xff :: u32) :: byte) k = bit (ucast w :: byte) k"
    unfolding ff by (simp add: bit_unsigned_iff bit_and_iff bit_mask_iff)
qed

lemma Encode_toLittleEndian: "Encode ws = concat (map toLittleEndian32 ws)"
  by (induction ws) (simp_all add: toLittleEndian32_def)

lemma Decode_fromLittleEndian:
  "Decode (b0 # b1 # b2 # b3 # bs) = fromLittleEndian [b0, b1, b2, b3] # Decode bs"
  by (simp add: fromLittleEndian_def eval_nat_numeral or.assoc del: push_bit_numeral_minus_1)

text \<open>Decoding a whole block undoes encoding.\<close>

lemma Decode_Encode: "Decode (Encode ws) = ws"
proof (induction ws)
  case Nil
  show ?case by simp
next
  case (Cons w ws)
  have "Decode (Encode (w # ws)) = fromLittleEndian (toLittleEndian32 w) # Decode (Encode ws)"
    unfolding Encode_toLittleEndian
    by (simp add: toLittleEndian32_def Decode_fromLittleEndian del: Decode.simps(1))
  with Cons show ?case by simp
qed


section \<open>The bit counter\<close>

definition md5_count_val :: "u32 \<times> u32 \<Rightarrow> nat" where
  "md5_count_val c = unat (fst c) + 2 ^ 32 * unat (snd c)"

lemma unat_push3: "unat (push_bit 3 (n :: u32)) = (8 * unat n) mod 2 ^ 32"
  by (simp add: push_bit_eq_mult unat_word_ariths mult.commute)

lemma unat_drop29: "unat (drop_bit 29 (n :: u32)) = (8 * unat n) div 2 ^ 32"
proof -
  have "unat (drop_bit 29 n) = unat n div 2 ^ 29"
    by (simp only: unat_drop_bit)
  also have "\<dots> = (8 * unat n) div (8 * 2 ^ 29)" by (simp only: div_mult_mult1)
  also have "\<dots> = (8 * unat n) div 2 ^ 32" by simp
  finally show ?thesis .
qed

lemma add_mod_less_iff_carry:
  assumes "(a::nat) < m" "s < m"
  shows "(a + s) mod m < s \<longleftrightarrow> m \<le> a + s"
  using assms by (cases "a + s < m") (auto simp: le_mod_geq)

lemma mod_square_split:
  assumes "(r::nat) < m"
  shows "(r + m * k) mod (m * m) = r + m * (k mod m)"
  unfolding mod_mult2_eq using assms by simp

lemma md5_add_count_val:
  "md5_count_val (md5_add_count c n) = (md5_count_val c + 8 * unat n) mod 2 ^ 64"
proof -
  define A B L where "A = unat (fst c)" and "B = unat (snd c)" and "L = 8 * unat n"
  have A: "A < 2 ^ 32" and B: "B < 2 ^ 32" by (simp_all add: A_def B_def)
  define s d where "s = L mod 2 ^ 32" and "d = L div 2 ^ 32"
  have L: "L = d * 2 ^ 32 + s" by (simp add: s_def d_def div_mult_mod_eq)
  have s: "s < 2 ^ 32" by (simp add: s_def)
  define carry where "carry = (if 2 ^ 32 \<le> A + s then 1 else 0 :: nat)"
  have lt: "fst c + push_bit 3 n < push_bit 3 n \<longleftrightarrow> 2 ^ 32 \<le> A + s"
    using add_mod_less_iff_carry [OF A s]
    by (simp add: word_less_nat_alt unat_word_ariths unat_push3 A_def s_def L_def)
  have c0: "unat (fst c + push_bit 3 n) = (A + s) mod 2 ^ 32"
    by (simp add: unat_word_ariths unat_push3 A_def s_def L_def)
  have c1: "unat ((if fst c + push_bit 3 n < push_bit 3 n then snd c + 1 else snd c)
      + drop_bit 29 n) = (B + carry + d) mod 2 ^ 32"
    unfolding lt carry_def
    by (simp add: unat_word_ariths unat_drop29 B_def d_def L_def mod_simps)
  have "md5_count_val (md5_add_count c n)
      = (A + s) mod 2 ^ 32 + 2 ^ 32 * ((B + carry + d) mod 2 ^ 32)"
    unfolding md5_count_val_def md5_add_count_def Let_def fst_conv snd_conv c0 c1 ..
  also have "\<dots> = (A + s + 2 ^ 32 * (B + d)) mod 2 ^ 64"
  proof -
    have "(A + s) mod 2 ^ 32 + 2 ^ 32 * carry = A + s"
      using A s by (auto simp: carry_def le_mod_geq)
    then have eq: "A + s + 2 ^ 32 * (B + d) = (A + s) mod 2 ^ 32 + 2 ^ 32 * (B + carry + d)"
      by (simp add: algebra_simps)
    have "((A + s) mod 2 ^ 32 + 2 ^ 32 * (B + carry + d)) mod (2 ^ 32 * 2 ^ 32)
        = (A + s) mod 2 ^ 32 + 2 ^ 32 * ((B + carry + d) mod 2 ^ 32)"
      by (rule mod_square_split) simp
    then show ?thesis unfolding eq by simp
  qed
  also have "A + s + 2 ^ 32 * (B + d) = md5_count_val c + 8 * unat n"
    using L by (simp add: A_def B_def L_def md5_count_val_def algebra_simps)
  finally show ?thesis .
qed

lemma md5_index_count:
  assumes "md5_count_val (md5_count context) = (8 * n) mod 2 ^ 64"
  shows "md5_index context = n mod 64"
proof -
  let ?c = "fst (md5_count context)"
  have "unat ?c = md5_count_val (md5_count context) mod 2 ^ 32"
    by (simp add: md5_count_val_def)
  also have "\<dots> = (8 * n) mod 2 ^ 32"
    unfolding assms by (simp add: mod_mod_cancel)
  finally have c: "unat ?c = (8 * n) mod 2 ^ 32" .
  have "md5_index context = (unat ?c div 8) mod 64"
  proof -
    have "(0x3f :: u32) = mask 6" by (simp add: mask_eq_exp_minus_1)
    then have "md5_index context = (unat ?c div 2 ^ 3) mod 2 ^ 6"
      unfolding md5_index_def by (simp only: unat_and_mask unat_drop_bit)
    then show ?thesis by simp
  qed
  also have "\<dots> = (8 * n mod (8 * 2 ^ 29)) div 8 mod 64" unfolding c by simp
  also have "\<dots> = n mod 2 ^ 29 mod 64" by (simp only: mod_mult_mult1) simp
  also have "\<dots> = n mod 64" by (rule mod_mod_cancel) simp
  finally show ?thesis .
qed


section \<open>Absorbing a message\<close>

definition md5_absorbed :: "zim_MD5_CTX \<Rightarrow> bytes \<Rightarrow> bool" where
  "md5_absorbed context m \<longleftrightarrow>
     length (md5_buffer context) = 64 \<and>
     md5_count_val (md5_count context) = (8 * length m) mod 2 ^ 64 \<and>
     md5_state context = foldl MD5Transform md5_init_regs (blocks 64 m) \<and>
     take (length m mod 64) (md5_buffer context) = drop (64 * (length m div 64)) m"

lemma md5_absorbed_init:
  "length (md5_buffer context) = 64 \<Longrightarrow> md5_absorbed (zim_MD5Init context) []"
  by (simp add: md5_absorbed_def zim_MD5Init_def md5_count_val_def blocks_short)

lemma MD5Update_loop_blocks:
  assumes "n + 63 < 2 ^ 32" "n \<le> length input" "i \<le> n"
  shows "MD5Update_loop st input i n =
    Inr (foldl MD5Transform st (blocks 64 (take (n - i) (drop i input))), i + 64 * ((n - i) div 64))"
  using assms
proof (induction st input i n rule: MD5Update_loop.induct)
  case (1 st input i n)
  have nowrap: "(i + 63) mod 2 ^ 32 = i + 63" using "1.prems" by simp
  show ?case
  proof (cases "i + 63 < n")
    case True
    with "1.prems" have len: "i + 64 \<le> length input" "i + 64 \<le> n" by auto
    have IH: "MD5Update_loop (MD5Transform st (take 64 (drop i input))) input (i + 64) n =
        Inr (foldl MD5Transform (MD5Transform st (take 64 (drop i input)))
               (blocks 64 (take (n - (i + 64)) (drop (i + 64) input))),
             i + 64 + 64 * ((n - (i + 64)) div 64))"
      using "1.IH" "1.prems" True len unfolding nowrap by simp
    have div: "(n - i) div 64 = Suc ((n - (i + 64)) div 64)"
      using len by (simp add: le_div_geq)
    have "blocks 64 (take (n - i) (drop i input)) =
        take 64 (drop i input) # blocks 64 (take (n - (i + 64)) (drop (i + 64) input))"
      using len by (subst blocks_step) (auto simp: drop_take min_def add.commute)
    with True len show ?thesis
      unfolding MD5Update_loop.simps [of st input i n] nowrap IH div by simp
  next
    case False
    then have "n - i < 64" using "1.prems" by auto
    with False show ?thesis
      unfolding MD5Update_loop.simps [of st input i n] nowrap by (simp add: blocks_short)
  qed
qed

lemma length_memcpy_at:
  "index + n \<le> length dst \<Longrightarrow> n \<le> length src \<Longrightarrow> length (memcpy_at dst index src n) = length dst"
  by (simp add: memcpy_at_def)

text \<open>What absorbing says, with the length of the message split into blocks and rest.\<close>

lemma md5_absorbedD:
  assumes "md5_absorbed context m" "length m = 64 * k + p" "p < 64"
  shows "length (md5_buffer context) = 64" "take p (md5_buffer context) = drop (64 * k) m"
    "md5_state context = foldl MD5Transform md5_init_regs (blocks 64 m)"
    "md5_count_val (md5_count context) = (8 * length m) mod 2 ^ 64" "md5_index context = p"
  using assms md5_index_count [of "context" "length m"] by (auto simp: md5_absorbed_def)

lemma md5_absorbedI:
  assumes "length m = 64 * k + p" "p < 64" "length (md5_buffer context) = 64"
    "take p (md5_buffer context) = drop (64 * k) m"
    "md5_state context = foldl MD5Transform md5_init_regs (blocks 64 m)"
    "md5_count_val (md5_count context) = (8 * length m) mod 2 ^ 64"
  shows "md5_absorbed context m"
  using assms by (simp add: md5_absorbed_def)

lemma md5_count_absorbed:
  assumes "md5_count_val c = (8 * length m) mod 2 ^ 64" "length x = unat n"
  shows "md5_count_val (md5_add_count c n) = (8 * length (m @ x)) mod 2 ^ 64"
  using assms by (simp add: md5_add_count_val mod_simps algebra_simps)

text \<open>A chunk that does not fill the buffer.\<close>

lemma zim_MD5Update_short:
  assumes abs: "md5_absorbed context m" and m: "length m = 64 * k + p" "p < 64"
    and len: "length x = unat n" "p + unat n < 64"
  shows "\<exists>context'. zim_MD5Update context (x @ r) n = Inr context' \<and> md5_absorbed context' (m @ x)"
proof -
  note [simp] = md5_absorbedD [OF abs m]
  let ?c = "context\<lparr>md5_count := md5_add_count (md5_count context) n,
    md5_buffer := memcpy_at (md5_buffer context) p (x @ r) (unat n)\<rparr>"
  have "\<not> 64 - p \<le> unat n" using len by simp
  then have "zim_MD5Update context (x @ r) n = Inr ?c"
    using len(1) by (simp add: zim_MD5Update_def Let_def)
  moreover have "md5_absorbed ?c (m @ x)"
  proof (rule md5_absorbedI [where k = k and p = "p + unat n"])
    have "blocks 64 (m @ x) = blocks 64 m"
      using blocks_rest_append [OF _ m, of x] len m by (simp add: blocks_short)
    then show "md5_state ?c = foldl MD5Transform md5_init_regs (blocks 64 (m @ x))" by simp
    show "md5_count_val (md5_count ?c) = (8 * length (m @ x)) mod 2 ^ 64"
      using md5_count_absorbed [OF md5_absorbedD(4) [OF abs m] len(1)] by simp
  qed (use m len in \<open>simp_all add: memcpy_at_def\<close>)
  ultimately show ?thesis by blast
qed

text \<open>A chunk that completes the buffered block: the rest of it goes through the loop.\<close>

lemma zim_MD5Update_long:
  assumes abs: "md5_absorbed context m" and m: "length m = 64 * k + p" "p < 64"
    and len: "length x = unat n" "unat n + 63 < 2 ^ 32" "64 \<le> p + unat n"
  shows "\<exists>context'. zim_MD5Update context (x @ r) n = Inr context' \<and> md5_absorbed context' (m @ x)"
proof -
  note [simp] = md5_absorbedD [OF abs m]
  define h where "h = 64 - p"
  define j where "j = (unat n - h) div 64"
  define q where "q = (unat n - h) mod 64"
  have n: "unat n = h + 64 * j + q" and q: "q < 64" and h: "h + p = 64"
    using len(3) m(2) by (simp_all add: j_def q_def h_def)
  let ?st = "MD5Transform (md5_state context) (drop (64 * k) m @ take h x)"
  have b: "memcpy_at (md5_buffer context) p (x @ r) h = drop (64 * k) m @ take h x"
    using h n len(1) by (simp add: memcpy_at_def)
  have loop: "MD5Update_loop ?st (x @ r) h (unat n) =
      Inr (foldl MD5Transform ?st (blocks 64 (drop h x)), h + 64 * j)"
  proof -
    have "h \<le> unat n" "unat n \<le> length (x @ r)" using n len(1) by simp_all
    moreover from this(1) have "take (unat n - h) (drop h (x @ r)) = drop h x"
      using len(1) by simp
    ultimately show ?thesis
      using MD5Update_loop_blocks [OF len(2), of "x @ r" h ?st] by (simp only: j_def)
  qed
  let ?c = "context\<lparr>md5_count := md5_add_count (md5_count context) n,
    md5_state := foldl MD5Transform ?st (blocks 64 (drop h x)),
    md5_buffer := memcpy_at (drop (64 * k) m @ take h x) 0 (drop (h + 64 * j) (x @ r)) q\<rparr>"
  have upd: "zim_MD5Update context (x @ r) n = Inr ?c"
  proof -
    have "64 - p = h" "h \<le> unat n" "unat n - (h + 64 * j) = q"
      using n by (simp_all add: h_def)
    then show ?thesis using len(1) loop b by (simp add: zim_MD5Update_def Let_def)
  qed
  have "md5_absorbed ?c (m @ x)"
  proof (rule md5_absorbedI [where k = "k + 1 + j" and p = q])
    have "blocks 64 (drop (64 * k) m @ x) = (drop (64 * k) m @ take h x) # blocks 64 (drop h x)"
      using m h n len(1) by (subst blocks_step) (auto simp: h_def)
    then show "md5_state ?c = foldl MD5Transform md5_init_regs (blocks 64 (m @ x))"
      using blocks_rest_append [OF _ m, of x] by simp
    show "take q (md5_buffer ?c) = drop (64 * (k + 1 + j)) (m @ x)"
    proof -
      have "64 + 64 * j - p = h + 64 * j" using h by simp
      with m n h q len(1) show ?thesis by (simp add: memcpy_at_def)
    qed
    show "md5_count_val (md5_count ?c) = (8 * length (m @ x)) mod 2 ^ 64"
      using md5_count_absorbed [OF md5_absorbedD(4) [OF abs m] len(1)] by simp
  qed (use m n h q len(1) in \<open>simp_all add: memcpy_at_def\<close>)
  with upd show ?thesis by blast
qed

lemma zim_MD5Update_absorbs:
  assumes "md5_absorbed context m" "length x = unat n" "unat n + 63 < 2 ^ 32"
  shows "\<exists>context'. zim_MD5Update context (x @ r) n = Inr context' \<and> md5_absorbed context' (m @ x)"
proof (cases "length m mod 64 + unat n < 64")
  case True
  with zim_MD5Update_short [OF assms(1) _ _ assms(2)] show ?thesis
    by (metis mod_less_divisor mult_div_mod_eq zero_less_numeral)
next
  case False
  with zim_MD5Update_long [OF assms(1) _ _ assms(2,3)] show ?thesis
    by (metis linorder_not_less mod_less_divisor mult_div_mod_eq zero_less_numeral)
qed


section \<open>Finalisation\<close>

text \<open>The digest of RFC 1321: pad with one bit and zeros to 56 bytes modulo 64, append the length in
  bits as a 64-bit little-endian number, compress the blocks, write out the registers.\<close>

definition rfc1321_pad :: "bytes \<Rightarrow> bytes" where
  "rfc1321_pad m = 0x80 # replicate ((119 - length m mod 64) mod 64) 0
     @ toLittleEndian64 (of_nat (8 * length m))"

definition rfc1321_md5 :: "bytes \<Rightarrow> bytes" where
  "rfc1321_md5 m =
     (case foldl md5_compress md5_init_regs (blocks 64 (m @ rfc1321_pad m)) of (a, b, c, d) \<Rightarrow>
        toLittleEndian32 a @ toLittleEndian32 b @ toLittleEndian32 c @ toLittleEndian32 d)"

lemma Encode_count:
  assumes "md5_count_val c = n mod 2 ^ 64"
  shows "Encode [fst c, snd c] = toLittleEndian64 (of_nat n)"
proof -
  let ?w = "of_nat n :: u64"
  have w: "unat ?w = unat (fst c) + 2 ^ 32 * unat (snd c)"
    using assms by (simp add: unat_of_nat md5_count_val_def take_bit_eq_mod)
  have "unat (ucast ?w :: u32) = unat (fst c)"
    unfolding unat_ucast_32 w by simp
  moreover have "unat (ucast (drop_bit 32 ?w) :: u32) = unat (snd c)"
    unfolding unat_ucast_32 unat_drop_bit w by simp
  ultimately have "ucast ?w = fst c" "ucast (drop_bit 32 ?w) = snd c"
    by (simp_all add: word_unat_eq_iff)
  then show ?thesis by (simp add: Encode_toLittleEndian toLittleEndian64_split)
qed

lemma zim_MD5Final_digest:
  assumes "md5_absorbed context m"
  shows "\<exists>context'. zim_MD5Final context = Inr (rfc1321_md5 m, context')"
proof -
  define p where "p = length m mod 64"
  define padLen where "padLen = (if p < 56 then 56 - p else 120 - p)"
  have p: "length m = 64 * (length m div 64) + p" "p < 64" by (simp_all add: p_def)
  have pad: "0 < padLen" "padLen \<le> 64" "padLen = Suc ((119 - p) mod 64)"
    using p(2) by (auto simp: padLen_def mod_if)
  have n: "unat (of_nat padLen :: u32) = padLen" using pad by (intro unat_of_nat_small) simp
  let ?z = "0x80 # replicate (padLen - 1) 0 :: bytes"
  have padding: "MD5_PADDING = ?z @ replicate (64 - padLen) 0"
    using pad by (simp add: MD5_PADDING_def flip: replicate_add)
  have bits: "Encode [fst (md5_count context), snd (md5_count context)]
      = toLittleEndian64 (of_nat (8 * length m))"
    using Encode_count md5_absorbedD(4) [OF assms p] by blast
  obtain c1 where c1: "zim_MD5Update context MD5_PADDING (of_nat padLen) = Inr c1"
    "md5_absorbed c1 (m @ ?z)"
    using zim_MD5Update_absorbs [OF assms, of ?z "of_nat padLen"] n pad unfolding padding by auto
  obtain c2 where c2: "zim_MD5Update c1 (toLittleEndian64 (of_nat (8 * length m))) 8 = Inr c2"
    "md5_absorbed c2 ((m @ ?z) @ toLittleEndian64 (of_nat (8 * length m)))"
    using zim_MD5Update_absorbs [OF c1(2), of "toLittleEndian64 (of_nat (8 * length m))" 8 "[]"]
    by auto
  have full: "(m @ ?z) @ toLittleEndian64 (of_nat (8 * length m)) = m @ rfc1321_pad m"
    using pad by (simp add: rfc1321_pad_def p_def)
  have "Encode (md5_regs_list (md5_state c2)) = rfc1321_md5 m"
    using c2(2) unfolding full
    by (auto simp: md5_absorbed_def rfc1321_md5_def md5_regs_list_def Encode_toLittleEndian
        MD5Transform_eq_compress [abs_def] split: prod.split)
  with c1(1) c2(1) show ?thesis
    by (simp add: zim_MD5Final_def Let_def bits md5_absorbedD(5) [OF assms p] del: Encode.simps
        flip: padLen_def)
qed

text \<open>MD5 keeps the contract of an incremental digest.\<close>

definition md5_feed :: "zim_MD5_CTX \<Rightarrow> bytes \<Rightarrow> zim_MD5_CTX res" where
  "md5_feed context x = zim_MD5Update context x (of_nat (length x))"

definition md5_chunk_ok :: "bytes \<Rightarrow> bool" where
  "md5_chunk_ok x \<longleftrightarrow> length x + 63 < 2 ^ 32"

interpretation md5: incremental_digest md5_feed zim_MD5Final md5_absorbed md5_chunk_ok rfc1321_md5
proof (unfold_locales, goal_cases)
  case (1 c m x)
  then have "unat (of_nat (length x) :: u32) = length x"
    by (intro unat_of_nat_small) (simp add: md5_chunk_ok_def)
  with 1 zim_MD5Update_absorbs [of c m x "of_nat (length x)" "[]"] show ?case
    by (simp add: md5_feed_def md5_chunk_ok_def)
next
  case (2 c m)
  then show ?case by (rule zim_MD5Final_digest)
qed

section \<open>Properties\<close>

text \<open>C2: However a message is cut into chunks (each short enough for the 32-bit length argument), the
  sequence init, update for each chunk, final returns the RFC 1321 digest of the whole message; no
  access leaves the input or the buffer. The context need not be initialised beforehand: its
  64-byte buffer may hold anything.\<close>

theorem md5_any_chunking:
  assumes "length (md5_buffer context) = 64"
    and "\<forall>x\<in>set chunks. length x + 63 < 2 ^ 32"
  shows "\<exists>context'.
    rbind (rfoldl (\<lambda>c x. zim_MD5Update c x (of_nat (length x))) (zim_MD5Init context) chunks)
      zim_MD5Final = Inr (rfc1321_md5 (concat chunks), context')"
  using md5.digest_of_chunks [OF md5_absorbed_init [OF assms(1)], of chunks] assms(2)
  unfolding md5_feed_def [abs_def] by (auto simp: md5_chunk_ok_def)

theorem md5_any_chunking_witness:
  "\<exists>context'. rbind (rfoldl (\<lambda>c x. zim_MD5Update c x (of_nat (length x)))
       (zim_MD5Init \<lparr>md5_state = (0, 0, 0, 0), md5_count = (0, 0), md5_buffer = replicate 64 7\<rparr>)
       [str ''mess'', str '''', str ''age digest''])
      zim_MD5Final = Inr (rfc1321_md5 (str ''message digest''), context')"
  using md5_any_chunking
    [of "\<lparr>md5_state = (0, 0, 0, 0), md5_count = (0, 0), md5_buffer = replicate 64 7\<rparr>"
      "[str ''mess'', str '''', str ''age digest'']"]
  by (simp add: str_def)

text \<open>C3: The unrolled block transformation of the source equals the table-driven compression function
  of RFC 1321: 64 identical steps, each with its message word, rotation and sine constant, and the
  registers added to the previous state.\<close>

theorem md5_transform_is_rfc: "MD5Transform st block = md5_compress st block"
  by (rule MD5Transform_eq_compress)

end
