(* ===== verification/Lru_Cache.thy ===== *)
theory Lru_Cache
  imports Zim_Prelude
begin

text \<open>
  The least-recently-used cache of \<^verbatim>\<open>src/lrucache.h\<close>. The class keeps a doubly linked list of
  key-value pairs, most recently used first, and a map from keys to list iterators. An iterator is
  modelled by the identity of the list node it points to, so that the model can tell a map entry
  that points to the right node from one that does not.

  The lemmas relate both structures by an invariant, show that every operation keeps it, and
  refine the operations to a specification on plain association lists. A locale states what a
  client of a cache relies on, and a generic read-through client is verified once inside it.
\<close>

section \<open>Data\<close>

datatype AccessStatus = HIT | PUT | MISS

text \<open>\<^verbatim>\<open>AccessResult()\<close> holds a default-constructed value with status \<open>MISS\<close>, here \<open>None\<close>.\<close>

record 'v AccessResult =
  access_status :: AccessStatus
  access_val :: "'v option"

definition hit :: "'v AccessResult \<Rightarrow> bool" where
  "hit r \<longleftrightarrow> access_status r = HIT"

definition miss :: "'v AccessResult \<Rightarrow> bool" where
  "miss r \<longleftrightarrow> \<not> hit r"

definition access_value :: "'v AccessResult \<Rightarrow> 'v res" where
  "access_value r =
     (if access_status r = MISS then Inl (RangeError ''There is no such key in cache'')
      else case access_val r of Some v \<Rightarrow> Inr v | None \<Rightarrow> Inl MemoryFault)"

record ('k, 'v) lru_cache =
  cache_items_list :: "(nat \<times> 'k \<times> 'v) list"
  cache_items_map :: "'k \<rightharpoonup> nat"
  next_node :: nat
  max_size :: nat

definition lru_new :: "nat \<Rightarrow> ('k, 'v) lru_cache" where
  "lru_new n = \<lparr>cache_items_list = [], cache_items_map = Map.empty, next_node = 0, max_size = n\<rparr>"

section \<open>List iterators\<close>

text \<open>\<^verbatim>\<open>list.splice(list.begin(), list, it)\<close> moves the node \<open>it\<close> to the front.\<close>

definition splice_front :: "nat \<Rightarrow> (nat \<times> 'k \<times> 'v) list \<Rightarrow> (nat \<times> 'k \<times> 'v) list" where
  "splice_front n xs = filter (\<lambda>x. fst x = n) xs @ filter (\<lambda>x. fst x \<noteq> n) xs"

text \<open>\<^verbatim>\<open>it->second\<close>: the value in the node.\<close>

definition node_value :: "nat \<Rightarrow> (nat \<times> 'k \<times> 'v) list \<Rightarrow> 'v option" where
  "node_value n xs = map_option snd (map_of xs n)"

definition set_node_value ::
    "nat \<Rightarrow> 'v \<Rightarrow> (nat \<times> 'k \<times> 'v) list \<Rightarrow> (nat \<times> 'k \<times> 'v) list" where
  "set_node_value n v xs = map (\<lambda>(i, k, w). if i = n then (i, k, v) else (i, k, w)) xs"

section \<open>Operations\<close>

definition lru_size :: "('k, 'v) lru_cache \<Rightarrow> nat" where
  "lru_size c = card (dom (cache_items_map c))"

definition lru_exists :: "'k \<Rightarrow> ('k, 'v) lru_cache \<Rightarrow> bool" where
  "lru_exists key c \<longleftrightarrow> cache_items_map c key \<noteq> None"

definition putMissing :: "'k \<Rightarrow> 'v \<Rightarrow> ('k, 'v) lru_cache \<Rightarrow> ('k, 'v) lru_cache" where
  "putMissing key value c =
     (let n = next_node c;
          c1 = c\<lparr>cache_items_list := (n, key, value) # cache_items_list c,
                 cache_items_map := (cache_items_map c)(key \<mapsto> n),
                 next_node := Suc n\<rparr>
      in if max_size c1 < lru_size c1
         then c1\<lparr>cache_items_map := (cache_items_map c1)(fst (snd (last (cache_items_list c1))) := None),
                 cache_items_list := butlast (cache_items_list c1)\<rparr>
         else c1)"

definition lru_getOrPut ::
    "'k \<Rightarrow> 'v \<Rightarrow> ('k, 'v) lru_cache \<Rightarrow> 'v AccessResult \<times> ('k, 'v) lru_cache" where
  "lru_getOrPut key value c =
     (case cache_items_map c key of
        Some it \<Rightarrow>
          (let c' = c\<lparr>cache_items_list := splice_front it (cache_items_list c)\<rparr>
           in (\<lparr>access_status = HIT, access_val = node_value it (cache_items_list c')\<rparr>, c'))
      | None \<Rightarrow> (\<lparr>access_status = PUT, access_val = Some value\<rparr>, putMissing key value c))"

definition lru_put :: "'k \<Rightarrow> 'v \<Rightarrow> ('k, 'v) lru_cache \<Rightarrow> ('k, 'v) lru_cache" where
  "lru_put key value c =
     (case cache_items_map c key of
        Some it \<Rightarrow>
          c\<lparr>cache_items_list := set_node_value it value (splice_front it (cache_items_list c))\<rparr>
      | None \<Rightarrow> putMissing key value c)"

definition lru_get :: "'k \<Rightarrow> ('k, 'v) lru_cache \<Rightarrow> 'v AccessResult \<times> ('k, 'v) lru_cache" where
  "lru_get key c =
     (case cache_items_map c key of
        None \<Rightarrow> (\<lparr>access_status = MISS, access_val = None\<rparr>, c)
      | Some it \<Rightarrow>
          (let c' = c\<lparr>cache_items_list := splice_front it (cache_items_list c)\<rparr>
           in (\<lparr>access_status = HIT, access_val = node_value it (cache_items_list c')\<rparr>, c')))"

section \<open>Invariant and abstraction\<close>

text \<open>The contents in order of use, most recent first.\<close>

definition lru_items :: "('k, 'v) lru_cache \<Rightarrow> ('k \<times> 'v) list" where
  "lru_items c = map snd (cache_items_list c)"

definition node_map :: "(nat \<times> 'k \<times> 'v) list \<Rightarrow> 'k \<rightharpoonup> nat" where
  "node_map xs = map_of (map (\<lambda>(n, k, v). (k, n)) xs)"

definition lru_inv :: "('k, 'v) lru_cache \<Rightarrow> bool" where
  "lru_inv c \<longleftrightarrow>
     distinct (map fst (cache_items_list c)) \<and>
     distinct (map fst (lru_items c)) \<and>
     (\<forall>n\<in>set (map fst (cache_items_list c)). n < next_node c) \<and>
     cache_items_map c = node_map (cache_items_list c) \<and>
     length (cache_items_list c) \<le> max_size c"

text \<open>The specification on association lists.\<close>

definition spec_touch :: "'k \<Rightarrow> ('k \<times> 'v) list \<Rightarrow> ('k \<times> 'v) list" where
  "spec_touch k xs = filter (\<lambda>p. fst p = k) xs @ filter (\<lambda>p. fst p \<noteq> k) xs"

definition spec_put :: "nat \<Rightarrow> 'k \<Rightarrow> 'v \<Rightarrow> ('k \<times> 'v) list \<Rightarrow> ('k \<times> 'v) list" where
  "spec_put n k v xs = take n ((k, v) # filter (\<lambda>p. fst p \<noteq> k) xs)"

section \<open>List lemmas\<close>

lemma splice_front_split:
  assumes "distinct (map fst (ys @ (n, p) # zs))"
  shows "splice_front n (ys @ (n, p) # zs) = (n, p) # ys @ zs"
proof -
  have "\<forall>y\<in>set ys. fst y \<noteq> n" "\<forall>z\<in>set zs. fst z \<noteq> n"
    using assms by auto
  then show ?thesis by (simp add: splice_front_def filter_empty_conv filter_id_conv)
qed

lemma map_of_split_node:
  assumes "distinct (map fst (ys @ (n, p) # zs))"
  shows "map_of (ys @ (n, p) # zs) n = Some p"
  by (rule map_of_is_SomeI [OF assms]) simp

lemma node_map_Some_split:
  assumes "node_map xs k = Some n"
  obtains ys v zs where "xs = ys @ (n, k, v) # zs"
proof -
  from assms have "(k, n) \<in> set (map (\<lambda>(n, k, v). (k, n)) xs)"
    unfolding node_map_def by (rule map_of_SomeD)
  then obtain v where "(n, k, v) \<in> set xs" by auto
  then show thesis using that split_list by metis
qed

lemma dom_node_map: "dom (node_map xs) = fst ` snd ` set xs"
  by (force simp: node_map_def dom_map_of_conv_image_fst)

lemma node_map_Cons: "node_map ((n, k, v) # xs) = (node_map xs)(k \<mapsto> n)"
  by (simp add: node_map_def)

lemma node_map_eq_None: "node_map xs k = None \<longleftrightarrow> k \<notin> fst ` set (map snd xs)"
  by (force simp: node_map_def map_of_eq_None_iff)

lemma node_map_move:
  assumes "distinct (map fst (map snd (ys @ (n, k, v) # zs)))"
  shows "node_map ((n, k, w) # ys @ zs) = node_map (ys @ (n, k, v) # zs)"
proof -
  have "k \<notin> dom (node_map ys)" using assms by (simp add: dom_node_map image_image)
  then have "node_map (ys @ (n, k, v) # zs) = (node_map (ys @ zs))(k \<mapsto> n)"
    by (simp add: node_map_def map_add_upd_left)
  then show ?thesis by (simp add: node_map_Cons)
qed

section \<open>Every operation keeps the invariant\<close>

definition lru_lookup :: "('k, 'v) lru_cache \<Rightarrow> 'k \<rightharpoonup> 'v" where
  "lru_lookup c = map_of (lru_items c)"

lemma lru_inv_new [zim_inv]: "lru_inv (lru_new n)"
  by (simp add: lru_inv_def lru_new_def lru_items_def node_map_def)

text \<open>A key the map knows has a node in the list, and that node carries the key.\<close>

lemma lru_hitE:
  assumes "lru_inv c" "cache_items_map c k = Some it"
  obtains ys v zs where "cache_items_list c = ys @ (it, k, v) # zs"
  using assms node_map_Some_split [of "cache_items_list c" k it] by (auto simp: lru_inv_def)

lemma lru_lookup_hit:
  assumes "lru_inv c" "cache_items_list c = ys @ (it, k, v) # zs"
  shows "lru_lookup c k = Some v"
  using assms unfolding lru_lookup_def lru_inv_def lru_items_def
  by (intro map_of_is_SomeI) auto

lemma lru_lookup_miss:
  assumes "lru_inv c" "cache_items_map c k = None"
  shows "lru_lookup c k = None"
  using assms by (auto simp: lru_inv_def lru_lookup_def lru_items_def map_of_eq_None_iff node_map_eq_None)

text \<open>Moving a node to the front, with a new value or the old one.\<close>

lemma lru_inv_move:
  assumes inv: "lru_inv c" and l: "cache_items_list c = ys @ (it, k, v) # zs"
  shows "lru_inv (c\<lparr>cache_items_list := (it, k, w) # ys @ zs\<rparr>)"
proof -
  have "node_map ((it, k, w) # ys @ zs) = node_map (ys @ (it, k, v) # zs)"
    by (rule node_map_move) (use inv l in \<open>simp add: lru_inv_def lru_items_def\<close>)
  with inv l show ?thesis by (auto simp: lru_inv_def lru_items_def)
qed

lemma splice_front_hit:
  assumes "lru_inv c" "cache_items_list c = ys @ (it, k, v) # zs"
  shows "splice_front it (cache_items_list c) = (it, k, v) # ys @ zs"
  using assms splice_front_split [of ys it "(k, v)" zs] by (simp add: lru_inv_def)

lemma set_node_value_front:
  assumes "lru_inv c" "cache_items_list c = ys @ (it, k, v) # zs"
  shows "set_node_value it w ((it, k, v) # ys @ zs) = (it, k, w) # ys @ zs"
proof -
  have "\<forall>x\<in>set (ys @ zs). fst x \<noteq> it" using assms by (auto simp: lru_inv_def)
  then have "set_node_value it w (ys @ zs) = ys @ zs"
    unfolding set_node_value_def by (intro map_idI) force
  then show ?thesis by (simp add: set_node_value_def)
qed

text \<open>What each operation does on the branch where the key is present.\<close>

lemma lru_get_hit:
  assumes "lru_inv c" "cache_items_map c k = Some it" "cache_items_list c = ys @ (it, k, v) # zs"
  shows "lru_get k c =
    (\<lparr>access_status = HIT, access_val = Some v\<rparr>, c\<lparr>cache_items_list := (it, k, v) # ys @ zs\<rparr>)"
  using assms splice_front_hit [OF assms(1,3)] by (simp add: lru_get_def node_value_def)

lemma lru_getOrPut_hit:
  assumes "lru_inv c" "cache_items_map c k = Some it" "cache_items_list c = ys @ (it, k, v) # zs"
  shows "lru_getOrPut k w c =
    (\<lparr>access_status = HIT, access_val = Some v\<rparr>, c\<lparr>cache_items_list := (it, k, v) # ys @ zs\<rparr>)"
  using assms splice_front_hit [OF assms(1,3)] by (simp add: lru_getOrPut_def node_value_def)

lemma lru_put_hit:
  assumes "lru_inv c" "cache_items_map c k = Some it" "cache_items_list c = ys @ (it, k, v) # zs"
  shows "lru_put k w c = c\<lparr>cache_items_list := (it, k, w) # ys @ zs\<rparr>"
  using assms splice_front_hit [OF assms(1,3)] set_node_value_front [OF assms(1,3)]
  by (simp add: lru_put_def)

text \<open>Insertion of a missing key, with eviction of the least recently used entry.\<close>

lemma lru_size_length:
  assumes "distinct (map fst (map snd xs))" "cache_items_map c = node_map xs"
  shows "lru_size c = length xs"
proof -
  have "lru_size c = card (set (map fst (map snd xs)))"
    using assms(2) by (simp add: lru_size_def dom_node_map image_image)
  with assms(1) show ?thesis using distinct_card by fastforce
qed

lemma node_map_butlast:
  assumes "distinct (map fst (map snd xs))" "xs \<noteq> []"
  shows "(node_map xs)(fst (snd (last xs)) := None) = node_map (butlast xs)"
proof -
  obtain ys n k v where xs: "xs = ys @ [(n, k, v)]"
    using assms(2) by (metis append_butlast_last_id prod_cases3)
  have k: "node_map ys k = None" using assms(1) xs by (auto simp: node_map_eq_None image_image)
  have "node_map xs = (Map.empty(k \<mapsto> n)) ++ node_map ys"
    by (simp add: node_map_def xs)
  then show ?thesis using k xs by (auto simp: map_add_def fun_eq_iff split: option.splits)
qed

lemma lru_inv_truncated:
  assumes "distinct (map fst xs)" "distinct (map fst (map snd xs))"
    "\<forall>n\<in>set (map fst xs). n < next_node c"
    "cache_items_list c = take (max_size c) xs" "cache_items_map c = node_map (take (max_size c) xs)"
  shows "lru_inv c"
proof -
  have "distinct (map fst (take (max_size c) xs))"
    "distinct (map fst (map snd (take (max_size c) xs)))"
    using assms(1,2) by (simp_all only: take_map [symmetric] distinct_take)
  moreover have "\<forall>x\<in>set (take (max_size c) xs). fst x < next_node c"
    using assms(3) by (auto dest: in_set_takeD)
  ultimately show ?thesis using assms(4,5) by (auto simp: lru_inv_def lru_items_def)
qed

lemma putMissing_correct:
  assumes inv: "lru_inv c" and k: "cache_items_map c k = None"
  shows "lru_inv (putMissing k v c) \<and> max_size (putMissing k v c) = max_size c \<and>
    lru_items (putMissing k v c) = take (max_size c) ((k, v) # lru_items c)"
proof -
  let ?xs = "(next_node c, k, v) # cache_items_list c"
  let ?m = "(cache_items_map c)(k \<mapsto> next_node c)"
  have new: "k \<notin> fst ` set (lru_items c)"
    using inv k by (simp add: lru_inv_def lru_items_def node_map_eq_None)
  have dk: "distinct (map fst (map snd ?xs))"
    using inv new by (simp add: lru_inv_def lru_items_def image_image)
  have dn: "distinct (map fst ?xs)" using inv by (auto simp: lru_inv_def)
  have m: "?m = node_map ?xs" using inv by (simp add: lru_inv_def node_map_Cons)
  let ?c1 = "c\<lparr>cache_items_list := ?xs, cache_items_map := ?m, next_node := Suc (next_node c)\<rparr>"
  have size: "lru_size ?c1 = Suc (length (cache_items_list c))"
    using lru_size_length [OF dk, of ?c1] m by simp
  have fresh: "\<forall>n\<in>set (map fst ?xs). n < Suc (next_node c)"
    using inv by (auto simp: lru_inv_def intro: less_SucI)
  show ?thesis
  proof (cases "max_size c < lru_size ?c1")
    case False
    then show ?thesis using m dk dn fresh size
      by (simp add: putMissing_def Let_def lru_inv_def lru_items_def)
  next
    case True
    have len: "length (cache_items_list c) = max_size c"
      using True size inv by (simp add: lru_inv_def)
    have eq: "putMissing k v c =
        ?c1\<lparr>cache_items_map := node_map (butlast ?xs), cache_items_list := butlast ?xs\<rparr>"
      using True node_map_butlast [OF dk] m by (simp add: putMissing_def Let_def)
    have "butlast ?xs = take (max_size c) ?xs" using len by (simp add: butlast_conv_take)
    moreover from this have "map snd (butlast ?xs) = take (max_size c) (map snd ?xs)"
      by (simp only: take_map)
    ultimately show ?thesis
      unfolding eq using lru_inv_truncated [OF dn dk] fresh
      by (simp add: lru_items_def del: list.set butlast.simps)
  qed
qed

section \<open>Refinement to association lists\<close>

lemma filter_key_absent:
  assumes "k \<notin> fst ` set xs"
  shows "filter (\<lambda>p. fst p = k) xs = []" "filter (\<lambda>p. fst p \<noteq> k) xs = xs"
  using assms by (auto simp: filter_empty_conv filter_id_conv)

lemma filter_key_split:
  assumes "distinct (map fst (xs @ (k, v) # ys))"
  shows "filter (\<lambda>p. fst p = k) (xs @ (k, v) # ys) = [(k, v)]"
    "filter (\<lambda>p. fst p \<noteq> k) (xs @ (k, v) # ys) = xs @ ys"
proof -
  have "\<forall>p\<in>set xs. fst p \<noteq> k" "\<forall>p\<in>set ys. fst p \<noteq> k" using assms by auto
  then show "filter (\<lambda>p. fst p = k) (xs @ (k, v) # ys) = [(k, v)]"
    "filter (\<lambda>p. fst p \<noteq> k) (xs @ (k, v) # ys) = xs @ ys"
    by (simp_all add: filter_empty_conv filter_id_conv)
qed

lemma lru_items_split:
  assumes "lru_inv c" "cache_items_list c = ys @ (it, k, v) # zs"
  shows "distinct (map fst (map snd ys @ (k, v) # map snd zs))"
    "lru_items c = map snd ys @ (k, v) # map snd zs"
  using assms by (simp_all add: lru_inv_def lru_items_def)

lemma lru_get_refines:
  assumes inv: "lru_inv c"
  shows "lru_inv (snd (lru_get k c)) \<and> max_size (snd (lru_get k c)) = max_size c \<and>
    lru_items (snd (lru_get k c)) = spec_touch k (lru_items c) \<and>
    fst (lru_get k c) = (case lru_lookup c k of
        None \<Rightarrow> \<lparr>access_status = MISS, access_val = None\<rparr>
      | Some v \<Rightarrow> \<lparr>access_status = HIT, access_val = Some v\<rparr>)"
proof (cases "cache_items_map c k")
  case None
  with lru_lookup_miss [OF inv] have "lru_lookup c k = None" by blast
  moreover from this have "spec_touch k (lru_items c) = lru_items c"
    by (simp add: lru_lookup_def map_of_eq_None_iff spec_touch_def filter_key_absent)
  ultimately show ?thesis using None inv by (simp add: lru_get_def)
next
  case (Some it)
  then obtain ys v zs where l: "cache_items_list c = ys @ (it, k, v) # zs"
    using lru_hitE [OF inv] by blast
  have "spec_touch k (lru_items c) = (k, v) # map snd ys @ map snd zs"
    using lru_items_split [OF inv l] filter_key_split [of "map snd ys" k v "map snd zs"]
    by (simp add: spec_touch_def)
  then show ?thesis
    using lru_get_hit [OF inv Some l] lru_inv_move [OF inv l] lru_lookup_hit [OF inv l]
    by (simp add: lru_items_def)
qed

lemma lru_put_refines:
  assumes inv: "lru_inv c"
  shows "lru_inv (lru_put k v c) \<and> max_size (lru_put k v c) = max_size c \<and>
    lru_items (lru_put k v c) = spec_put (max_size c) k v (lru_items c)"
proof (cases "cache_items_map c k")
  case None
  with lru_lookup_miss [OF inv] have "k \<notin> fst ` set (lru_items c)"
    by (auto simp: lru_lookup_def map_of_eq_None_iff)
  then have "filter (\<lambda>p. fst p \<noteq> k) (lru_items c) = lru_items c"
    by (rule filter_key_absent)
  then show ?thesis
    using putMissing_correct [OF inv None, of v] None by (simp add: lru_put_def spec_put_def)
next
  case (Some it)
  then obtain ys w zs where l: "cache_items_list c = ys @ (it, k, w) # zs"
    using lru_hitE [OF inv] by blast
  have "length ys + length zs < max_size c" using inv l by (simp add: lru_inv_def)
  then have "spec_put (max_size c) k v (lru_items c) = (k, v) # map snd ys @ map snd zs"
    using lru_items_split [OF inv l] filter_key_split [of "map snd ys" k w "map snd zs"]
    by (simp add: spec_put_def)
  then show ?thesis
    using lru_put_hit [OF inv Some l] lru_inv_move [OF inv l] by (simp add: lru_items_def)
qed

lemma lru_getOrPut_refines:
  assumes inv: "lru_inv c"
  shows "lru_inv (snd (lru_getOrPut k v c)) \<and> max_size (snd (lru_getOrPut k v c)) = max_size c \<and>
    (case lru_lookup c k of
       None \<Rightarrow> fst (lru_getOrPut k v c) = \<lparr>access_status = PUT, access_val = Some v\<rparr> \<and>
         lru_items (snd (lru_getOrPut k v c)) = spec_put (max_size c) k v (lru_items c)
     | Some w \<Rightarrow> fst (lru_getOrPut k v c) = \<lparr>access_status = HIT, access_val = Some w\<rparr> \<and>
         lru_items (snd (lru_getOrPut k v c)) = spec_touch k (lru_items c))"
proof (cases "cache_items_map c k")
  case None
  then have "snd (lru_getOrPut k v c) = lru_put k v c"
    "fst (lru_getOrPut k v c) = \<lparr>access_status = PUT, access_val = Some v\<rparr>"
    by (simp_all add: lru_getOrPut_def lru_put_def)
  with lru_put_refines [OF inv, of k v] lru_lookup_miss [OF inv None] show ?thesis by simp
next
  case (Some it)
  then obtain ys w zs where l: "cache_items_list c = ys @ (it, k, w) # zs"
    using lru_hitE [OF inv] by blast
  have "lru_getOrPut k v c = lru_get k c"
    using lru_getOrPut_hit [OF inv Some l] lru_get_hit [OF inv Some l] by simp
  with lru_get_refines [OF inv, of k] lru_lookup_hit [OF inv l] show ?thesis by simp
qed

text \<open>What the map knows after each operation.\<close>

lemma map_of_filter_key: "map_of (filter (\<lambda>p. P (fst p)) xs) j = (if P j then map_of xs j else None)"
  by (induction xs) auto

lemma map_of_spec_touch: "map_of (spec_touch k xs) = map_of xs"
proof
  fix j
  show "map_of (spec_touch k xs) j = map_of xs j"
    using map_of_filter_key [of "\<lambda>i. i = k" xs j] map_of_filter_key [of "\<lambda>i. i \<noteq> k" xs j]
    by (auto simp: spec_touch_def map_add_def split: option.splits)
qed

lemma map_of_spec_put:
  assumes "distinct (map fst xs)" "map_of (spec_put n k v xs) j = Some w"
  shows "(j = k \<and> w = v) \<or> (j \<noteq> k \<and> map_of xs j = Some w)"
proof -
  have "(j, w) \<in> set (spec_put n k v xs)" using assms(2) by (rule map_of_SomeD)
  then have "(j, w) \<in> set ((k, v) # filter (\<lambda>p. fst p \<noteq> k) xs)"
    unfolding spec_put_def by (rule in_set_takeD)
  with assms(1) show ?thesis by auto
qed

section \<open>The contract of a cache, and a read-through client\<close>

text \<open>The pattern of \<^verbatim>\<open>DirectDirentAccessor::getDirent\<close>: look the key up, on a miss compute the
  value and store it.\<close>

definition read_through ::
    "('k \<Rightarrow> 'c \<Rightarrow> 'v option \<times> 'c) \<Rightarrow> ('k \<Rightarrow> 'v \<Rightarrow> 'c \<Rightarrow> 'c) \<Rightarrow> ('k \<Rightarrow> 'v res) \<Rightarrow> 'k \<Rightarrow> 'c \<Rightarrow> 'v res \<times> 'c" where
  "read_through get put f k c =
     (case get k c of
        (Some v, c') \<Rightarrow> (Inr v, c')
      | (None, c') \<Rightarrow> (case f k of Inl e \<Rightarrow> (Inl e, c') | Inr v \<Rightarrow> (Inr v, put k v c')))"

locale cache =
  fixes get :: "'k \<Rightarrow> 'c \<Rightarrow> 'v option \<times> 'c"
    and put :: "'k \<Rightarrow> 'v \<Rightarrow> 'c \<Rightarrow> 'c"
    and invar :: "'c \<Rightarrow> bool"
    and lookup :: "'c \<Rightarrow> 'k \<rightharpoonup> 'v"
  assumes get_invar: "invar c \<Longrightarrow> invar (snd (get k c))"
    and get_lookup: "invar c \<Longrightarrow> lookup (snd (get k c)) = lookup c"
    and get_value: "invar c \<Longrightarrow> fst (get k c) = lookup c k"
    and put_invar: "invar c \<Longrightarrow> invar (put k v c)"
    and put_lookup: "invar c \<Longrightarrow> lookup (put k v c) j = Some w \<Longrightarrow>
      (j = k \<and> w = v) \<or> (j \<noteq> k \<and> lookup c j = Some w)"
begin

text \<open>A cache is \<^emph>\<open>sound\<close> for \<open>f\<close> when everything it holds is what \<open>f\<close> computes.\<close>

definition sound :: "('k \<Rightarrow> 'v res) \<Rightarrow> 'c \<Rightarrow> bool" where
  "sound f c \<longleftrightarrow> invar c \<and> (\<forall>k v. lookup c k = Some v \<longrightarrow> f k = Inr v)"

lemma read_through_value: "sound f c \<Longrightarrow> fst (read_through get put f k c) = f k"
  using get_value [of c k]
  by (cases "get k c") (auto simp: read_through_def sound_def split: option.splits sum.splits)

lemma read_through_sound: "sound f c \<Longrightarrow> sound f (snd (read_through get put f k c))"
  using get_value [of c k] get_invar [of c k] get_lookup [of c k]
    put_invar [of "snd (get k c)" k] put_lookup [of "snd (get k c)" k]
  by (cases "get k c")
    (auto simp: read_through_def sound_def split: option.splits sum.splits, blast)

end

text \<open>The cache of the library as its clients call it: \<^verbatim>\<open>get\<close> followed by \<^verbatim>\<open>hit\<close> and \<^verbatim>\<open>value\<close>.\<close>

definition lru_get_value :: "'k \<Rightarrow> ('k, 'v) lru_cache \<Rightarrow> 'v option \<times> ('k, 'v) lru_cache" where
  "lru_get_value k c =
     (case lru_get k c of (r, c') \<Rightarrow>
        (if hit r then (case access_value r of Inr v \<Rightarrow> Some v | Inl _ \<Rightarrow> None) else None, c'))"

lemma lru_get_value_correct:
  assumes "lru_inv c"
  shows "lru_inv (snd (lru_get_value k c)) \<and> fst (lru_get_value k c) = lru_lookup c k \<and>
    lru_lookup (snd (lru_get_value k c)) = lru_lookup c"
  using lru_get_refines [OF assms, of k]
  by (cases "lru_get k c") (auto simp: lru_get_value_def hit_def access_value_def lru_lookup_def
      map_of_spec_touch split: option.splits)

lemma lru_put_items:
  "lru_inv c \<Longrightarrow> lru_items (lru_put k v c) = spec_put (max_size c) k v (lru_items c)"
  "lru_inv c \<Longrightarrow> max_size (lru_put k v c) = max_size c"
  "lru_inv c \<Longrightarrow> lru_inv (lru_put k v c)"
  "lru_inv (lru_new n)" "max_size (lru_new n) = n" "lru_items (lru_new n) = []"
  by (simp_all add: lru_put_refines lru_inv_new) (simp_all add: lru_new_def lru_items_def)

interpretation lru: cache lru_get_value lru_put lru_inv lru_lookup
proof (unfold_locales, goal_cases)
  case (5 c k v j w)
  then have "map_of (spec_put (max_size c) k v (lru_items c)) j = Some w"
    using lru_put_refines [of c k v] by (simp add: lru_lookup_def)
  with 5 show ?case using map_of_spec_put [of "lru_items c"] by (auto simp: lru_inv_def lru_lookup_def)
qed (simp_all add: lru_get_value_correct lru_put_refines)

section \<open>Properties\<close>

text \<open>C22: On every state that satisfies the invariant, \<^verbatim>\<open>put\<close> keeps it (list and map agree, no key
  twice, at most \<^verbatim>\<open>max_size\<close> entries) and the contents become those of the specification: the
  stored pair first, the others in their old order without the key, cut to the capacity, so the
  least recently used entry is the one evicted.\<close>

theorem lru_put_spec:
  assumes "lru_inv c"
  shows "lru_inv (lru_put k v c) \<and>
    lru_items (lru_put k v c) = take (max_size c) ((k, v) # filter (\<lambda>p. fst p \<noteq> k) (lru_items c))"
  using lru_put_refines [OF assms, of k v] by (simp add: spec_put_def)

theorem lru_put_spec_witness:
  "lru_items (lru_put (3::nat) ''c'' (lru_put 1 ''z'' (lru_put 2 ''b'' (lru_put 1 ''a'' (lru_new 2)))))
     = [(3, ''c''), (1, ''z'')]"
proof -
  have "lru_inv (lru_put (1::nat) ''z'' (lru_put 2 ''b'' (lru_put 1 ''a'' (lru_new 2))))"
    by (intro lru.put_invar lru_inv_new)
  from lru_put_spec [OF this, of 3 "''c''"] show ?thesis
    by (simp add: lru_put_items spec_put_def)
qed

end
