(* ===== verification/Concurrent_Cache.thy ===== *)
theory Concurrent_Cache
  imports Lru_Cache
begin

text \<open>
  The thread-safe cache of \<^verbatim>\<open>src/concurrent_cache.h\<close>. A call \<^verbatim>\<open>getOrPut(key, f)\<close> first asks the LRU
  cache, under the lock, for the future of the key, leaving its own future there on a miss; it then
  computes the value outside the lock if it missed, fulfils its promise, and waits for the future it
  got. Calls of several threads interleave between these steps, so the class is a step relation on
  the shared state and the program counters of the threads.

  Shown here: a call only ever returns a value the computation produced for its own key; a promise
  has one owner; a thread that waits never waits for a computation nobody runs. The last part shows
  what an exception in the computation does to later calls.
\<close>

section \<open>State\<close>

datatype 'v future = Pending | Ready 'v | Broken

text \<open>The program counter of a thread inside \<^verbatim>\<open>getOrPut\<close>: not in a call; computing the value whose
  promise it holds; in \<^verbatim>\<open>x.value().get()\<close>; returned, with a value or by an exception.\<close>

datatype ('k, 'v) cc_pc =
    Idle
  | Computing 'k nat
  | Waiting 'k nat
  | Returned 'k "'v res"

text \<open>A future is the shared state of a promise, named by a number and tagged with the key it was
  made for.\<close>

record ('k, 'v) cc_state =
  cc_impl :: "('k, nat) lru_cache"
  cc_futures :: "nat \<rightharpoonup> 'k \<times> 'v future"
  cc_next :: nat
  cc_threads :: "nat \<Rightarrow> ('k, 'v) cc_pc"

definition cc_init :: "nat \<Rightarrow> ('k, 'v) cc_state" where
  "cc_init maxEntries =
     \<lparr>cc_impl = lru_new maxEntries, cc_futures = Map.empty, cc_next = 0, cc_threads = (\<lambda>_. Idle)\<rparr>"

section \<open>Steps\<close>

text \<open>The critical section of \<^verbatim>\<open>getOrPut\<close>, executed under \<^verbatim>\<open>lock_\<close>.\<close>

definition cc_lookup :: "nat \<Rightarrow> 'k \<Rightarrow> ('k, 'v) cc_state \<Rightarrow> ('k, 'v) cc_state" where
  "cc_lookup t key s =
     (case lru_getOrPut key (cc_next s) (cc_impl s) of (x, impl') \<Rightarrow>
        if miss x then
          s\<lparr>cc_impl := impl', cc_futures := (cc_futures s)(cc_next s \<mapsto> (key, Pending)),
            cc_next := Suc (cc_next s), cc_threads := (cc_threads s)(t := Computing key (cc_next s))\<rparr>
        else
          s\<lparr>cc_impl := impl',
            cc_threads := (cc_threads s)(t := case access_value x of
                Inr fut \<Rightarrow> Waiting key fut | Inl e \<Rightarrow> Returned key (Inl e))\<rparr>)"

text \<open>One step of thread \<open>t\<close>; \<open>produces key r\<close> says that the function passed for \<open>key\<close> can end with
  \<open>r\<close>, a value or an exception. An exception unwinds the promise, which breaks its future.\<close>

inductive cc_step :: "('k \<Rightarrow> 'v res \<Rightarrow> bool) \<Rightarrow> nat \<Rightarrow> ('k, 'v) cc_state \<Rightarrow> ('k, 'v) cc_state \<Rightarrow> bool"
  for produces where
  call: "cc_threads s t = Idle \<Longrightarrow> cc_step produces t s (cc_lookup t key s)"
| set_value: "cc_threads s t = Computing key fut \<Longrightarrow> produces key (Inr v) \<Longrightarrow>
    cc_step produces t s
      (s\<lparr>cc_futures := (cc_futures s)(fut \<mapsto> (key, Ready v)),
         cc_threads := (cc_threads s)(t := Waiting key fut)\<rparr>)"
| unwind: "cc_threads s t = Computing key fut \<Longrightarrow> produces key (Inl e) \<Longrightarrow>
    cc_step produces t s
      (s\<lparr>cc_futures := (cc_futures s)(fut \<mapsto> (key, Broken)),
         cc_threads := (cc_threads s)(t := Returned key (Inl e))\<rparr>)"
| get_value: "cc_threads s t = Waiting key fut \<Longrightarrow> cc_futures s fut = Some (k', Ready v) \<Longrightarrow>
    cc_step produces t s (s\<lparr>cc_threads := (cc_threads s)(t := Returned key (Inr v))\<rparr>)"
| get_broken: "cc_threads s t = Waiting key fut \<Longrightarrow> cc_futures s fut = Some (k', Broken) \<Longrightarrow>
    cc_step produces t s (s\<lparr>cc_threads := (cc_threads s)(t := Returned key (Inl FutureError))\<rparr>)"
| leave: "cc_threads s t = Returned key r \<Longrightarrow>
    cc_step produces t s (s\<lparr>cc_threads := (cc_threads s)(t := Idle)\<rparr>)"

inductive cc_reachable :: "('k \<Rightarrow> 'v res \<Rightarrow> bool) \<Rightarrow> nat \<Rightarrow> ('k, 'v) cc_state \<Rightarrow> bool"
  for produces maxEntries where
  init: "cc_reachable produces maxEntries (cc_init maxEntries)"
| step: "cc_reachable produces maxEntries s \<Longrightarrow> cc_step produces t s s' \<Longrightarrow>
    cc_reachable produces maxEntries s'"

section \<open>The invariant\<close>

definition cc_futures_ok :: "('k \<Rightarrow> 'v res \<Rightarrow> bool) \<Rightarrow> ('k, 'v) cc_state \<Rightarrow> bool" where
  "cc_futures_ok produces s \<longleftrightarrow>
     (\<forall>fut. cc_next s \<le> fut \<longrightarrow> cc_futures s fut = None) \<and>
     (\<forall>k fut v. cc_futures s fut = Some (k, Ready v) \<longrightarrow> produces k (Inr v))"

definition cc_cached_ok :: "('k, 'v) cc_state \<Rightarrow> bool" where
  "cc_cached_ok s \<longleftrightarrow> lru_inv (cc_impl s) \<and>
     (\<forall>k fut. lru_lookup (cc_impl s) k = Some fut \<longrightarrow> (\<exists>st. cc_futures s fut = Some (k, st)))"

definition cc_thread_ok ::
    "('k \<Rightarrow> 'v res \<Rightarrow> bool) \<Rightarrow> (nat \<rightharpoonup> 'k \<times> 'v future) \<Rightarrow> ('k, 'v) cc_pc \<Rightarrow> bool" where
  "cc_thread_ok produces futs pc \<longleftrightarrow>
     (case pc of
        Idle \<Rightarrow> True
      | Computing k fut \<Rightarrow> futs fut = Some (k, Pending)
      | Waiting k fut \<Rightarrow> (\<exists>st. futs fut = Some (k, st))
      | Returned k r \<Rightarrow> (\<forall>v. r = Inr v \<longrightarrow> produces k (Inr v)))"

text \<open>Every pending future has exactly one thread that computes it.\<close>

definition cc_owners_ok :: "('k, 'v) cc_state \<Rightarrow> bool" where
  "cc_owners_ok s \<longleftrightarrow>
     (\<forall>t t' k k' fut. cc_threads s t = Computing k fut \<longrightarrow> cc_threads s t' = Computing k' fut \<longrightarrow> t = t') \<and>
     (\<forall>k fut. cc_futures s fut = Some (k, Pending) \<longrightarrow> (\<exists>t. cc_threads s t = Computing k fut))"

definition cc_inv :: "('k \<Rightarrow> 'v res \<Rightarrow> bool) \<Rightarrow> ('k, 'v) cc_state \<Rightarrow> bool" where
  "cc_inv produces s \<longleftrightarrow>
     cc_futures_ok produces s \<and> cc_cached_ok s \<and>
     (\<forall>t. cc_thread_ok produces (cc_futures s) (cc_threads s t)) \<and> cc_owners_ok s"

lemmas cc_thread_ok_simps [simp] = cc_thread_ok_def [where pc = Idle, simplified]
  cc_thread_ok_def [where pc = "Computing k fut" for k fut, simplified]
  cc_thread_ok_def [where pc = "Waiting k fut" for k fut, simplified]
  cc_thread_ok_def [where pc = "Returned k r" for k r, simplified]

lemma cc_inv_init: "cc_inv produces (cc_init n)"
  by (simp add: cc_inv_def cc_futures_ok_def cc_cached_ok_def cc_owners_ok_def cc_init_def
      lru_put_items lru_lookup_def)

lemma lru_getOrPut_lookup:
  assumes "lru_inv c" "lru_lookup (snd (lru_getOrPut k v c)) j = Some w"
  shows "(j = k \<and> w = v \<and> lru_lookup c k = None) \<or> lru_lookup c j = Some w"
proof (cases "lru_lookup c k")
  case None
  have "distinct (map fst (lru_items c))" using assms(1) by (simp add: lru_inv_def)
  moreover have "map_of (spec_put (max_size c) k v (lru_items c)) j = Some w"
    using None lru_getOrPut_refines [OF assms(1), of k v] assms(2) by (simp add: lru_lookup_def)
  ultimately show ?thesis using None map_of_spec_put unfolding lru_lookup_def by fast
next
  case (Some x)
  then show ?thesis
    using lru_getOrPut_refines [OF assms(1), of k v] assms(2)
    by (simp add: lru_lookup_def map_of_spec_touch)
qed

text \<open>The two outcomes of the critical section.\<close>

lemma cc_lookup_cases:
  assumes "lru_inv (cc_impl s)"
  obtains (miss) impl' where "lru_inv impl'"
      "\<And>j w. lru_lookup impl' j = Some w \<Longrightarrow>
        (j = key \<and> w = cc_next s) \<or> lru_lookup (cc_impl s) j = Some w"
      "cc_lookup t key s = s\<lparr>cc_impl := impl',
         cc_futures := (cc_futures s)(cc_next s \<mapsto> (key, Pending)), cc_next := Suc (cc_next s),
         cc_threads := (cc_threads s)(t := Computing key (cc_next s))\<rparr>"
  | (hit) impl' fut where "lru_inv impl'"
      "\<And>j w. lru_lookup impl' j = Some w \<Longrightarrow> lru_lookup (cc_impl s) j = Some w"
      "lru_lookup (cc_impl s) key = Some fut"
      "cc_lookup t key s = s\<lparr>cc_impl := impl', cc_threads := (cc_threads s)(t := Waiting key fut)\<rparr>"
proof (cases "lru_lookup (cc_impl s) key")
  case None
  let ?r = "lru_getOrPut key (cc_next s) (cc_impl s)"
  from None lru_getOrPut_refines [OF assms, of key "cc_next s"]
  have "lru_inv (snd ?r)" "fst ?r = \<lparr>access_status = PUT, access_val = Some (cc_next s)\<rparr>" by auto
  with that(1) [of "snd ?r"] lru_getOrPut_lookup [OF assms, of key "cc_next s"] show thesis
    by (fastforce simp: cc_lookup_def miss_def hit_def split: prod.splits)
next
  case (Some fut)
  let ?r = "lru_getOrPut key (cc_next s) (cc_impl s)"
  from Some lru_getOrPut_refines [OF assms, of key "cc_next s"]
  have "lru_inv (snd ?r)" "fst ?r = \<lparr>access_status = HIT, access_val = Some fut\<rparr>" by auto
  with that(2) [of "snd ?r" fut] lru_getOrPut_lookup [OF assms, of key "cc_next s"] Some show thesis
    by (fastforce simp: cc_lookup_def miss_def hit_def access_value_def split: prod.splits)
qed

text \<open>A change of the futures that keeps every thread's view except that of the owner.\<close>

lemma cc_thread_ok_fulfil:
  assumes "cc_thread_ok produces futs pc" "futs fut = Some (key, Pending)" "\<forall>k. pc \<noteq> Computing k fut"
  shows "cc_thread_ok produces (futs(fut \<mapsto> (key, st))) pc"
  using assms by (cases pc) auto

lemma cc_thread_ok_new:
  assumes "cc_thread_ok produces futs pc" "futs fut = None"
  shows "cc_thread_ok produces (futs(fut \<mapsto> p)) pc"
  using assms by (cases pc) auto

lemma cc_inv_D:
  assumes "cc_inv produces s"
  shows "cc_futures_ok produces s" "cc_cached_ok s" "cc_owners_ok s"
    "cc_thread_ok produces (cc_futures s) (cc_threads s t)" "cc_futures s (cc_next s) = None"
    "lru_inv (cc_impl s)"
  using assms by (auto simp: cc_inv_def cc_futures_ok_def cc_cached_ok_def)

lemma cc_inv_miss:
  assumes inv: "cc_inv produces s" and idle: "cc_threads s t = Idle" and lru: "lru_inv impl'"
    and look: "\<And>j w. lru_lookup impl' j = Some w \<Longrightarrow>
        (j = key \<and> w = cc_next s) \<or> lru_lookup (cc_impl s) j = Some w"
  shows "cc_inv produces (s\<lparr>cc_impl := impl',
         cc_futures := (cc_futures s)(cc_next s \<mapsto> (key, Pending)), cc_next := Suc (cc_next s),
         cc_threads := (cc_threads s)(t := Computing key (cc_next s))\<rparr>)" (is "cc_inv _ ?s")
proof -
  note I = cc_inv_D [OF inv]
  have thr: "\<not> cc_threads s t' = Computing k (cc_next s)" for t' k
    using I(4) [of t'] I(5) by auto
  have "cc_futures_ok produces ?s" using I(1) by (auto simp: cc_futures_ok_def)
  moreover have "cc_cached_ok ?s" using I(2) look lru I(5) unfolding cc_cached_ok_def by fastforce
  moreover have "cc_thread_ok produces (cc_futures ?s) (cc_threads ?s t')" for t'
    using cc_thread_ok_new [OF I(4) I(5)] by auto
  moreover have "cc_owners_ok ?s"
    using I(3) thr idle unfolding cc_owners_ok_def by auto (metis cc_pc.distinct(1))
  ultimately show ?thesis by (simp add: cc_inv_def)
qed

lemma cc_inv_hit:
  assumes inv: "cc_inv produces s" and idle: "cc_threads s t = Idle" and lru: "lru_inv impl'"
    and look: "\<And>j w. lru_lookup impl' j = Some w \<Longrightarrow> lru_lookup (cc_impl s) j = Some w"
    and key: "lru_lookup (cc_impl s) key = Some fut"
  shows "cc_inv produces (s\<lparr>cc_impl := impl', cc_threads := (cc_threads s)(t := Waiting key fut)\<rparr>)"
    (is "cc_inv _ ?s")
proof -
  note I = cc_inv_D [OF inv]
  have "cc_futures_ok produces ?s" using I(1) by (auto simp: cc_futures_ok_def)
  moreover have "cc_cached_ok ?s" using I(2) look lru unfolding cc_cached_ok_def by fastforce
  moreover have "cc_thread_ok produces (cc_futures ?s) (cc_threads ?s t')" for t'
    using I(4) [of t'] I(2) key by (auto simp: cc_cached_ok_def)
  moreover have "cc_owners_ok ?s"
    using I(3) idle unfolding cc_owners_ok_def by auto (metis cc_pc.distinct(1))
  ultimately show ?thesis by (simp add: cc_inv_def)
qed

lemma cc_inv_call:
  assumes inv: "cc_inv produces s" and idle: "cc_threads s t = Idle"
  shows "cc_inv produces (cc_lookup t key s)"
  using cc_inv_D(6) [OF inv]
proof (cases rule: cc_lookup_cases [where t = t and key = key])
  case (miss impl')
  show ?thesis unfolding miss(3) using cc_inv_miss [OF inv idle] miss(1,2) by blast
next
  case (hit impl' fut)
  show ?thesis unfolding hit(4) using cc_inv_hit [OF inv idle] hit(1-3) by blast
qed

lemma cc_inv_fulfil:
  assumes inv: "cc_inv produces s" and pc: "cc_threads s t = Computing key fut"
    and st: "st \<noteq> Pending" "\<And>v. st = Ready v \<Longrightarrow> produces key (Inr v)"
    and pc': "cc_thread_ok produces ((cc_futures s)(fut \<mapsto> (key, st))) pc'" "\<forall>k f. pc' \<noteq> Computing k f"
  shows "cc_inv produces (s\<lparr>cc_futures := (cc_futures s)(fut \<mapsto> (key, st)),
    cc_threads := (cc_threads s)(t := pc')\<rparr>)" (is "cc_inv _ ?s")
proof -
  note I = cc_inv_D [OF inv]
  have fut: "cc_futures s fut = Some (key, Pending)" using I(4) [of t] pc by simp
  have own: "cc_threads s t' = Computing k fut \<Longrightarrow> t' = t" for t' k
    using I(3) pc unfolding cc_owners_ok_def by blast
  have "cc_futures_ok produces ?s" using I(1) st fut by (auto simp: cc_futures_ok_def)
  moreover have "cc_cached_ok ?s" using I(2) fut unfolding cc_cached_ok_def by fastforce
  moreover have "cc_thread_ok produces (cc_futures ?s) (cc_threads ?s t')" for t'
    using pc' cc_thread_ok_fulfil [OF I(4) fut, of t' st] own by (cases "t' = t") auto
  moreover have "cc_owners_ok ?s"
    using I(3) st pc' own pc unfolding cc_owners_ok_def by auto (metis cc_pc.inject(1))
  ultimately show ?thesis by (simp add: cc_inv_def)
qed

lemma cc_inv_local:
  assumes inv: "cc_inv produces s" and "\<forall>k f. cc_threads s t \<noteq> Computing k f"
    and "\<forall>k f. pc' \<noteq> Computing k f" and "cc_thread_ok produces (cc_futures s) pc'"
  shows "cc_inv produces (s\<lparr>cc_threads := (cc_threads s)(t := pc')\<rparr>)" (is "cc_inv _ ?s")
proof -
  note I = cc_inv_D [OF inv]
  have "cc_owners_ok ?s" using I(3) assms(2,3) unfolding cc_owners_ok_def by auto metis
  with I assms show ?thesis by (auto simp: cc_inv_def cc_futures_ok_def cc_cached_ok_def)
qed

lemma cc_step_inv: "cc_step produces t s s' \<Longrightarrow> cc_inv produces s \<Longrightarrow> cc_inv produces s'"
proof (induction rule: cc_step.induct)
  case (get_value s t key fut k' v)
  from cc_inv_D(1) [OF get_value(3)] cc_inv_D(4) [OF get_value(3), of t] get_value(1,2)
  have "produces key (Inr v)" by (auto simp: cc_futures_ok_def)
  with get_value show ?case by (auto intro!: cc_inv_local)
qed (auto intro!: cc_inv_call cc_inv_fulfil cc_inv_local)

lemma cc_reachable_inv: "cc_reachable produces n s \<Longrightarrow> cc_inv produces s"
  by (induction rule: cc_reachable.induct) (auto intro: cc_inv_init cc_step_inv)

section \<open>Properties\<close>

text \<open>C20: However the calls of several threads interleave, a call of \<^verbatim>\<open>getOrPut\<close> that returns a value
  returns one that the computation for its own key produced.\<close>

theorem cc_returns_own_value:
  assumes "cc_reachable produces maxEntries s" "cc_threads s t = Returned key (Inr v)"
  shows "produces key (Inr v)"
  using cc_inv_D(4) [OF cc_reachable_inv [OF assms(1)], of t] assms(2) by simp

theorem cc_returns_own_value_witness:
  "\<exists>s. cc_reachable (\<lambda>k r. r = Inr (2 * k)) 1 s \<and> cc_threads s 0 = Returned (5::nat) (Inr (10::nat)) \<and>
     (Inr 10 :: nat res) = Inr (2 * 5)"
proof -
  let ?P = "\<lambda>k r. r = (Inr (2 * k) :: nat res)"
  note st = cc_reachable.step [where produces = ?P and maxEntries = 1 and t = 0]
  have 1: "cc_reachable ?P 1 (cc_lookup 0 5 (cc_init 1))"
    by (rule st [OF cc_reachable.init]) (rule cc_step.call, simp add: cc_init_def)
  note 2 = st [OF 1 cc_step.set_value]
  have e: "cc_lookup 0 5 (cc_init 1) =
      \<lparr>cc_impl = lru_put 5 0 (lru_new 1), cc_futures = [0 \<mapsto> (5, Pending)], cc_next = 1,
       cc_threads = (\<lambda>_. Idle)(0 := Computing 5 0)\<rparr>"
    by (simp add: cc_lookup_def cc_init_def lru_getOrPut_def lru_put_def lru_new_def miss_def hit_def)
  have 2: "cc_reachable ?P 1 \<lparr>cc_impl = lru_put 5 0 (lru_new 1), cc_futures = [0 \<mapsto> (5, Ready 10)],
      cc_next = 1, cc_threads = (\<lambda>_. Idle)(0 := Waiting 5 0)\<rparr>"
    using 2 [of 5 0 10] unfolding e by simp
  note 3 = st [OF 2 cc_step.get_value, of 5 0 5 10, simplified]
  have "?P 5 (Inr 10)" by (rule cc_returns_own_value [OF 3, of 0 5 10]) simp
  with 3 show ?thesis unfolding One_nat_def by (intro exI conjI) (assumption, simp (no_asm), assumption)
qed

text \<open>C21: No lost wake-up. Whenever a thread is inside \<^verbatim>\<open>getOrPut\<close>, either it can take a step itself
  or the future it waits for is being computed by a thread that can: a waiting call never waits for
  a computation that nobody runs, whatever was evicted from the cache in the meantime. (The
  functions passed to the cache are assumed to end, with a value or an exception.)\<close>

theorem cc_no_lost_wakeup:
  assumes "cc_reachable produces maxEntries s" "\<And>key. \<exists>r. produces key r"
    and "cc_threads s t = Waiting key fut"
  shows "(\<exists>s'. cc_step produces t s s') \<or>
    (\<exists>t' s'. cc_threads s t' = Computing key fut \<and> cc_step produces t' s s')"
proof -
  note I = cc_inv_D [OF cc_reachable_inv [OF assms(1)]]
  obtain st where st: "cc_futures s fut = Some (key, st)" using I(4) [of t] assms(3) by auto
  show ?thesis
  proof (cases st)
    case Pending
    then obtain t' where t': "cc_threads s t' = Computing key fut"
      using I(3) st unfolding cc_owners_ok_def by blast
    obtain r where "produces key r" using assms(2) by blast
    with t' have "\<exists>s'. cc_step produces t' s s'"
      by (cases r) (auto intro: cc_step.intros)
    with t' show ?thesis by blast
  next
    case (Ready v)
    with st assms(3) show ?thesis by (auto intro: cc_step.intros)
  next
    case Broken
    with st assms(3) show ?thesis by (auto intro: cc_step.intros)
  qed
qed

theorem cc_no_lost_wakeup_witness:
  "\<exists>s. cc_reachable (\<lambda>k r. r = Inr (2 * k)) 1 s \<and> cc_threads s 1 = Waiting (5::nat) 0 \<and>
     ((\<exists>s'. cc_step (\<lambda>k r. r = Inr (2 * k)) 1 s s') \<or>
      (\<exists>t' s'. cc_threads s t' = Computing 5 0 \<and> cc_step (\<lambda>k r. r = (Inr (2 * k) :: nat res)) t' s s'))"
proof -
  let ?P = "\<lambda>k r. r = (Inr (2 * k) :: nat res)"
  let ?s = "cc_lookup 1 5 (cc_lookup 0 5 (cc_init 1))"
  have s1: "cc_reachable ?P 1 (cc_lookup 0 5 (cc_init 1))"
    by (rule cc_reachable.step [OF cc_reachable.init cc_step.call]) (simp add: cc_init_def)
  have s2: "cc_reachable ?P 1 ?s"
    by (rule cc_reachable.step [OF s1 cc_step.call])
      (simp add: cc_lookup_def cc_init_def lru_getOrPut_def lru_new_def miss_def hit_def)
  have "cc_threads ?s 1 = Waiting 5 0"
    by (simp add: cc_lookup_def cc_init_def lru_getOrPut_def lru_new_def miss_def hit_def
        putMissing_def Let_def lru_size_def splice_front_def node_value_def access_value_def)
  with cc_no_lost_wakeup [OF s2, of 1 5 0] s2 show ?thesis by blast
qed

text \<open>A failed computation stays in the cache. When the function passed for a key threw, the
  broken future it leaves is what later calls for the key find: such a call throws
  \<^verbatim>\<open>std::future_error\<close> without trying the computation again, and leaves the entry in place for the
  next one.\<close>

theorem cc_failure_is_cached:
  assumes "cc_reachable produces maxEntries s" "cc_threads s t = Idle"
    and key: "lru_lookup (cc_impl s) key = Some fut" and broken: "cc_futures s fut = Some (key, Broken)"
  shows "\<exists>s1 s2. cc_step produces t s s1 \<and> cc_step produces t s1 s2 \<and>
    cc_threads s2 t = Returned key (Inl FutureError) \<and>
    lru_lookup (cc_impl s2) key = Some fut \<and> cc_futures s2 fut = Some (key, Broken)"
proof -
  have inv: "lru_inv (cc_impl s)" by (rule cc_inv_D(6) [OF cc_reachable_inv [OF assms(1)]])
  let ?r = "lru_getOrPut key (cc_next s) (cc_impl s)"
  from key lru_getOrPut_refines [OF inv, of key "cc_next s"]
  have r: "fst ?r = \<lparr>access_status = HIT, access_val = Some fut\<rparr>"
    "lru_lookup (snd ?r) key = Some fut"
    by (auto simp: lru_lookup_def map_of_spec_touch)
  let ?s1 = "s\<lparr>cc_impl := snd ?r, cc_threads := (cc_threads s)(t := Waiting key fut)\<rparr>"
  have "cc_lookup t key s = ?s1"
    using r(1) by (auto simp: cc_lookup_def miss_def hit_def access_value_def split: prod.splits)
  with cc_step.call [OF assms(2), of produces key] have "cc_step produces t s ?s1" by simp
  moreover have "cc_step produces t ?s1 (?s1\<lparr>cc_threads := (cc_threads ?s1)(t := Returned key (Inl FutureError))\<rparr>)"
    by (rule cc_step.get_broken [where k' = key]) (simp, use broken in simp)
  ultimately show ?thesis
    using r(2) broken by (intro exI conjI) (assumption, assumption, simp_all)
qed

theorem cc_failure_is_cached_witness:
  "\<exists>s s1 s2. cc_reachable (\<lambda>(k::nat) (r :: nat res). r = Inl SystemError) 1 s \<and>
    cc_step (\<lambda>k r. r = Inl SystemError) 7 s s1 \<and> cc_step (\<lambda>k r. r = Inl SystemError) 7 s1 s2 \<and>
    cc_threads s2 7 = Returned 5 (Inl FutureError)"
proof -
  let ?P = "\<lambda>(k::nat) (r :: nat res). r = Inl SystemError"
  have e: "cc_lookup 0 5 (cc_init 1) =
      \<lparr>cc_impl = lru_put 5 0 (lru_new 1), cc_futures = [0 \<mapsto> (5, Pending)], cc_next = 1,
       cc_threads = (\<lambda>_. Idle)(0 := Computing 5 0)\<rparr>"
    by (simp add: cc_lookup_def cc_init_def lru_getOrPut_def lru_put_def lru_new_def miss_def hit_def)
  have 1: "cc_reachable ?P 1 (cc_lookup 0 5 (cc_init 1))"
    by (rule cc_reachable.step [OF cc_reachable.init cc_step.call]) (simp add: cc_init_def)
  have 2: "cc_reachable ?P 1 \<lparr>cc_impl = lru_put 5 0 (lru_new 1), cc_futures = [0 \<mapsto> (5, Broken)],
      cc_next = 1, cc_threads = (\<lambda>_. Idle)(0 := Returned 5 (Inl SystemError))\<rparr>"
    using cc_reachable.step [OF 1 cc_step.unwind, of 0 5 0 SystemError] unfolding e by simp
  from cc_failure_is_cached [OF 2, of 7 5 0] 2 show ?thesis
    by (fastforce simp: lru_lookup_def lru_put_items spec_put_def)
qed

end
