(* ===== verification/Readers.thy ===== *)
theory Readers
  imports Endian_Tools
begin

text \<open>
  How the library reads bytes: \<^verbatim>\<open>src/buffer.cpp\<close>, \<^verbatim>\<open>src/fs_unix.cpp\<close>, \<^verbatim>\<open>src/file_compound.*\<close>,
  \<^verbatim>\<open>src/file_reader.cpp\<close>, \<^verbatim>\<open>src/buffer_reader.cpp\<close> and \<^verbatim>\<open>src/reader.h\<close>. The class hierarchy of
  readers is a datatype with one constructor per class and one function per virtual method.

  The system calls are parameters: a file descriptor is given by its \<^verbatim>\<open>pread\<close> and its \<^verbatim>\<open>mmap\<close>,
  and \<open>fd_serves\<close> states what the kernel documents of them for a regular file: a read within the
  file transfers everything that is asked for, up to the \<^verbatim>\<open>0x7ffff000\<close> bytes that Linux moves in
  one call. The build modelled has \<^verbatim>\<open>ENABLE_USE_MMAP\<close> and \<^verbatim>\<open>MMAP_SUPPORT_64\<close>.

  Shown here: what a locale states as the contract of a reader (read, get_buffer and sub_reader give
  exactly the bytes asked for), for all three classes, so that an archive split over several files
  reads as their concatenation.
\<close>

section \<open>Buffers\<close>

text \<open>\<^verbatim>\<open>m_data\<close> is a pointer into an allocation: the bytes from it to the end of the allocation.\<close>

record Buffer =
  buf_data :: bytes
  buf_size :: u64

definition SIZE_MAX :: u64 where
  "SIZE_MAX = 0xFFFFFFFFFFFFFFFF"

definition mkBuffer :: "bytes \<Rightarrow> u64 \<Rightarrow> Buffer res" where
  "mkBuffer data sz = ASSERT (sz < SIZE_MAX) (Inr \<lparr>buf_data = data, buf_size = sz\<rparr>)"

definition buffer_data :: "u64 \<Rightarrow> Buffer \<Rightarrow> bytes res" where
  "buffer_data offset b = ASSERT (offset \<le> buf_size b) (Inr (drop (unat offset) (buf_data b)))"

definition buffer_at :: "u64 \<Rightarrow> Buffer \<Rightarrow> byte res" where
  "buffer_at offset b =
     rbind (buffer_data offset b) (\<lambda>p. case p of [] \<Rightarrow> Inl MemoryFault | c # _ \<Rightarrow> Inr c)"

definition sub_buffer :: "u64 \<Rightarrow> u64 \<Rightarrow> Buffer \<Rightarrow> Buffer res" where
  "sub_buffer offset sz b =
     ASSERT (offset \<le> buf_size b) (ASSERT (offset + sz \<le> buf_size b)
       (rbind (buffer_data offset b) (\<lambda>p. mkBuffer p sz)))"

text \<open>\<^verbatim>\<open>makeBuffer(size)\<close> allocates; \<open>junk\<close> is what the fresh memory holds.\<close>

definition makeBuffer_fresh :: "(nat \<Rightarrow> byte) \<Rightarrow> u64 \<Rightarrow> Buffer res" where
  "makeBuffer_fresh junk sz = mkBuffer (map junk [0..<unat sz]) sz"

text \<open>\<^verbatim>\<open>memcpy(dest, src, n)\<close> on the bytes from the two pointers on.\<close>

definition memcpy :: "bytes \<Rightarrow> bytes \<Rightarrow> nat \<Rightarrow> bytes res" where
  "memcpy dest src n =
     (if length src < n \<or> length dest < n then Inl MemoryFault
      else Inr (take n src @ drop n dest))"

definition slice_at :: "nat \<Rightarrow> nat \<Rightarrow> 'a list \<Rightarrow> 'a list" where
  "slice_at off n xs = take n (drop off xs)"

definition buf_bytes :: "Buffer \<Rightarrow> bytes" where
  "buf_bytes b = take (unat (buf_size b)) (buf_data b)"

definition buffer_ok :: "Buffer \<Rightarrow> bool" where
  "buffer_ok b \<longleftrightarrow> unat (buf_size b) \<le> length (buf_data b) \<and> buf_size b < SIZE_MAX"

section \<open>File descriptors\<close>

text \<open>\<open>fd_pread size offset\<close> is \<open>None\<close> for a return value of -1; \<open>fd_mmap offset size\<close> is \<open>None\<close> for
  \<^verbatim>\<open>MAP_FAILED\<close>.\<close>

record FD =
  fd_pread :: "u64 \<Rightarrow> u64 \<Rightarrow> bytes option"
  fd_mmap :: "u64 \<Rightarrow> u64 \<Rightarrow> bytes option"
  fd_stat_size :: u64

text \<open>The loop of \<^verbatim>\<open>FD::readAt\<close>. As in the source, \<open>dest\<close> is not moved forward between two calls of
  \<^verbatim>\<open>pread\<close>, and a \<^verbatim>\<open>pread\<close> that transfers nothing is tried again.\<close>

partial_function (option) readAt_loop ::
    "(u64 \<Rightarrow> u64 \<Rightarrow> bytes option) \<Rightarrow> bytes \<Rightarrow> u64 \<Rightarrow> u64 \<Rightarrow> u64 \<Rightarrow> (bytes \<times> u64) option" where
  "readAt_loop pread dest size_to_read current_offset full_size_read =
     (if size_to_read = 0 then Some (dest, full_size_read)
      else case pread size_to_read current_offset of
          None \<Rightarrow> Some (dest, - 1)
        | Some bs \<Rightarrow>
            readAt_loop pread (bs @ drop (length bs) dest) (size_to_read - of_nat (length bs))
              (current_offset + of_nat (length bs)) (full_size_read + of_nat (length bs)))"

definition readAt :: "FD \<Rightarrow> bytes \<Rightarrow> u64 \<Rightarrow> u64 \<Rightarrow> (bytes \<times> u64) res" where
  "readAt fd dest sz offset =
     (case readAt_loop (fd_pread fd) dest sz offset 0 of None \<Rightarrow> Inl NoReturn | Some r \<Rightarrow> Inr r)"

text \<open>\<^verbatim>\<open>makeMmappedBuffer\<close>: the mapping starts on a page, the pointer is moved to the offset.\<close>

definition page_size :: u64 where
  "page_size = 4096"

definition makeMmappedBuffer :: "FD \<Rightarrow> u64 \<Rightarrow> u64 \<Rightarrow> bytes res" where
  "makeMmappedBuffer fd offset sz =
     (let pageAlignedOffset = offset AND NOT (page_size - 1);
          alignmentAdjustment = offset - pageAlignedOffset;
          sz' = sz + alignmentAdjustment
      in case fd_mmap fd pageAlignedOffset sz' of
           None \<Rightarrow> Inl (RuntimeError ''Cannot mmap'')
         | Some mapped \<Rightarrow> Inr (drop (unat alignmentAdjustment) mapped))"

section \<open>FileCompound\<close>

record FilePart =
  part_filename :: bytes
  part_fhandle :: FD
  part_size :: u64

record Range =
  range_min :: u64
  range_max :: u64

definition less_range :: "Range \<Rightarrow> Range \<Rightarrow> bool" where
  "less_range lhs rhs \<longleftrightarrow> range_min lhs < range_min rhs \<and> range_max lhs \<le> range_min rhs"

text \<open>The \<^verbatim>\<open>std::map<Range, FilePart*, less_range>\<close> the class derives from, in key order.\<close>

record FileCompound =
  fc_map :: "(Range \<times> FilePart) list"
  fsize :: u64

definition lower_bound :: "Range \<Rightarrow> (Range \<times> FilePart) list \<Rightarrow> nat" where
  "lower_bound k m = length (takeWhile (\<lambda>p. less_range (fst p) k) m)"

definition upper_bound :: "Range \<Rightarrow> (Range \<times> FilePart) list \<Rightarrow> nat" where
  "upper_bound k m = length (takeWhile (\<lambda>p. \<not> less_range k (fst p)) m)"

text \<open>\<^verbatim>\<open>std::map::emplace\<close>: no effect when an equivalent key is there.\<close>

definition emplace :: "Range \<Rightarrow> FilePart \<Rightarrow> (Range \<times> FilePart) list \<Rightarrow> (Range \<times> FilePart) list" where
  "emplace k p m =
     (if \<exists>q\<in>set m. \<not> less_range k (fst q) \<and> \<not> less_range (fst q) k then m
      else take (lower_bound k m) m @ (k, p) # drop (lower_bound k m) m)"

definition addPart :: "FilePart \<Rightarrow> FileCompound \<Rightarrow> FileCompound" where
  "addPart p fc =
     (let newRange = \<lparr>range_min = fsize fc, range_max = fsize fc + part_size p\<rparr>
      in fc\<lparr>fc_map := emplace newRange p (fc_map fc), fsize := fsize fc + part_size p\<rparr>)"

text \<open>\<^verbatim>\<open>FilePart(filename)\<close>: \<open>open_file\<close> is the file system, \<open>None\<close> when the file cannot be opened.\<close>

definition mkFilePart :: "(bytes \<Rightarrow> FD option) \<Rightarrow> bytes \<Rightarrow> FilePart res" where
  "mkFilePart open_file filename =
     (case open_file filename of
        None \<Rightarrow> Inl (RuntimeError '''')
      | Some fd \<Rightarrow> Inr \<lparr>part_filename = filename, part_fhandle = fd, part_size = fd_stat_size fd\<rparr>)"

text \<open>The names \<^verbatim>\<open>aa, ab, \<dots>, az, ba, \<dots>, zz\<close> of the chunks, in the order of the two loops.\<close>

definition letters :: bytes where
  "letters = map word_of_nat [97..<123]"

definition chunk_suffixes :: "bytes list" where
  "chunk_suffixes = concat (map (\<lambda>ch0. map (\<lambda>ch1. [ch0, ch1]) letters) letters)"

text \<open>The loops end at the first name that cannot be opened (the exception leaves both).\<close>

fun add_chunks :: "(bytes \<Rightarrow> FD option) \<Rightarrow> bytes \<Rightarrow> bytes list \<Rightarrow> FileCompound \<Rightarrow> FileCompound" where
  "add_chunks open_file filename [] fc = fc"
| "add_chunks open_file filename (x # xs) fc =
     (case mkFilePart open_file (filename @ x) of
        Inl _ \<Rightarrow> fc
      | Inr p \<Rightarrow> add_chunks open_file filename xs (addPart p fc))"

definition mkFileCompound :: "(bytes \<Rightarrow> FD option) \<Rightarrow> bytes \<Rightarrow> FileCompound res" where
  "mkFileCompound open_file filename =
     (let fc0 = \<lparr>fc_map = [], fsize = 0\<rparr> in
      case mkFilePart open_file filename of
        Inr p \<Rightarrow> Inr (addPart p fc0)
      | Inl _ \<Rightarrow>
          (let fc = add_chunks open_file filename chunk_suffixes fc0
           in if fc_map fc = [] then Inl (RuntimeError ''error opening file'') else Inr fc))"

definition is_multiPart :: "FileCompound \<Rightarrow> bool" where
  "is_multiPart fc \<longleftrightarrow> 1 < length (fc_map fc)"

text \<open>\<^verbatim>\<open>locate(offset)\<close> and \<^verbatim>\<open>locate(offset, size)\<close>.\<close>

definition locate1 :: "u64 \<Rightarrow> FileCompound \<Rightarrow> (Range \<times> FilePart) res" where
  "locate1 offset fc =
     (let i = lower_bound \<lparr>range_min = offset, range_max = offset\<rparr> (fc_map fc)
      in ASSERT (i < length (fc_map fc)) (Inr (fc_map fc ! i)))"

definition locate :: "u64 \<Rightarrow> u64 \<Rightarrow> FileCompound \<Rightarrow> nat \<times> nat" where
  "locate offset sz fc =
     (let q = \<lparr>range_min = offset, range_max = offset + sz\<rparr>
      in (lower_bound q (fc_map fc), upper_bound q (fc_map fc)))"

section \<open>Readers\<close>

datatype Reader =
    BufferReader (source_buffer: Buffer)
  | FileReader FD u64 u64
  | MultiPartFileReader FileCompound u64 u64

definition mkMultiPartFileReader :: "FileCompound \<Rightarrow> u64 \<Rightarrow> u64 \<Rightarrow> Reader res" where
  "mkMultiPartFileReader source offset sz =
     ASSERT (offset \<le> fsize source) (ASSERT (offset + sz \<le> fsize source)
       (Inr (MultiPartFileReader source offset sz)))"

fun reader_size :: "Reader \<Rightarrow> u64" where
  "reader_size (BufferReader source) = buf_size source"
| "reader_size (FileReader fd offset sz) = sz"
| "reader_size (MultiPartFileReader source offset sz) = sz"

text \<open>The loop over the parts in \<^verbatim>\<open>MultiPartFileReader::read\<close>. \<open>acc\<close> holds what was already written
  before the moving \<open>dest\<close>.\<close>

fun multipart_read_loop ::
    "(Range \<times> FilePart) list \<Rightarrow> bytes \<Rightarrow> bytes \<Rightarrow> u64 \<Rightarrow> u64 \<Rightarrow> bytes res" where
  "multipart_read_loop [] acc dest offset sz = ASSERT (sz = 0) (Inr (acc @ dest))"
| "multipart_read_loop ((partRange, part) # rest) acc dest offset sz =
     (let local_offset = offset - range_min partRange in
      ASSERT (sz > 0)
        (let size_to_get = min sz (part_size part - local_offset) in
         rbind (readAt (part_fhandle part) dest size_to_get local_offset) (\<lambda>(dest', _).
           ASSERT (size_to_get \<le> sz)
             (multipart_read_loop rest (acc @ take (unat size_to_get) dest')
                (drop (unat size_to_get) dest') (offset + size_to_get) (sz - size_to_get)))))"

text \<open>\<^verbatim>\<open>read(dest, offset, size)\<close> returns the contents of \<open>dest\<close> afterwards. The readers over files
  do not look at the size \<^verbatim>\<open>readAt\<close> returns.\<close>

definition BufferReader_read :: "Buffer \<Rightarrow> bytes \<Rightarrow> u64 \<Rightarrow> u64 \<Rightarrow> bytes res" where
  "BufferReader_read source dest offset sz =
     ASSERT (offset \<le> buf_size source) (ASSERT (offset + sz \<le> buf_size source)
       (if sz = 0 then Inr dest
        else rbind (buffer_data offset source) (\<lambda>p. memcpy dest p (unat sz))))"

definition FileReader_read :: "FD \<Rightarrow> u64 \<Rightarrow> u64 \<Rightarrow> bytes \<Rightarrow> u64 \<Rightarrow> u64 \<Rightarrow> bytes res" where
  "FileReader_read fd off0 size0 dest offset sz =
     ASSERT (offset \<le> size0) (ASSERT (offset + sz \<le> size0)
       (if sz = 0 then Inr dest
        else rbind (readAt fd dest sz (offset + off0)) (\<lambda>(dest', _). Inr dest')))"

definition MultiPartFileReader_read ::
    "FileCompound \<Rightarrow> u64 \<Rightarrow> u64 \<Rightarrow> bytes \<Rightarrow> u64 \<Rightarrow> u64 \<Rightarrow> bytes res" where
  "MultiPartFileReader_read source off0 size0 dest offset sz =
     ASSERT (offset \<le> size0) (ASSERT (offset + sz \<le> size0)
       (if sz = 0 then Inr dest
        else case locate (offset + off0) sz source of (i, j) \<Rightarrow>
          multipart_read_loop (drop i (take j (fc_map source))) [] dest (offset + off0) sz))"

fun reader_read :: "Reader \<Rightarrow> bytes \<Rightarrow> u64 \<Rightarrow> u64 \<Rightarrow> bytes res" where
  "reader_read (BufferReader source) = BufferReader_read source"
| "reader_read (FileReader fd off0 size0) = FileReader_read fd off0 size0"
| "reader_read (MultiPartFileReader source off0 size0) = MultiPartFileReader_read source off0 size0"

text \<open>\<^verbatim>\<open>read(offset)\<close> reads one character; \<open>junk\<close> is what the uninitialised variable holds.\<close>

definition BufferReader_read_char :: "Buffer \<Rightarrow> u64 \<Rightarrow> byte res" where
  "BufferReader_read_char source offset =
     ASSERT (offset < buf_size source) (buffer_at offset source)"

definition FileReader_read_char :: "(nat \<Rightarrow> byte) \<Rightarrow> FD \<Rightarrow> u64 \<Rightarrow> u64 \<Rightarrow> u64 \<Rightarrow> byte res" where
  "FileReader_read_char junk fd off0 size0 offset =
     ASSERT (offset < size0)
       (rbind (readAt fd [junk 0] 1 (offset + off0)) (\<lambda>(dest', _). Inr (hd dest')))"

definition MultiPartFileReader_read_char ::
    "(nat \<Rightarrow> byte) \<Rightarrow> FileCompound \<Rightarrow> u64 \<Rightarrow> u64 \<Rightarrow> u64 \<Rightarrow> byte res" where
  "MultiPartFileReader_read_char junk source off0 size0 offset =
     ASSERT (offset < size0)
       (rbind (locate1 (offset + off0) source) (\<lambda>(rng, part).
          (let local_offset = offset + off0 - range_min rng in
           ASSERT (local_offset \<le> range_max rng)
             (rbind (readAt (part_fhandle part) [junk 0] 1 local_offset) (\<lambda>(dest', _). Inr (hd dest'))))))"

fun reader_read_char :: "(nat \<Rightarrow> byte) \<Rightarrow> Reader \<Rightarrow> u64 \<Rightarrow> byte res" where
  "reader_read_char junk (BufferReader source) = BufferReader_read_char source"
| "reader_read_char junk (FileReader fd off0 size0) = FileReader_read_char junk fd off0 size0"
| "reader_read_char junk (MultiPartFileReader source off0 size0) =
     MultiPartFileReader_read_char junk source off0 size0"

text \<open>\<^verbatim>\<open>MMapException\<close>, thrown when the range is not in one part, selects the copying branch; a failed
  \<^verbatim>\<open>mmap\<close> throws another exception and leaves \<^verbatim>\<open>get_buffer\<close>. Incrementing the end iterator of the
  map is undefined behaviour.\<close>

definition BufferReader_get_buffer :: "Buffer \<Rightarrow> u64 \<Rightarrow> u64 \<Rightarrow> Buffer res" where
  "BufferReader_get_buffer source offset sz = sub_buffer offset sz source"

definition FileReader_get_buffer :: "FD \<Rightarrow> u64 \<Rightarrow> u64 \<Rightarrow> u64 \<Rightarrow> u64 \<Rightarrow> Buffer res" where
  "FileReader_get_buffer fd off0 size0 offset sz =
     ASSERT (sz \<le> size0)
       (rbind (makeMmappedBuffer fd (offset + off0) sz) (\<lambda>p. mkBuffer p sz))"

definition MultiPartFileReader_get_buffer ::
    "(nat \<Rightarrow> byte) \<Rightarrow> FileCompound \<Rightarrow> u64 \<Rightarrow> u64 \<Rightarrow> u64 \<Rightarrow> u64 \<Rightarrow> Buffer res" where
  "MultiPartFileReader_get_buffer junk source off0 size0 offset sz =
     ASSERT (sz \<le> size0)
       (case locate (off0 + offset) sz source of (i, j) \<Rightarrow>
          if length (fc_map source) \<le> i then Inl MemoryFault
          else if Suc i \<noteq> j then
            rbind (makeBuffer_fresh junk sz) (\<lambda>b.
              rbind (buffer_data 0 b) (\<lambda>dest.
                rbind (MultiPartFileReader_read source off0 size0 dest offset sz) (\<lambda>dest'.
                  Inr (b\<lparr>buf_data := dest'\<rparr>))))
          else (case fc_map source ! i of (rng, part) \<Rightarrow>
            (let local_offset = offset + off0 - range_min rng in
             ASSERT (sz \<le> part_size part)
               (rbind (makeMmappedBuffer (part_fhandle part) local_offset sz) (\<lambda>p. mkBuffer p sz)))))"

fun get_buffer :: "(nat \<Rightarrow> byte) \<Rightarrow> Reader \<Rightarrow> u64 \<Rightarrow> u64 \<Rightarrow> Buffer res" where
  "get_buffer junk (BufferReader source) = BufferReader_get_buffer source"
| "get_buffer junk (FileReader fd off0 size0) = FileReader_get_buffer fd off0 size0"
| "get_buffer junk (MultiPartFileReader source off0 size0) =
     MultiPartFileReader_get_buffer junk source off0 size0"

definition BufferReader_sub_reader :: "Buffer \<Rightarrow> u64 \<Rightarrow> u64 \<Rightarrow> Reader res" where
  "BufferReader_sub_reader source offset sz =
     rbind (BufferReader_get_buffer source offset sz) (\<lambda>b. Inr (BufferReader b))"

definition FileReader_sub_reader :: "FD \<Rightarrow> u64 \<Rightarrow> u64 \<Rightarrow> u64 \<Rightarrow> u64 \<Rightarrow> Reader res" where
  "FileReader_sub_reader fd off0 size0 offset sz =
     ASSERT (offset + sz \<le> size0) (Inr (FileReader fd (off0 + offset) sz))"

definition MultiPartFileReader_sub_reader ::
    "FileCompound \<Rightarrow> u64 \<Rightarrow> u64 \<Rightarrow> u64 \<Rightarrow> u64 \<Rightarrow> Reader res" where
  "MultiPartFileReader_sub_reader source off0 size0 offset sz =
     ASSERT (offset + sz \<le> size0) (mkMultiPartFileReader source (off0 + offset) sz)"

fun sub_reader :: "(nat \<Rightarrow> byte) \<Rightarrow> Reader \<Rightarrow> u64 \<Rightarrow> u64 \<Rightarrow> Reader res" where
  "sub_reader junk (BufferReader source) = BufferReader_sub_reader source"
| "sub_reader junk (FileReader fd off0 size0) = FileReader_sub_reader fd off0 size0"
| "sub_reader junk (MultiPartFileReader source off0 size0) =
     MultiPartFileReader_sub_reader source off0 size0"

lemmas BufferReader_methods [zim_simps] = BufferReader_read_def BufferReader_read_char_def
  BufferReader_get_buffer_def BufferReader_sub_reader_def

lemmas FileReader_methods [zim_simps] = FileReader_read_def FileReader_read_char_def
  FileReader_get_buffer_def FileReader_sub_reader_def

lemmas MultiPartFileReader_methods [zim_simps] = MultiPartFileReader_read_def
  MultiPartFileReader_read_char_def MultiPartFileReader_get_buffer_def MultiPartFileReader_sub_reader_def

declare zim_simps [simp]

text \<open>The non-virtual methods of the base class, in terms of the virtual ones they call.\<close>

definition base_can_read :: "('r \<Rightarrow> u64) \<Rightarrow> 'r \<Rightarrow> u64 \<Rightarrow> u64 \<Rightarrow> bool" where
  "base_can_read rsize r offset sz \<longleftrightarrow> offset \<le> rsize r \<and> offset + sz \<le> rsize r"

definition base_get_buffer ::
    "('r \<Rightarrow> u64) \<Rightarrow> ('r \<Rightarrow> u64 \<Rightarrow> u64 \<Rightarrow> Buffer res) \<Rightarrow> 'r \<Rightarrow> u64 \<Rightarrow> Buffer res" where
  "base_get_buffer rsize rbuffer r offset = rbuffer r offset (rsize r - offset)"

definition base_sub_reader ::
    "('r \<Rightarrow> u64) \<Rightarrow> ('r \<Rightarrow> u64 \<Rightarrow> u64 \<Rightarrow> 'r res) \<Rightarrow> 'r \<Rightarrow> u64 \<Rightarrow> 'r res" where
  "base_sub_reader rsize rsub r offset = rsub r offset (rsize r - offset)"

definition base_read_uint ::
    "('r \<Rightarrow> u64) \<Rightarrow> ('r \<Rightarrow> bytes \<Rightarrow> u64 \<Rightarrow> u64 \<Rightarrow> bytes res) \<Rightarrow> (nat \<Rightarrow> byte) \<Rightarrow> 'r \<Rightarrow> u64 \<Rightarrow> 'a::len word res" where
  "base_read_uint rsize rread junk r offset =
     (let N = sizeof TYPE('a) in
      ASSERT (offset < rsize r) (ASSERT (offset + of_nat N \<le> rsize r)
        (rbind (rread r (map junk [0..<N]) offset (of_nat N)) (\<lambda>tmp_buf.
          Inr (fromLittleEndian tmp_buf)))))"

abbreviation can_read :: "Reader \<Rightarrow> u64 \<Rightarrow> u64 \<Rightarrow> bool" where
  "can_read \<equiv> base_can_read reader_size"

abbreviation get_buffer_rest :: "(nat \<Rightarrow> byte) \<Rightarrow> Reader \<Rightarrow> u64 \<Rightarrow> Buffer res" where
  "get_buffer_rest junk \<equiv> base_get_buffer reader_size (get_buffer junk)"

abbreviation sub_reader_rest :: "(nat \<Rightarrow> byte) \<Rightarrow> Reader \<Rightarrow> u64 \<Rightarrow> Reader res" where
  "sub_reader_rest junk \<equiv> base_sub_reader reader_size (sub_reader junk)"

abbreviation read_uint :: "(nat \<Rightarrow> byte) \<Rightarrow> Reader \<Rightarrow> u64 \<Rightarrow> 'a::len word res" where
  "read_uint junk \<equiv> base_read_uint reader_size reader_read junk"

section \<open>What the kernel promises\<close>

definition max_transfer :: nat where
  "max_transfer = 0x7ffff000"

definition fd_serves :: "FD \<Rightarrow> bytes \<Rightarrow> bool" where
  "fd_serves fd contents \<longleftrightarrow>
     length contents < 2 ^ 63 \<and> unat (fd_stat_size fd) = length contents \<and>
     (\<forall>n off. unat n \<le> max_transfer \<longrightarrow> unat off < 2 ^ 63 \<longrightarrow>
        fd_pread fd n off = Some (slice_at (unat off) (unat n) contents)) \<and>
     (\<forall>off n. off AND (page_size - 1) = 0 \<longrightarrow> 0 < n \<longrightarrow> unat off + unat n \<le> length contents \<longrightarrow>
        (\<exists>tail. fd_mmap fd off n = Some (slice_at (unat off) (unat n) contents @ tail)))"

lemma fd_serves_D:
  assumes "fd_serves fd c"
  shows "length c < 2 ^ 63" "unat (fd_stat_size fd) = length c"
    "unat n \<le> max_transfer \<Longrightarrow> unat off < 2 ^ 63 \<Longrightarrow>
      fd_pread fd n off = Some (slice_at (unat off) (unat n) c)"
  using assms by (auto simp: fd_serves_def)

lemma length_slice_at: "off + n \<le> length xs \<Longrightarrow> length (slice_at off n xs) = n"
  by (simp add: slice_at_def)

lemma slice_at_0 [simp]: "slice_at off 0 xs = []"
  by (simp add: slice_at_def)

lemma slice_at_slice_at: "o2 + n2 \<le> n1 \<Longrightarrow> slice_at o2 n2 (slice_at o1 n1 xs) = slice_at (o1 + o2) n2 xs"
  by (simp add: slice_at_def drop_take min_def add.commute)

lemma slice_at_append_shift: "length xs \<le> off \<Longrightarrow> slice_at off n (xs @ ys) = slice_at (off - length xs) n ys"
  by (simp add: slice_at_def)

section \<open>FD::readAt\<close>

lemma readAt_exact:
  assumes fd: "fd_serves fd c" and r: "unat off + unat sz \<le> length c" "unat sz \<le> max_transfer"
  shows "readAt fd dest sz off = Inr (slice_at (unat off) (unat sz) c @ drop (unat sz) dest, sz)"
proof (cases "sz = 0")
  case True
  then show ?thesis by (simp add: readAt_def readAt_loop.simps)
next
  case False
  have "unat off < 2 ^ 63" using r fd_serves_D(1) [OF fd] by linarith
  then have p: "fd_pread fd sz off = Some (slice_at (unat off) (unat sz) c)"
    using fd_serves_D(3) [OF fd] r by blast
  have "of_nat (length (slice_at (unat off) (unat sz) c)) = sz"
    using r(1) by (simp add: length_slice_at)
  with False p r(1) show ?thesis
    by (simp add: readAt_def readAt_loop.simps length_slice_at)
qed

lemma readAt_loop_stuck:
  assumes "pread sz off = Some []" "sz \<noteq> 0"
  shows "readAt_loop pread dest sz off full = None"
proof (rule ccontr)
  assume "readAt_loop pread dest sz off full \<noteq> None"
  then obtain r where "readAt_loop pread dest sz off full = Some r" by auto
  then have "pread sz off = Some [] \<longrightarrow> sz = 0"
    by (rule readAt_loop.raw_induct [rotated]) (auto split: if_splits option.splits)
  with assms show False by simp
qed

lemma readAt_loop_past_end:
  assumes fd: "fd_serves fd c" and o: "unat off < 2 ^ 63" and n: "unat sz \<le> max_transfer"
    and past: "length c < unat off + unat sz" "sz \<noteq> 0"
  shows "readAt_loop (fd_pread fd) dest sz off full = None"
proof (cases "unat off < length c")
  case False
  then have "fd_pread fd sz off = Some []"
    using fd_serves_D(3) [OF fd n o] by (simp add: slice_at_def)
  with past show ?thesis by (intro readAt_loop_stuck)
next
  case True
  define k where "k = length c - unat off"
  have k: "0 < k" "k < unat sz" using True past by (simp_all add: k_def)
  have len: "length (slice_at (unat off) (unat sz) c) = k" using past by (simp add: slice_at_def k_def)
  have sz': "unat (sz - of_nat k) = unat sz - k" using k by (simp add: unat_minus_of_nat)
  have off': "unat (off + of_nat k) = length c"
    using fd_serves_D(1) [OF fd] True by (subst unat_plus_of_nat) (simp_all add: k_def)
  have "fd_pread fd (sz - of_nat k) (off + of_nat k) = Some []"
    using fd_serves_D(1) [OF fd] fd_serves_D(3) [OF fd] sz' off' n by (simp add: slice_at_def)
  moreover have "sz - of_nat k \<noteq> 0" using sz' k by (metis unat_0 zero_less_diff less_irrefl)
  ultimately have "readAt_loop (fd_pread fd) dest' (sz - of_nat k) (off + of_nat k) full' = None" for dest' full'
    by (rule readAt_loop_stuck)
  then show ?thesis
    using past(2) fd_serves_D(3) [OF fd n o] len by (subst readAt_loop.simps) simp
qed

lemma readAt_two_calls:
  assumes "pread sz off = Some a" "length a < unat sz"
    and "pread (sz - of_nat (length a)) (off + of_nat (length a)) = Some b"
    and "length b = unat sz - length a"
  shows "readAt_loop pread dest sz off 0 = Some (b @ drop (length b) (a @ drop (length a) dest), sz)"
proof -
  let ?sz = "sz - of_nat (length a)"
  have sz: "unat ?sz = length b" using assms by (simp add: unat_minus_of_nat)
  then have "?sz = of_nat (length b)" by (metis of_nat_unat ucast_id)
  moreover have "sz \<noteq> 0" using assms(2) by auto
  moreover have "?sz \<noteq> 0" using sz assms(2,4) by auto
  ultimately show ?thesis
    using assms(1,3) by (subst readAt_loop.simps) (auto simp: readAt_loop.simps algebra_simps)
qed

section \<open>Buffers and mappings\<close>

lemma SIZE_MAX_less: "unat n < 2 ^ 63 \<Longrightarrow> n < SIZE_MAX"
  by (simp add: SIZE_MAX_def word_less_nat_alt)

lemma buffer_ok_length: "buffer_ok b \<Longrightarrow> length (buf_bytes b) = unat (buf_size b)"
  by (simp add: buffer_ok_def buf_bytes_def)

lemma sub_buffer_ok:
  assumes "buffer_ok b" "unat off + unat sz \<le> unat (buf_size b)"
  shows "\<exists>b'. sub_buffer off sz b = Inr b' \<and> buffer_ok b' \<and> buf_size b' = sz \<and>
    buf_bytes b' = slice_at (unat off) (unat sz) (buf_bytes b)"
proof -
  have "unat off + unat sz < 2 ^ 64" using assms(2) unat_bound [of "buf_size b"] by (simp del: unat_u64_bound)
  then have add: "unat (off + sz) = unat off + unat sz" by (intro unat_add_small) simp
  have "sz < SIZE_MAX" using assms by (auto simp: buffer_ok_def word_less_nat_alt)
  moreover have "take (unat sz) (drop (unat off) (buf_data b)) = slice_at (unat off) (unat sz) (buf_bytes b)"
    using assms(2) by (simp add: slice_at_def buf_bytes_def drop_take min_def)
  ultimately show ?thesis
    using assms add by (auto simp: sub_buffer_def buffer_data_def mkBuffer_def word_le_nat_alt
        buffer_ok_def buf_bytes_def)
qed

lemma and_not_mask_split:
  fixes x :: "'a::len word"
  shows "(x AND NOT m) AND m = 0" "x - (x AND NOT m) = x AND m"
    "unat (x AND NOT m) + unat (x AND m) = unat x"
proof -
  show "(x AND NOT m) AND m = 0" by (simp add: and.assoc)
  have disj: "(x AND NOT m) AND (x AND m) = 0"
    by (rule bit_word_eqI) (auto simp: bit_simps)
  have "(x AND NOT m) OR (x AND m) = x"
    by (rule bit_word_eqI) (auto simp: bit_simps)
  then have sum: "(x AND NOT m) + (x AND m) = x"
    using disjunctive_add_eq_or [OF disj] by simp
  then show "x - (x AND NOT m) = x AND m" by (metis add_diff_cancel_left')
  have "x AND NOT m \<le> (x AND NOT m) + (x AND m)" unfolding sum by (rule word_and_le2)
  then have "unat ((x AND NOT m) + (x AND m)) = unat (x AND NOT m) + unat (x AND m)"
    by (rule unat_plus_simple [THEN iffD1])
  then show "unat (x AND NOT m) + unat (x AND m) = unat x" unfolding sum by simp
qed

lemma makeMmappedBuffer_exact:
  assumes fd: "fd_serves fd c" and r: "unat off + unat sz \<le> length c" "sz \<noteq> 0"
  shows "\<exists>tail. makeMmappedBuffer fd off sz = Inr (slice_at (unat off) (unat sz) c @ tail)"
proof -
  let ?p = "off AND NOT (page_size - 1)" and ?a = "off AND (page_size - 1)"
  note split = and_not_mask_split [of off "page_size - 1"]
  have u: "unat (sz + ?a) = unat sz + unat ?a"
    using split(3) r fd_serves_D(1) [OF fd] by (intro unat_add_small) simp
  then have "0 < sz + ?a" using r(2) by (simp add: word_less_nat_alt unat_gt_0)
  moreover have "unat ?p + unat (sz + ?a) \<le> length c" using u split(3) r by simp
  ultimately obtain tail
    where m: "fd_mmap fd ?p (sz + ?a) = Some (slice_at (unat ?p) (unat (sz + ?a)) c @ tail)"
    using fd split(1) unfolding fd_serves_def by blast
  have "drop (unat ?a) (slice_at (unat ?p) (unat (sz + ?a)) c) = slice_at (unat off) (unat sz) c"
    using u split(3) by (simp add: slice_at_def drop_take add.commute)
  moreover have "unat ?a \<le> length (slice_at (unat ?p) (unat (sz + ?a)) c)"
    using u split(3) r by (simp add: slice_at_def)
  ultimately show ?thesis
    using m split(2) by (simp add: makeMmappedBuffer_def Let_def)
qed

lemma mmapped_buffer_ok:
  assumes "fd_serves fd c" "unat off + unat sz \<le> length c" "sz \<noteq> 0"
  shows "\<exists>b. rbind (makeMmappedBuffer fd off sz) (\<lambda>p. mkBuffer p sz) = Inr b \<and> buffer_ok b \<and>
    buf_size b = sz \<and> buf_bytes b = slice_at (unat off) (unat sz) c"
proof -
  obtain tail where "makeMmappedBuffer fd off sz = Inr (slice_at (unat off) (unat sz) c @ tail)"
    using makeMmappedBuffer_exact [OF assms] by blast
  moreover have "sz < SIZE_MAX" using assms(2) fd_serves_D(1) [OF assms(1)] by (intro SIZE_MAX_less) linarith
  ultimately show ?thesis
    using assms(2) by (simp add: mkBuffer_def buffer_ok_def buf_bytes_def length_slice_at)
qed

section \<open>The parts of a compound\<close>

text \<open>\<open>fc_layout n m cs\<close>: the ranges of \<open>m\<close> follow one another from \<open>n\<close> on, each holds one of the
  non-empty contents \<open>cs\<close>.\<close>

fun fc_layout :: "nat \<Rightarrow> (Range \<times> FilePart) list \<Rightarrow> bytes list \<Rightarrow> bool" where
  "fc_layout n [] cs \<longleftrightarrow> cs = []"
| "fc_layout n ((r, p) # m) cs \<longleftrightarrow>
     (case cs of [] \<Rightarrow> False | c # cs' \<Rightarrow>
        fd_serves (part_fhandle p) c \<and> c \<noteq> [] \<and> unat (part_size p) = length c \<and>
        unat (range_min r) = n \<and> unat (range_max r) = n + length c \<and> fc_layout (n + length c) m cs')"

lemma fc_layout_ConsE:
  assumes "fc_layout n ((r, p) # m) cs"
  obtains c cs' where "cs = c # cs'" "fd_serves (part_fhandle p) c" "c \<noteq> []"
    "unat (part_size p) = length c" "unat (range_min r) = n" "unat (range_max r) = n + length c"
    "fc_layout (n + length c) m cs'"
  using assms by (auto split: list.splits)

lemma upper_bound_Cons:
  "upper_bound q ((r, p) # m) = (if less_range q r then 0 else Suc (upper_bound q m))"
  by (simp add: upper_bound_def)

lemma lower_bound_Cons:
  "lower_bound q ((r, p) # m) = (if less_range r q then Suc (lower_bound q m) else 0)"
  by (simp add: lower_bound_def)

text \<open>From the first byte of a part on: the parts up to the upper bound give what is asked for.\<close>

lemma multipart_read_from_start:
  assumes "fc_layout n m cs" "unat (range_min q) < n" "unat off = n \<or> sz = 0"
    and "if sz = 0 then unat (range_max q) \<le> n else unat (range_max q) = n + unat sz"
    and "unat sz \<le> length (concat cs)" "unat sz \<le> max_transfer" "n + length (concat cs) < 2 ^ 64"
  shows "multipart_read_loop (take (upper_bound q m) m) acc dest off sz
     = Inr (acc @ take (unat sz) (concat cs) @ drop (unat sz) dest)"
  using assms
proof (induction m arbitrary: n cs acc dest off sz)
  case Nil
  then show ?case by (simp add: unat_eq_0 upper_bound_def)
next
  case (Cons rp m)
  obtain r p where rp: "rp = (r, p)" by (cases rp)
  from Cons.prems(1) obtain c cs' where cs: "cs = c # cs'" and fd: "fd_serves (part_fhandle p) c"
    and c: "c \<noteq> []" "unat (part_size p) = length c" and r: "unat (range_min r) = n"
      "unat (range_max r) = n + length c" and lay: "fc_layout (n + length c) m cs'"
    unfolding rp by (rule fc_layout_ConsE)
  show ?case
  proof (cases "sz = 0")
    case True
    then have "less_range q r" using Cons.prems r by (simp add: less_range_def word_nat_alt)
    with True show ?thesis by (simp add: rp upper_bound_Cons)
  next
    case False
    have not_less: "\<not> less_range q r"
      using False Cons.prems(4) r by (simp add: less_range_def word_nat_alt unat_eq_0)
    define g where "g = min sz (part_size p)"
    have off: "off - range_min r = 0"
      using Cons.prems(3) False r by (simp add: word_unat_eq_iff unat_diff)
    have g: "unat g = min (unat sz) (length c)" by (simp add: g_def unat_min c)
    have rd: "readAt (part_fhandle p) dest g 0 = Inr (take (unat g) c @ drop (unat g) dest, g)"
      using readAt_exact [OF fd, of 0 g] g Cons.prems(6) by (simp add: slice_at_def)
    have sz': "unat (sz - g) = unat sz - unat g" using g by (simp add: unat_diff)
    have len: "length (take (unat g) c) = unat g" using g by simp
    have IH: "multipart_read_loop (take (upper_bound q m) m) (acc @ take (unat g) c)
        (drop (unat g) dest) (off + g) (sz - g)
      = Inr ((acc @ take (unat g) c) @ take (unat (sz - g)) (concat cs') @
          drop (unat (sz - g)) (drop (unat g) dest))"
    proof (rule Cons.IH [OF lay])
      show "unat (range_min q) < n + length c" using Cons.prems(2) by simp
      show "unat (off + g) = n + length c \<or> sz - g = 0"
        using Cons.prems(3,7) False g sz' cs
        by (cases "unat sz \<le> length c") (simp_all add: word_unat_eq_iff unat_add_small)
      show "if sz - g = 0 then unat (range_max q) \<le> n + length c
          else unat (range_max q) = n + length c + unat (sz - g)"
        using Cons.prems(4) False sz' g by (auto simp: word_unat_eq_iff)
    qed (use Cons.prems(5-7) sz' g cs in auto)
    have "take (unat g) c @ take (unat sz - unat g) (concat cs') = take (unat sz) (concat cs)"
      using g by (simp add: cs min_def)
    then show ?thesis
      using False IH rd g off sz' not_less len
      by (simp add: rp upper_bound_Cons Let_def g_def [symmetric] word_le_nat_alt word_gt_0
          add.commute [of _ "unat g"])
  qed
qed

lemma multipart_read_located:
  assumes "fc_layout n m cs" "n \<le> unat off" "sz \<noteq> 0" "unat off + unat sz \<le> n + length (concat cs)"
    and "unat sz \<le> max_transfer" "n + length (concat cs) < 2 ^ 64"
    and q: "q = \<lparr>range_min = off, range_max = off + sz\<rparr>"
  shows "multipart_read_loop (drop (lower_bound q m) (take (upper_bound q m) m)) [] dest off sz
     = Inr (slice_at (unat off - n) (unat sz) (concat cs) @ drop (unat sz) dest)"
  using assms(1-6)
proof (induction m arbitrary: n cs)
  case Nil
  then show ?case using unat_gt_0 [of sz] by auto
next
  case (Cons rp m)
  obtain r p where rp: "rp = (r, p)" by (cases rp)
  from Cons.prems(1) obtain c cs' where cs: "cs = c # cs'" and fd: "fd_serves (part_fhandle p) c"
    and c: "c \<noteq> []" "unat (part_size p) = length c" and r: "unat (range_min r) = n"
      "unat (range_max r) = n + length c" and lay: "fc_layout (n + length c) m cs'"
    unfolding rp by (rule fc_layout_ConsE)
  have not_less: "\<not> less_range q r"
    using Cons.prems(2) r by (simp add: q less_range_def word_nat_alt)
  show ?case
  proof (cases "n + length c \<le> unat off")
    case True
    then have "less_range r q" using c(1) r length_greater_0_conv [of c]
      by (simp add: q less_range_def word_nat_alt del: length_greater_0_conv)
    with not_less True Cons.IH [OF lay] Cons.prems cs show ?thesis
      by (simp add: rp lower_bound_Cons upper_bound_Cons slice_at_append_shift)
  next
    case False
    then have "\<not> less_range r q" using r by (simp add: q less_range_def word_nat_alt)
    define l where "l = off - range_min r"
    define g where "g = min sz (part_size p - l)"
    have l: "unat l = unat off - n" using Cons.prems(2) r by (simp add: l_def unat_diff)
    have g: "unat g = min (unat sz) (length c - unat l)"
      using False l Cons.prems(2) by (simp add: g_def unat_min unat_diff c)
    have rd: "readAt (part_fhandle p) dest g l = Inr (slice_at (unat l) (unat g) c @ drop (unat g) dest, g)"
      using g Cons.prems(2,5) False l by (intro readAt_exact [OF fd]) auto
    have sz': "unat (sz - g) = unat sz - unat g" using g by (simp add: unat_diff)
    have len: "length (slice_at (unat l) (unat g) c) = unat g"
      using g False l Cons.prems(2) by (intro length_slice_at) linarith
    have add: "unat (off + sz) = unat off + unat sz" "unat (off + g) = unat off + unat g"
      using Cons.prems(4,6) g by (intro unat_add_small; simp)+
    have rest: "multipart_read_loop (take (upper_bound q m) m) (slice_at (unat l) (unat g) c)
        (drop (unat g) dest) (off + g) (sz - g)
      = Inr (slice_at (unat l) (unat g) c @ take (unat (sz - g)) (concat cs') @
          drop (unat (sz - g)) (drop (unat g) dest))"
    proof (rule multipart_read_from_start [OF lay])
      show "unat (range_min q) < n + length c" using False by (simp add: q)
      show "unat (off + g) = n + length c \<or> sz - g = 0"
        using False g sz' l add(2) Cons.prems(2) by (auto simp: word_unat_eq_iff)
      show "if sz - g = 0 then unat (range_max q) \<le> n + length c
          else unat (range_max q) = n + length c + unat (sz - g)"
        using False g sz' l add(1) Cons.prems(2) by (auto simp: word_unat_eq_iff q)
    qed (use Cons.prems g sz' l cs False in auto)
    have "slice_at (unat l) (unat g) c @ take (unat sz - unat g) (concat cs')
        = slice_at (unat off - n) (unat sz) (concat cs)"
      using g l False by (simp add: cs slice_at_def min_def)
    with rest rd sz' len not_less \<open>\<not> less_range r q\<close> Cons.prems(3) g show ?thesis
      by (simp add: rp lower_bound_Cons upper_bound_Cons Let_def l_def [symmetric] g_def [symmetric]
          word_le_nat_alt word_gt_0 add.commute [of _ "unat g"])
  qed
qed

definition fc_holds :: "FileCompound \<Rightarrow> bytes list \<Rightarrow> bool" where
  "fc_holds fc cs \<longleftrightarrow> fc_layout 0 (fc_map fc) cs \<and> unat (fsize fc) = length (concat cs) \<and>
     length (concat cs) < 2 ^ 63"

text \<open>The part that serves one offset.\<close>

definition located ::
    "nat \<Rightarrow> (Range \<times> FilePart) list \<Rightarrow> bytes list \<Rightarrow> Range \<Rightarrow>
     (Range \<times> FilePart) list \<Rightarrow> Range \<Rightarrow> FilePart \<Rightarrow> (Range \<times> FilePart) list \<Rightarrow>
     bytes list \<Rightarrow> bytes \<Rightarrow> bytes list \<Rightarrow> bool" where
  "located n m cs q xs r p ys cs1 c cs2 \<longleftrightarrow> m = xs @ (r, p) # ys \<and> cs = cs1 @ c # cs2 \<and>
     lower_bound q m = length xs \<and> upper_bound q m = length xs + Suc (upper_bound q ys) \<and>
     unat (range_min r) = n + length (concat cs1) \<and> unat (range_min r) \<le> unat (range_min q) \<and>
     unat (range_min q) < unat (range_max r) \<and> fc_layout (unat (range_min r)) ((r, p) # ys) (c # cs2)"

lemma locate_layout:
  assumes "fc_layout n m cs" "n \<le> unat (range_min q)" "unat (range_min q) < n + length (concat cs)"
  shows "\<exists>xs r p ys cs1 c cs2. located n m cs q xs r p ys cs1 c cs2"
  using assms
proof (induction m arbitrary: n cs)
  case Nil
  then show ?case by simp
next
  case (Cons rp m)
  obtain r p where rp: "rp = (r, p)" by (cases rp)
  from Cons.prems(1) obtain c cs' where cs: "cs = c # cs'" and fd: "fd_serves (part_fhandle p) c"
    and c: "c \<noteq> []" "unat (part_size p) = length c" and r: "unat (range_min r) = n"
      "unat (range_max r) = n + length c" and lay: "fc_layout (n + length c) m cs'"
    unfolding rp by (rule fc_layout_ConsE)
  have not_less: "\<not> less_range q r"
    using Cons.prems(2) r by (simp add: less_range_def word_nat_alt)
  show ?case
  proof (cases "n + length c \<le> unat (range_min q)")
    case True
    then have less: "less_range r q" using c(1) r length_greater_0_conv [of c]
      by (simp add: less_range_def word_nat_alt del: length_greater_0_conv)
    have "unat (range_min q) < n + length c + length (concat cs')" using Cons.prems(3) cs by simp
    from Cons.IH [OF lay True this]
    obtain xs r' p' ys cs1 c' cs2 where "located (n + length c) m cs' q xs r' p' ys cs1 c' cs2"
      by blast
    then have "located n ((r, p) # m) cs q ((r, p) # xs) r' p' ys (c # cs1) c' cs2"
      using less not_less cs unfolding located_def
      by (auto simp add: lower_bound_Cons upper_bound_Cons del: fc_layout.simps)
    then show ?thesis unfolding rp by blast
  next
    case False
    then have "\<not> less_range r q" using r by (simp add: less_range_def word_nat_alt)
    then have "located n ((r, p) # m) cs q [] r p m [] c cs'"
      using not_less cs r False Cons.prems(1,2) unfolding rp located_def
      by (simp add: lower_bound_Cons upper_bound_Cons del: fc_layout.simps)
    then show ?thesis unfolding rp by blast
  qed
qed

lemma upper_bound_0:
  assumes "fc_layout n m cs" "upper_bound q m = 0" "unat (range_max q) \<le> n + length (concat cs)"
  shows "unat (range_max q) \<le> n"
  using assms
  by (cases m; cases cs) (auto simp: upper_bound_Cons less_range_def word_nat_alt split: if_splits)

lemma slice_at_middle:
  assumes "length xs \<le> off" "off + n \<le> length xs + length ys"
  shows "slice_at off n (xs @ ys @ zs) = slice_at (off - length xs) n ys"
  using assms by (simp add: slice_at_def)

section \<open>The contract of a reader\<close>

fun reader_holds :: "Reader \<Rightarrow> bytes \<Rightarrow> bool" where
  "reader_holds (BufferReader b) bs \<longleftrightarrow> buffer_ok b \<and> buf_bytes b = bs \<and> length bs < 2 ^ 63"
| "reader_holds (FileReader fd off sz) bs \<longleftrightarrow>
     (\<exists>c. fd_serves fd c \<and> unat off + unat sz \<le> length c \<and> bs = slice_at (unat off) (unat sz) c)"
| "reader_holds (MultiPartFileReader fc off sz) bs \<longleftrightarrow>
     (\<exists>cs. fc_holds fc cs \<and> unat off + unat sz \<le> length (concat cs) \<and>
        bs = slice_at (unat off) (unat sz) (concat cs))"

lemma reader_holds_size: "reader_holds r bs \<Longrightarrow> unat (reader_size r) = length bs \<and> length bs < 2 ^ 63"
  by (cases r) (auto simp: buffer_ok_length length_slice_at fc_holds_def dest: fd_serves_D(1))

lemma reader_in_range:
  assumes "reader_holds r bs" "unat off + unat sz \<le> length bs"
  shows "unat (off + sz) = unat off + unat sz" "off \<le> reader_size r" "off + sz \<le> reader_size r"
    "sz \<le> reader_size r"
proof -
  show *: "unat (off + sz) = unat off + unat sz"
    using reader_holds_size [OF assms(1)] assms(2) by (intro unat_add_small) simp
  show "off \<le> reader_size r" "off + sz \<le> reader_size r" "sz \<le> reader_size r"
    using * reader_holds_size [OF assms(1)] assms(2) by (simp_all add: word_le_nat_alt)
qed

lemma unat_add_shift:
  "unat a + unat b < 2 ^ 63 \<Longrightarrow> unat (a + b) = unat a + unat (b :: u64)"
  by (intro unat_add_small) simp

lemma reader_read_exact:
  assumes h: "reader_holds r bs" and rng: "unat off + unat sz \<le> length bs"
    and dest: "length dest = unat sz" and n: "unat sz \<le> max_transfer"
  shows "reader_read r dest off sz = Inr (slice_at (unat off) (unat sz) bs)"
proof (cases "sz = 0")
  case True
  with dest reader_in_range [OF h rng] show ?thesis by (cases r) simp_all
next
  case False
  note R = reader_in_range [OF h rng]
  show ?thesis
  proof (cases r)
    case (BufferReader b)
    then have "drop (unat off) (buf_bytes b) = take (unat (buf_size b) - unat off) (drop (unat off) (buf_data b))"
      by (simp add: buf_bytes_def drop_take)
    with BufferReader R False h rng dest show ?thesis
      by (auto simp: buffer_data_def memcpy_def slice_at_def buffer_ok_def buf_bytes_def)
  next
    case (FileReader fd off0 size0)
    then obtain c where c: "fd_serves fd c" "unat off0 + unat size0 \<le> length c"
      "bs = slice_at (unat off0) (unat size0) c" using h by auto
    have len: "length bs = unat size0" using c by (simp add: length_slice_at)
    have "unat (off + off0) = unat off + unat off0"
      using c rng len fd_serves_D(1) [OF c(1)] by (intro unat_add_shift) linarith
    with c len rng n dest False R FileReader show ?thesis
      by (simp add: readAt_exact slice_at_slice_at add.commute)
  next
    case (MultiPartFileReader fc off0 size0)
    then obtain cs where cs: "fc_holds fc cs" "unat off0 + unat size0 \<le> length (concat cs)"
      "bs = slice_at (unat off0) (unat size0) (concat cs)" using h by auto
    have len: "length bs = unat size0" using cs by (simp add: length_slice_at)
    have "unat (off + off0) = unat off + unat off0"
      using cs rng len by (intro unat_add_shift) (auto simp: fc_holds_def)
    with cs len rng n dest False R MultiPartFileReader show ?thesis
      using multipart_read_located [of 0 "fc_map fc" cs "off + off0" sz]
      by (simp add: locate_def Let_def fc_holds_def slice_at_slice_at add.commute)
  qed
qed

lemma located_slice:
  assumes loc: "located 0 m cs q xs r p ys cs1 c cs2"
    and q: "unat (range_max q) = unat (range_min q) + n" "unat (range_max q) \<le> unat (range_max r)"
  shows "slice_at (unat (range_min q)) n (concat cs) = slice_at (unat (range_min q) - unat (range_min r)) n c"
    "unat (range_min q) - unat (range_min r) + n \<le> length c"
proof -
  from loc have "fc_layout (unat (range_min r)) ((r, p) # ys) (c # cs2)" unfolding located_def by blast
  then have "unat (range_max r) = unat (range_min r) + length c" by auto
  with loc q slice_at_middle [of "concat cs1" "unat (range_min q)" n c "concat cs2"]
  show "slice_at (unat (range_min q)) n (concat cs) = slice_at (unat (range_min q) - unat (range_min r)) n c"
    "unat (range_min q) - unat (range_min r) + n \<le> length c"
    by (auto simp: located_def simp del: fc_layout.simps)
qed

lemma located_part:
  assumes "located n m cs q xs r p ys cs1 c cs2"
  shows "fd_serves (part_fhandle p) c" "unat (part_size p) = length c"
    "unat (range_min r) \<le> unat (range_min q)" "lower_bound q m = length xs" "length xs < length m"
    "m ! length xs = (r, p)" "unat (range_min q) < unat (range_max r)" "upper_bound q m = length xs + Suc (upper_bound q ys)"
    "fc_layout (unat (range_max r)) ys cs2" "unat (range_max r) = unat (range_min r) + length c"
    "unat (range_max r) + length (concat cs2) = n + length (concat cs)"
  using assms by (auto simp: located_def)

lemma multipart_read_char_exact:
  assumes h: "reader_holds (MultiPartFileReader fc off0 size0) bs" and rng: "unat off < length bs"
  shows "reader_read_char junk (MultiPartFileReader fc off0 size0) off = Inr (bs ! unat off)"
proof -
  from h obtain cs where cs: "fc_holds fc cs" "unat off0 + unat size0 \<le> length (concat cs)"
    "bs = slice_at (unat off0) (unat size0) (concat cs)" by auto
  have len: "length bs = unat size0" using cs by (simp add: length_slice_at)
  define o' where "o' = off + off0"
  define q where "q = \<lparr>range_min = o', range_max = o'\<rparr>"
  have o': "unat o' = unat off + unat off0" unfolding o'_def
    using cs rng len by (intro unat_add_shift) (auto simp: fc_holds_def)
  obtain xs r p ys cs1 c cs2 where loc: "located 0 (fc_map fc) cs q xs r p ys cs1 c cs2"
    using locate_layout [of 0 "fc_map fc" cs q] cs o' rng len by (auto simp: fc_holds_def q_def)
  note L = located_part [OF loc]
  have qm: "range_min q = o'" by (simp add: q_def)
  let ?l = "o' - range_min r"
  have l: "unat ?l = unat o' - unat (range_min r)" using L(3) by (simp add: unat_diff qm)
  have in_c: "unat ?l < length c" using L(3,7,10) l by (simp add: qm)
  have "readAt (part_fhandle p) [junk 0] 1 ?l = Inr (slice_at (unat ?l) 1 c, 1)"
    using readAt_exact [OF L(1), of ?l 1] in_c by (simp add: max_transfer_def)
  moreover have "slice_at (unat ?l) 1 c = [c ! unat ?l]"
    using in_c by (simp add: slice_at_def Cons_nth_drop_Suc [symmetric])
  moreover have "c ! unat ?l = bs ! unat off"
  proof -
    have "bs ! unat off = concat cs ! unat o'"
      using cs(2,3) rng len o' by (simp add: slice_at_def add.commute)
    also have "\<dots> = c ! unat ?l"
      using loc in_c l by (auto simp: located_def nth_append qm)
    finally show ?thesis by simp
  qed
  moreover have "?l \<le> range_max r" using l L(7,10) by (simp add: word_le_nat_alt qm)
  ultimately show ?thesis
    using rng len L(4-6)
    by (simp add: locate1_def Let_def o'_def [symmetric] q_def [symmetric] word_less_nat_alt)
qed

lemma reader_read_char_exact:
  assumes h: "reader_holds r bs" and rng: "unat off < length bs"
  shows "reader_read_char junk r off = Inr (bs ! unat off)"
proof (cases r)
  case (BufferReader b)
  with h rng show ?thesis
    by (auto simp: buffer_at_def buffer_data_def buffer_ok_def buf_bytes_def word_less_nat_alt
        word_le_nat_alt Cons_nth_drop_Suc [symmetric])
next
  case (FileReader fd off0 size0)
  then obtain c where c: "fd_serves fd c" "unat off0 + unat size0 \<le> length c"
    "bs = slice_at (unat off0) (unat size0) c" using h by auto
  have len: "length bs = unat size0" using c by (simp add: length_slice_at)
  have o': "unat (off + off0) = unat off + unat off0"
    using c rng len fd_serves_D(1) [OF c(1)] by (intro unat_add_shift) linarith
  have "readAt fd [junk 0] 1 (off + off0) = Inr (slice_at (unat (off + off0)) 1 c, 1)"
    using readAt_exact [OF c(1), of "off + off0" 1] o' c rng len by (simp add: max_transfer_def)
  moreover have "slice_at (unat (off + off0)) 1 c = [c ! (unat off + unat off0)]"
    using o' c(2) rng len by (simp add: slice_at_def Cons_nth_drop_Suc [symmetric])
  ultimately show ?thesis
    using FileReader rng len c(2,3) by (simp add: word_less_nat_alt slice_at_def add.commute)
next
  case (MultiPartFileReader fc off0 size0)
  then show ?thesis using multipart_read_char_exact h rng by blast
qed

lemma fresh_buffer_read:
  assumes h: "reader_holds r bs" and rng: "unat off + unat sz \<le> length bs" and n: "unat sz \<le> max_transfer"
  shows "\<exists>b. rbind (makeBuffer_fresh junk sz) (\<lambda>b. rbind (buffer_data 0 b) (\<lambda>dest.
      rbind (reader_read r dest off sz) (\<lambda>dest'. Inr (b\<lparr>buf_data := dest'\<rparr>)))) = Inr b \<and>
    buffer_ok b \<and> buf_size b = sz \<and> buf_bytes b = slice_at (unat off) (unat sz) bs"
proof -
  have "sz < SIZE_MAX" using rng reader_holds_size [OF h] by (intro SIZE_MAX_less) linarith
  with reader_read_exact [OF h rng _ n, of "map junk [0..<unat sz]"] rng show ?thesis
    by (simp add: makeBuffer_fresh_def mkBuffer_def buffer_data_def buffer_ok_def buf_bytes_def
        length_slice_at)
qed

lemma multipart_get_buffer_exact:
  assumes h: "reader_holds (MultiPartFileReader fc off0 size0) bs"
    and rng: "unat off + unat sz \<le> length bs" "sz \<noteq> 0" and n: "unat sz \<le> max_transfer"
  shows "\<exists>b. get_buffer junk (MultiPartFileReader fc off0 size0) off sz = Inr b \<and> buffer_ok b \<and>
    buf_size b = sz \<and> buf_bytes b = slice_at (unat off) (unat sz) bs"
proof -
  from h obtain cs where cs: "fc_holds fc cs" "unat off0 + unat size0 \<le> length (concat cs)"
    "bs = slice_at (unat off0) (unat size0) (concat cs)" by auto
  have len: "length bs = unat size0" using cs by (simp add: length_slice_at)
  have sz: "0 < unat sz" using rng(2) by (simp add: unat_gt_0)
  define o' where "o' = off0 + off"
  have o': "unat o' = unat off + unat off0" unfolding o'_def
    using cs rng len by (subst unat_add_shift) (auto simp: fc_holds_def)
  have add: "unat (o' + sz) = unat o' + unat sz"
    using cs rng len o' by (intro unat_add_shift) (auto simp: fc_holds_def)
  define q where "q = \<lparr>range_min = o', range_max = o' + sz\<rparr>"
  obtain xs r p ys cs1 c cs2 where loc: "located 0 (fc_map fc) cs q xs r p ys cs1 c cs2"
    using locate_layout [of 0 "fc_map fc" cs q] cs o' rng(1) sz len by (auto simp: fc_holds_def q_def)
  note L = located_part [OF loc]
  have ge: "get_buffer junk (MultiPartFileReader fc off0 size0) off sz =
      (if upper_bound q ys \<noteq> 0 then
         rbind (makeBuffer_fresh junk sz) (\<lambda>b. rbind (buffer_data 0 b) (\<lambda>dest.
           rbind (reader_read (MultiPartFileReader fc off0 size0) dest off sz) (\<lambda>dest'. Inr (b\<lparr>buf_data := dest'\<rparr>))))
       else ASSERT (sz \<le> part_size p)
         (rbind (makeMmappedBuffer (part_fhandle p) (o' - range_min r) sz) (\<lambda>b. mkBuffer b sz)))"
    using L(4-6,8) reader_in_range(4) [OF h rng(1)]
    by (simp add: locate_def Let_def o'_def q_def add.commute [of off off0])
  show ?thesis
  proof (cases "upper_bound q ys = 0")
    case False
    with fresh_buffer_read [OF h rng(1) n, of junk] show ?thesis unfolding ge by simp
  next
    case True
    have q: "unat (range_max q) = unat (range_min q) + unat sz" "range_min q = o'"
      by (simp_all add: q_def add)
    have "unat (range_max q) \<le> unat (range_max r)"
      using upper_bound_0 [OF L(9) True] L(11) q o' rng(1) len cs(2) by simp
    note S = located_slice [OF loc q(1) this]
    have l: "unat (o' - range_min r) = unat o' - unat (range_min r)" using L(3) by (simp add: unat_diff q)
    then have "unat (o' - range_min r) + unat sz \<le> length c" "sz \<le> part_size p"
      using S(2) L(2) q(2) by (simp_all add: word_le_nat_alt)
    with mmapped_buffer_ok [OF L(1) this(1) rng(2)] show ?thesis
      unfolding ge using True l S(1) q(2) o' cs(3) rng(1) len by (simp add: slice_at_slice_at add.commute)
  qed
qed

lemma get_buffer_exact:
  assumes h: "reader_holds r bs" and rng: "unat off + unat sz \<le> length bs" "sz \<noteq> 0"
    and n: "unat sz \<le> max_transfer"
  shows "\<exists>b. get_buffer junk r off sz = Inr b \<and> buffer_ok b \<and> buf_size b = sz \<and>
    buf_bytes b = slice_at (unat off) (unat sz) bs"
proof (cases r)
  case (BufferReader b)
  then show ?thesis using sub_buffer_ok [of b off sz] h rng reader_holds_size [OF h] by auto
next
  case (FileReader fd off0 size0)
  then obtain c where c: "fd_serves fd c" "unat off0 + unat size0 \<le> length c"
    "bs = slice_at (unat off0) (unat size0) c" using h by auto
  have len: "length bs = unat size0" using c by (simp add: length_slice_at)
  have "unat (off + off0) = unat off + unat off0"
    using c rng len fd_serves_D(1) [OF c(1)] by (intro unat_add_shift) linarith
  then show ?thesis
    using mmapped_buffer_ok [OF c(1), of "off + off0" sz] c rng len reader_in_range(4) [OF h rng(1)] FileReader
    by (simp add: slice_at_slice_at add.commute)
next
  case (MultiPartFileReader fc off0 size0)
  then show ?thesis using multipart_get_buffer_exact [of fc off0 size0 bs off sz junk] h rng n by simp
qed

lemma sub_reader_exact:
  assumes h: "reader_holds r bs" and rng: "unat off + unat sz \<le> length bs"
  shows "\<exists>r'. sub_reader junk r off sz = Inr r' \<and> reader_holds r' (slice_at (unat off) (unat sz) bs)"
proof (cases r)
  case (BufferReader b)
  then show ?thesis using sub_buffer_ok [of b off sz] h rng reader_holds_size [OF h]
    by (auto simp: length_slice_at)
next
  case (FileReader fd off0 size0)
  then obtain c where c: "fd_serves fd c" "unat off0 + unat size0 \<le> length c"
    "bs = slice_at (unat off0) (unat size0) c" using h by auto
  have len: "length bs = unat size0" using c by (simp add: length_slice_at)
  have o: "unat (off0 + off) = unat off0 + unat off"
    using c rng len fd_serves_D(1) [OF c(1)] by (intro unat_add_shift) linarith
  have "slice_at (unat off) (unat sz) bs = slice_at (unat (off0 + off)) (unat sz) c"
    using o c(3) rng len by (simp add: slice_at_slice_at)
  then show ?thesis
    using c o rng len reader_in_range(3) [OF h rng] FileReader
    by (auto intro!: exI [of _ c])
next
  case (MultiPartFileReader fc off0 size0)
  then obtain cs where cs: "fc_holds fc cs" "unat off0 + unat size0 \<le> length (concat cs)"
    "bs = slice_at (unat off0) (unat size0) (concat cs)" using h by auto
  have len: "length bs = unat size0" using cs by (simp add: length_slice_at)
  have o: "unat (off0 + off) = unat off0 + unat off"
    using cs rng len by (intro unat_add_shift) (auto simp: fc_holds_def)
  have o2: "unat (off0 + off + sz) = unat off0 + unat off + unat sz"
    using cs rng len o by (subst unat_add_shift) (auto simp: fc_holds_def)
  have "slice_at (unat off) (unat sz) bs = slice_at (unat (off0 + off)) (unat sz) (concat cs)"
    using o cs(3) rng len by (simp add: slice_at_slice_at)
  then show ?thesis
    using cs o o2 rng len reader_in_range(3) [OF h rng] MultiPartFileReader
    by (auto simp: mkMultiPartFileReader_def fc_holds_def word_le_nat_alt intro!: exI [of _ cs])
qed

text \<open>
  What a client of \<^verbatim>\<open>Reader\<close> may rely on: inside the bytes the reader holds, each virtual method
  gives exactly the bytes asked for. The lemmas in the locale are about the methods that the base
  class builds on them.
\<close>

locale reader_contract =
  fixes rsize :: "'r \<Rightarrow> u64"
    and rread :: "'r \<Rightarrow> bytes \<Rightarrow> u64 \<Rightarrow> u64 \<Rightarrow> bytes res"
    and rchar :: "'r \<Rightarrow> u64 \<Rightarrow> byte res"
    and rbuffer :: "'r \<Rightarrow> u64 \<Rightarrow> u64 \<Rightarrow> Buffer res"
    and rsub :: "'r \<Rightarrow> u64 \<Rightarrow> u64 \<Rightarrow> 'r res"
    and holds :: "'r \<Rightarrow> bytes \<Rightarrow> bool"
  assumes holds_size: "holds r bs \<Longrightarrow> unat (rsize r) = length bs \<and> length bs < 2 ^ 63"
    and read_exact: "holds r bs \<Longrightarrow> unat off + unat sz \<le> length bs \<Longrightarrow> length dest = unat sz \<Longrightarrow>
      unat sz \<le> max_transfer \<Longrightarrow> rread r dest off sz = Inr (slice_at (unat off) (unat sz) bs)"
    and char_exact: "holds r bs \<Longrightarrow> unat off < length bs \<Longrightarrow> rchar r off = Inr (bs ! unat off)"
    and buffer_exact: "holds r bs \<Longrightarrow> unat off + unat sz \<le> length bs \<Longrightarrow> sz \<noteq> 0 \<Longrightarrow>
      unat sz \<le> max_transfer \<Longrightarrow> \<exists>b. rbuffer r off sz = Inr b \<and> buffer_ok b \<and> buf_size b = sz \<and>
        buf_bytes b = slice_at (unat off) (unat sz) bs"
    and sub_exact: "holds r bs \<Longrightarrow> unat off + unat sz \<le> length bs \<Longrightarrow>
      \<exists>r'. rsub r off sz = Inr r' \<and> holds r' (slice_at (unat off) (unat sz) bs)"
begin

lemma can_read_iff:
  assumes "holds r bs" "unat off + unat sz < 2 ^ 64"
  shows "base_can_read rsize r off sz \<longleftrightarrow> unat off + unat sz \<le> length bs"
  using holds_size [OF assms(1)] assms(2)
  by (auto simp: base_can_read_def word_le_nat_alt unat_add_small)

lemma read_uint_exact:
  assumes h: "holds r bs" and n: "sizeof TYPE('a::len) = n" "0 < n" "n \<le> 8" and rng: "unat off + n \<le> length bs"
  shows "base_read_uint rsize rread junk r off = Inr (fromLittleEndian (slice_at (unat off) n bs) :: 'a word)"
proof -
  have un: "unat (of_nat n :: u64) = n" using n by (simp add: unat_of_nat_small)
  then have "unat (off + of_nat n) = unat off + n"
    using rng holds_size [OF h] by (subst unat_add_small) simp_all
  moreover have "rread r (map junk [0..<n]) off (of_nat n) = Inr (slice_at (unat off) n bs)"
    using read_exact [OF h, of off "of_nat n"] un rng n by (simp add: max_transfer_def)
  ultimately show ?thesis
    using holds_size [OF h] rng n
    by (simp add: base_read_uint_def Let_def word_less_nat_alt word_le_nat_alt)
qed

lemma rest_exact:
  assumes h: "holds r bs" and off: "unat off < length bs"
  shows "\<exists>r'. base_sub_reader rsize rsub r off = Inr r' \<and> holds r' (drop (unat off) bs)"
    and "length bs \<le> max_transfer \<Longrightarrow> \<exists>b. base_get_buffer rsize rbuffer r off = Inr b \<and> buffer_ok b \<and>
      buf_bytes b = drop (unat off) bs"
proof -
  have sz: "unat (rsize r - off) = length bs - unat off"
    using holds_size [OF h] off by (simp add: unat_diff)
  then have "slice_at (unat off) (unat (rsize r - off)) bs = drop (unat off) bs"
    by (simp add: slice_at_def)
  moreover have "rsize r - off \<noteq> 0" using sz off by auto
  moreover have "length bs - unat off \<le> max_transfer" if "length bs \<le> max_transfer" using that by simp
  ultimately show "\<exists>r'. base_sub_reader rsize rsub r off = Inr r' \<and> holds r' (drop (unat off) bs)"
    "length bs \<le> max_transfer \<Longrightarrow> \<exists>b. base_get_buffer rsize rbuffer r off = Inr b \<and> buffer_ok b \<and>
      buf_bytes b = drop (unat off) bs"
    using sub_exact [OF h, of off "rsize r - off"] buffer_exact [OF h, of off "rsize r - off"] sz off
    by (auto simp: base_sub_reader_def base_get_buffer_def) (blast+)?
qed

end

interpretation rd: reader_contract reader_size reader_read "reader_read_char junk" "get_buffer junk"
    "sub_reader junk" reader_holds for junk
  by unfold_locales (rule reader_holds_size, assumption, simp_all add: reader_read_exact
      reader_read_char_exact get_buffer_exact sub_reader_exact)

section \<open>Building a compound from its files\<close>

lemma fc_layout_snoc:
  "fc_layout n m cs \<Longrightarrow> fd_serves (part_fhandle p) c \<Longrightarrow> c \<noteq> [] \<Longrightarrow> unat (part_size p) = length c \<Longrightarrow>
   unat (range_min r) = n + length (concat cs) \<Longrightarrow> unat (range_max r) = n + length (concat cs) + length c \<Longrightarrow>
   fc_layout n (m @ [(r, p)]) (cs @ [c])"
  by (induction n m cs rule: fc_layout.induct) (auto split: list.splits)

lemma fc_layout_ranges:
  "fc_layout n m cs \<Longrightarrow> (r, p) \<in> set m \<Longrightarrow>
   unat (range_min r) < unat (range_max r) \<and> unat (range_max r) \<le> n + length (concat cs)"
  by (induction n m cs rule: fc_layout.induct) (fastforce split: list.splits)+

lemma addPart_holds:
  assumes fc: "fc_holds fc cs" and p: "fd_serves (part_fhandle p) c" "c \<noteq> []" "unat (part_size p) = length c"
    and bound: "length (concat cs) + length c < 2 ^ 63"
  shows "fc_holds (addPart p fc) (cs @ [c])"
proof -
  let ?r = "\<lparr>range_min = fsize fc, range_max = fsize fc + part_size p\<rparr>"
  have sz: "unat (fsize fc + part_size p) = length (concat cs) + length c"
    using fc p(3) bound by (simp add: fc_holds_def unat_add_shift)
  have "less_range (fst q) ?r" if "q \<in> set (fc_map fc)" for q
    using fc_layout_ranges [of 0 "fc_map fc" cs "fst q" "snd q"] that fc
    by (auto simp: fc_holds_def less_range_def word_nat_alt)
  then have "emplace ?r p (fc_map fc) = fc_map fc @ [(?r, p)]"
    by (simp add: emplace_def lower_bound_def takeWhile_eq_all_conv [THEN iffD2])
  then show ?thesis
    using fc p sz bound fc_layout_snoc [of 0 "fc_map fc" cs p c ?r]
    by (simp add: addPart_def Let_def fc_holds_def)
qed

text \<open>The chunks that exist: the first \<open>length cs\<close> names can be opened, the next cannot.\<close>

fun chunks_exist :: "(bytes \<Rightarrow> FD option) \<Rightarrow> bytes \<Rightarrow> bytes list \<Rightarrow> bytes list \<Rightarrow> bool" where
  "chunks_exist open_file filename [] cs \<longleftrightarrow> cs = []"
| "chunks_exist open_file filename (x # xs) cs \<longleftrightarrow>
     (case cs of [] \<Rightarrow> open_file (filename @ x) = None
      | c # cs' \<Rightarrow> c \<noteq> [] \<and> (\<exists>fd. open_file (filename @ x) = Some fd \<and> fd_serves fd c) \<and>
          chunks_exist open_file filename xs cs')"

lemma add_chunks_holds:
  assumes "chunks_exist open_file filename xs cs" "fc_holds fc cs0" "length (concat (cs0 @ cs)) < 2 ^ 63"
  shows "fc_holds (add_chunks open_file filename xs fc) (cs0 @ cs)"
  using assms
proof (induction xs arbitrary: cs cs0 fc)
  case Nil
  then show ?case by simp
next
  case (Cons x xs)
  show ?case
  proof (cases cs)
    case Nil
    with Cons.prems show ?thesis by (simp add: mkFilePart_def)
  next
    case (Cons c cs')
    with Cons.prems(1) obtain fd where fd: "open_file (filename @ x) = Some fd" "fd_serves fd c" "c \<noteq> []"
      "chunks_exist open_file filename xs cs'" by auto
    let ?p = "\<lparr>part_filename = filename @ x, part_fhandle = fd, part_size = fd_stat_size fd\<rparr>"
    have "fc_holds (addPart ?p fc) (cs0 @ [c])"
      using fd Cons Cons.prems(2,3) fd_serves_D(2) [OF fd(2)] by (intro addPart_holds) simp_all
    from Cons.IH [OF fd(4) this] fd Cons Cons.prems(3) show ?thesis by (simp add: mkFilePart_def)
  qed
qed

lemma fc_holds_empty: "fc_holds \<lparr>fc_map = [], fsize = 0\<rparr> []"
  by (simp add: fc_holds_def)

lemma fc_map_nonempty: "fc_holds fc cs \<Longrightarrow> cs \<noteq> [] \<Longrightarrow> fc_map fc \<noteq> []"
  by (auto simp: fc_holds_def)

text \<open>A file held in memory, for the examples.\<close>

definition mem_fd :: "bytes \<Rightarrow> FD" where
  "mem_fd c = \<lparr>fd_pread = (\<lambda>n off. Some (slice_at (unat off) (unat n) c)),
     fd_mmap = (\<lambda>off n. Some (slice_at (unat off) (unat n) c)), fd_stat_size = of_nat (length c)\<rparr>"

lemma mem_fd_serves: "length c < 2 ^ 63 \<Longrightarrow> fd_serves (mem_fd c) c"
  by (simp add: fd_serves_def mem_fd_def unat_of_nat_small)

section \<open>Properties\<close>

text \<open>C14: An archive split into the files \<^verbatim>\<open>name.zimaa\<close>, \<^verbatim>\<open>name.zimab\<close>, \<dots> reads as their
  concatenation: opening the compound succeeds, its size is the sum of the sizes, and a read
  anywhere in it, within one file or across several, gives exactly those bytes of the concatenated
  contents.\<close>

theorem split_archive_reads_as_concatenation:
  assumes "open_file filename = None" "chunks_exist open_file filename chunk_suffixes cs" "cs \<noteq> []"
    and "length (concat cs) < 2 ^ 63"
  shows "\<exists>fc. mkFileCompound open_file filename = Inr fc \<and> unat (fsize fc) = length (concat cs) \<and>
    (\<forall>off sz dest. unat off + unat sz \<le> length (concat cs) \<longrightarrow> length dest = unat sz \<longrightarrow>
       unat sz \<le> max_transfer \<longrightarrow>
       reader_read (MultiPartFileReader fc 0 (fsize fc)) dest off sz
         = Inr (take (unat sz) (drop (unat off) (concat cs))))"
proof -
  define fc where "fc = add_chunks open_file filename chunk_suffixes \<lparr>fc_map = [], fsize = 0\<rparr>"
  have fc: "fc_holds fc cs"
    using add_chunks_holds [OF assms(2) fc_holds_empty] assms(4) by (simp add: fc_def)
  then have "mkFileCompound open_file filename = Inr fc"
    using fc_map_nonempty [OF fc assms(3)] assms(1) by (simp add: mkFileCompound_def mkFilePart_def fc_def Let_def)
  moreover have sz: "unat (fsize fc) = length (concat cs)" using fc by (simp add: fc_holds_def)
  moreover have "reader_holds (MultiPartFileReader fc 0 (fsize fc)) (concat cs)"
    using fc sz by (auto simp: slice_at_def intro!: exI [of _ cs])
  ultimately show ?thesis using rd.read_exact by (fastforce simp: slice_at_def)
qed

theorem split_archive_reads_as_concatenation_witness:
  "\<exists>fc. mkFileCompound (\<lambda>f. if f = [1, 97, 97] then Some (mem_fd [10, 11, 12])
        else if f = [1, 97, 98] then Some (mem_fd [13, 14]) else None) [1] = Inr fc \<and>
     reader_read (MultiPartFileReader fc 0 (fsize fc)) [0, 0] 2 2 = Inr [12, 13]"
proof -
  let ?o = "\<lambda>f. if f = [1, 97, 97] then Some (mem_fd [10, 11, 12])
        else if f = [1, 97, 98] then Some (mem_fd [13, 14]) else None"
  have suf: "chunk_suffixes = [97, 97] # [97, 98] # [97, 99] # drop 3 chunk_suffixes"
    by (simp add: chunk_suffixes_def letters_def upt_rec)
  have "chunks_exist ?o [1] chunk_suffixes [[10, 11, 12], [13, 14]]"
    by (subst suf) (auto simp: mem_fd_serves)
  from split_archive_reads_as_concatenation [OF _ this] obtain fc where
    "mkFileCompound ?o [1] = Inr fc" and r: "\<forall>off sz dest. unat off + unat sz \<le> 5 \<longrightarrow>
      length dest = unat sz \<longrightarrow> unat sz \<le> max_transfer \<longrightarrow>
      reader_read (MultiPartFileReader fc 0 (fsize fc)) dest off sz
        = Inr (take (unat sz) (drop (unat off) [10, 11, 12, 13, 14]))"
    by (auto simp del: reader_read.simps)
  with r [rule_format, of 2 2 "[0, 0]"] show ?thesis
    by (simp add: max_transfer_def del: reader_read.simps)
qed

text \<open>Every reader class delivers what it holds: for a buffer, a file region or a region of a
  compound, \<^verbatim>\<open>read\<close>, the reading of one character, \<^verbatim>\<open>get_buffer\<close> and \<^verbatim>\<open>sub_reader\<close> succeed inside
  the region and give exactly the bytes asked for; in particular no assertion fires and nothing
  outside an allocation is touched.\<close>

theorem readers_deliver_their_bytes:
  assumes "reader_holds r bs" "unat off + unat sz \<le> length bs" "sz \<noteq> 0" "unat sz \<le> max_transfer"
    and "length dest = unat sz"
  shows "reader_read r dest off sz = Inr (slice_at (unat off) (unat sz) bs) \<and>
    reader_read_char junk r off = Inr (bs ! unat off) \<and>
    (\<exists>b. get_buffer junk r off sz = Inr b \<and> buf_size b = sz \<and>
       take (unat sz) (buf_data b) = slice_at (unat off) (unat sz) bs) \<and>
    (\<exists>r'. sub_reader junk r off sz = Inr r' \<and> reader_size r' = sz \<and>
       reader_holds r' (slice_at (unat off) (unat sz) bs))"
proof -
  have "unat off < length bs" using assms(2) unat_gt_0 [of sz] assms(3) by linarith
  moreover obtain b where "get_buffer junk r off sz = Inr b" "buf_size b = sz"
      "buf_bytes b = slice_at (unat off) (unat sz) bs"
    using rd.buffer_exact [OF assms(1-4)] by blast
  moreover obtain r' where r': "sub_reader junk r off sz = Inr r'"
      "reader_holds r' (slice_at (unat off) (unat sz) bs)"
    using rd.sub_exact [OF assms(1,2)] by blast
  moreover from this have "unat (reader_size r') = unat sz"
    using reader_holds_size assms(2) by (simp add: length_slice_at)
  ultimately show ?thesis
    using rd.read_exact [OF assms(1,2,5,4)] rd.char_exact [OF assms(1)]
    by (auto simp: buf_bytes_def word_unat_eq_iff)
qed

theorem readers_deliver_their_bytes_witness:
  "reader_holds (FileReader (mem_fd [1, 2, 3, 4, 5]) 1 4) [2, 3, 4, 5] \<and>
   reader_read (FileReader (mem_fd [1, 2, 3, 4, 5]) 1 4) [0, 0] 1 2 = Inr [3, 4]"
proof -
  have "reader_holds (FileReader (mem_fd [1, 2, 3, 4, 5]) 1 4) [2, 3, 4, 5]"
    by (auto simp: slice_at_def mem_fd_serves intro!: exI [of _ "[1, 2, 3, 4, 5]"])
  from this readers_deliver_their_bytes [OF this, of 1 2 "[0, 0]"] show ?thesis
    by (simp add: max_transfer_def slice_at_def)
qed

text \<open>\<^verbatim>\<open>FD::readAt\<close> does not return when it is asked for bytes beyond the end of the file: \<^verbatim>\<open>pread\<close>
  then returns 0, and the loop, which only looks for -1, tries again for ever.\<close>

theorem readAt_past_end_never_returns:
  assumes "fd_serves fd c" "unat off < 2 ^ 63" "unat sz \<le> max_transfer" "length c < unat off + unat sz" "sz \<noteq> 0"
  shows "readAt fd dest sz off = Inl NoReturn"
  using readAt_loop_past_end [OF assms] by (simp add: readAt_def)

theorem readAt_past_end_never_returns_witness:
  "readAt (mem_fd [1, 2, 3]) [0, 0] 2 2 = Inl NoReturn"
  by (rule readAt_past_end_never_returns [OF mem_fd_serves]) (simp_all add: max_transfer_def)

text \<open>\<^verbatim>\<open>FD::readAt\<close> loses data when \<^verbatim>\<open>pread\<close> transfers less than it was asked for, as the kernel may
  (Linux always does beyond \<^verbatim>\<open>0x7ffff000\<close> bytes): the second call writes to the start of \<^verbatim>\<open>dest\<close>
  again, and \<^verbatim>\<open>readAt\<close> still reports the full size.\<close>

theorem readAt_short_transfer_overwrites:
  assumes "fd_pread fd sz off = Some a" "length a < unat sz"
    and "fd_pread fd (sz - of_nat (length a)) (off + of_nat (length a)) = Some b"
    and "length a + length b = unat sz" "length dest = unat sz"
  shows "readAt fd dest sz off = Inr (b @ drop (length b) (a @ drop (length a) dest), sz)"
proof -
  have "length b = unat sz - length a" using assms(4) by simp
  from readAt_two_calls [OF assms(1-3) this] show ?thesis by (simp add: readAt_def)
qed

theorem readAt_short_transfer_overwrites_witness:
  "readAt \<lparr>fd_pread = (\<lambda>n off. if off = 0 then Some [1, 2] else Some [3]),
      fd_mmap = (\<lambda>_ _. None), fd_stat_size = 3\<rparr> [0, 0, 0] 3 0 = Inr ([3, 2, 0], 3)"
  by (subst readAt_short_transfer_overwrites [where a = "[1, 2]" and b = "[3]"]) simp_all

end
