(* ===== verification/File_Header.thy ===== *)
theory File_Header
  imports Readers
begin

text \<open>
  The 80-byte header of an archive, \<^verbatim>\<open>src/fileheader.h\<close> and \<^verbatim>\<open>src/fileheader.cpp\<close>: its fields,
  writing, reading through a \<^verbatim>\<open>Reader\<close>, and the sanity check. Shown here: writing and reading are
  inverse to each other, and reading accepts exactly the headers with the magic number, a known
  version and fields that pass the sanity check, without ever reading outside its buffer.
\<close>

section \<open>Data\<close>

definition zimMagic :: u32 where "zimMagic = 0x044d495a"
definition zimClassicMajorVersion :: u16 where "zimClassicMajorVersion = 5"
definition zimExtendedMajorVersion :: u16 where "zimExtendedMajorVersion = 6"
definition zimMinorVersion :: u16 where "zimMinorVersion = 1"
definition header_size :: u64 where "header_size = 80"

lemmas header_consts = zimMagic_def zimClassicMajorVersion_def zimExtendedMajorVersion_def
  zimMinorVersion_def header_size_def

record Fileheader =
  majorVersion :: u16
  minorVersion :: u16
  uuid :: bytes
  articleCount :: u32
  titleIdxPos :: u64
  urlPtrPos :: u64
  mimeListPos :: u64
  clusterCount :: u32
  clusterPtrPos :: u64
  mainPage :: u32
  layoutPage :: u32
  checksumPos :: u64

text \<open>The constructor leaves \<^verbatim>\<open>mimeListPos\<close> unset, its value is whatever the memory held.\<close>

definition new_Fileheader :: "bytes \<Rightarrow> u64 \<Rightarrow> Fileheader" where
  "new_Fileheader uuid0 mimeListPos0 =
     \<lparr>majorVersion = zimClassicMajorVersion, minorVersion = zimMinorVersion, uuid = uuid0,
      articleCount = 0, titleIdxPos = 0, urlPtrPos = 0, mimeListPos = mimeListPos0, clusterCount = 0,
      clusterPtrPos = 0, mainPage = - 1, layoutPage = - 1, checksumPos = - 1\<rparr>"

definition hasMainPage :: "Fileheader \<Rightarrow> bool" where
  "hasMainPage h \<longleftrightarrow> mainPage h \<noteq> - 1"

definition hasLayoutPage :: "Fileheader \<Rightarrow> bool" where
  "hasLayoutPage h \<longleftrightarrow> layoutPage h \<noteq> - 1"

definition hasChecksum :: "Fileheader \<Rightarrow> bool" where
  "hasChecksum h \<longleftrightarrow> 80 \<le> mimeListPos h"

definition getChecksumPos :: "Fileheader \<Rightarrow> u64" where
  "getChecksumPos h = (if hasChecksum h then checksumPos h else 0)"

section \<open>Operations\<close>

text \<open>The array filled by \<^verbatim>\<open>Fileheader::write\<close>: each value at its offset, 4 to 72.\<close>

definition header_bytes :: "Fileheader \<Rightarrow> bytes" where
  "header_bytes h =
     toLittleEndian32 zimMagic @
     toLittleEndian16 (majorVersion h) @
     toLittleEndian16 (minorVersion h) @
     uuid h @
     toLittleEndian32 (articleCount h) @
     toLittleEndian32 (clusterCount h) @
     toLittleEndian64 (urlPtrPos h) @
     toLittleEndian64 (titleIdxPos h) @
     toLittleEndian64 (clusterPtrPos h) @
     toLittleEndian64 (mimeListPos h) @
     toLittleEndian32 (mainPage h) @
     toLittleEndian32 (layoutPage h) @
     toLittleEndian64 (getChecksumPos h)"

text \<open>\<open>write_sys\<close> is the system call: the number of bytes it reports as written.\<close>

definition Fileheader_write :: "(bytes \<Rightarrow> int) \<Rightarrow> Fileheader \<Rightarrow> bytes res" where
  "Fileheader_write write_sys h =
     (if write_sys (header_bytes h) \<noteq> 80 then Inl (RuntimeError ''Error writing'')
      else Inr (header_bytes h))"

definition sanity_check :: "Fileheader \<Rightarrow> unit res" where
  "sanity_check h =
     (if (articleCount h \<noteq> 0) \<noteq> (clusterCount h \<noteq> 0) then
        Inl (ZimFileFormatError ''No article <=> No cluster'')
      else if mimeListPos h \<noteq> header_size \<and> mimeListPos h \<noteq> 72 then
        Inl (ZimFileFormatError ''mimelistPos must be 80.'')
      else if urlPtrPos h < mimeListPos h then
        Inl (ZimFileFormatError ''urlPtrPos must be > mimelistPos.'')
      else if titleIdxPos h < mimeListPos h then
        Inl (ZimFileFormatError ''titleIdxPos must be > mimelistPos.'')
      else if clusterPtrPos h < mimeListPos h then
        Inl (ZimFileFormatError ''clusterPtrPos must be > mimelistPos.'')
      else if clusterCount h > articleCount h then
        Inl (ZimFileFormatError ''Cluster count cannot be higher than article count.'')
      else if checksumPos h \<noteq> 0 \<and> checksumPos h < mimeListPos h then
        Inl (ZimFileFormatError ''checksumPos must be > mimeListPos.'')
      else Inr ())"

text \<open>\<^verbatim>\<open>std::copy(current, current + 16, uuid.data)\<close>.\<close>

definition stream_copy :: "nat \<Rightarrow> streamer \<Rightarrow> bytes res" where
  "stream_copy n s = (if length (m_current s) < n then Inl MemoryFault else Inr (take n (m_current s)))"

definition Fileheader_read :: "(nat \<Rightarrow> byte) \<Rightarrow> Reader \<Rightarrow> Fileheader res" where
  "Fileheader_read junk reader =
     rbind (get_buffer junk reader 0 header_size) (\<lambda>buffer.
     let seqReader = BufferStreamer (buf_data buffer) (buf_size buffer) in
     rbind (stream_read seqReader) (\<lambda>(magicNumber :: u32, seqReader).
     if magicNumber \<noteq> zimMagic then Inl (ZimFileFormatError ''Invalid magic number'') else
     rbind (stream_read seqReader) (\<lambda>(major_version :: u16, seqReader).
     if major_version \<noteq> zimClassicMajorVersion \<and> major_version \<noteq> zimExtendedMajorVersion
     then Inl (ZimFileFormatError ''Invalid version'') else
     rbind (stream_read seqReader) (\<lambda>(minor :: u16, seqReader).
     rbind (stream_copy 16 seqReader) (\<lambda>uuid0.
     let seqReader = skip 16 seqReader in
     rbind (stream_read seqReader) (\<lambda>(articleCount0 :: u32, seqReader).
     rbind (stream_read seqReader) (\<lambda>(clusterCount0 :: u32, seqReader).
     rbind (stream_read seqReader) (\<lambda>(urlPtrPos0 :: u64, seqReader).
     rbind (stream_read seqReader) (\<lambda>(titleIdxPos0 :: u64, seqReader).
     rbind (stream_read seqReader) (\<lambda>(clusterPtrPos0 :: u64, seqReader).
     rbind (stream_read seqReader) (\<lambda>(mimeListPos0 :: u64, seqReader).
     rbind (stream_read seqReader) (\<lambda>(mainPage0 :: u32, seqReader).
     rbind (stream_read seqReader) (\<lambda>(layoutPage0 :: u32, seqReader).
     rbind (stream_read seqReader) (\<lambda>(checksumPos0 :: u64, seqReader).
     let h = \<lparr>majorVersion = major_version, minorVersion = minor, uuid = uuid0,
              articleCount = articleCount0, titleIdxPos = titleIdxPos0, urlPtrPos = urlPtrPos0,
              mimeListPos = mimeListPos0, clusterCount = clusterCount0, clusterPtrPos = clusterPtrPos0,
              mainPage = mainPage0, layoutPage = layoutPage0, checksumPos = checksumPos0\<rparr>
     in rbind (sanity_check h) (\<lambda>_. Inr h)))))))))))))))"

section \<open>Reading 80 given bytes\<close>

text \<open>Every run of 80 bytes is the encoding of some header fields.\<close>

definition raw_header :: "u32 \<Rightarrow> Fileheader \<Rightarrow> bytes" where
  "raw_header magic h =
     toLittleEndian32 magic @ toLittleEndian16 (majorVersion h) @ toLittleEndian16 (minorVersion h) @
     uuid h @ toLittleEndian32 (articleCount h) @ toLittleEndian32 (clusterCount h) @
     toLittleEndian64 (urlPtrPos h) @ toLittleEndian64 (titleIdxPos h) @
     toLittleEndian64 (clusterPtrPos h) @ toLittleEndian64 (mimeListPos h) @
     toLittleEndian32 (mainPage h) @ toLittleEndian32 (layoutPage h) @ toLittleEndian64 (checksumPos h)"

definition header_accept :: "u32 \<Rightarrow> Fileheader \<Rightarrow> Fileheader res" where
  "header_accept magic h =
     (if magic \<noteq> zimMagic then Inl (ZimFileFormatError ''Invalid magic number'')
      else if majorVersion h \<noteq> zimClassicMajorVersion \<and> majorVersion h \<noteq> zimExtendedMajorVersion
      then Inl (ZimFileFormatError ''Invalid version'')
      else rbind (sanity_check h) (\<lambda>_. Inr h))"

lemma length_raw_header: "length (uuid h) = 16 \<Longrightarrow> length (raw_header magic h) = 80"
  by (simp add: raw_header_def)

lemma split_bytes:
  assumes "length bs = n + m"
  obtains xs ys where "bs = xs @ ys" "length xs = n" "length ys = m"
  using assms by (metis append_take_drop_id length_take length_drop diff_add_inverse min.absorb2 le_add1)

lemma raw_header_surj:
  assumes "length bs = 80"
  shows "\<exists>magic h. length (uuid h) = 16 \<and> bs = raw_header magic h"
proof -
  define p where "p = (\<lambda>i n. take n (drop i bs))"
  have len: "length (p i n) = n" if "i + n \<le> 80" for i n using that assms by (simp add: p_def)
  have join: "p i n @ p (i + n) m = p i (n + m)" for i n m
    by (simp add: p_def take_add add.commute [of i])
  let ?h = "\<lparr>majorVersion = fromLittleEndian (p 4 2), minorVersion = fromLittleEndian (p 6 2),
    uuid = p 8 16, articleCount = fromLittleEndian (p 24 4), titleIdxPos = fromLittleEndian (p 40 8),
    urlPtrPos = fromLittleEndian (p 32 8), mimeListPos = fromLittleEndian (p 56 8),
    clusterCount = fromLittleEndian (p 28 4), clusterPtrPos = fromLittleEndian (p 48 8),
    mainPage = fromLittleEndian (p 64 4), layoutPage = fromLittleEndian (p 68 4),
    checksumPos = fromLittleEndian (p 72 8)\<rparr>"
  have "bs = p 0 80" using assms by (simp add: p_def)
  also have "\<dots> = p 0 4 @ p 4 2 @ p 6 2 @ p 8 16 @ p 24 4 @ p 28 4 @ p 32 8 @ p 40 8 @ p 48 8 @
      p 56 8 @ p 64 4 @ p 68 4 @ p 72 8"
    using join [of 68 4 8] join [of 64 4 12] join [of 56 8 16] join [of 48 8 24] join [of 40 8 32]
      join [of 32 8 40] join [of 28 4 48] join [of 24 4 52] join [of 8 16 56] join [of 6 2 72]
      join [of 4 2 74] join [of 0 4 76] by simp
  also have "\<dots> = raw_header (fromLittleEndian (p 0 4)) ?h"
    by (simp add: raw_header_def to_from len)
  finally show ?thesis using len [of 8 16] by (intro exI [of _ "fromLittleEndian (p 0 4)"] exI [of _ ?h]) simp
qed

lemma Fileheader_read_raw:
  assumes h: "reader_holds r (raw_header magic h @ rest)" and u: "length (uuid h) = 16"
  shows "Fileheader_read junk r = header_accept magic h"
proof -
  have "unat header_size = 80" by (simp add: header_size_def)
  with rd.buffer_exact [OF h, of 0 header_size junk] length_raw_header [OF u, of magic]
  obtain b where b: "get_buffer junk r 0 header_size = Inr b" "buf_bytes b = raw_header magic h"
    by (auto simp: slice_at_def header_size_def max_transfer_def)
  then obtain tail where d: "buf_data b = raw_header magic h @ tail"
    unfolding buf_bytes_def by (metis append_take_drop_id)
  show ?thesis
    unfolding Fileheader_read_def header_accept_def b d rbind.simps raw_header_def BufferStreamer_def Let_def
    using u by (cases h) (auto simp: stream_read_def stream_copy_def skip_def)
qed

lemma header_bytes_raw:
  "mimeListPos h = 80 \<or> checksumPos h = 0 \<Longrightarrow> header_bytes h = raw_header zimMagic h"
  by (auto simp: header_bytes_def raw_header_def getChecksumPos_def hasChecksum_def)

lemma sanity_check_cases: "sanity_check h = Inr () \<or> (\<exists>m. sanity_check h = Inl (ZimFileFormatError m))"
  by (simp add: sanity_check_def)

lemma sanity_check_ok_iff:
  "sanity_check h = Inr () \<longleftrightarrow>
     (articleCount h = 0 \<longleftrightarrow> clusterCount h = 0) \<and> mimeListPos h \<in> {80, 72} \<and>
     mimeListPos h \<le> urlPtrPos h \<and> mimeListPos h \<le> titleIdxPos h \<and> mimeListPos h \<le> clusterPtrPos h \<and>
     clusterCount h \<le> articleCount h \<and> (checksumPos h = 0 \<or> mimeListPos h \<le> checksumPos h)"
  by (auto simp: sanity_check_def header_size_def)

definition valid_header :: "Fileheader \<Rightarrow> bool" where
  "valid_header h \<longleftrightarrow> length (uuid h) = 16 \<and> majorVersion h \<in> {5, 6} \<and> sanity_check h = Inr ()"

lemma header_accept_valid:
  "length (uuid h) = 16 \<Longrightarrow> header_accept magic h = Inr h' \<longleftrightarrow> magic = zimMagic \<and> valid_header h \<and> h' = h"
  by (auto simp: header_accept_def valid_header_def header_consts split: if_splits)

section \<open>Properties\<close>

text \<open>C16: What \<^verbatim>\<open>Fileheader::write\<close> writes at the start of a file, \<^verbatim>\<open>Fileheader::read\<close> reads back as the
  same header, through any kind of reader (a header without checksum must have a zero checksum
  position, as the writer stores none).\<close>

theorem header_roundtrip:
  assumes "valid_header h" "mimeListPos h = 80 \<or> checksumPos h = 0"
    and "write_sys (header_bytes h) = 80" "Fileheader_write write_sys h = Inr written"
    and "reader_holds r (written @ rest)"
  shows "Fileheader_read junk r = Inr h"
proof -
  have "written = raw_header zimMagic h"
    using assms(2-4) header_bytes_raw by (simp add: Fileheader_write_def)
  moreover have u: "length (uuid h) = 16" using assms(1) by (simp add: valid_header_def)
  ultimately show ?thesis
    using Fileheader_read_raw [of r zimMagic h rest junk] assms(1,5) header_accept_valid [OF u] by auto
qed

definition example_header :: Fileheader where
  "example_header = \<lparr>majorVersion = 6, minorVersion = 1, uuid = replicate 16 7, articleCount = 3,
     titleIdxPos = 300, urlPtrPos = 200, mimeListPos = 80, clusterCount = 2, clusterPtrPos = 400,
     mainPage = 1, layoutPage = 0xffffffff, checksumPos = 5000\<rparr>"

definition example_header_reader :: Reader where
  "example_header_reader = BufferReader \<lparr>buf_data = header_bytes example_header, buf_size = 80\<rparr>"

lemma example_header_valid: "valid_header example_header"
  by (simp add: valid_header_def sanity_check_def example_header_def header_size_def)

lemma example_header_held: "reader_holds example_header_reader (header_bytes example_header @ [])"
proof -
  have "length (header_bytes example_header) = 80"
    by (simp add: header_bytes_def example_header_def)
  then show ?thesis by (simp add: example_header_reader_def buffer_ok_def buf_bytes_def SIZE_MAX_def)
qed

theorem header_roundtrip_witness:
  "Fileheader_read (\<lambda>_. 0) example_header_reader = Inr example_header"
  by (rule header_roundtrip [OF example_header_valid _ _ _ example_header_held, where write_sys = "\<lambda>_. 80"])
    (simp_all add: Fileheader_write_def example_header_def)

text \<open>C17: Reading a header from any reader that holds at least 80 bytes ends in one of two ways, never
  in a failed assertion or an access outside the buffer: it succeeds exactly when the first four
  bytes are the magic number, the version is known and the fields pass the sanity check, and then
  the header it returns encodes to the very bytes read; otherwise it throws \<^verbatim>\<open>ZimFileFormatError\<close>.\<close>

theorem header_read_total:
  assumes "reader_holds r bs" "80 \<le> length bs"
  shows "(\<exists>h. Fileheader_read junk r = Inr h \<and> valid_header h \<and> raw_header zimMagic h = take 80 bs) \<or>
    (\<exists>m. Fileheader_read junk r = Inl (ZimFileFormatError m) \<and>
       (\<forall>h. valid_header h \<longrightarrow> raw_header zimMagic h \<noteq> take 80 bs))"
proof -
  obtain magic h where h: "length (uuid h) = 16" "take 80 bs = raw_header magic h"
    using raw_header_surj [of "take 80 bs"] assms(2) by auto
  then have bs: "bs = raw_header magic h @ drop 80 bs" by (metis append_take_drop_id)
  have r: "Fileheader_read junk r = header_accept magic h" for junk
    using Fileheader_read_raw [of r magic h "drop 80 bs"] assms(1) bs h(1) by metis
  have inj: "magic = zimMagic \<and> h' = h" if "valid_header h'" "raw_header zimMagic h' = take 80 bs" for h'
  proof -
    have u: "length (uuid h') = 16" using that(1) by (simp add: valid_header_def)
    have "header_accept zimMagic h' = header_accept magic h"
      using Fileheader_read_raw [of r zimMagic h' "drop 80 bs" junk] u that(2) assms(1) r [of junk] by simp
    then have "header_accept magic h = Inr h'" using header_accept_valid [OF u, of zimMagic h'] that(1) by simp
    then show ?thesis using header_accept_valid [OF h(1)] by blast
  qed
  show ?thesis
  proof (cases "magic = zimMagic \<and> valid_header h")
    case True
    with r h header_accept_valid [OF h(1), of magic h] show ?thesis by auto
  next
    case False
    then have "\<exists>m. header_accept magic h = Inl (ZimFileFormatError m)"
      using h(1) sanity_check_cases [of h]
      by (auto simp: header_accept_def valid_header_def header_consts)
    then obtain m where "Fileheader_read junk r = Inl (ZimFileFormatError m)" using r by auto
    with inj False show ?thesis by blast
  qed
qed

theorem header_read_total_witness:
  "\<exists>h. Fileheader_read (\<lambda>_. 0) example_header_reader = Inr h \<and> valid_header h"
proof -
  have raw: "header_bytes example_header = raw_header zimMagic example_header"
    by (rule header_bytes_raw) (simp add: example_header_def)
  have len: "length (raw_header zimMagic example_header) = 80"
    using example_header_valid by (simp add: valid_header_def length_raw_header)
  show ?thesis
    using header_read_total [OF example_header_held, of "\<lambda>_. 0"] example_header_valid raw len
    by fastforce
qed

end
