(* ===== verification/Dirents.thy ===== *)
theory Dirents
  imports Readers Lru_Cache
begin

text \<open>
  Directory entries as the reader sees them: \<^verbatim>\<open>src/_dirent.h\<close>, the parser and the growing-buffer
  loop of \<^verbatim>\<open>src/dirent.cpp\<close>, and the accessors of \<^verbatim>\<open>src/dirent_accessor.cpp\<close> that go from an entry
  index through the URL pointer list, and through the title index, to a dirent, with an LRU cache
  in between.

  Shown here: the parser inverts the on-disk encoding; it never reads outside its buffer on an entry
  without extra data; the loop returns the entry or fails, and when it fails although the entry is
  complete; and the accessor with its cache returns what it would return without one.
\<close>

section \<open>Dirent\<close>

definition redirectMimeType :: u16 where "redirectMimeType = 0xffff"
definition linktargetMimeType :: u16 where "linktargetMimeType = 0xfffe"
definition deletedMimeType :: u16 where "deletedMimeType = 0xfffd"

lemmas mime_consts = redirectMimeType_def linktargetMimeType_def deletedMimeType_def

record Dirent =
  d_mimeType :: u16
  d_version :: u32
  d_clusterNumber :: u32
  d_blobNumber :: u32
  d_redirectIndex :: u32
  d_ns :: byte
  d_title :: bytes
  d_url :: bytes
  d_parameter :: bytes

definition new_Dirent :: Dirent where
  "new_Dirent = \<lparr>d_mimeType = 0, d_version = 0, d_clusterNumber = 0, d_blobNumber = 0,
     d_redirectIndex = 0, d_ns = 0, d_title = [], d_url = [], d_parameter = []\<rparr>"

definition isRedirect :: "Dirent \<Rightarrow> bool" where
  "isRedirect d \<longleftrightarrow> d_mimeType d = redirectMimeType"

definition isLinktarget :: "Dirent \<Rightarrow> bool" where
  "isLinktarget d \<longleftrightarrow> d_mimeType d = linktargetMimeType"

definition isDeleted :: "Dirent \<Rightarrow> bool" where
  "isDeleted d \<longleftrightarrow> d_mimeType d = deletedMimeType"

definition isArticle :: "Dirent \<Rightarrow> bool" where
  "isArticle d \<longleftrightarrow> \<not> isRedirect d \<and> \<not> isLinktarget d \<and> \<not> isDeleted d"

definition getClusterNumber :: "Dirent \<Rightarrow> u32" where
  "getClusterNumber d = (if isRedirect d then 0 else d_clusterNumber d)"

definition getBlobNumber :: "Dirent \<Rightarrow> u32" where
  "getBlobNumber d = (if isRedirect d then 0 else d_blobNumber d)"

definition getRedirectIndex :: "Dirent \<Rightarrow> u32" where
  "getRedirectIndex d = (if isRedirect d then d_redirectIndex d else 0)"

definition getTitle :: "Dirent \<Rightarrow> bytes" where
  "getTitle d = (if d_title d = [] then d_url d else d_title d)"

definition getDirentSize :: "Dirent \<Rightarrow> nat" where
  "getDirentSize d =
     (if isRedirect d then 12 else 16) + length (d_url d) + length (d_parameter d) + 2 +
     (if d_title d \<noteq> d_url d then length (d_title d) else 0)"

definition setRedirect :: "u32 \<Rightarrow> Dirent \<Rightarrow> Dirent" where
  "setRedirect idx d = d\<lparr>d_redirectIndex := idx, d_mimeType := redirectMimeType\<rparr>"

definition setItem :: "u16 \<Rightarrow> u32 \<Rightarrow> u32 \<Rightarrow> Dirent \<Rightarrow> Dirent" where
  "setItem mimeType cluster blob d =
     d\<lparr>d_mimeType := mimeType, d_clusterNumber := cluster, d_blobNumber := blob\<rparr>"

definition setStrings :: "byte \<Rightarrow> bytes \<Rightarrow> bytes \<Rightarrow> bytes \<Rightarrow> Dirent \<Rightarrow> Dirent" where
  "setStrings ns url title parameter d =
     d\<lparr>d_ns := ns, d_url := url, d_title := title, d_parameter := parameter\<rparr>"

section \<open>Parsing\<close>

text \<open>\<^verbatim>\<open>strnlen(p, n)\<close> looks at no byte after the first zero and at no more than \<open>n\<close> bytes.\<close>

definition strnlen :: "bytes \<Rightarrow> u64 \<Rightarrow> u64 res" where
  "strnlen p n =
     (let k = length (takeWhile (\<lambda>c. c \<noteq> 0) (take (unat n) p)) in
      if k < length p \<or> k = unat n then Inr (of_nat k) else Inl MemoryFault)"

text \<open>\<^verbatim>\<open>std::string(p, n)\<close>.\<close>

definition string_of :: "bytes \<Rightarrow> u64 \<Rightarrow> bytes res" where
  "string_of p n = (if length p < unat n then Inl MemoryFault else Inr (take (unat n) p))"

text \<open>The result is what \<^verbatim>\<open>initDirent\<close> returns and what it leaves in \<open>dirent\<close>. The second half, which
  reads the strings, is a definition of its own.\<close>

definition initDirent_strings :: "u8 \<Rightarrow> u8 \<Rightarrow> Dirent \<Rightarrow> streamer \<Rightarrow> (bool \<times> Dirent) res" where
  "initDirent_strings extraLen ns dirent reader =
     rbind (strnlen (m_current reader) (left reader - ucast extraLen)) (\<lambda>url_size.
     if left reader \<le> url_size then Inr (False, dirent) else
     rbind (string_of (m_current reader) url_size) (\<lambda>url.
     let reader = skip (unat (url_size + 1)) reader in
     rbind (strnlen (m_current reader) (left reader - ucast extraLen)) (\<lambda>title_size.
     if left reader \<le> title_size then Inr (False, dirent) else
     rbind (string_of (m_current reader) title_size) (\<lambda>title.
     let reader = skip (unat (title_size + 1)) reader in
     if left reader < ucast extraLen then Inr (False, dirent) else
     rbind (string_of (m_current reader) (ucast extraLen)) (\<lambda>parameter.
     Inr (True, setStrings ns url title parameter dirent))))))"

definition initDirent :: "Dirent \<Rightarrow> Buffer \<Rightarrow> (bool \<times> Dirent) res" where
  "initDirent dirent direntData =
     (let reader = BufferStreamer (buf_data direntData) (buf_size direntData) in
      rbind (stream_read reader) (\<lambda>(mimeType :: u16, reader).
      let redirect = (mimeType = redirectMimeType);
          linktarget = (mimeType = linktargetMimeType);
          deleted = (mimeType = deletedMimeType) in
      rbind (stream_read reader) (\<lambda>(extraLen :: u8, reader).
      rbind (stream_read reader) (\<lambda>(ns :: u8, reader).
      rbind (stream_read reader) (\<lambda>(version :: u32, reader).
      let dirent = dirent\<lparr>d_version := version\<rparr> in
      rbind
        (if redirect then
           rbind (stream_read reader) (\<lambda>(redirectIndex :: u32, reader).
             Inr (setRedirect redirectIndex dirent, reader))
         else if linktarget \<or> deleted then Inr (setItem mimeType 0 0 dirent, reader)
         else
           rbind (stream_read reader) (\<lambda>(clusterNumber :: u32, reader).
           rbind (stream_read reader) (\<lambda>(blobNumber :: u32, reader).
             Inr (setItem mimeType clusterNumber blobNumber dirent, reader))))
        (\<lambda>(dirent, reader). initDirent_strings extraLen ns dirent reader))))))"

text \<open>
  The loop of \<^verbatim>\<open>readDirent\<close>. \<^verbatim>\<open>m_buffer.reserve(n)\<close> makes \<open>n\<close> bytes available at \<^verbatim>\<open>m_buffer.data()\<close>;
  what lies behind them is not part of the vector.
\<close>

partial_function (option) readDirent_loop ::
    "(nat \<Rightarrow> byte) \<Rightarrow> Reader \<Rightarrow> u64 \<Rightarrow> Dirent \<Rightarrow> u64 \<Rightarrow> Dirent res option" where
  "readDirent_loop junk zimReader offset dirent bufferSize =
     (case rbind (reader_read zimReader (map junk [0..<unat bufferSize]) offset bufferSize) (\<lambda>m_buffer.
         rbind (mkBuffer m_buffer bufferSize) (initDirent dirent)) of
        Inl e \<Rightarrow> Some (Inl e)
      | Inr (ok, dirent') \<Rightarrow>
          if ok then Some (Inr dirent')
          else readDirent_loop junk zimReader offset dirent' (bufferSize + 256))"

definition readDirent :: "(nat \<Rightarrow> byte) \<Rightarrow> Reader \<Rightarrow> u64 \<Rightarrow> Dirent res" where
  "readDirent junk zimReader offset =
     (let totalSize = reader_size zimReader in
      if totalSize \<le> offset then Inl (ZimFileFormatError ''Invalid dirent pointer'')
      else case readDirent_loop junk zimReader offset new_Dirent (min 256 (reader_size zimReader - offset)) of
             None \<Rightarrow> Inl NoReturn
           | Some r \<Rightarrow> r)"

section \<open>Accessors\<close>

record DirectDirentAccessor =
  mp_zimReader :: Reader
  mp_urlPtrReader :: Reader
  m_direntCount :: u32
  m_direntCache :: "(u32, Dirent) lru_cache"

definition getOffset :: "(nat \<Rightarrow> byte) \<Rightarrow> DirectDirentAccessor \<Rightarrow> u32 \<Rightarrow> u64 res" where
  "getOffset junk acc idx =
     (if m_direntCount acc \<le> idx then Inl (OutOfRange ''entry index out of range'')
      else read_uint junk (mp_urlPtrReader acc) (8 * ucast idx))"

text \<open>The part of \<^verbatim>\<open>getDirent\<close> after a cache miss.\<close>

definition loadDirent :: "(nat \<Rightarrow> byte) \<Rightarrow> DirectDirentAccessor \<Rightarrow> u32 \<Rightarrow> Dirent res" where
  "loadDirent junk acc idx =
     rbind (getOffset junk acc idx) (\<lambda>direntOffset. readDirent junk (mp_zimReader acc) direntOffset)"

definition getDirent ::
    "(nat \<Rightarrow> byte) \<Rightarrow> u32 \<Rightarrow> DirectDirentAccessor \<Rightarrow> Dirent res \<times> DirectDirentAccessor" where
  "getDirent junk idx acc =
     (case read_through lru_get_value lru_put (loadDirent junk acc) idx (m_direntCache acc) of
        (r, cache') \<Rightarrow> (r, acc\<lparr>m_direntCache := cache'\<rparr>))"

record IndirectDirentAccessor =
  mp_direntAccessor :: DirectDirentAccessor
  mp_indexReader :: Reader
  m_titleCount :: u32

definition getDirectIndex :: "(nat \<Rightarrow> byte) \<Rightarrow> IndirectDirentAccessor \<Rightarrow> u32 \<Rightarrow> u32 res" where
  "getDirectIndex junk acc idx =
     (if m_titleCount acc \<le> idx then Inl (OutOfRange ''entry index out of range'')
      else read_uint junk (mp_indexReader acc) (4 * ucast idx))"

definition getDirentByTitleIndex ::
    "(nat \<Rightarrow> byte) \<Rightarrow> u32 \<Rightarrow> IndirectDirentAccessor \<Rightarrow> Dirent res \<times> IndirectDirentAccessor" where
  "getDirentByTitleIndex junk idx acc =
     (case getDirectIndex junk acc idx of
        Inl e \<Rightarrow> (Inl e, acc)
      | Inr directIndex \<Rightarrow>
          (case getDirent junk directIndex (mp_direntAccessor acc) of
             (r, direct') \<Rightarrow> (r, acc\<lparr>mp_direntAccessor := direct'\<rparr>)))"

section \<open>The on-disk format\<close>

definition dirent_fixed :: "Dirent \<Rightarrow> bytes" where
  "dirent_fixed d =
     toLittleEndian16 (d_mimeType d) @ [of_nat (length (d_parameter d)), d_ns d] @
     toLittleEndian32 (d_version d) @
     (if isRedirect d then toLittleEndian32 (d_redirectIndex d)
      else if isLinktarget d \<or> isDeleted d then []
      else toLittleEndian32 (d_clusterNumber d) @ toLittleEndian32 (d_blobNumber d))"

definition dirent_bytes :: "Dirent \<Rightarrow> bytes" where
  "dirent_bytes d = dirent_fixed d @ d_url d @ [0] @ d_title d @ [0] @ d_parameter d"

text \<open>Entries that the format can represent: strings without zero bytes, extra data of at most 255
  bytes, and zero in the fields that the kind of the entry does not have.\<close>

definition encodable :: "Dirent \<Rightarrow> bool" where
  "encodable d \<longleftrightarrow> 0 \<notin> set (d_url d) \<and> 0 \<notin> set (d_title d) \<and> length (d_parameter d) < 256 \<and>
     (\<not> isRedirect d \<longrightarrow> d_redirectIndex d = 0) \<and>
     (isRedirect d \<or> isLinktarget d \<or> isDeleted d \<longrightarrow> d_clusterNumber d = 0 \<and> d_blobNumber d = 0)"

section \<open>The parser inverts the format\<close>

text \<open>What is known of an entry once its fixed part is read.\<close>

definition dirent_head :: "Dirent \<Rightarrow> Dirent \<Rightarrow> Dirent" where
  "dirent_head d d0 =
     (let d1 = d0\<lparr>d_version := d_version d\<rparr> in
      if isRedirect d then setRedirect (d_redirectIndex d) d1
      else if isLinktarget d \<or> isDeleted d then setItem (d_mimeType d) 0 0 d1
      else setItem (d_mimeType d) (d_clusterNumber d) (d_blobNumber d) d1)"

lemma length_dirent_fixed: "length (dirent_fixed d) \<le> 16" "8 \<le> length (dirent_fixed d)"
  by (simp_all add: dirent_fixed_def)

lemma initDirent_head:
  assumes "buf_data b = dirent_fixed d @ rest"
  shows "initDirent d0 b = initDirent_strings (of_nat (length (d_parameter d))) (d_ns d) (dirent_head d d0)
    \<lparr>m_current = rest, m_size = buf_size b - of_nat (length (dirent_fixed d))\<rparr>"
  using assms
  by (auto simp: initDirent_def Let_def BufferStreamer_def dirent_fixed_def stream_read_def skip_def
      dirent_head_def isRedirect_def isLinktarget_def isDeleted_def diff_diff_eq mime_consts)

lemma takeWhile_to_zero: "0 \<notin> set s \<Longrightarrow> takeWhile (\<lambda>c. c \<noteq> 0) (s @ 0 # t) = (s :: bytes)"
  by (induction s) auto

lemma strnlen_hit:
  assumes "0 \<notin> set s" "length s < unat n"
  shows "strnlen (s @ 0 # t) n = Inr (of_nat (length s))"
proof -
  have "takeWhile (\<lambda>c. c \<noteq> 0) (take (unat n) (s @ 0 # t)) = s"
    using assms by (cases "unat n - length s") (simp_all add: takeWhile_to_zero)
  then show ?thesis by (simp add: strnlen_def)
qed

lemma strnlen_miss:
  assumes "0 \<notin> set p" "unat n = length p"
  shows "strnlen p n = Inr n"
proof -
  have "takeWhile (\<lambda>c. c \<noteq> 0) p = p" using assms(1) by (auto simp: takeWhile_eq_all_conv)
  moreover have "of_nat (length p) = n" using assms(2) by (metis of_nat_unat ucast_id)
  ultimately show ?thesis using assms by (simp only: strnlen_def Let_def take_all) simp
qed

lemma string_of_hit: "unat n = length s \<Longrightarrow> string_of (s @ t) n = Inr s"
  by (simp add: string_of_def)

lemma unat_of_nat_Suc: "Suc n < 2 ^ 64 \<Longrightarrow> unat (of_nat n + 1 :: u64) = Suc n"
proof -
  assume "Suc n < 2 ^ 64"
  moreover have "of_nat n + 1 = (of_nat (Suc n) :: u64)" by simp
  ultimately show ?thesis using unat_of_nat_small [of "Suc n", where 'a = 64] by (simp del: of_nat_Suc)
qed

lemma initDirent_strings_full:
  fixes extra :: u8 and tail :: bytes
  assumes z: "0 \<notin> set url" "0 \<notin> set title" and e: "length param = unat extra"
    and sz: "unat sz = length url + length title + length param + length tail + 2"
  shows "initDirent_strings extra ns d \<lparr>m_current = url @ 0 # title @ 0 # param @ tail, m_size = sz\<rparr>
    = Inr (True, setStrings ns url title param d)"
proof -
  have ux: "unat (ucast extra :: u64) = length param"
    using e unat_bound [of extra] by (simp add: unat_ucast_mod)
  have big: "unat sz < 2 ^ 64" using unat_bound [of sz] by simp
  have ulen: "unat (of_nat (length url) :: u64) = length url" "unat (of_nat (length url) + 1 :: u64) = Suc (length url)"
      "unat (of_nat (length title) :: u64) = length title" "unat (of_nat (length title) + 1 :: u64) = Suc (length title)"
    using sz big by (simp_all add: unat_of_nat_small unat_of_nat_Suc)
  define l1 where "l1 = sz - (1 + of_nat (length url))"
  define l2 where "l2 = l1 - (1 + of_nat (length title))"
  have l1: "unat l1 = length title + length param + length tail + 1"
    using sz unat_minus_of_nat [of "Suc (length url)" sz] by (simp add: l1_def)
  have l2: "unat l2 = length param + length tail"
    using l1 unat_minus_of_nat [of "Suc (length title)" l1] by (simp add: l2_def)
  have url: "strnlen (url @ 0 # title @ 0 # param @ tail) (sz - ucast extra) = Inr (of_nat (length url))"
    using z sz ux by (intro strnlen_hit) (simp_all add: unat_diff)
  have title: "strnlen (title @ 0 # param @ tail) (l1 - ucast extra) = Inr (of_nat (length title))"
    using z l1 ux by (intro strnlen_hit) (simp_all add: unat_diff)
  show ?thesis
    using url title sz ux l1 l2 ulen
    by (simp add: initDirent_strings_def left_def Let_def string_of_def skip_def word_nat_alt
        l1_def [symmetric] l2_def [symmetric])
qed

lemma initDirent_strings_truncated:
  assumes z: "0 \<notin> set url" "0 \<notin> set title" and n: "n < length url + length title + 2"
    and p: "p = take n (url @ 0 # title @ 0 # tail)" and sz: "unat sz = n"
  shows "initDirent_strings 0 ns d \<lparr>m_current = p, m_size = sz\<rparr> = Inr (False, d)"
proof (cases "n \<le> length url")
  case True
  have "0 \<notin> set (take n url)" using z(1) by (metis in_set_takeD)
  then have "strnlen p sz = Inr sz" using True p sz by (intro strnlen_miss) simp_all
  then show ?thesis by (simp add: initDirent_strings_def left_def)
next
  case False
  define m where "m = n - Suc (length url)"
  have p': "p = url @ 0 # take m title" and m: "m \<le> length title"
    using False p n by (simp_all add: m_def take_Cons' )
  define l1 where "l1 = sz - (1 + of_nat (length url))"
  have l1: "unat l1 = m" using False sz unat_minus_of_nat [of "Suc (length url)" sz] by (simp add: l1_def m_def)
  have ulen: "unat (of_nat (length url) :: u64) = length url" "unat (of_nat (length url) + 1 :: u64) = Suc (length url)"
    using False sz unat_bound [of sz] by (simp_all add: unat_of_nat_small unat_of_nat_Suc del: unat_u64_bound)
  have "strnlen p sz = Inr (of_nat (length url))" unfolding p'
    using z False sz by (intro strnlen_hit) simp_all
  moreover have "0 \<notin> set (take m title)" using z(2) by (metis in_set_takeD)
  then have "strnlen (take m title) l1 = Inr l1" using l1 m by (intro strnlen_miss) simp_all
  ultimately show ?thesis
    using False sz ulen p'
    by (simp add: initDirent_strings_def left_def Let_def string_of_def skip_def word_nat_alt l1_def [symmetric])
qed

lemma dirent_head_strings:
  "encodable d \<Longrightarrow>
   setStrings (d_ns d) (d_url d) (d_title d) (d_parameter d) (dirent_head d new_Dirent) = d"
  by (cases d) (auto simp: encodable_def setStrings_def dirent_head_def new_Dirent_def setRedirect_def
      setItem_def Let_def isRedirect_def isLinktarget_def isDeleted_def mime_consts)

lemma dirent_head_head: "dirent_head d (dirent_head d d0) = dirent_head d d0"
  by (simp add: dirent_head_def Let_def setRedirect_def setItem_def)

lemma initDirent_full:
  assumes enc: "encodable d" and b: "buf_data b = dirent_bytes d @ tail"
    "unat (buf_size b) = length (dirent_bytes d @ tail)" and d0: "d0 = new_Dirent \<or> d0 = dirent_head d new_Dirent"
  shows "initDirent d0 b = Inr (True, d)"
proof -
  let ?e = "of_nat (length (d_parameter d)) :: u8"
  have e: "unat ?e = length (d_parameter d)" using enc by (simp add: encodable_def unat_of_nat_small)
  have "unat (buf_size b - of_nat (length (dirent_fixed d))) =
      length (d_url d) + length (d_title d) + length (d_parameter d) + length tail + 2"
    using b(2) by (subst unat_minus_of_nat) (simp_all add: dirent_bytes_def)
  then have "initDirent d0 b = Inr (True, setStrings (d_ns d) (d_url d) (d_title d) (d_parameter d) (dirent_head d d0))"
    using initDirent_head [of b d "d_url d @ 0 # d_title d @ 0 # d_parameter d @ tail" d0] b(1) enc e
    by (simp add: dirent_bytes_def initDirent_strings_full encodable_def)
  with d0 dirent_head_strings [OF enc] show ?thesis by (auto simp: dirent_head_head)
qed

lemma initDirent_truncated:
  assumes enc: "encodable d" and p: "d_parameter d = []" and n: "length (dirent_fixed d) \<le> n" "n < length (dirent_bytes d)"
    and b: "buf_data b = take n (dirent_bytes d @ tail)" "unat (buf_size b) = n"
  shows "initDirent d0 b = Inr (False, dirent_head d d0)"
proof -
  define m where "m = n - length (dirent_fixed d)"
  have "unat (buf_size b - of_nat (length (dirent_fixed d))) = m"
    using b(2) n by (subst unat_minus_of_nat) (simp_all add: m_def)
  moreover have "m < length (d_url d) + length (d_title d) + 2" using n p by (simp add: m_def dirent_bytes_def)
  moreover have "buf_data b = dirent_fixed d @ take m (d_url d @ 0 # d_title d @ 0 # tail)"
    using b(1) n p by (simp add: m_def dirent_bytes_def)
  ultimately show ?thesis
    using initDirent_head [of b d _ d0] initDirent_strings_truncated enc p
    by (simp add: encodable_def)
qed

section \<open>The growing buffer\<close>

text \<open>How one round ends, by what is inside the file.\<close>

lemma round_reads:
  assumes "reader_holds r bs" "unat off + unat n \<le> length bs" "unat n \<le> max_transfer"
  shows "rbind (reader_read r (map junk [0..<unat n]) off n) (\<lambda>m. rbind (mkBuffer m n) f)
    = f \<lparr>buf_data = take (unat n) (drop (unat off) bs), buf_size = n\<rparr>"
proof -
  have "n < SIZE_MAX" using assms reader_holds_size [OF assms(1)] by (intro SIZE_MAX_less) linarith
  then show ?thesis
    using rd.read_exact [OF assms(1,2) _ assms(3), of "map junk [0..<unat n]"]
    by (simp add: mkBuffer_def slice_at_def del: reader_read.simps)
qed

lemma round_past_end:
  assumes "reader_holds r bs" "length bs < unat off + unat n" "unat off + unat n < 2 ^ 64"
  shows "reader_read r dest off n = Inl AssertFailed"
proof -
  have "unat (off + n) = unat off + unat n" using assms(3) by (intro unat_add_small) simp
  then have "\<not> off + n \<le> reader_size r" using assms reader_holds_size [OF assms(1)] by (simp add: word_le_nat_alt)
  then show ?thesis by (cases r) (auto simp: ASSERT_def)
qed

definition rounds_up :: "nat \<Rightarrow> nat" where
  "rounds_up n = 256 * ((n + 255) div 256)"

lemma rounds_up_bounds: "n \<le> rounds_up n" "rounds_up n < n + 256"
  using div_mult_mod_eq [of "n + 255" 256] mod_less_divisor [of 256 "n + 255"]
  unfolding rounds_up_def by linarith+

lemma rounds_up_ge: "256 * j < n \<Longrightarrow> 256 * Suc j \<le> rounds_up n"
proof -
  assume "256 * j < n"
  then have "Suc j * 256 \<le> n + 255" by simp
  then have "Suc j \<le> (n + 255) div 256" by (simp only: less_eq_div_iff_mult_less_eq)
  then show ?thesis unfolding rounds_up_def by (rule mult_le_mono2)
qed

lemma rounds_up_eq:
  assumes "256 * j < n" "n \<le> 256 * Suc j"
  shows "rounds_up n = 256 * Suc j"
proof -
  have "(n + 255) div 256 < Suc (Suc j)" using assms by (simp add: less_mult_imp_div_less)
  then have "rounds_up n \<le> 256 * Suc j" unfolding rounds_up_def by (intro mult_le_mono2) simp
  with rounds_up_ge [OF assms(1)] show ?thesis by simp
qed

lemma readDirent_loop_complete:
  assumes h: "reader_holds r bs" and d: "drop (unat off) bs = dirent_bytes d @ tail" "encodable d" "d_parameter d = []"
    and L: "L = length (dirent_bytes d)" and big: "length bs \<le> max_transfer"
    and n: "unat n = 256 * Suc j" "256 * j < L" and d0: "d0 = new_Dirent \<or> d0 = dirent_head d new_Dirent"
    and off: "unat off < length bs"
  shows "readDirent_loop junk r off d0 n =
    Some (if unat off + rounds_up L \<le> length bs then Inr d else Inl AssertFailed)"
  using n d0
proof (induction "L - 256 * j" arbitrary: j n d0 rule: less_induct)
  case less
  have len: "unat off + length (dirent_bytes d) + length tail = length bs"
    using off arg_cong [OF d(1), of length] by (simp only: length_drop length_append)
  show ?case
  proof (cases "unat off + unat n \<le> length bs")
    case False
    have "unat off + unat n < 2 ^ 64" using off big less.prems(1,2) len L by (simp add: max_transfer_def)
    then have "reader_read r dest off n = Inl AssertFailed" for dest
      using round_past_end [OF h] False by simp
    moreover have "unat n \<le> rounds_up L" using less.prems(1) rounds_up_ge [OF less.prems(2)] by simp
    ultimately show ?thesis using False by (subst readDirent_loop.simps) simp
  next
    case True
    have le: "unat n \<le> max_transfer" using True big by simp
    let ?b = "\<lparr>buf_data = take (unat n) (dirent_bytes d @ tail), buf_size = n\<rparr>"
    note round = round_reads [OF h True le, of junk "initDirent d0", unfolded d(1)]
    show ?thesis
    proof (cases "L \<le> unat n")
      case fits: True
      have "initDirent d0 ?b = Inr (True, d)"
        using fits L True len by (intro initDirent_full [OF d(2) _ _ less.prems(3), where tail = "take (unat n - L) tail"]) auto
      moreover have "rounds_up L = unat n" using fits less.prems(1,2) rounds_up_eq [of j L] by simp
      ultimately show ?thesis using round True by (subst readDirent_loop.simps) simp
    next
      case False
      have "length (dirent_fixed d) \<le> unat n" using length_dirent_fixed [of d] less.prems(1) by simp
      then have init: "initDirent d0 ?b = Inr (False, dirent_head d d0)"
        using False L by (intro initDirent_truncated [OF d(2,3)]) auto
      have n': "unat (n + 256) = 256 * Suc (Suc j)"
        using less.prems(1) le by (subst unat_add_small) (simp_all add: max_transfer_def)
      have "readDirent_loop junk r off (dirent_head d d0) (n + 256) =
          Some (if unat off + rounds_up L \<le> length bs then Inr d else Inl AssertFailed)"
        using False less.prems n' by (intro less.hyps [of "Suc j"]) (auto simp: dirent_head_head)
      then show ?thesis using round init by (subst readDirent_loop.simps) simp
    qed
  qed
qed

lemma readDirent_spec:
  assumes h: "reader_holds r bs" and off: "unat off < length bs" and big: "length bs \<le> max_transfer"
    and d: "drop (unat off) bs = dirent_bytes d @ tail" "encodable d" "d_parameter d = []"
  shows "readDirent junk r off =
    (if length (dirent_bytes d) \<le> 256 \<or> unat off + rounds_up (length (dirent_bytes d)) \<le> length bs
     then Inr d else Inl AssertFailed)"
proof -
  let ?L = "length (dirent_bytes d)"
  define n where "n = min 256 (reader_size r - off)"
  have sz: "unat (reader_size r - off) = length bs - unat off"
    using reader_holds_size [OF h] off by (simp add: unat_diff)
  then have n: "unat n = min 256 (length bs - unat off)" by (simp add: n_def unat_min)
  have len: "?L + length tail = length bs - unat off"
    using arg_cong [OF d(1), of length] by (simp only: length_drop length_append)
  have L: "0 < ?L" by (simp add: dirent_bytes_def)
  have unf: "readDirent junk r off =
      (case readDirent_loop junk r off new_Dirent n of None \<Rightarrow> Inl NoReturn | Some x \<Rightarrow> x)"
    using off reader_holds_size [OF h] by (simp add: readDirent_def Let_def n_def word_le_nat_alt)
  show ?thesis
  proof (cases "256 \<le> length bs - unat off")
    case True
    have "readDirent_loop junk r off new_Dirent n =
        Some (if unat off + rounds_up ?L \<le> length bs then Inr d else Inl AssertFailed)"
      using n True L off by (intro readDirent_loop_complete [OF h d refl big, where j = 0]) auto
    moreover have "unat off + rounds_up ?L \<le> length bs" if "?L \<le> 256"
      using rounds_up_eq [of 0 ?L] that L True by simp
    ultimately show ?thesis by (auto simp: unf)
  next
    case False
    let ?b = "\<lparr>buf_data = dirent_bytes d @ tail, buf_size = n\<rparr>"
    have "initDirent new_Dirent ?b = Inr (True, d)"
      using len n False by (intro initDirent_full [OF d(2)]) auto
    moreover have "take (unat n) (drop (unat off) bs) = dirent_bytes d @ tail"
      using len n False d(1) by simp
    moreover have "unat off + unat n \<le> length bs" "unat n \<le> max_transfer" using n off big by auto
    moreover have "?L \<le> 256" using len False by simp
    ultimately show ?thesis
      using round_reads [OF h, of off n junk "initDirent new_Dirent"]
      unfolding unf by (subst readDirent_loop.simps) simp
  qed
qed

section \<open>Termination\<close>

lemma stream_read_error: "stream_read s = Inl e \<Longrightarrow> e = MemoryFault"
  by (auto simp: stream_read_def Let_def split: if_splits)

lemma rbind_InlD: "rbind m f = Inl e \<Longrightarrow> m = Inl e \<or> (\<exists>x. m = Inr x \<and> f x = Inl e)"
  by (cases m) auto

lemma initDirent_strings_error: "initDirent_strings x ns d s = Inl e \<Longrightarrow> e = MemoryFault"
  unfolding initDirent_strings_def Let_def
  by (auto dest!: rbind_InlD simp: strnlen_def string_of_def Let_def split: if_splits)

lemma initDirent_error: "initDirent d b = Inl e \<Longrightarrow> e = MemoryFault"
  unfolding initDirent_def Let_def
  by (auto dest!: rbind_InlD stream_read_error initDirent_strings_error split: if_splits)

lemma readDirent_loop_returns:
  assumes h: "reader_holds r bs" and off: "unat off < length bs" and big: "length bs \<le> max_transfer"
    and n: "unat n \<le> length bs + 256"
  shows "\<exists>x. readDirent_loop junk r off d0 n = Some x \<and> x \<noteq> Inl NoReturn"
  using n
proof (induction "length bs + 512 - unat n" arbitrary: n d0 rule: less_induct)
  case less
  show ?case
  proof (cases "unat off + unat n \<le> length bs")
    case False
    have "unat off + unat n < 2 ^ 64" using off big less.prems by (simp add: max_transfer_def)
    then have "reader_read r dest off n = Inl AssertFailed" for dest
      using round_past_end [OF h] False by simp
    then show ?thesis by (subst readDirent_loop.simps) simp
  next
    case True
    then have "unat n \<le> max_transfer" using big by simp
    note round = round_reads [OF h True this, of junk "initDirent d0"]
    have n': "unat (n + 256) = unat n + 256"
      using True big by (subst unat_add_small) (simp_all add: max_transfer_def)
    have IH: "\<exists>x. readDirent_loop junk r off d1 (n + 256) = Some x \<and> x \<noteq> Inl NoReturn" for d1
      using n' True by (intro less.hyps) auto
    show ?thesis
      using IH initDirent_error [of d0] by (subst readDirent_loop.simps) (auto simp: round split: sum.splits)
  qed
qed

section \<open>Properties\<close>

text \<open>C15: Parsing inverts the on-disk format. A dirent stored inside a file without extra data is read
  back field by field from its offset whenever it is at most 256 bytes long or the file goes on
  long enough after it; a dirent is lost, with a failed assertion, exactly when it is longer than
  256 bytes and the buffer, which grows in steps of 256 bytes, would have to reach past the end of
  the file before it holds the dirent.\<close>

theorem readDirent_roundtrip:
  assumes "reader_holds r bs" "unat off < length bs" "length bs \<le> max_transfer"
    and "drop (unat off) bs = dirent_bytes d @ tail" "encodable d" "d_parameter d = []"
  shows "readDirent junk r off =
    (if length (dirent_bytes d) \<le> 256 \<or> unat off + rounds_up (length (dirent_bytes d)) \<le> length bs
     then Inr d else Inl AssertFailed)"
  by (rule readDirent_spec [OF assms])

definition example_dirent :: "nat \<Rightarrow> Dirent" where
  "example_dirent n = \<lparr>d_mimeType = 3, d_version = 0, d_clusterNumber = 5, d_blobNumber = 9,
     d_redirectIndex = 0, d_ns = 67, d_title = [84], d_url = replicate n 117, d_parameter = []\<rparr>"

lemma example_dirent_ok: "encodable (example_dirent n)" "d_parameter (example_dirent n) = []"
  "length (dirent_bytes (example_dirent n)) = n + 19"
  by (auto simp: example_dirent_def encodable_def dirent_bytes_def dirent_fixed_def
      isRedirect_def isLinktarget_def isDeleted_def mime_consts)

lemma memory_reader_holds:
  "length bs < 2 ^ 63 \<Longrightarrow> reader_holds (BufferReader \<lparr>buf_data = bs, buf_size = of_nat (length bs)\<rparr>) bs"
  by (simp add: buffer_ok_def buf_bytes_def unat_of_nat_small SIZE_MAX_less)

theorem readDirent_roundtrip_witness:
  "readDirent (\<lambda>_. 0) (BufferReader \<lparr>buf_data = dirent_bytes (example_dirent 2), buf_size = 21\<rparr>) 0
     = Inr (example_dirent 2) \<and>
   readDirent (\<lambda>_. 0) (BufferReader \<lparr>buf_data = dirent_bytes (example_dirent 300), buf_size = 319\<rparr>) 0
     = Inl AssertFailed"
proof -
  have "readDirent (\<lambda>_. 0) (BufferReader \<lparr>buf_data = dirent_bytes (example_dirent n), buf_size = of_nat (n + 19)\<rparr>) 0
     = (if n + 19 \<le> 256 \<or> rounds_up (n + 19) \<le> n + 19 then Inr (example_dirent n) else Inl AssertFailed)"
    if "n < 1000" for n
    using readDirent_roundtrip [OF memory_reader_holds, of "dirent_bytes (example_dirent n)" 0 "example_dirent n" "[]"]
      that example_dirent_ok [of n] by (simp add: max_transfer_def)
  from this [of 2] this [of 300] show ?thesis by (simp add: rounds_up_def)
qed

text \<open>\<^verbatim>\<open>readDirent\<close> always returns: whatever bytes it finds at whatever offset, the buffer stops
  growing at the end of the file at the latest, and an offset outside the file is refused.\<close>

theorem readDirent_returns:
  assumes "reader_holds r bs" "length bs \<le> max_transfer"
  shows "readDirent junk r off \<noteq> Inl NoReturn \<and>
    (length bs \<le> unat off \<longrightarrow> readDirent junk r off = Inl (ZimFileFormatError ''Invalid dirent pointer''))"
proof (cases "unat off < length bs")
  case False
  then show ?thesis using reader_holds_size [OF assms(1)] by (simp add: readDirent_def word_le_nat_alt)
next
  case True
  have "unat (min 256 (reader_size r - off)) \<le> length bs + 256" by (simp add: unat_min)
  from readDirent_loop_returns [OF assms(1) True assms(2) this] obtain x where
    "readDirent_loop junk r off new_Dirent (min 256 (reader_size r - off)) = Some x" "x \<noteq> Inl NoReturn"
    by blast
  then show ?thesis using True reader_holds_size [OF assms(1)]
    by (simp add: readDirent_def Let_def word_le_nat_alt)
qed

theorem readDirent_returns_witness:
  "readDirent (\<lambda>_. 0) (BufferReader \<lparr>buf_data = [1, 2, 3], buf_size = 3\<rparr>) 1 \<noteq> Inl NoReturn"
  using readDirent_returns [OF memory_reader_holds, of "[1, 2, 3]" "\<lambda>_. 0" 1] by (simp add: max_transfer_def)

section \<open>The accessors\<close>

text \<open>An archive whose entries, in the order of the URL pointer list, are \<open>ds\<close>.\<close>

definition dirent_at :: "bytes \<Rightarrow> u64 \<Rightarrow> Dirent \<Rightarrow> bool" where
  "dirent_at bs off d \<longleftrightarrow> encodable d \<and> d_parameter d = [] \<and> unat off < length bs \<and>
     (\<exists>tail. drop (unat off) bs = dirent_bytes d @ tail) \<and>
     (length (dirent_bytes d) \<le> 256 \<or> unat off + rounds_up (length (dirent_bytes d)) \<le> length bs)"

definition entries_stored :: "DirectDirentAccessor \<Rightarrow> Dirent list \<Rightarrow> bool" where
  "entries_stored acc ds \<longleftrightarrow>
     (\<exists>bs offs. reader_holds (mp_zimReader acc) bs \<and> length bs \<le> max_transfer \<and>
        reader_holds (mp_urlPtrReader acc) (concat (map toLittleEndian64 offs)) \<and>
        unat (m_direntCount acc) = length ds \<and> list_all2 (dirent_at bs) offs ds)"

definition accessor_holds :: "(nat \<Rightarrow> byte) \<Rightarrow> DirectDirentAccessor \<Rightarrow> Dirent list \<Rightarrow> bool" where
  "accessor_holds junk acc ds \<longleftrightarrow>
     entries_stored acc ds \<and> lru.sound (loadDirent junk acc) (m_direntCache acc)"

lemma length_concat_64: "length (concat (map toLittleEndian64 offs)) = 8 * length offs"
  by (induction offs) simp_all

lemma length_concat_32: "length (concat (map toLittleEndian32 xs)) = 4 * length xs"
  by (induction xs) simp_all

lemma slice_concat_64:
  "i < length offs \<Longrightarrow> slice_at (8 * i) 8 (concat (map toLittleEndian64 offs)) = toLittleEndian64 (offs ! i)"
  by (induction offs arbitrary: i) (auto simp: slice_at_def less_Suc_eq_0_disj)

lemma slice_concat_32:
  "i < length xs \<Longrightarrow> slice_at (4 * i) 4 (concat (map toLittleEndian32 xs)) = toLittleEndian32 (xs ! i)"
  by (induction xs arbitrary: i) (auto simp: slice_at_def less_Suc_eq_0_disj)

lemma unat_times_index: "unat (of_nat k * ucast (i :: u32) :: u64) = k * unat i" if "k \<le> 8"
proof -
  have "k * unat i < 2 ^ 64"
    using that mult_le_mono [of k 8 "unat i" "2 ^ 32"] less_imp_le [OF unat_bound [of i]] by simp
  moreover have "of_nat k * ucast i = (of_nat (k * unat i) :: u64)" by simp
  ultimately show ?thesis
    using unat_of_nat_small [of "k * unat i", where 'a = 64] by (simp del: of_nat_mult)
qed

lemma read_offset_list:
  assumes "reader_holds r (concat (map toLittleEndian64 offs))" "unat i < length offs"
  shows "read_uint junk r (8 * ucast (i :: u32)) = Inr (offs ! unat i :: u64)"
  using rd.read_uint_exact [OF assms(1), where 'a = 64 and n = 8 and junk = junk and off = "8 * ucast i"] assms(2)
    unat_times_index [of 8 i]
  by (simp add: length_concat_64 slice_concat_64)

lemma read_index_list:
  assumes "reader_holds r (concat (map toLittleEndian32 xs))" "unat i < length xs"
  shows "read_uint junk r (4 * ucast (i :: u32)) = Inr (xs ! unat i :: u32)"
  using rd.read_uint_exact [OF assms(1), where 'a = 32 and n = 4 and junk = junk and off = "4 * ucast i"] assms(2)
    unat_times_index [of 4 i]
  by (simp add: length_concat_32 slice_concat_32)

lemma loadDirent_stored:
  assumes "entries_stored acc ds"
  shows "loadDirent junk acc idx =
    (if unat idx < length ds then Inr (ds ! unat idx) else Inl (OutOfRange ''entry index out of range''))"
proof -
  obtain bs offs where A: "reader_holds (mp_zimReader acc) bs" "length bs \<le> max_transfer"
      "reader_holds (mp_urlPtrReader acc) (concat (map toLittleEndian64 offs))"
      "unat (m_direntCount acc) = length ds" "list_all2 (dirent_at bs) offs ds"
    using assms by (auto simp: entries_stored_def)
  show ?thesis
  proof (cases "unat idx < length ds")
    case False
    then show ?thesis using A(4) by (simp add: loadDirent_def getOffset_def word_le_nat_alt)
  next
    case True
    then have len: "unat idx < length offs" using A(5) by (simp add: list_all2_lengthD)
    then have at: "dirent_at bs (offs ! unat idx) (ds ! unat idx)" using A(5) True by (simp add: list_all2_nthD2)
    then have "readDirent junk (mp_zimReader acc) (offs ! unat idx) = Inr (ds ! unat idx)"
      using readDirent_spec [OF A(1) _ A(2)] by (auto simp: dirent_at_def)
    then show ?thesis
      using True A(4) read_offset_list [OF A(3) len]
      by (simp add: loadDirent_def getOffset_def word_le_nat_alt)
  qed
qed

lemma loadDirent_cache_irrelevant: "loadDirent junk (acc\<lparr>m_direntCache := c\<rparr>) = loadDirent junk acc"
  by (rule ext) (simp add: loadDirent_def getOffset_def)

lemma getDirent_uncached:
  assumes "lru.sound (loadDirent junk acc) (m_direntCache acc)"
  shows "fst (getDirent junk idx acc) = loadDirent junk acc idx \<and>
    lru.sound (loadDirent junk (snd (getDirent junk idx acc))) (m_direntCache (snd (getDirent junk idx acc))) \<and>
    loadDirent junk (snd (getDirent junk idx acc)) = loadDirent junk acc"
  using lru.read_through_value [OF assms, of idx] lru.read_through_sound [OF assms, of idx]
  by (auto simp: getDirent_def loadDirent_cache_irrelevant split: prod.splits)

lemma entries_stored_getDirent:
  "entries_stored acc ds \<Longrightarrow> entries_stored (snd (getDirent junk idx acc)) ds"
  by (simp add: getDirent_def entries_stored_def split: prod.splits)

lemma getDirent_holds:
  assumes "accessor_holds junk acc ds"
  shows "fst (getDirent junk idx acc) =
      (if unat idx < length ds then Inr (ds ! unat idx) else Inl (OutOfRange ''entry index out of range''))"
    "accessor_holds junk (snd (getDirent junk idx acc)) ds"
proof -
  have "entries_stored acc ds" "lru.sound (loadDirent junk acc) (m_direntCache acc)"
    using assms by (simp_all add: accessor_holds_def)
  with getDirent_uncached [of junk acc idx] loadDirent_stored [of acc ds junk idx]
    entries_stored_getDirent [of acc ds junk idx]
  show "fst (getDirent junk idx acc) =
      (if unat idx < length ds then Inr (ds ! unat idx) else Inl (OutOfRange ''entry index out of range''))"
    "accessor_holds junk (snd (getDirent junk idx acc)) ds"
    unfolding accessor_holds_def by auto
qed

text \<open>C18: Access to an entry by its index goes through the cache, the URL pointer list and the parser,
  and gives the entry at that index, however full the cache is and whatever was looked up before;
  an index out of range raises \<^verbatim>\<open>std::out_of_range\<close>. The cache stays sound.\<close>

theorem accessor_returns_nth_entry:
  assumes "accessor_holds junk acc ds"
  shows "fst (getDirent junk idx acc) =
      (if unat idx < length ds then Inr (ds ! unat idx) else Inl (OutOfRange ''entry index out of range'')) \<and>
    accessor_holds junk (snd (getDirent junk idx acc)) ds"
  using getDirent_holds [OF assms, of idx] by simp

definition example_accessor :: DirectDirentAccessor where
  "example_accessor =
     \<lparr>mp_zimReader = BufferReader \<lparr>buf_data = dirent_bytes (example_dirent 2), buf_size = 21\<rparr>,
      mp_urlPtrReader = BufferReader \<lparr>buf_data = toLittleEndian64 0, buf_size = 8\<rparr>,
      m_direntCount = 1, m_direntCache = lru_new 512\<rparr>"

lemma example_accessor_holds: "accessor_holds junk example_accessor [example_dirent 2]"
proof -
  have "reader_holds (mp_zimReader example_accessor) (dirent_bytes (example_dirent 2))"
    using memory_reader_holds [of "dirent_bytes (example_dirent 2)"] example_dirent_ok(3) [of 2]
    by (simp add: example_accessor_def del: reader_holds.simps)
  moreover have "reader_holds (mp_urlPtrReader example_accessor) (concat (map toLittleEndian64 [0]))"
    using memory_reader_holds [of "toLittleEndian64 0"]
    by (simp add: example_accessor_def del: reader_holds.simps)
  moreover have "dirent_at (dirent_bytes (example_dirent 2)) 0 (example_dirent 2)"
    using example_dirent_ok [of 2] by (auto simp: dirent_at_def)
  ultimately have "entries_stored example_accessor [example_dirent 2]"
    using example_dirent_ok(3) [of 2] unfolding entries_stored_def
    by (intro exI [of _ "dirent_bytes (example_dirent 2)"] exI [of _ "[0]"])
      (simp add: max_transfer_def example_accessor_def del: reader_holds.simps)
  then show ?thesis
    by (simp add: accessor_holds_def example_accessor_def lru.sound_def lru_put_items lru_lookup_def)
qed

theorem accessor_returns_nth_entry_witness:
  "fst (getDirent (\<lambda>_. 0) 0 example_accessor) = Inr (example_dirent 2)"
  using accessor_returns_nth_entry [OF example_accessor_holds, of "\<lambda>_. 0" 0] by simp

text \<open>Access by title goes through the title index: the entry returned for a position in the title
  order is the one whose number is stored at that position.\<close>

theorem title_accessor_returns_listed_entry:
  assumes "accessor_holds junk (mp_direntAccessor acc) ds"
    and "reader_holds (mp_indexReader acc) (concat (map toLittleEndian32 order))"
    and "unat (m_titleCount acc) = length order" "\<forall>i\<in>set order. unat i < length ds"
  shows "fst (getDirentByTitleIndex junk idx acc) =
      (if unat idx < length order then Inr (ds ! unat (order ! unat idx))
       else Inl (OutOfRange ''entry index out of range'')) \<and>
    accessor_holds junk (mp_direntAccessor (snd (getDirentByTitleIndex junk idx acc))) ds"
proof (cases "unat idx < length order")
  case False
  then show ?thesis using assms by (simp add: getDirentByTitleIndex_def getDirectIndex_def word_le_nat_alt)
next
  case True
  then have "getDirectIndex junk acc idx = Inr (order ! unat idx)"
    using read_index_list [OF assms(2) True] assms(3) by (simp add: getDirectIndex_def word_le_nat_alt)
  moreover have "unat (order ! unat idx) < length ds" using True assms(4) by simp
  ultimately show ?thesis
    using True getDirent_holds [OF assms(1), of "order ! unat idx"]
    by (auto simp: getDirentByTitleIndex_def split: prod.splits)
qed

theorem title_accessor_returns_listed_entry_witness:
  "fst (getDirentByTitleIndex (\<lambda>_. 0) 0
     \<lparr>mp_direntAccessor = example_accessor,
      mp_indexReader = BufferReader \<lparr>buf_data = toLittleEndian32 0, buf_size = 4\<rparr>,
      m_titleCount = 1\<rparr>) = Inr (example_dirent 2)"
proof -
  let ?acc = "\<lparr>mp_direntAccessor = example_accessor,
      mp_indexReader = BufferReader \<lparr>buf_data = toLittleEndian32 0, buf_size = 4\<rparr>, m_titleCount = 1\<rparr>"
  have "reader_holds (mp_indexReader ?acc) (concat (map toLittleEndian32 [0]))"
    using memory_reader_holds [of "toLittleEndian32 0"] by (simp del: reader_holds.simps)
  from title_accessor_returns_listed_entry [OF _ this, of "\<lambda>_. 0" "[example_dirent 2]" 0] show ?thesis
    by (simp add: example_accessor_holds del: reader_holds.simps)
qed

end
