(* ===== verification/Narrow_Down.thy ===== *)
theory Narrow_Down
  imports Zim_Prelude
begin

text \<open>
  The in-memory index of \<^verbatim>\<open>src/narrowdown.h\<close>: a sparse list of pseudo keys, each with the index of
  the item after which it could be inserted into the sorted sequence, packed into one character
  array. Shown here: the range returned for a query really brackets it in the sequence the index
  was built from, so the search that follows cannot miss an item outside the range.
\<close>

section \<open>Data\<close>

record nd_entry =
  pseudoKeyOffset :: u32
  lindex :: u32

record NarrowDown =
  nd_entries :: "nd_entry list"
  keyContentArea :: bytes

definition new_NarrowDown :: NarrowDown where
  "new_NarrowDown = \<lparr>nd_entries = [], keyContentArea = []\<rparr>"

section \<open>Operations\<close>

text \<open>\<^verbatim>\<open>getKeyContent\<close> gives a C string, read up to its terminating zero.\<close>

definition getKeyContent :: "bytes \<Rightarrow> nd_entry \<Rightarrow> bytes" where
  "getKeyContent area e = takeWhile (\<lambda>c. c \<noteq> 0) (drop (unat (pseudoKeyOffset e)) area)"

definition pred_entry_key :: "bytes \<Rightarrow> nd_entry \<Rightarrow> bytes \<Rightarrow> bool" where
  "pred_entry_key area e key \<longleftrightarrow> key \<ge> getKeyContent area e"

definition pred_key_entry :: "bytes \<Rightarrow> bytes \<Rightarrow> nd_entry \<Rightarrow> bool" where
  "pred_key_entry area key e \<longleftrightarrow> key < getKeyContent area e"

definition addEntry :: "bytes \<Rightarrow> u32 \<Rightarrow> NarrowDown \<Rightarrow> NarrowDown" where
  "addEntry s i nd =
     nd\<lparr>nd_entries := nd_entries nd @ [\<lparr>pseudoKeyOffset = of_nat (length (keyContentArea nd)), lindex = i\<rparr>],
        keyContentArea := keyContentArea nd @ s @ [0]\<rparr>"

text \<open>The length of the common prefix that \<^verbatim>\<open>std::mismatch\<close> finds.\<close>

fun mismatch :: "bytes \<Rightarrow> bytes \<Rightarrow> nat" where
  "mismatch (x # xs) (y # ys) = (if x = y then Suc (mismatch xs ys) else 0)"
| "mismatch _ _ = 0"

definition shortestStringInBetween :: "bytes \<Rightarrow> bytes \<Rightarrow> bytes res" where
  "shortestStringInBetween a b =
     ASSERT (a \<le> b)
       (let minlen = min (length a) (length b);
            m = mismatch (take minlen a) b
        in Inr (take (min (length b) (m + 1)) b))"

definition nd_add :: "bytes \<Rightarrow> u32 \<Rightarrow> bytes \<Rightarrow> NarrowDown \<Rightarrow> NarrowDown res" where
  "nd_add key i nextKey nd =
     (if nextKey < key then Inl (ZimFileFormatError ''Dirent table is not properly sorted'')
      else if nd_entries nd = [] then Inr (addEntry key i nd)
      else rbind (shortestStringInBetween key nextKey) (\<lambda>pseudoKey.
        if pred_key_entry (keyContentArea nd) pseudoKey (last (nd_entries nd))
        then Inl (ZimFileFormatError ''Dirent table is not properly sorted'')
        else ASSERT (lindex (last (nd_entries nd)) < i) (Inr (addEntry pseudoKey i nd))))"

definition nd_close :: "bytes \<Rightarrow> u32 \<Rightarrow> NarrowDown \<Rightarrow> NarrowDown res" where
  "nd_close key i nd =
     ASSERT (nd_entries nd = [] \<or> pred_entry_key (keyContentArea nd) (last (nd_entries nd)) key)
       (ASSERT (nd_entries nd = [] \<or> lindex (last (nd_entries nd)) < i) (Inr (addEntry key i nd)))"

text \<open>\<^verbatim>\<open>std::upper_bound\<close> on entries that are in order: the first one the key is before. The result is
  the range from \<^verbatim>\<open>begin\<close> to \<^verbatim>\<open>end\<close>.\<close>

definition nd_upper_bound :: "bytes \<Rightarrow> NarrowDown \<Rightarrow> nat" where
  "nd_upper_bound key nd =
     length (takeWhile (\<lambda>e. \<not> pred_key_entry (keyContentArea nd) key e) (nd_entries nd))"

definition getRange :: "bytes \<Rightarrow> NarrowDown \<Rightarrow> u32 \<times> u32" where
  "getRange key nd =
     (let it = nd_upper_bound key nd in
      if it = 0 then (0, 0)
      else
        let prevEntryLindex = lindex (nd_entries nd ! (it - 1)) in
        if it = length (nd_entries nd) then (prevEntryLindex, prevEntryLindex + 1)
        else (prevEntryLindex, lindex (nd_entries nd ! it) + 1))"

section \<open>Pseudo keys\<close>

lemma take_mismatch:
  assumes "a \<le> b"
  shows "a \<le> take (mismatch a b + 1) b" "take (mismatch a b + 1) b \<le> b"
proof -
  show "a \<le> take (mismatch a b + 1) b"
    using assms by (induction a b rule: mismatch.induct) (auto split: if_splits)
  show "take (mismatch a b + 1) b \<le> b"
    using lex_append_le [of "take (mismatch a b + 1) b" "drop (mismatch a b + 1) b"] by simp
qed

lemma mismatch_take: "mismatch (take (min (length a) (length b)) a) b = mismatch a b"
  by (induction a b rule: mismatch.induct) auto

lemma shortestStringInBetween_eq:
  "a \<le> b \<Longrightarrow> shortestStringInBetween a b = Inr (take (mismatch a b + 1) b)"
  unfolding shortestStringInBetween_def Let_def mismatch_take by (auto simp: min_def)

lemma shortestStringInBetween_between:
  assumes "shortestStringInBetween a b = Inr s"
  shows "a \<le> s" "s \<le> b" "set s \<subseteq> set b" "length s \<le> length b"
proof -
  have "a \<le> b" using assms by (simp add: shortestStringInBetween_def)
  then have "s = take (mismatch a b + 1) b" using assms by (simp add: shortestStringInBetween_eq)
  then show "a \<le> s" "s \<le> b" "set s \<subseteq> set b" "length s \<le> length b"
    using take_mismatch [OF \<open>a \<le> b\<close>] set_take_subset [of _ b] by auto
qed

section \<open>The packed keys\<close>

text \<open>The index as a list of pseudo keys and item indices; an entry is stored well when its offset
  points to a string that is terminated inside the area.\<close>

definition nd_keys :: "NarrowDown \<Rightarrow> (bytes \<times> nat) list" where
  "nd_keys nd = map (\<lambda>e. (getKeyContent (keyContentArea nd) e, unat (lindex e))) (nd_entries nd)"

definition nd_stored :: "NarrowDown \<Rightarrow> bool" where
  "nd_stored nd \<longleftrightarrow> (\<forall>e\<in>set (nd_entries nd). 0 \<in> set (drop (unat (pseudoKeyOffset e)) (keyContentArea nd)))"

lemma getKeyContent_append:
  assumes "0 \<in> set (drop (unat (pseudoKeyOffset e)) area)"
  shows "getKeyContent (area @ s) e = getKeyContent area e"
proof -
  have "unat (pseudoKeyOffset e) < length area" using assms by (metis drop_all empty_iff leI list.set(1))
  with assms show ?thesis by (simp add: getKeyContent_def)
qed

lemma addEntry_keys:
  assumes st: "nd_stored nd" and s: "0 \<notin> set s" and len: "length (keyContentArea nd) < 2 ^ 32"
  shows "nd_keys (addEntry s i nd) = nd_keys nd @ [(s, unat i)]" "nd_stored (addEntry s i nd)"
proof -
  have un: "unat (of_nat (length (keyContentArea nd)) :: u32) = length (keyContentArea nd)"
    using len by (simp add: unat_of_nat_small)
  have tw: "takeWhile (\<lambda>c. c \<noteq> 0) (s @ [0]) = s" using s by (induction s) auto
  show "nd_keys (addEntry s i nd) = nd_keys nd @ [(s, unat i)]"
    using st un tw
    by (auto simp: nd_keys_def addEntry_def nd_stored_def getKeyContent_append)
      (simp add: getKeyContent_def)
  show "nd_stored (addEntry s i nd)"
    using st un by (auto simp: nd_stored_def addEntry_def)
qed

section \<open>What an index knows of a sequence\<close>

text \<open>\<open>grid_ok ks es\<close>: the pseudo keys \<open>es\<close> are in order and each fits right after its item in the
  sorted keys \<open>ks\<close>, the condition stated in the source at \<^verbatim>\<open>Entry::lindex\<close>.\<close>

definition grid_ok :: "bytes list \<Rightarrow> (bytes \<times> nat) list \<Rightarrow> bool" where
  "grid_ok ks es \<longleftrightarrow> sorted (map fst es) \<and> sorted_wrt (<) (map snd es) \<and>
     (\<forall>(k, i)\<in>set es. i < length ks \<and> ks ! i \<le> k \<and> (Suc i < length ks \<longrightarrow> k \<le> ks ! Suc i)) \<and>
     (es \<noteq> [] \<longrightarrow> hd es = (ks ! 0, 0))"

definition grid_closed :: "bytes list \<Rightarrow> (bytes \<times> nat) list \<Rightarrow> bool" where
  "grid_closed ks es \<longleftrightarrow> grid_ok ks es \<and> es \<noteq> [] \<and> snd (last es) = length ks - 1"

lemma grid_ok_snoc:
  assumes ok: "grid_ok ks es" and srt: "sorted ks" and lt: "es \<noteq> [] \<Longrightarrow> snd (last es) < i"
    and k: "i < length ks" "ks ! i \<le> k" "Suc i < length ks \<Longrightarrow> k \<le> ks ! Suc i"
    and fst: "es = [] \<Longrightarrow> k = ks ! 0 \<and> i = 0"
  shows "grid_ok ks (es @ [(k, i)])"
proof (cases es rule: rev_cases)
  case Nil
  with fst k show ?thesis by (simp add: grid_ok_def)
next
  case (snoc es' e)
  obtain k0 i0 where e: "e = (k0, i0)" by (cases e)
  have i0: "i0 < i" using lt snoc e by simp
  moreover have "k0 \<le> ks ! Suc i0" using ok snoc e i0 k(1) by (auto simp: grid_ok_def)
  moreover have "ks ! Suc i0 \<le> ks ! i" using srt i0 k(1) by (intro sorted_nth_mono) auto
  ultimately have k0: "k0 \<le> k" using k(2) by (meson order_trans)
  have "\<forall>x\<in>set (map fst es). x \<le> k" using ok k0 snoc e by (auto simp: grid_ok_def sorted_append)
  moreover have "\<forall>x\<in>set (map snd es). x < i" using ok i0 snoc e by (auto simp: grid_ok_def sorted_wrt_append)
  ultimately show ?thesis
    using ok k snoc by (auto simp: grid_ok_def sorted_append sorted_wrt_append hd_append)
qed

lemma grid_ok_snoc_le: "grid_ok ks (es @ [(k, i)]) \<Longrightarrow> es \<noteq> [] \<Longrightarrow> last es = (k0, i0) \<Longrightarrow> k0 \<le> k"
  by (cases es rule: rev_cases) (auto simp: grid_ok_def sorted_append)

lemma nd_add_grid:
  assumes st: "nd_stored nd" and ok: "grid_ok ks (nd_keys nd)" and srt: "sorted ks"
    and lt: "nd_keys nd \<noteq> [] \<Longrightarrow> snd (last (nd_keys nd)) < unat i" and fst: "nd_keys nd = [] \<Longrightarrow> unat i = 0"
    and i: "Suc (unat i) < length ks" and nz: "\<forall>k\<in>set ks. 0 \<notin> set k"
    and len: "length (keyContentArea nd) < 2 ^ 32"
  shows "\<exists>nd'. nd_add (ks ! unat i) i (ks ! Suc (unat i)) nd = Inr nd' \<and> nd_stored nd' \<and>
    grid_ok ks (nd_keys nd') \<and> nd_keys nd' \<noteq> [] \<and> snd (last (nd_keys nd')) = unat i \<and>
    length (keyContentArea nd') \<le> length (keyContentArea nd) +
      (if nd_keys nd = [] then length (ks ! 0) else length (ks ! Suc (unat i))) + 1"
proof -
  let ?k = "ks ! unat i" and ?n = "ks ! Suc (unat i)"
  have le: "?k \<le> ?n" using srt i by (intro sorted_nth_mono) auto
  have nz': "0 \<notin> set ?k" "0 \<notin> set ?n" using nz i by auto
  have empty: "nd_entries nd = [] \<longleftrightarrow> nd_keys nd = []" by (simp add: nd_keys_def)
  show ?thesis
  proof (cases "nd_keys nd = []")
    case True
    have "grid_ok ks (nd_keys nd @ [(?k, unat i)])"
      using i le True fst by (intro grid_ok_snoc [OF ok srt lt]) auto
    with addEntry_keys [OF st nz'(1) len, of i] le True empty fst show ?thesis
      by (simp add: nd_add_def addEntry_def)
  next
    case False
    obtain s where s: "shortestStringInBetween ?k ?n = Inr s" using le by (simp add: shortestStringInBetween_eq)
    note S = shortestStringInBetween_between [OF s]
    let ?e = "last (nd_entries nd)"
    have last: "last (nd_keys nd) = (getKeyContent (keyContentArea nd) ?e, unat (lindex ?e))"
      using False by (simp add: nd_keys_def last_map)
    have ok': "grid_ok ks (nd_keys nd @ [(s, unat i)])"
      using S i False by (intro grid_ok_snoc [OF ok srt lt]) auto
    then have "getKeyContent (keyContentArea nd) ?e \<le> s"
      by (rule grid_ok_snoc_le [OF _ False last])
    then have "\<not> pred_key_entry (keyContentArea nd) s ?e" by (simp add: pred_key_entry_def)
    moreover have "lindex ?e < i" using lt [OF False] last by (simp add: word_less_nat_alt)
    moreover have "0 \<notin> set s" using S(3) nz'(2) by auto
    ultimately show ?thesis
      using addEntry_keys [OF st _ len, of s i] le False empty s S(4) ok'
      by (simp add: nd_add_def addEntry_def)
  qed
qed

lemma nd_close_grid:
  assumes st: "nd_stored nd" and ok: "grid_ok ks (nd_keys nd)" and srt: "sorted ks"
    and lt: "nd_keys nd \<noteq> [] \<Longrightarrow> snd (last (nd_keys nd)) < unat i" and fst: "nd_keys nd = [] \<Longrightarrow> unat i = 0"
    and i: "Suc (unat i) = length ks" and nz: "\<forall>k\<in>set ks. 0 \<notin> set k"
    and len: "length (keyContentArea nd) < 2 ^ 32"
  shows "\<exists>nd'. nd_close (ks ! unat i) i nd = Inr nd' \<and> nd_stored nd' \<and> grid_closed ks (nd_keys nd')"
proof -
  let ?k = "ks ! unat i" and ?e = "last (nd_entries nd)"
  have nz': "0 \<notin> set ?k" using nz i by auto
  have empty: "nd_entries nd = [] \<longleftrightarrow> nd_keys nd = []" by (simp add: nd_keys_def)
  have last: "last (nd_keys nd) = (getKeyContent (keyContentArea nd) ?e, unat (lindex ?e))" if "nd_keys nd \<noteq> []"
    using that by (simp add: nd_keys_def last_map)
  have ok': "grid_ok ks (nd_keys nd @ [(?k, unat i)])"
    using i fst by (intro grid_ok_snoc [OF ok srt lt]) auto
  have "pred_entry_key (keyContentArea nd) ?e ?k" "lindex ?e < i" if ne: "nd_keys nd \<noteq> []"
  proof -
    show "pred_entry_key (keyContentArea nd) ?e ?k"
      using grid_ok_snoc_le [OF ok' ne last [OF ne]] by (simp add: pred_entry_key_def)
    show "lindex ?e < i" using lt [OF ne] last [OF ne] by (simp add: word_less_nat_alt)
  qed
  with addEntry_keys [OF st nz' len, of i] ok' i empty show ?thesis
    by (auto simp: nd_close_def grid_closed_def)
qed

section \<open>The range brackets the query\<close>

lemma getRange_brackets:
  assumes cl: "grid_closed ks (nd_keys nd)" and fits: "length ks < 2 ^ 32"
  shows "(getRange q nd = (0, 0) \<and> q < ks ! 0) \<or>
    (\<exists>b e. getRange q nd = (b, e) \<and> unat b < unat e \<and> unat e \<le> length ks \<and> ks ! unat b \<le> q \<and>
       (unat e < length ks \<longrightarrow> q < ks ! unat e))"
proof -
  let ?es = "nd_keys nd" and ?it = "nd_upper_bound q nd"
  have ok: "grid_ok ks ?es" and ne: "?es \<noteq> []" using cl by (simp_all add: grid_closed_def)
  have len: "length ?es = length (nd_entries nd)" by (simp add: nd_keys_def)
  have it: "?it = length (takeWhile (\<lambda>(k, i). \<not> q < k) ?es)"
    by (simp add: nd_upper_bound_def nd_keys_def takeWhile_map pred_key_entry_def o_def)
  have nth: "?es ! j = (getKeyContent (keyContentArea nd) (nd_entries nd ! j), unat (lindex (nd_entries nd ! j)))"
    if "j < length ?es" for j using that len by (simp add: nd_keys_def)
  have item: "snd (?es ! j) < length ks \<and> ks ! snd (?es ! j) \<le> fst (?es ! j) \<and>
      (Suc (snd (?es ! j)) < length ks \<longrightarrow> fst (?es ! j) \<le> ks ! Suc (snd (?es ! j)))" if "j < length ?es" for j
    using ok nth_mem [OF that] unfolding grid_ok_def by (cases "?es ! j") fastforce
  have plus: "unat (lindex (nd_entries nd ! j) + 1) = Suc (snd (?es ! j))" if "j < length ?es" for j
    using item [OF that] nth [OF that] fits unat_plus_of_nat [of "lindex (nd_entries nd ! j)" 1] by simp
  show ?thesis
  proof (cases "?it = 0")
    case True
    have "takeWhile (\<lambda>(k, i). \<not> q < k) ?es = []" using True it by simp
    then have "q < fst (hd ?es)" using ne by (cases ?es) (auto split: if_splits prod.splits)
    then show ?thesis using ok ne True by (simp add: grid_ok_def getRange_def)
  next
    case False
    let ?p = "?it - 1"
    have p: "?p < length ?es" using False it length_takeWhile_le [of _ ?es] by (metis diff_less le_trans less_numeral_extra(1) not_gr0 order_less_le_trans)
    have "?p < length (takeWhile (\<lambda>(k, i). \<not> q < k) ?es)" using it False by simp
    then have "\<not> q < fst (?es ! ?p)"
      using takeWhile_nth [of ?p "\<lambda>(k, i). \<not> q < k" ?es] nth_mem [of ?p "takeWhile (\<lambda>(k, i). \<not> q < k) ?es"]
      by (auto dest: set_takeWhileD split: prod.splits)
    then have lo: "ks ! snd (?es ! ?p) \<le> q" using item [OF p] by (meson leI order_trans)
    show ?thesis
    proof (cases "?it = length ?es")
      case True
      then have "snd (?es ! ?p) = length ks - 1" using cl ne by (simp add: grid_closed_def last_conv_nth)
      then show ?thesis
        using True False lo nth [OF p] plus [OF p] item [OF p] len by (auto simp: getRange_def Let_def)
    next
      case inner: False
      then have i: "?it < length ?es" using it length_takeWhile_le [of _ ?es] by (metis le_neq_implies_less)
      have q: "q < fst (?es ! ?it)"
        using nth_length_takeWhile [of "\<lambda>(k, i). \<not> q < k" ?es] i it by (auto split: prod.splits)
      have "snd (?es ! ?p) < snd (?es ! ?it)"
        using ok p i False sorted_wrt_nth_less [of "(<)" "map snd ?es" ?p ?it] by (simp add: grid_ok_def)
      moreover have "Suc (snd (?es ! ?it)) < length ks \<longrightarrow> q < ks ! Suc (snd (?es ! ?it))"
        using q item [OF i] by (meson order_less_le_trans)
      ultimately show ?thesis
        using inner False lo nth [OF p] nth [OF i] plus [OF i] item [OF i] len
        by (auto simp: getRange_def Let_def)
    qed
  qed
qed

end
