(* ===== verification/Dirent_Lookup.thy ===== *)
theory Dirent_Lookup
  imports Dirents Narrow_Down
begin

text \<open>
  Looking an entry up by namespace and URL, \<^verbatim>\<open>src/dirent_lookup.h\<close>: the in-memory grid built when an
  archive is opened, the binary search that follows it, and the search for the range of a
  namespace with its cache. The class is a template over the dirent accessor; here it takes the
  accessor's \<^verbatim>\<open>getDirent\<close> as a function, and a locale states what the accessor promises.

  Shown here: on an archive whose entries are sorted, building the grid succeeds, and \<^verbatim>\<open>find\<close>
  returns the index of an entry with the wanted key or the position where it would have to be; the
  search ends. The namespace search gives the number of entries in earlier namespaces.
\<close>

section \<open>Operations\<close>

text \<open>\<^verbatim>\<open>char\<close> is signed on the platforms the library is built for first.\<close>

definition char_less :: "byte \<Rightarrow> byte \<Rightarrow> bool" where
  "char_less a b \<longleftrightarrow> sint a < sint b"

definition dirent_key :: "Dirent \<Rightarrow> bytes" where
  "dirent_key d = d_ns d # d_url d"

definition getDirentKey :: "(u32 \<Rightarrow> Dirent res) \<Rightarrow> u32 \<Rightarrow> bytes res" where
  "getDirentKey getd i = rbind (getd i) (\<lambda>d. Inr (dirent_key d))"

record DirentLookup =
  namespaceBoundaryCache :: "byte \<rightharpoonup> u32"
  direntCount :: u32
  lookupGrid :: NarrowDown

partial_function (option) grid_loop ::
    "(u32 \<Rightarrow> Dirent res) \<Rightarrow> u32 \<Rightarrow> u32 \<Rightarrow> u32 \<Rightarrow> NarrowDown \<Rightarrow> NarrowDown res option" where
  "grid_loop getd count step i grid =
     (if i < count - 1 then
        (case rbind (getDirentKey getd i) (\<lambda>key.
              rbind (getDirentKey getd (i + 1)) (\<lambda>nextKey. nd_add key i nextKey grid)) of
           Inl e \<Rightarrow> Some (Inl e)
         | Inr grid' \<Rightarrow> grid_loop getd count step (i + step) grid')
      else Some (Inr grid))"

definition new_DirentLookup :: "(u32 \<Rightarrow> Dirent res) \<Rightarrow> u32 \<Rightarrow> u32 \<Rightarrow> DirentLookup res" where
  "new_DirentLookup getd count cacheEntryCount =
     (if count = 0 then
        Inr \<lparr>namespaceBoundaryCache = Map.empty, direntCount = 0, lookupGrid = new_NarrowDown\<rparr>
      else if cacheEntryCount = 0 then Inl MemoryFault
      else
        let step = max 1 (count div cacheEntryCount) in
        rbind (case grid_loop getd count step 0 new_NarrowDown of None \<Rightarrow> Inl NoReturn | Some r \<Rightarrow> r) (\<lambda>grid.
        rbind (getDirentKey getd (count - 1)) (\<lambda>key.
        rbind (nd_close key (count - 1) grid) (\<lambda>grid.
          Inr \<lparr>namespaceBoundaryCache = Map.empty, direntCount = count, lookupGrid = grid\<rparr>))))"

text \<open>\<^verbatim>\<open>std::string::compare\<close>.\<close>

definition string_compare :: "bytes \<Rightarrow> bytes \<Rightarrow> int" where
  "string_compare a b = (if a < b then - 1 else if b < a then 1 else 0)"

definition entry_compare :: "byte \<Rightarrow> bytes \<Rightarrow> Dirent \<Rightarrow> int" where
  "entry_compare ns url d =
     (if char_less ns (d_ns d) then - 1 else if char_less (d_ns d) ns then 1 else string_compare url (d_url d))"

partial_function (option) find_loop ::
    "(u32 \<Rightarrow> Dirent res) \<Rightarrow> byte \<Rightarrow> bytes \<Rightarrow> u32 \<Rightarrow> u32 \<Rightarrow> (bool \<times> u32) res option" where
  "find_loop getd ns url l u =
     (let p = l + (u - l) div 2 in
      case getd p of
        Inl e \<Rightarrow> Some (Inl e)
      | Inr d \<Rightarrow>
          (let c = entry_compare ns url d in
           if c < 0 then find_loop getd ns url l p
           else if c > 0 then (if l = p then Some (Inr (False, u)) else find_loop getd ns url p u)
           else Some (Inr (True, p))))"

definition dl_find :: "(u32 \<Rightarrow> Dirent res) \<Rightarrow> DirentLookup \<Rightarrow> byte \<Rightarrow> bytes \<Rightarrow> (bool \<times> u32) res" where
  "dl_find getd dl ns url =
     (case getRange (ns # url) (lookupGrid dl) of (l, u) \<Rightarrow>
        if l = u then Inr (False, l)
        else case find_loop getd ns url l u of None \<Rightarrow> Inl NoReturn | Some r \<Rightarrow> r)"

text \<open>The binary search of \<^verbatim>\<open>getNamespaceBeginOffset\<close>.\<close>

lemma half_less:
  assumes "1 < (w :: u32)"
  shows "unat (w div 2) < unat w" "unat (w - w div 2) < unat w" "0 < unat (w div 2)"
    "unat (w div 2) = unat w div 2"
proof -
  show d: "unat (w div 2) = unat w div 2" by (simp add: unat_div_distrib)
  have "1 < unat w" using assms by (simp add: word_less_nat_alt)
  then show "unat (w div 2) < unat w" "unat (w - w div 2) < unat w" "0 < unat (w div 2)"
    using d by (auto simp: unat_diff)
qed

function namespace_loop :: "(u32 \<Rightarrow> Dirent res) \<Rightarrow> byte \<Rightarrow> u32 \<Rightarrow> u32 \<Rightarrow> (u32 \<times> u32) res" where
  "namespace_loop getd ch lower upper =
     (if 1 < upper - lower then
        (let m = lower + (upper - lower) div 2 in
         case getd m of
           Inl e \<Rightarrow> Inl e
         | Inr d \<Rightarrow>
             if \<not> char_less (d_ns d) ch then namespace_loop getd ch lower m
             else namespace_loop getd ch m upper)
      else Inr (lower, upper))"
  by pat_completeness auto
termination
proof (relation "measure (\<lambda>(_, _, lower, upper). unat (upper - lower))", goal_cases)
  case (3 getd ch lower upper m d)
  then show ?case using half_less(2) [of "upper - lower"] by (simp add: diff_diff_eq [symmetric])
qed (use half_less(1) in auto)

definition getNamespaceBeginOffset :: "(u32 \<Rightarrow> Dirent res) \<Rightarrow> u32 \<Rightarrow> byte \<Rightarrow> u32 res" where
  "getNamespaceBeginOffset getd count ch =
     ASSERT (32 \<le> sint ch) (ASSERT (sint ch \<le> 127)
       (rbind (getd 0) (\<lambda>d.
        rbind (namespace_loop getd ch 0 count) (\<lambda>(lower, upper).
          Inr (if char_less (d_ns d) ch then upper else lower)))))"

definition getNamespaceEndOffset :: "(u32 \<Rightarrow> Dirent res) \<Rightarrow> u32 \<Rightarrow> byte \<Rightarrow> u32 res" where
  "getNamespaceEndOffset getd count ch =
     ASSERT (32 \<le> sint ch) (ASSERT (sint ch < 127) (getNamespaceBeginOffset getd count (ch + 1)))"

text \<open>The boundary cache is a \<^verbatim>\<open>std::map\<close> that only grows.\<close>

definition map_get :: "'k \<Rightarrow> ('k \<rightharpoonup> 'v) \<Rightarrow> 'v option \<times> ('k \<rightharpoonup> 'v)" where
  "map_get k m = (m k, m)"

definition map_put :: "'k \<Rightarrow> 'v \<Rightarrow> ('k \<rightharpoonup> 'v) \<Rightarrow> ('k \<rightharpoonup> 'v)" where
  "map_put k v m = m(k \<mapsto> v)"

definition getNamespaceRangeBegin ::
    "(u32 \<Rightarrow> Dirent res) \<Rightarrow> byte \<Rightarrow> DirentLookup \<Rightarrow> u32 res \<times> DirentLookup" where
  "getNamespaceRangeBegin getd ch dl =
     (if \<not> (32 \<le> sint ch \<and> sint ch \<le> 127) then (Inl AssertFailed, dl)
      else case read_through map_get map_put (getNamespaceBeginOffset getd (direntCount dl)) ch
             (namespaceBoundaryCache dl) of
        (r, cache') \<Rightarrow> (r, dl\<lparr>namespaceBoundaryCache := cache'\<rparr>))"

definition getNamespaceRangeEnd ::
    "(u32 \<Rightarrow> Dirent res) \<Rightarrow> byte \<Rightarrow> DirentLookup \<Rightarrow> u32 res \<times> DirentLookup" where
  "getNamespaceRangeEnd getd ns dl = getNamespaceRangeBegin getd (ns + 1) dl"

interpretation nsc: cache map_get map_put "\<lambda>_. True" "\<lambda>m. m"
  by unfold_locales (auto simp: map_get_def map_put_def split: if_splits)

section \<open>Sorted archives\<close>

text \<open>The order the writer gives the entries, with namespaces that are ASCII characters.\<close>

definition sorted_entries :: "Dirent list \<Rightarrow> bool" where
  "sorted_entries ds \<longleftrightarrow> sorted (map dirent_key ds) \<and>
     (\<forall>d\<in>set ds. 0 < d_ns d \<and> d_ns d < 128 \<and> 0 \<notin> set (d_url d)) \<and>
     sum_list (map (\<lambda>d. length (dirent_key d) + 1) ds) < 2 ^ 31"

lemma ascii_sint: "w < 128 \<Longrightarrow> sint w = uint (w :: byte)"
proof -
  assume "w < 128"
  then have "uint w < 128" by (simp add: word_less_def)
  moreover have "0 \<le> uint w" by simp
  then have "- 128 \<le> uint w" by linarith
  ultimately show ?thesis using signed_take_bit_int_eq_self [of 7 "uint w"] by (simp add: sint_uint)
qed

lemma char_less_ascii: "a < 128 \<Longrightarrow> b < 128 \<Longrightarrow> char_less a b \<longleftrightarrow> a < b"
  by (simp add: char_less_def ascii_sint word_less_def)

lemma entry_compare_ascii:
  assumes "ns < 128" "d_ns d < 128"
  shows "entry_compare ns url d < 0 \<longleftrightarrow> ns # url < dirent_key d"
    "entry_compare ns url d > 0 \<longleftrightarrow> dirent_key d < ns # url"
  using assms by (auto simp: entry_compare_def char_less_ascii string_compare_def dirent_key_def)

lemma sorted_entries_nth:
  assumes "sorted_entries ds" "i < length ds"
  shows "d_ns (ds ! i) < 128" "0 < d_ns (ds ! i)" "0 \<notin> set (dirent_key (ds ! i))"
    "i \<le> j \<Longrightarrow> j < length ds \<Longrightarrow> dirent_key (ds ! i) \<le> dirent_key (ds ! j)"
proof -
  have "ds ! i \<in> set ds" using assms(2) by simp
  then have *: "0 < d_ns (ds ! i) \<and> d_ns (ds ! i) < 128 \<and> 0 \<notin> set (d_url (ds ! i))"
    using assms(1) unfolding sorted_entries_def by blast
  then show "d_ns (ds ! i) < 128" "0 < d_ns (ds ! i)" "0 \<notin> set (dirent_key (ds ! i))"
    by (auto simp: dirent_key_def)
  show "dirent_key (ds ! i) \<le> dirent_key (ds ! j)" if "i \<le> j" "j < length ds"
    using assms(1) that sorted_nth_mono [of "map dirent_key ds" i j] by (simp add: sorted_entries_def)
qed

section \<open>What the accessor promises\<close>

locale dirent_impl =
  fixes getd :: "'a \<Rightarrow> u32 \<Rightarrow> Dirent res"
    and count :: "'a \<Rightarrow> u32"
    and holds :: "'a \<Rightarrow> Dirent list \<Rightarrow> bool"
  assumes count_holds: "holds a ds \<Longrightarrow> unat (count a) = length ds"
    and get_holds: "holds a ds \<Longrightarrow> unat i < length ds \<Longrightarrow> getd a i = Inr (ds ! unat i)"
begin

text \<open>The search between two bounds that bracket the key.\<close>

lemma find_loop_correct:
  assumes h: "holds a ds" and srt: "sorted_entries ds" and ns: "ns < 128"
    and lu: "unat l < unat u" "unat u \<le> length ds" and lo: "dirent_key (ds ! unat l) \<le> ns # url"
    and hi: "unat u < length ds \<Longrightarrow> ns # url < dirent_key (ds ! unat u)"
  shows "\<exists>b i. find_loop (getd a) ns url l u = Some (Inr (b, i)) \<and> unat i \<le> length ds \<and>
    (if b then unat i < length ds \<and> dirent_key (ds ! unat i) = ns # url
     else (\<forall>j<unat i. dirent_key (ds ! j) < ns # url) \<and>
          (\<forall>j. unat i \<le> j \<longrightarrow> j < length ds \<longrightarrow> ns # url < dirent_key (ds ! j)))"
  using lu lo hi
proof (induction "unat u - unat l" arbitrary: l u rule: less_induct)
  case less
  define p where "p = l + (u - l) div 2"
  have ul: "unat (u - l) = unat u - unat l" using less.prems(1) by (simp add: unat_diff)
  then have half: "unat ((u - l) div 2) = (unat u - unat l) div 2" by (simp add: unat_div_distrib)
  have p: "unat p = unat l + (unat u - unat l) div 2"
  proof -
    have "unat l + (unat u - unat l) div 2 < unat u" using less.prems(1) by simp
    then have "unat l + unat ((u - l) div 2) < 2 ^ LENGTH(32)"
      unfolding half using unat_bound [of u] by (rule less_trans)
    then show ?thesis unfolding p_def using half by (simp add: unat_add_small)
  qed
  then have pu: "unat l \<le> unat p" "unat p < unat u" using less.prems(1) by auto
  then have pl: "unat p < length ds" using less.prems(2) by simp
  let ?d = "ds ! unat p"
  have d: "getd a p = Inr ?d" by (rule get_holds [OF h pl])
  note C = entry_compare_ascii [OF ns sorted_entries_nth(1) [OF srt pl], of url]
  have unf: "find_loop (getd a) ns url l u =
      (if ns # url < dirent_key ?d then find_loop (getd a) ns url l p
       else if dirent_key ?d < ns # url then
         (if l = p then Some (Inr (False, u)) else find_loop (getd a) ns url p u)
       else Some (Inr (True, p)))"
    using C by (subst find_loop.simps) (simp add: p_def [symmetric] Let_def d)
  consider "ns # url < dirent_key ?d" | "dirent_key ?d < ns # url" | "dirent_key ?d = ns # url"
    by fastforce
  then show ?case
  proof cases
    case 1
    then have "unat l < unat p" using less.prems(3) pu(1) by (metis le_neq_implies_less leD)
    then show ?thesis
      using less.hyps [of p l] less.prems pu pl 1 by (simp add: unf)
  next
    case 2
    then have le: "\<not> ns # url < dirent_key ?d" "dirent_key ?d \<le> ns # url" by simp_all
    show ?thesis
    proof (cases "l = p")
      case False
      then have "unat l < unat p" using pu(1) by (simp add: order.strict_iff_order word_unat_eq_iff)
      then show ?thesis
        using less.hyps [of u p] less.prems pu 2 False le by (simp add: unf)
    next
      case True
      then have u: "unat u = Suc (unat l)" using p less.prems(1) by auto
      have "dirent_key (ds ! j) < ns # url" if "j < unat u" for j
        using that u 2 True sorted_entries_nth(4) [OF srt, of j "unat p"] pl by (simp add: order_le_less_trans)
      moreover have "ns # url < dirent_key (ds ! j)" if "unat u \<le> j" "j < length ds" for j
        using that less.prems(4) sorted_entries_nth(4) [OF srt, of "unat u" j] by (simp add: order_less_le_trans)
      ultimately show ?thesis
        using 2 True less.prems(2) unfolding unf by auto
    qed
  next
    case 3
    then show ?thesis using pl by (auto simp: unf)
  qed
qed

end

text \<open>Building the grid: the loop stops before the last entry, and the characters stored stay within
  those of the keys passed so far.\<close>

definition key_cost :: "Dirent list \<Rightarrow> nat \<Rightarrow> nat" where
  "key_cost ds n = sum_list (map (\<lambda>d. length (dirent_key d) + 1) (take n ds))"

definition grid_upto :: "Dirent list \<Rightarrow> nat \<Rightarrow> NarrowDown \<Rightarrow> bool" where
  "grid_upto ds i grid \<longleftrightarrow> nd_stored grid \<and> grid_ok (map dirent_key ds) (nd_keys grid) \<and>
     (nd_keys grid = [] \<longrightarrow> i = 0 \<and> keyContentArea grid = []) \<and> (nd_keys grid \<noteq> [] \<longrightarrow> snd (last (nd_keys grid)) < i \<and> Suc (snd (last (nd_keys grid))) < length ds) \<and>
     length (keyContentArea grid) \<le> key_cost ds (Suc i)"

lemma key_cost_mono: "m \<le> n \<Longrightarrow> key_cost ds m \<le> key_cost ds n"
proof -
  assume "m \<le> n"
  then have "take n ds = take m ds @ take (n - m) (drop m ds)" by (simp add: take_add [symmetric])
  then show ?thesis by (simp add: key_cost_def)
qed

lemma key_cost_Suc: "n < length ds \<Longrightarrow> key_cost ds (Suc n) = key_cost ds n + length (dirent_key (ds ! n)) + 1"
  by (simp add: key_cost_def take_Suc_conv_app_nth)

lemma key_cost_bound: "sorted_entries ds \<Longrightarrow> key_cost ds n < 2 ^ 31"
  using key_cost_mono [of n "max n (length ds)" ds] by (simp add: sorted_entries_def key_cost_def)

lemma grid_upto_new: "grid_upto ds 0 new_NarrowDown"
  by (simp add: grid_upto_def new_NarrowDown_def nd_stored_def nd_keys_def grid_ok_def)

lemma sorted_entries_keys:
  "sorted_entries ds \<Longrightarrow> sorted (map dirent_key ds)"
  "sorted_entries ds \<Longrightarrow> \<forall>k\<in>set (map dirent_key ds). 0 \<notin> set k"
  by (auto simp: sorted_entries_def dirent_key_def)

lemma grid_step:
  assumes srt: "sorted_entries ds" and g: "grid_upto ds (unat i) grid"
    and i: "Suc (unat i) < length ds" and j: "unat i < j"
  shows "\<exists>grid'. nd_add (dirent_key (ds ! unat i)) i (dirent_key (ds ! Suc (unat i))) grid = Inr grid' \<and>
    grid_upto ds j grid'"
proof -
  let ?ks = "map dirent_key ds"
  have len: "length (keyContentArea grid) < 2 ^ 32"
    using g key_cost_bound [OF srt, of "Suc (unat i)"] by (simp add: grid_upto_def)
  obtain grid' where g': "nd_add (?ks ! unat i) i (?ks ! Suc (unat i)) grid = Inr grid'" "nd_stored grid'"
      "grid_ok ?ks (nd_keys grid')" "nd_keys grid' \<noteq> []" "snd (last (nd_keys grid')) = unat i"
      "length (keyContentArea grid') \<le> length (keyContentArea grid) +
        (if nd_keys grid = [] then length (?ks ! 0) else length (?ks ! Suc (unat i))) + 1"
    using nd_add_grid [of grid ?ks i] g i len sorted_entries_keys [OF srt] unfolding grid_upto_def by auto
  have "length (keyContentArea grid') \<le> key_cost ds (Suc j)"
  proof (cases "nd_keys grid = []")
    case True
    have ne: "0 < length ds" using i by linarith
    have "key_cost ds 1 = length (dirent_key (ds ! 0)) + 1"
      using key_cost_Suc [OF ne] by (simp add: key_cost_def)
    then show ?thesis
      using g'(6) g True ne key_cost_mono [of 1 "Suc j" ds] by (simp add: grid_upto_def)
  next
    case False
    then show ?thesis
      using g'(6) g i key_cost_Suc [of "Suc (unat i)" ds] key_cost_mono [of "Suc (Suc (unat i))" "Suc j" ds] j
      by (simp add: grid_upto_def)
  qed
  with g' i j show ?thesis by (auto simp: grid_upto_def)
qed

text \<open>Sorted keys have sorted namespaces.\<close>

lemma sorted_entries_ns:
  assumes "sorted_entries ds" "i \<le> j" "j < length ds"
  shows "d_ns (ds ! i) \<le> d_ns (ds ! j)"
  using sorted_entries_nth(4) [OF assms(1), of i j] assms(2,3) by (auto simp: dirent_key_def)

lemma count_less_ns:
  assumes "r \<le> length ds" "\<forall>j<r. d_ns (ds ! j) < ch" "\<forall>j. r \<le> j \<longrightarrow> j < length ds \<longrightarrow> \<not> d_ns (ds ! j) < ch"
  shows "length (filter (\<lambda>d. d_ns d < ch) ds) = r"
proof -
  have "filter (\<lambda>d. d_ns d < ch) (take r ds) = take r ds"
    using assms(1,2) by (auto simp: filter_id_conv in_set_conv_nth)
  moreover have "filter (\<lambda>d. d_ns d < ch) (drop r ds) = []"
    using assms(1,3) by (auto simp: filter_empty_conv in_set_conv_nth)
  ultimately have "filter (\<lambda>d. d_ns d < ch) (take r ds @ drop r ds) = take r ds"
    by (simp only: filter_append append_Nil2)
  then show ?thesis using assms(1) by simp
qed

context dirent_impl
begin

lemma getDirentKey_holds:
  "holds a ds \<Longrightarrow> unat i < length ds \<Longrightarrow> getDirentKey (getd a) i = Inr (dirent_key (ds ! unat i))"
  by (simp add: getDirentKey_def get_holds)

lemma grid_loop_correct:
  assumes h: "holds a ds" and srt: "sorted_entries ds" and step: "0 < step" "length ds + unat step \<le> 2 ^ 32"
    and g: "grid_upto ds (unat i) grid" and ne: "ds \<noteq> []"
  shows "\<exists>grid'. grid_loop (getd a) (count a) step i grid = Some (Inr grid') \<and> nd_stored grid' \<and>
    grid_ok (map dirent_key ds) (nd_keys grid') \<and> (nd_keys grid' = [] \<longrightarrow> length ds = 1) \<and>
    (nd_keys grid' \<noteq> [] \<longrightarrow> snd (last (nd_keys grid')) < length ds - 1) \<and>
    length (keyContentArea grid') < 2 ^ 32"
  using g
proof (induction "length ds - unat i" arbitrary: i grid rule: less_induct)
  case less
  have cnt: "unat (count a) = length ds" by (rule count_holds [OF h])
  have c1: "unat (count a - 1) = length ds - 1" using cnt ne by (simp add: unat_diff Suc_le_eq)
  show ?case
  proof (cases "i < count a - 1")
    case False
    then have "length ds - 1 \<le> unat i" using c1 by (simp add: word_less_nat_alt)
    then show ?thesis
      using less.prems False ne key_cost_bound [OF srt, of "Suc (unat i)"]
      by (subst grid_loop.simps) (auto simp: grid_upto_def le_Suc_eq)
  next
    case True
    then have i: "Suc (unat i) < length ds" using c1 by (simp add: word_less_nat_alt)
    have st: "unat (i + step) = unat i + unat step" using i step(2) by (intro unat_add_small) simp
    have one: "unat (i + 1) = Suc (unat i)" using i step(2) unat_plus_of_nat [of i 1] by simp
    have pos: "0 < unat step" using step(1) by (simp add: word_less_nat_alt)
    obtain grid1 where g1: "nd_add (dirent_key (ds ! unat i)) i (dirent_key (ds ! Suc (unat i))) grid = Inr grid1"
        "grid_upto ds (unat (i + step)) grid1"
      using grid_step [OF srt less.prems i, of "unat (i + step)"] st pos by auto
    have "grid_loop (getd a) (count a) step i grid = grid_loop (getd a) (count a) step (i + step) grid1"
      using True g1(1) getDirentKey_holds [OF h, of i] getDirentKey_holds [OF h, of "i + 1"] i one
      by (subst grid_loop.simps) simp
    then show ?thesis using less.hyps [OF _ g1(2)] st pos i by simp
  qed
qed

lemma new_DirentLookup_correct:
  assumes h: "holds a ds" and srt: "sorted_entries ds" and c: "0 < c" "2 * length ds \<le> 2 ^ 32"
  shows "\<exists>dl. new_DirentLookup (getd a) (count a) c = Inr dl \<and> direntCount dl = count a \<and>
    namespaceBoundaryCache dl = Map.empty \<and>
    (if ds = [] then lookupGrid dl = new_NarrowDown
     else grid_closed (map dirent_key ds) (nd_keys (lookupGrid dl)))"
proof (cases "ds = []")
  case True
  then have "count a = 0" using count_holds [OF h] by (simp add: unat_eq_0)
  then show ?thesis using True by (simp add: new_DirentLookup_def)
next
  case False
  have cnt: "unat (count a) = length ds" by (rule count_holds [OF h])
  have n0: "0 < length ds" using False by simp
  have c1: "unat (count a - 1) = length ds - 1" using cnt n0 by (simp add: unat_diff Suc_le_eq)
  define step where "step = max 1 (count a div c)"
  have "1 \<le> unat step" by (simp add: step_def max_def word_le_nat_alt)
  then have st: "0 < step" by (simp add: word_less_nat_alt)
  have "unat (count a div c) \<le> length ds" using cnt by (simp add: unat_div_distrib)
  then have st2: "unat step \<le> length ds" using n0 unfolding step_def max_def by (simp add: Suc_le_eq)
  obtain grid where g: "grid_loop (getd a) (count a) step 0 new_NarrowDown = Some (Inr grid)" "nd_stored grid"
      "grid_ok (map dirent_key ds) (nd_keys grid)" "nd_keys grid = [] \<longrightarrow> length ds = 1"
      "nd_keys grid \<noteq> [] \<longrightarrow> snd (last (nd_keys grid)) < length ds - 1" "length (keyContentArea grid) < 2 ^ 32"
    using grid_loop_correct [OF h srt st, of 0 new_NarrowDown] grid_upto_new False st2 c(2) by auto
  obtain grid' where g': "nd_close (dirent_key (ds ! unat (count a - 1))) (count a - 1) grid = Inr grid'"
      "grid_closed (map dirent_key ds) (nd_keys grid')"
    using nd_close_grid [OF g(2,3), of "count a - 1"] sorted_entries_keys [OF srt] g c1 n0 by auto
  have "new_DirentLookup (getd a) (count a) c =
      Inr \<lparr>namespaceBoundaryCache = Map.empty, direntCount = count a, lookupGrid = grid'\<rparr>"
    using g(1) g'(1) c(1) cnt n0 c1 getDirentKey_holds [OF h, of "count a - 1"]
    by (auto simp: new_DirentLookup_def Let_def step_def [symmetric])
  then show ?thesis using g'(2) False by simp
qed

lemma find_correct:
  assumes h: "holds a ds" and srt: "sorted_entries ds" and ns: "ns < 128" and c: "0 < c" "2 * length ds \<le> 2 ^ 32"
    and dl: "new_DirentLookup (getd a) (count a) c = Inr dl"
  shows "\<exists>b i. dl_find (getd a) dl ns url = Inr (b, i) \<and> unat i \<le> length ds \<and>
    (if b then unat i < length ds \<and> dirent_key (ds ! unat i) = ns # url
     else (\<forall>j<unat i. dirent_key (ds ! j) < ns # url) \<and>
          (\<forall>j. unat i \<le> j \<longrightarrow> j < length ds \<longrightarrow> ns # url < dirent_key (ds ! j)))"
proof (cases "ds = []")
  case True
  then have "lookupGrid dl = new_NarrowDown" using new_DirentLookup_correct [OF h srt c] dl by auto
  then show ?thesis
    using True by (auto simp: dl_find_def getRange_def new_NarrowDown_def nd_upper_bound_def)
next
  case False
  let ?ks = "map dirent_key ds"
  have cl: "grid_closed ?ks (nd_keys (lookupGrid dl))" using new_DirentLookup_correct [OF h srt c] dl False by auto
  have n: "length ?ks < 2 ^ 32" using c(2) False by (cases ds) auto
  from getRange_brackets [OF cl n, of "ns # url"] show ?thesis
  proof
    assume A: "getRange (ns # url) (lookupGrid dl) = (0, 0) \<and> ns # url < ?ks ! 0"
    have "ns # url < dirent_key (ds ! j)" if "j < length ds" for j
      using A that False sorted_entries_nth(4) [OF srt, of 0 j] by (auto intro: order_less_le_trans)
    then show ?thesis using A by (simp add: dl_find_def) (auto intro: exI [of _ False])
  next
    assume "\<exists>b e. getRange (ns # url) (lookupGrid dl) = (b, e) \<and> unat b < unat e \<and> unat e \<le> length ?ks \<and>
      ?ks ! unat b \<le> ns # url \<and> (unat e < length ?ks \<longrightarrow> ns # url < ?ks ! unat e)"
    then obtain l u where lu: "getRange (ns # url) (lookupGrid dl) = (l, u)" "unat l < unat u"
        "unat u \<le> length ds" "?ks ! unat l \<le> ns # url" "unat u < length ?ks \<longrightarrow> ns # url < ?ks ! unat u" by auto
    have "dirent_key (ds ! unat l) \<le> ns # url" "unat u < length ds \<Longrightarrow> ns # url < dirent_key (ds ! unat u)"
      using lu by simp_all
    moreover have "l \<noteq> u" using lu(2) by auto
    ultimately obtain b i where "find_loop (getd a) ns url l u = Some (Inr (b, i)) \<and> unat i \<le> length ds \<and>
      (if b then unat i < length ds \<and> dirent_key (ds ! unat i) = ns # url
       else (\<forall>j<unat i. dirent_key (ds ! j) < ns # url) \<and>
          (\<forall>j. unat i \<le> j \<longrightarrow> j < length ds \<longrightarrow> ns # url < dirent_key (ds ! j)))"
      using find_loop_correct [OF h srt ns lu(2,3)] by blast
    with lu(1) \<open>l \<noteq> u\<close> show ?thesis by (intro exI [of _ b] exI [of _ i]) (simp add: dl_find_def)
  qed
qed

lemma namespace_loop_correct:
  assumes h: "holds a ds" and srt: "sorted_entries ds" and ch: "ch < 128"
    and lu: "unat lower < unat upper" "unat upper \<le> length ds"
    and hi: "unat upper < length ds \<longrightarrow> \<not> d_ns (ds ! unat upper) < ch"
    and lo: "unat lower = 0 \<or> d_ns (ds ! unat lower) < ch"
  shows "\<exists>l u. namespace_loop (getd a) ch lower upper = Inr (l, u) \<and> unat u = Suc (unat l) \<and> unat u \<le> length ds \<and>
    (unat u < length ds \<longrightarrow> \<not> d_ns (ds ! unat u) < ch) \<and> (unat l = 0 \<or> d_ns (ds ! unat l) < ch)"
  using lu hi lo ch
proof (induction "getd a" ch lower upper rule: namespace_loop.induct)
  case (1 ch lower upper)
  have diff: "unat (upper - lower) = unat upper - unat lower" using "1.prems"(1) by (simp add: unat_diff)
  show ?case
  proof (cases "1 < upper - lower")
    case False
    then have "unat upper = Suc (unat lower)" using diff "1.prems"(1) by (simp add: word_less_nat_alt)
    then show ?thesis using False "1.prems" by simp
  next
    case True
    define m where "m = lower + (upper - lower) div 2"
    note H = half_less [OF True]
    have "unat lower + unat ((upper - lower) div 2) < 2 ^ 32"
      using H(1) diff "1.prems"(1) unat_bound [of upper] by (simp del: unat_u32_bound)
    then have m: "unat m = unat lower + unat ((upper - lower) div 2)"
      unfolding m_def by (intro unat_add_small) simp
    then have mb: "unat lower < unat m" "unat m < unat upper" using H(1,3) diff "1.prems"(1) by simp_all
    then have d: "getd a m = Inr (ds ! unat m)" using get_holds [OF h, of m] "1.prems"(2) by simp
    have cl: "char_less (d_ns (ds ! unat m)) ch \<longleftrightarrow> d_ns (ds ! unat m) < ch"
      using mb "1.prems"(2,5) by (intro char_less_ascii sorted_entries_nth(1) [OF srt]) auto
    show ?thesis
    proof (cases "d_ns (ds ! unat m) < ch")
      case lt: True
      with "1.hyps"(2) [OF True m_def d] cl mb "1.prems" d True show ?thesis
        by (simp add: Let_def m_def [symmetric])
    next
      case ge: False
      with "1.hyps"(1) [OF True m_def d] cl mb "1.prems" d True show ?thesis
        by (simp add: Let_def m_def [symmetric])
    qed
  qed
qed

lemma namespace_begin_correct:
  assumes h: "holds a ds" and srt: "sorted_entries ds" and ne: "ds \<noteq> []" and ch: "32 \<le> ch" "ch < 128"
  shows "\<exists>r. getNamespaceBeginOffset (getd a) (count a) ch = Inr r \<and>
    unat r = length (filter (\<lambda>d. d_ns d < ch) ds)"
proof -
  have n: "unat (count a) = length ds" "0 < length ds" using count_holds [OF h] ne by simp_all
  obtain l u where lu: "namespace_loop (getd a) ch 0 (count a) = Inr (l, u)" "unat u = Suc (unat l)"
      "unat u \<le> length ds" "unat u < length ds \<longrightarrow> \<not> d_ns (ds ! unat u) < ch"
      "unat l = 0 \<or> d_ns (ds ! unat l) < ch"
    using namespace_loop_correct [OF h srt ch(2), of 0 "count a"] n by auto
  have cl: "char_less (d_ns (ds ! 0)) ch \<longleftrightarrow> d_ns (ds ! 0) < ch"
    using char_less_ascii [OF sorted_entries_nth(1) [OF srt n(2)] ch(2)] .
  have sint: "32 \<le> sint ch" "sint ch \<le> 127" using ascii_sint [OF ch(2)] ch by (simp_all add: word_le_def word_less_def)
  have d0: "getd a 0 = Inr (ds ! 0)" using get_holds [OF h, of 0] n by simp
  show ?thesis
  proof (cases "d_ns (ds ! 0) < ch")
    case True
    have "d_ns (ds ! unat l) < ch" using True lu(5) by auto
    then have "\<forall>j<unat u. d_ns (ds ! j) < ch"
      using lu(2,3) sorted_entries_ns [OF srt, of _ "unat l"] by (auto simp: less_Suc_eq_le intro: order_le_less_trans)
    moreover have "\<forall>j. unat u \<le> j \<longrightarrow> j < length ds \<longrightarrow> \<not> d_ns (ds ! j) < ch"
      using lu(4) sorted_entries_ns [OF srt, of "unat u"] by (meson order_le_less_trans)
    ultimately have "length (filter (\<lambda>d. d_ns d < ch) ds) = unat u" using lu(3) by (intro count_less_ns) auto
    then show ?thesis using True cl lu(1) d0 sint by (simp add: getNamespaceBeginOffset_def)
  next
    case False
    have all: "\<not> d_ns (ds ! j) < ch" if "j < length ds" for j
      using False sorted_entries_ns [OF srt, of 0 j] that by (meson order_le_less_trans zero_le)
    then have "unat l = 0" using lu(2,3,5) by auto
    moreover have "length (filter (\<lambda>d. d_ns d < ch) ds) = 0" using all by (intro count_less_ns) auto
    ultimately show ?thesis using False cl lu(1) d0 sint by (simp add: getNamespaceBeginOffset_def)
  qed
qed

end

interpretation acc: dirent_impl "loadDirent junk" m_direntCount entries_stored for junk
proof (unfold_locales, goal_cases)
  case (1 a ds)
  then show ?case by (auto simp: entries_stored_def)
next
  case (2 a ds i)
  then show ?case by (simp add: loadDirent_stored)
qed

section \<open>Properties\<close>

text \<open>C13: Looking up a path in a sorted archive. For an archive whose entries are stored in key order
  the look-up structure can be built, for any positive cache size, and then \<^verbatim>\<open>find\<close> returns for
  every path: found, with the index of an entry that has exactly this namespace and URL; or not
  found, with the position that splits the entries into those before and those after the key. The
  search therefore ends and misses nothing.\<close>

theorem find_is_correct:
  assumes "entries_stored acc ds" "sorted_entries ds" "0 < cacheEntryCount" "2 * length ds \<le> 2 ^ 32" "ns < 128"
  shows "\<exists>dl b i. new_DirentLookup (loadDirent junk acc) (m_direntCount acc) cacheEntryCount = Inr dl \<and>
    dl_find (loadDirent junk acc) dl ns url = Inr (b, i) \<and>
    (if b then unat i < length ds \<and> dirent_key (ds ! unat i) = ns # url
     else (\<forall>d\<in>set ds. dirent_key d \<noteq> ns # url) \<and>
          (\<forall>j<unat i. dirent_key (ds ! j) < ns # url) \<and>
          (\<forall>j. unat i \<le> j \<longrightarrow> j < length ds \<longrightarrow> ns # url < dirent_key (ds ! j)))"
proof -
  obtain dl where dl: "new_DirentLookup (loadDirent junk acc) (m_direntCount acc) cacheEntryCount = Inr dl"
    using acc.new_DirentLookup_correct [OF assms(1-4)] by blast
  obtain b i where bi: "dl_find (loadDirent junk acc) dl ns url = Inr (b, i)"
      "if b then unat i < length ds \<and> dirent_key (ds ! unat i) = ns # url
       else (\<forall>j<unat i. dirent_key (ds ! j) < ns # url) \<and>
         (\<forall>j. unat i \<le> j \<longrightarrow> j < length ds \<longrightarrow> ns # url < dirent_key (ds ! j))"
    using acc.find_correct [OF assms(1,2,5,3,4) dl] by blast
  have "\<not> b \<Longrightarrow> \<forall>d\<in>set ds. dirent_key d \<noteq> ns # url"
    using bi(2) by (metis in_set_conv_nth leI less_irrefl)
  with dl bi show ?thesis by (intro exI [of _ dl] exI [of _ b] exI [of _ i]) auto
qed

lemma example_accessor_stored: "entries_stored example_accessor [example_dirent 2]"
  using example_accessor_holds [of "\<lambda>_. 0"] by (simp add: accessor_holds_def)

lemma example_sorted: "sorted_entries [example_dirent 2]"
  by (simp add: sorted_entries_def example_dirent_def dirent_key_def)

theorem find_is_correct_witness:
  "\<exists>dl b i. new_DirentLookup (loadDirent (\<lambda>_. 0) example_accessor) 1 1024 = Inr dl \<and>
     dl_find (loadDirent (\<lambda>_. 0) example_accessor) dl 67 [117, 117] = Inr (b, i) \<and> b"
proof -
  have cnt: "m_direntCount example_accessor = 1" by (simp add: example_accessor_def)
  have "dirent_key (example_dirent 2) = 67 # [117, 117]"
    by (simp add: dirent_key_def example_dirent_def numeral_2_eq_2)
  then show ?thesis
    using find_is_correct [OF example_accessor_stored example_sorted, of 1024 67 "\<lambda>_. 0" "[117, 117]"]
    by (auto simp: cnt split: if_splits)
qed

lemma namespace_range_begin:
  assumes "entries_stored acc ds" "sorted_entries ds" "ds \<noteq> []" "32 \<le> ch" "ch < 128"
    and s: "nsc.sound (getNamespaceBeginOffset (loadDirent junk acc) (direntCount dl)) (namespaceBoundaryCache dl)"
    and c: "direntCount dl = m_direntCount acc"
  shows "\<exists>r dl1. getNamespaceRangeBegin (loadDirent junk acc) ch dl = (Inr r, dl1) \<and>
    unat r = length (filter (\<lambda>d. d_ns d < ch) ds) \<and> direntCount dl1 = direntCount dl \<and> lookupGrid dl1 = lookupGrid dl \<and>
    nsc.sound (getNamespaceBeginOffset (loadDirent junk acc) (direntCount dl1)) (namespaceBoundaryCache dl1)"
proof -
  have "32 \<le> sint ch" "sint ch \<le> 127" using ascii_sint [OF assms(5)] assms(4,5) by (simp_all add: word_le_def word_less_def)
  then show ?thesis
    using nsc.read_through_value [OF s, of ch] nsc.read_through_sound [OF s, of ch] c
      acc.namespace_begin_correct [OF assms(1-5), of junk]
    by (auto simp: getNamespaceRangeBegin_def split: prod.splits)
qed

text \<open>C19: The range of a namespace. In a sorted archive \<^verbatim>\<open>getNamespaceRangeBegin\<close> gives the number of
  entries in smaller namespaces, which is the index of the first entry of the namespace, and
  \<^verbatim>\<open>getNamespaceRangeEnd\<close> the number of entries in namespaces up to it; the cached value is always
  the one the search would compute.\<close>

theorem namespace_range_is_correct:
  assumes "entries_stored acc ds" "sorted_entries ds" "ds \<noteq> []" "32 \<le> ns" "ns < 127"
    and "nsc.sound (getNamespaceBeginOffset (loadDirent junk acc) (direntCount dl)) (namespaceBoundaryCache dl)"
    and "direntCount dl = m_direntCount acc"
  shows "\<exists>b dl'. getNamespaceRangeBegin (loadDirent junk acc) ns dl = (Inr b, dl') \<and>
    unat b = length (filter (\<lambda>d. d_ns d < ns) ds) \<and>
    (\<exists>e dl''. getNamespaceRangeEnd (loadDirent junk acc) ns dl' = (Inr e, dl'') \<and>
       unat e = length (filter (\<lambda>d. d_ns d \<le> ns) ds))"
proof -
  let ?g = "loadDirent junk acc"
  note range = namespace_range_begin [OF assms(1-3), where junk = junk]
  have ns1: "unat (ns + 1) = unat ns + 1"
    using assms(5) unat_plus_of_nat [of ns 1] by (simp add: word_less_nat_alt)
  have le: "d < ns + 1 \<longleftrightarrow> d \<le> ns" for d using ns1 by (auto simp: word_less_nat_alt word_le_nat_alt)
  have ch: "32 \<le> ns + 1" "ns + 1 < 128" "ns < 128"
    using ns1 assms(4,5) by (simp_all add: word_less_nat_alt word_le_nat_alt)
  obtain b dl1 where 1: "getNamespaceRangeBegin ?g ns dl = (Inr b, dl1)"
      "unat b = length (filter (\<lambda>d. d_ns d < ns) ds)" "direntCount dl1 = m_direntCount acc"
      "nsc.sound (getNamespaceBeginOffset ?g (direntCount dl1)) (namespaceBoundaryCache dl1)"
    using range [OF assms(4) ch(3) assms(6,7)] assms(7) by auto
  then show ?thesis using range [OF ch(1,2) 1(4,3)] by (auto simp: getNamespaceRangeEnd_def le)
qed

theorem namespace_range_is_correct_witness:
  "\<exists>b dl'. getNamespaceRangeBegin (loadDirent (\<lambda>_. 0) example_accessor) 67
      \<lparr>namespaceBoundaryCache = Map.empty, direntCount = 1, lookupGrid = new_NarrowDown\<rparr> = (Inr b, dl') \<and> unat b = 0"
proof -
  have cnt: "m_direntCount example_accessor = 1" by (simp add: example_accessor_def)
  show ?thesis
    using namespace_range_is_correct [OF example_accessor_stored example_sorted, of 67 "\<lambda>_. 0"
        "\<lparr>namespaceBoundaryCache = Map.empty, direntCount = 1, lookupGrid = new_NarrowDown\<rparr>"]
    by (auto simp: cnt nsc.sound_def example_dirent_def)
qed

text \<open>\<^verbatim>\<open>find\<close> can run for ever. The namespace is compared as a signed \<^verbatim>\<open>char\<close>, the grid and the file
  are ordered by unsigned bytes; when an entry's namespace is an ASCII character and the one looked
  for is 128 or more, the query is after the entry for the grid and before it for the search, which
  then keeps the same bounds.\<close>

theorem find_may_not_return:
  assumes "getd l = Inr d" "128 \<le> ns" "d_ns d < 128" "unat u = Suc (unat l)"
  shows "find_loop getd ns url l u = None"
proof (rule ccontr)
  have half: "(u - l) div 2 = 0"
    using assms(4) by (simp add: word_unat_eq_iff unat_div_distrib unat_diff)
  have neg: "sint ns < 0"
  proof -
    have "128 \<le> uint ns" using assms(2) by (simp add: word_le_def)
    moreover have "uint ns < 256" using uint_bounded [of ns] by simp
    ultimately show ?thesis
      using signed_take_bit_int_eq_self [of 7 "uint ns - 256"] signed_take_bit_diff [of 7 "uint ns" 256]
      by (simp add: sint_uint)
  qed
  moreover have "0 \<le> sint (d_ns d)" using ascii_sint [OF assms(3)] by simp
  ultimately have c: "entry_compare ns url d < 0" by (simp add: entry_compare_def char_less_def)
  assume "find_loop getd ns url l u \<noteq> None"
  then obtain r where "find_loop getd ns url l u = Some r" by auto
  then have "(u - l) div 2 = 0 \<longrightarrow> (\<forall>d. getd l = Inr d \<longrightarrow> \<not> entry_compare ns url d < 0)"
    by (rule find_loop.raw_induct [rotated]) (auto simp: Let_def split: if_splits sum.splits)
  with half c assms(1) show False by blast
qed

theorem find_may_not_return_witness:
  "find_loop (\<lambda>_. Inr (example_dirent 2)) 200 [] 0 1 = None"
  by (rule find_may_not_return [of _ 0 "example_dirent 2"]) (simp_all add: example_dirent_def)

end
