(* ===== verification/Compression.thy ===== *)
theory Compression
  imports Readers
begin

text \<open>
  The drivers of the compression libraries, \<^verbatim>\<open>src/compression.h\<close> and \<^verbatim>\<open>src/compression.cpp\<close>. The
  libraries themselves are parameters: one call of \<^verbatim>\<open>lzma_code\<close>, \<^verbatim>\<open>ZSTD_compressStream\<close>,
  \<^verbatim>\<open>ZSTD_endStream\<close> or \<^verbatim>\<open>ZSTD_decompressStream\<close> takes the codec's state, the input available and the
  room for output, and gives a return code, the number of input bytes used, the output produced and
  the new state. What the drivers rely on is stated as \<open>encoder_ok\<close> and \<open>decoder_ok\<close>.

  Shown here: what the compressor feeds comes out whole and once, whatever the sizes of the pieces
  and however often the output buffer has to grow; and the input on which it never returns.
\<close>

section \<open>Status codes\<close>

datatype CompStep = STEP | FINISH
datatype CompStatus = OK | STREAM_END | BUF_ERROR | OTHER
datatype RunnerStatus = RUN_OK | NEED_MORE | RUN_ERROR

type_synonym 'st stream_run = "'st \<Rightarrow> CompStep \<Rightarrow> bytes \<Rightarrow> nat \<Rightarrow> (CompStatus \<times> nat \<times> bytes \<times> 'st) res"

section \<open>The two codecs\<close>

datatype lzma_ret = LZMA_OK | LZMA_STREAM_END | LZMA_BUF_ERROR | LZMA_OTHER

definition lzma_stream_run ::
    "('st \<Rightarrow> CompStep \<Rightarrow> bytes \<Rightarrow> nat \<Rightarrow> lzma_ret \<times> nat \<times> bytes \<times> 'st) \<Rightarrow> 'st stream_run" where
  "lzma_stream_run lzma_code stream step inp avail_out =
     (case lzma_code stream step inp avail_out of (errcode, used, produced, stream') \<Rightarrow>
        Inr (if errcode = LZMA_BUF_ERROR then BUF_ERROR
             else if errcode = LZMA_STREAM_END then STREAM_END
             else if errcode = LZMA_OK then OK
             else OTHER, used, produced, stream'))"

text \<open>A return value of the zstd functions is an error (\<open>None\<close>) or a size.\<close>

definition zstd_run_encode ::
    "('st \<Rightarrow> bytes \<Rightarrow> nat \<Rightarrow> nat option \<times> nat \<times> bytes \<times> 'st) \<Rightarrow>
     ('st \<Rightarrow> nat \<Rightarrow> nat option \<times> bytes \<times> 'st) \<Rightarrow> 'st stream_run" where
  "zstd_run_encode ZSTD_compressStream ZSTD_endStream stream step inp avail_out =
     (case (if step = STEP then ZSTD_compressStream stream inp avail_out
            else (case ZSTD_endStream stream avail_out of (r, p, s) \<Rightarrow> (r, 0, p, s))) of
        (ret, used, produced, stream') \<Rightarrow>
          let avail_in' = length inp - used; avail_out' = avail_out - length produced in
          (case ret of
             None \<Rightarrow> Inr (OTHER, used, produced, stream')
           | Some n \<Rightarrow>
               if step = STEP then
                 (if avail_in' \<noteq> 0 then ASSERT (avail_out' = 0) (Inr (BUF_ERROR, used, produced, stream'))
                  else Inr (OK, used, produced, stream'))
               else if n > 0 then Inr (BUF_ERROR, used, produced, stream')
               else Inr (OK, used, produced, stream')))"

definition zstd_run_decode ::
    "('st \<Rightarrow> bytes \<Rightarrow> nat \<Rightarrow> nat option \<times> nat \<times> bytes \<times> 'st) \<Rightarrow> 'st stream_run" where
  "zstd_run_decode ZSTD_decompressStream stream step inp avail_out =
     (case ZSTD_decompressStream stream inp avail_out of (ret, used, produced, stream') \<Rightarrow>
        (case ret of
           None \<Rightarrow> Inr (OTHER, used, produced, stream')
         | Some n \<Rightarrow> Inr (if n = 0 then STREAM_END else BUF_ERROR, used, produced, stream')))"

section \<open>Compressor\<close>

text \<open>\<open>comp_out\<close> is what the buffer holds up to \<^verbatim>\<open>stream.total_out\<close>; \<^verbatim>\<open>avail_out\<close> is the rest of its
  \<open>ret_size\<close> bytes.\<close>

record 'st Compressor =
  comp_out :: bytes
  ret_size :: nat
  comp_stream :: 'st

definition new_Compressor :: "nat \<Rightarrow> 'st \<Rightarrow> 'st Compressor" where
  "new_Compressor initial_size stream = \<lparr>comp_out = [], ret_size = initial_size, comp_stream = stream\<rparr>"

partial_function (option) compressor_feed_loop ::
    "'st stream_run \<Rightarrow> CompStep \<Rightarrow> bytes \<Rightarrow> 'st Compressor \<Rightarrow> (RunnerStatus \<times> 'st Compressor) res option" where
  "compressor_feed_loop run step inp c =
     (case run (comp_stream c) step inp (ret_size c - length (comp_out c)) of
        Inl e \<Rightarrow> Some (Inl e)
      | Inr (errcode, used, produced, stream') \<Rightarrow>
          (let c' = c\<lparr>comp_out := comp_out c @ produced, comp_stream := stream'\<rparr>;
               inp' = drop used inp;
               avail_out = ret_size c' - length (comp_out c') in
           if avail_out = 0 \<and> errcode = OK then compressor_feed_loop run step inp' c'
           else if avail_out = 0 \<and> errcode = BUF_ERROR then
             compressor_feed_loop run step inp' (c'\<lparr>ret_size := ret_size c' * 2\<rparr>)
           else if errcode = STREAM_END \<or> errcode = OK then Some (Inr (NEED_MORE, c'))
           else Some (Inr (RUN_ERROR, c'))))"

definition compressor_feed ::
    "'st stream_run \<Rightarrow> CompStep \<Rightarrow> bytes \<Rightarrow> 'st Compressor \<Rightarrow> (RunnerStatus \<times> 'st Compressor) res" where
  "compressor_feed run step data c =
     (case compressor_feed_loop run step data c of None \<Rightarrow> Inl NoReturn | Some r \<Rightarrow> r)"

definition compressor_get_data :: "'st stream_run \<Rightarrow> 'st Compressor \<Rightarrow> bytes res" where
  "compressor_get_data run c =
     rbind (compressor_feed run FINISH [] c) (\<lambda>(_, c'). Inr (comp_out c'))"

text \<open>The use in \<^verbatim>\<open>writer::Cluster::_compress\<close>: every piece is fed, the status is not looked at.\<close>

definition compress_blobs :: "'st stream_run \<Rightarrow> 'st \<Rightarrow> bytes list \<Rightarrow> bytes res" where
  "compress_blobs run stream blobs =
     rbind (rfoldl (\<lambda>c data. rbind (compressor_feed run STEP data c) (\<lambda>(_, c'). Inr c'))
              (new_Compressor (1024 * 1024) stream) blobs)
       (compressor_get_data run)"

section \<open>Uncompressor\<close>

record 'st Uncompressor =
  unc_out :: bytes
  data_size :: nat
  unc_stream :: 'st

definition new_Uncompressor :: "nat \<Rightarrow> 'st \<Rightarrow> 'st Uncompressor" where
  "new_Uncompressor initial_size stream = \<lparr>unc_out = [], data_size = initial_size, unc_stream = stream\<rparr>"

partial_function (option) uncompressor_feed_loop ::
    "'st stream_run \<Rightarrow> CompStep \<Rightarrow> bytes \<Rightarrow> 'st Uncompressor \<Rightarrow> (RunnerStatus \<times> 'st Uncompressor) res option" where
  "uncompressor_feed_loop run step inp c =
     (case run (unc_stream c) step inp (data_size c - length (unc_out c)) of
        Inl e \<Rightarrow> Some (Inl e)
      | Inr (errcode, used, produced, stream') \<Rightarrow>
          (let c' = c\<lparr>unc_out := unc_out c @ produced, unc_stream := stream'\<rparr>;
               inp' = drop used inp;
               avail_out = data_size c' - length (unc_out c') in
           if errcode = BUF_ERROR then
             (if inp' = [] \<and> avail_out \<noteq> 0 then Some (Inr (NEED_MORE, c'))
              else uncompressor_feed_loop run step inp' (c'\<lparr>data_size := data_size c' * 2\<rparr>))
           else if errcode = STREAM_END then Some (Inr (RUN_OK, c'))
           else if errcode = OK then
             (if inp' = [] then Some (Inr (NEED_MORE, c'))
              else uncompressor_feed_loop run step inp' c')
           else Some (Inr (RUN_ERROR, c'))))"

definition uncompressor_feed ::
    "'st stream_run \<Rightarrow> CompStep \<Rightarrow> bytes \<Rightarrow> 'st Uncompressor \<Rightarrow> (RunnerStatus \<times> 'st Uncompressor) res" where
  "uncompressor_feed run step data c =
     (case uncompressor_feed_loop run step data c of None \<Rightarrow> Inl NoReturn | Some r \<Rightarrow> r)"

definition uncompressor_get_data :: "'st stream_run \<Rightarrow> 'st Uncompressor \<Rightarrow> bytes res" where
  "uncompressor_get_data run c =
     rbind (uncompressor_feed run FINISH [] c) (\<lambda>(_, c'). Inr (unc_out c'))"

text \<open>The loop of \<^verbatim>\<open>uncompress\<close> over chunks of the reader.\<close>

definition CHUNCK_SIZE :: u64 where
  "CHUNCK_SIZE = 1024"

partial_function (option) uncompress_loop ::
    "'st stream_run \<Rightarrow> (nat \<Rightarrow> byte) \<Rightarrow> Reader \<Rightarrow> u64 \<Rightarrow> u64 \<Rightarrow> RunnerStatus \<Rightarrow> 'st Uncompressor \<Rightarrow>
     'st Uncompressor res option" where
  "uncompress_loop run junk reader startOffset availableSize ret runner =
     (if ret = RUN_OK then Some (Inr runner)
      else
        (case (if ret = NEED_MORE \<and> availableSize \<noteq> 0 then
                 (let inputSize = min availableSize CHUNCK_SIZE in
                  rbind (reader_read reader (map junk [0..<unat inputSize]) startOffset inputSize) (\<lambda>raw_data.
                  rbind (uncompressor_feed run STEP raw_data runner) (\<lambda>(ret', runner').
                    Inr (startOffset + inputSize, availableSize - inputSize, ret', runner'))))
               else Inr (startOffset, availableSize, ret, runner)) of
           Inl e \<Rightarrow> Some (Inl e)
         | Inr (startOffset', availableSize', ret', runner') \<Rightarrow>
             if ret' = RUN_ERROR then Some (Inl (ZimFileFormatError ''Invalid stream for cluster.''))
             else uncompress_loop run junk reader startOffset' availableSize' ret' runner'))"

definition uncompress :: "'st stream_run \<Rightarrow> 'st \<Rightarrow> (nat \<Rightarrow> byte) \<Rightarrow> Reader \<Rightarrow> u64 \<Rightarrow> bytes res" where
  "uncompress run stream junk reader startOffset =
     (case uncompress_loop run junk reader startOffset (reader_size reader - startOffset) NEED_MORE
             (new_Uncompressor (1024 * 1024) stream) of
        None \<Rightarrow> Inl NoReturn
      | Some r \<Rightarrow> rbind r (uncompressor_get_data run))"

section \<open>What the drivers rely on\<close>

text \<open>
  \<open>emitted st inp out\<close> says that an encoder in state \<open>st\<close> has taken \<open>inp\<close> and given \<open>out\<close>; \<open>pending st\<close>
  bounds what it may still have to flush. As documented for the streaming interfaces, a call with
  room for output never takes or gives more than there is; it stops with input left, or with data
  left to flush after the end, only because the output is full, and then it has got on. (This is the
  behaviour of the wrapper of zstd; \<^verbatim>\<open>lzma_code\<close> reports a full buffer by \<^verbatim>\<open>LZMA_OK\<close> first.)
\<close>

definition encoder_ok ::
    "'st stream_run \<Rightarrow> ('st \<Rightarrow> bytes \<Rightarrow> bytes \<Rightarrow> bool) \<Rightarrow> ('st \<Rightarrow> bool) \<Rightarrow> ('st \<Rightarrow> nat) \<Rightarrow> bool" where
  "encoder_ok run emitted finished pending \<longleftrightarrow>
     (\<forall>st inp out step chunk avail. emitted st inp out \<longrightarrow> (step = FINISH \<longrightarrow> chunk = []) \<longrightarrow> 0 < avail \<longrightarrow>
        (\<exists>errcode used produced st'.
           run st step chunk avail = Inr (errcode, used, produced, st') \<and>
           used \<le> length chunk \<and> length produced \<le> avail \<and>
           emitted st' (inp @ take used chunk) (out @ produced) \<and>
           (errcode = BUF_ERROR \<and> length produced = avail \<and>
              pending st' + length (drop used chunk) < pending st + length chunk \<or>
            errcode = OK \<and> used = length chunk \<and> (step = FINISH \<longrightarrow> finished st'))))"

text \<open>The output of a call that ends well never fills the buffer to the last byte.\<close>

definition never_exactly_full :: "'st stream_run \<Rightarrow> bool" where
  "never_exactly_full run \<longleftrightarrow>
     (\<forall>st step chunk avail used produced st'.
        run st step chunk avail = Inr (OK, used, produced, st') \<longrightarrow> length produced < avail)"

section \<open>The compressor\<close>

lemma encoder_ok_call:
  assumes "encoder_ok run emitted finished pending" "emitted st inp out" "step = FINISH \<longrightarrow> chunk = []" "0 < avail"
  shows "\<exists>errcode used produced st'. run st step chunk avail = Inr (errcode, used, produced, st') \<and>
    used \<le> length chunk \<and> length produced \<le> avail \<and> emitted st' (inp @ take used chunk) (out @ produced) \<and>
    (errcode = BUF_ERROR \<and> length produced = avail \<and>
       pending st' + length (drop used chunk) < pending st + length chunk \<or>
     errcode = OK \<and> used = length chunk \<and> (step = FINISH \<longrightarrow> finished st'))"
  using assms(1) [unfolded encoder_ok_def, THEN spec, THEN spec, THEN spec, THEN spec, THEN spec, THEN spec,
    THEN mp, THEN mp, THEN mp, OF assms(2-4)] .

lemma compressor_feed_loop_total:
  assumes ok: "encoder_ok run emitted finished pending" and nf: "never_exactly_full run"
    and st: "emitted (comp_stream c) inp (comp_out c)" and room: "length (comp_out c) < ret_size c"
    and fin: "step = FINISH \<Longrightarrow> chunk = []"
  shows "\<exists>c'. compressor_feed_loop run step chunk c = Some (Inr (NEED_MORE, c')) \<and>
    emitted (comp_stream c') (inp @ chunk) (comp_out c') \<and> length (comp_out c') < ret_size c' \<and>
    (step = FINISH \<longrightarrow> finished (comp_stream c'))"
  using st room fin
proof (induction "pending (comp_stream c) + length chunk" arbitrary: c inp chunk rule: less_induct)
  case less
  let ?avail = "ret_size c - length (comp_out c)"
  have room: "0 < ?avail" using less.prems(2) by simp
  have fin: "step = FINISH \<longrightarrow> chunk = []" using less.prems(3) by blast
  obtain errcode used produced st' where
    r: "run (comp_stream c) step chunk ?avail = Inr (errcode, used, produced, st')"
      "used \<le> length chunk" "length produced \<le> ?avail"
      "emitted st' (inp @ take used chunk) (comp_out c @ produced)"
    and e: "errcode = BUF_ERROR \<and> length produced = ?avail \<and>
        pending st' + length (drop used chunk) < pending (comp_stream c) + length chunk \<or>
      errcode = OK \<and> used = length chunk \<and> (step = FINISH \<longrightarrow> finished st')"
    using encoder_ok_call [OF ok less.prems(1) fin room] by blast
  let ?c' = "c\<lparr>comp_out := comp_out c @ produced, comp_stream := st'\<rparr>"
  from e show ?case
  proof
    assume B: "errcode = BUF_ERROR \<and> length produced = ?avail \<and>
        pending st' + length (drop used chunk) < pending (comp_stream c) + length chunk"
    let ?c2 = "?c'\<lparr>ret_size := ret_size c * 2\<rparr>"
    have full: "length (comp_out c @ produced) = ret_size c" using B less.prems(2) by simp
    have "\<exists>c'. compressor_feed_loop run step (drop used chunk) ?c2 = Some (Inr (NEED_MORE, c')) \<and>
      emitted (comp_stream c') ((inp @ take used chunk) @ drop used chunk) (comp_out c') \<and>
      length (comp_out c') < ret_size c' \<and> (step = FINISH \<longrightarrow> finished (comp_stream c'))"
      using B r(4) full less.prems by (intro less.hyps) auto
    moreover have "compressor_feed_loop run step chunk c = compressor_feed_loop run step (drop used chunk) ?c2"
      using r(1) B full by (subst compressor_feed_loop.simps) (simp add: Let_def)
    ultimately show ?thesis by simp
  next
    assume O: "errcode = OK \<and> used = length chunk \<and> (step = FINISH \<longrightarrow> finished st')"
    then have "length produced < ?avail" using nf r(1) unfolding never_exactly_full_def by blast
    then have "length (comp_out c @ produced) < ret_size c" by simp
    then show ?thesis using O r by (subst compressor_feed_loop.simps) (auto simp: Let_def)
  qed
qed

lemma compressor_feed_blobs:
  assumes ok: "encoder_ok run emitted finished pending" and nf: "never_exactly_full run"
    and st: "emitted (comp_stream c) inp (comp_out c)" "length (comp_out c) < ret_size c"
  shows "\<exists>c'. rfoldl (\<lambda>c data. rbind (compressor_feed run STEP data c) (\<lambda>(_, c'). Inr c')) c blobs = Inr c' \<and>
    emitted (comp_stream c') (inp @ concat blobs) (comp_out c') \<and> length (comp_out c') < ret_size c'"
  using st
proof (induction blobs arbitrary: c inp)
  case Nil
  then show ?case by simp
next
  case (Cons b blobs)
  obtain c' where "compressor_feed_loop run STEP b c = Some (Inr (NEED_MORE, c'))"
      "emitted (comp_stream c') (inp @ b) (comp_out c')" "length (comp_out c') < ret_size c'"
    using compressor_feed_loop_total [OF ok nf Cons.prems, of STEP b] by auto
  with Cons.IH [of c' "inp @ b"] show ?case by (simp add: compressor_feed_def)
qed

lemma compressor_feed_loop_stuck:
  assumes "run (comp_stream c) step inp 0 = Inr (OK, 0, [], comp_stream c)" "length (comp_out c) = ret_size c"
  shows "compressor_feed_loop run step inp c = None"
proof (rule ccontr)
  assume "compressor_feed_loop run step inp c \<noteq> None"
  then obtain r where "compressor_feed_loop run step inp c = Some r" by auto
  then have "run (comp_stream c) step inp 0 = Inr (OK, 0, [], comp_stream c) \<longrightarrow> length (comp_out c) \<noteq> ret_size c"
    by (rule compressor_feed_loop.raw_induct [rotated]) (intro impI notI, simp add: Let_def)
  with assms show False by blast
qed

lemma compress_blobs_ok:
  assumes "encoder_ok run emitted finished pending" "never_exactly_full run" "emitted stream [] []"
  shows "\<exists>out st. compress_blobs run stream blobs = Inr out \<and> emitted st (concat blobs) out \<and> finished st"
proof -
  let ?c = "new_Compressor (1024 * 1024) stream"
  have "emitted (comp_stream ?c) [] (comp_out ?c)" "length (comp_out ?c) < ret_size ?c"
    using assms(3) by (simp_all add: new_Compressor_def)
  then obtain c' where c': "rfoldl (\<lambda>c data. rbind (compressor_feed run STEP data c) (\<lambda>(_, c'). Inr c')) ?c blobs = Inr c'"
      "emitted (comp_stream c') (concat blobs) (comp_out c')" "length (comp_out c') < ret_size c'"
    using compressor_feed_blobs [OF assms(1,2), of ?c "[]" blobs] by auto
  then show ?thesis
    using compressor_feed_loop_total [OF assms(1,2) c'(2,3), of FINISH "[]"]
    by (auto simp: compress_blobs_def compressor_get_data_def compressor_feed_def)
qed

section \<open>Properties\<close>

text \<open>Compressing a cluster always ends and loses nothing: whatever pieces the content comes in and
  however often the output buffer has to grow, the codec gets exactly the concatenation of the
  pieces, is told to finish once it has it all, and everything it gives is in the result, in order.
  (Pieces of output that fill the buffer exactly at the end of a call are excluded, see below.)\<close>

theorem compress_is_complete:
  assumes "encoder_ok run emitted finished pending" "never_exactly_full run" "emitted stream [] []"
  shows "\<exists>out st. compress_blobs run stream blobs = Inr out \<and> emitted st (concat blobs) out \<and> finished st"
  using compress_blobs_ok [OF assms] .

text \<open>An encoder that stores its input, for the examples.\<close>

definition store_run :: "unit stream_run" where
  "store_run st step chunk avail =
     (if length chunk < avail then Inr (OK, length chunk, chunk, ()) else Inr (BUF_ERROR, avail, take avail chunk, ()))"

lemma store_encoder_ok: "encoder_ok store_run (\<lambda>_ inp out. inp = out) (\<lambda>_. True) (\<lambda>_. 0)"
  by (auto simp: encoder_ok_def store_run_def)

lemma store_never_exactly_full: "never_exactly_full store_run"
  by (auto simp: never_exactly_full_def store_run_def split: if_splits)

theorem compress_is_complete_witness:
  "compress_blobs store_run () [[1, 2], [], [3]] = Inr [1, 2, 3]"
  using compress_is_complete [OF store_encoder_ok store_never_exactly_full, of "()" "[[1, 2], [], [3]]"] by auto

text \<open>The compressor does not return when a call for more input ends well and has filled the output
  buffer to the last byte: the loop takes this for the first of two answers \<^verbatim>\<open>lzma_code\<close> gives when it
  runs out of room and calls again, and with neither input nor room left zstd answers \<^verbatim>\<open>OK\<close> again,
  for ever.\<close>

theorem compressor_full_never_returns:
  assumes "length (comp_out c) = ret_size c"
    and "ZSTD_compressStream (comp_stream c) [] 0 = (Some n, 0, [], comp_stream c)"
  shows "compressor_feed (zstd_run_encode ZSTD_compressStream ZSTD_endStream) STEP [] c = Inl NoReturn"
proof -
  let ?run = "zstd_run_encode ZSTD_compressStream ZSTD_endStream"
  have "?run (comp_stream c) STEP [] 0 = Inr (OK, 0, [], comp_stream c)"
    using assms(2) by (simp add: zstd_run_encode_def)
  with compressor_feed_loop_stuck [OF _ assms(1)] show ?thesis by (simp add: compressor_feed_def)
qed

theorem compressor_full_never_returns_witness:
  "compressor_feed (zstd_run_encode (\<lambda>_ inp avail. (Some 1, min (length inp) avail, take avail inp, ()))
      (\<lambda>_ _. (Some 0, [], ()))) STEP [] \<lparr>comp_out = [7, 8], ret_size = 2, comp_stream = ()\<rparr> = Inl NoReturn"
  by (rule compressor_full_never_returns) simp_all

end
