(* ===== verification/Stream_Readers.thy ===== *)
theory Stream_Readers
  imports Compression
begin

text \<open>
  Sequential streams over a region of the archive: \<^verbatim>\<open>src/istreamreader.*\<close>, \<^verbatim>\<open>src/rawstreamreader.h\<close> and
  \<^verbatim>\<open>src/decoderstreamreader.h\<close>. A raw stream hands out the bytes of its reader, a decoding stream the
  output of a decompressor that it feeds with chunks of at most 1024 bytes.

  Shown here: both kinds of stream satisfy one contract (the next bytes, in order), given for the
  decoder the behaviour \<open>decoder_ok\<close> that the compression libraries document; and a decoding stream
  never returns when its input ends too early.
\<close>

section \<open>Data\<close>

text \<open>\<open>ds_in\<close> is the part of the current chunk the decoder has not used, \<^verbatim>\<open>next_in\<close> and \<^verbatim>\<open>avail_in\<close>.\<close>

record 'st DecoderStream =
  m_encodedDataReader :: Reader
  m_currentInputOffset :: u64
  m_inputBytesLeft :: u64
  ds_state :: 'st
  ds_in :: bytes

datatype 'st IStreamReader =
    RawStreamReader Reader u64
  | DecoderStreamReader "'st DecoderStream"

section \<open>Operations\<close>

definition CHUNK_SIZE :: u64 where
  "CHUNK_SIZE = 1024"

definition readNextChunk :: "(nat \<Rightarrow> byte) \<Rightarrow> 'st DecoderStream \<Rightarrow> 'st DecoderStream res" where
  "readNextChunk junk ds =
     (let n = min CHUNK_SIZE (m_inputBytesLeft ds) in
      rbind (get_buffer junk (m_encodedDataReader ds) (m_currentInputOffset ds) n) (\<lambda>chunk.
        Inr (ds\<lparr>m_currentInputOffset := m_currentInputOffset ds + n,
                m_inputBytesLeft := m_inputBytesLeft ds - n, ds_in := buf_bytes chunk\<rparr>)))"

definition new_DecoderStreamReader :: "(nat \<Rightarrow> byte) \<Rightarrow> 'st \<Rightarrow> Reader \<Rightarrow> 'st IStreamReader res" where
  "new_DecoderStreamReader junk state inputReader =
     rbind (readNextChunk junk \<lparr>m_encodedDataReader = inputReader, m_currentInputOffset = 0,
       m_inputBytesLeft = reader_size inputReader, ds_state = state, ds_in = []\<rparr>) (\<lambda>ds.
     Inr (DecoderStreamReader ds))"

text \<open>One call of the decoder; the status is returned but no caller looks at it.\<close>

definition decodeMoreBytes ::
    "'st stream_run \<Rightarrow> (nat \<Rightarrow> byte) \<Rightarrow> nat \<Rightarrow> 'st DecoderStream \<Rightarrow> (CompStatus \<times> bytes \<times> 'st DecoderStream) res" where
  "decodeMoreBytes run junk avail_out ds =
     rbind (if ds_in ds = [] then
              (if m_inputBytesLeft ds = 0 then Inr (FINISH, ds)
               else rbind (readNextChunk junk ds) (\<lambda>ds'. Inr (STEP, ds')))
            else Inr (STEP, ds)) (\<lambda>(step, ds).
     rbind (run (ds_state ds) step (ds_in ds) avail_out) (\<lambda>(status, used, produced, state').
       Inr (status, produced, ds\<lparr>ds_state := state', ds_in := drop used (ds_in ds)\<rparr>)))"

partial_function (option) decoder_read_loop ::
    "'st stream_run \<Rightarrow> (nat \<Rightarrow> byte) \<Rightarrow> nat \<Rightarrow> bytes \<Rightarrow> 'st DecoderStream \<Rightarrow> (bytes \<times> 'st DecoderStream) res option" where
  "decoder_read_loop run junk avail_out written ds =
     (if avail_out = 0 then Some (Inr (written, ds))
      else case decodeMoreBytes run junk avail_out ds of
          Inl e \<Rightarrow> Some (Inl e)
        | Inr (_, produced, ds') \<Rightarrow>
            decoder_read_loop run junk (avail_out - length produced) (written @ produced) ds')"

text \<open>\<^verbatim>\<open>readImpl(buf, nbytes)\<close>: the bytes written to \<open>buf\<close>.\<close>

definition decoder_readImpl ::
    "'st stream_run \<Rightarrow> (nat \<Rightarrow> byte) \<Rightarrow> u64 \<Rightarrow> 'st DecoderStream \<Rightarrow> (bytes \<times> 'st DecoderStream) res" where
  "decoder_readImpl run junk nbytes ds =
     (case decoder_read_loop run junk (unat nbytes) [] ds of None \<Rightarrow> Inl NoReturn | Some r \<Rightarrow> r)"

definition raw_readImpl :: "(nat \<Rightarrow> byte) \<Rightarrow> u64 \<Rightarrow> Reader \<Rightarrow> u64 \<Rightarrow> (bytes \<times> u64) res" where
  "raw_readImpl junk nbytes reader pos =
     rbind (reader_read reader (map junk [0..<unat nbytes]) pos nbytes) (\<lambda>buf. Inr (buf, pos + nbytes))"

fun readImpl ::
    "'st stream_run \<Rightarrow> (nat \<Rightarrow> byte) \<Rightarrow> u64 \<Rightarrow> 'st IStreamReader \<Rightarrow> (bytes \<times> 'st IStreamReader) res" where
  "readImpl run junk nbytes (RawStreamReader reader pos) =
     rbind (raw_readImpl junk nbytes reader pos) (\<lambda>(buf, pos'). Inr (buf, RawStreamReader reader pos'))"
| "readImpl run junk nbytes (DecoderStreamReader ds) =
     rbind (decoder_readImpl run junk nbytes ds) (\<lambda>(buf, ds'). Inr (buf, DecoderStreamReader ds'))"

text \<open>\<^verbatim>\<open>sub_reader(size)\<close>: overridden by the raw stream, otherwise a copy into a fresh buffer.\<close>

definition raw_sub_reader :: "(nat \<Rightarrow> byte) \<Rightarrow> u64 \<Rightarrow> Reader \<Rightarrow> u64 \<Rightarrow> (Reader \<times> u64) res" where
  "raw_sub_reader junk nbytes reader pos =
     rbind (sub_reader junk reader pos nbytes) (\<lambda>r. Inr (r, pos + nbytes))"

fun stream_sub_reader ::
    "'st stream_run \<Rightarrow> (nat \<Rightarrow> byte) \<Rightarrow> u64 \<Rightarrow> 'st IStreamReader \<Rightarrow> (Reader \<times> 'st IStreamReader) res" where
  "stream_sub_reader run junk sz (RawStreamReader reader pos) =
     rbind (raw_sub_reader junk sz reader pos) (\<lambda>(r, pos'). Inr (r, RawStreamReader reader pos'))"
| "stream_sub_reader run junk sz (DecoderStreamReader ds) =
     rbind (makeBuffer_fresh junk sz) (\<lambda>buffer.
     rbind (readImpl run junk sz (DecoderStreamReader ds)) (\<lambda>(buf, s').
       Inr (BufferReader (buffer\<lparr>buf_data := buf\<rparr>), s')))"

text \<open>\<^verbatim>\<open>read<T>()\<close>, non-virtual, in terms of the virtual \<^verbatim>\<open>readImpl\<close>.\<close>

definition base_istream_read :: "(u64 \<Rightarrow> 's \<Rightarrow> (bytes \<times> 's) res) \<Rightarrow> 's \<Rightarrow> ('a::len word \<times> 's) res" where
  "base_istream_read sread s =
     rbind (sread (of_nat (sizeof TYPE('a))) s) (\<lambda>(buf, s'). Inr (fromLittleEndian buf, s'))"

abbreviation istream_read ::
    "'st stream_run \<Rightarrow> (nat \<Rightarrow> byte) \<Rightarrow> 'st IStreamReader \<Rightarrow> ('a::len word \<times> 'st IStreamReader) res" where
  "istream_read run junk \<equiv> base_istream_read (readImpl run junk)"

section \<open>What a decoder promises\<close>

text \<open>
  \<open>decodes st rest out\<close> says that a decoder in state \<open>st\<close> that is still to get \<open>rest\<close> will give \<open>out\<close>.
  A call that asks for no more than is left takes a part of the input at hand and gives the next part
  of the output; it gets on unless it needs input that it has not been shown. Nothing is asked of a
  decoder once all its output has been given: the input may go on with other clusters.
\<close>

definition decoder_ok :: "'st stream_run \<Rightarrow> ('st \<Rightarrow> bytes \<Rightarrow> bytes \<Rightarrow> bool) \<Rightarrow> bool" where
  "decoder_ok run decodes \<longleftrightarrow>
     (\<forall>st chunk later out avail step.
        decodes st (chunk @ later) out \<longrightarrow> 0 < avail \<longrightarrow> avail \<le> length out \<longrightarrow>
        (step = FINISH \<longrightarrow> chunk = [] \<and> later = []) \<longrightarrow>
        (\<exists>status used produced st' out'.
           run st step chunk avail = Inr (status, used, produced, st') \<and> used \<le> length chunk \<and>
           length produced \<le> avail \<and> out = produced @ out' \<and> decodes st' (drop used chunk @ later) out' \<and>
           (chunk \<noteq> [] \<or> later = [] \<longrightarrow> 0 < used \<or> produced \<noteq> [])))"

lemma decoder_ok_call:
  assumes "decoder_ok run decodes" "decodes st (chunk @ later) out" "0 < avail" "avail \<le> length out"
    "step = FINISH \<longrightarrow> chunk = [] \<and> later = []"
  shows "\<exists>status used produced st' out'.
    run st step chunk avail = Inr (status, used, produced, st') \<and> used \<le> length chunk \<and>
    length produced \<le> avail \<and> out = produced @ out' \<and> decodes st' (drop used chunk @ later) out' \<and>
    (chunk \<noteq> [] \<or> later = [] \<longrightarrow> 0 < used \<or> produced \<noteq> [])"
  using assms(1) [unfolded decoder_ok_def, THEN spec, THEN spec, THEN spec, THEN spec, THEN spec, THEN spec,
    THEN mp, THEN mp, THEN mp, THEN mp, OF assms(2-5)] .

section \<open>What a stream holds\<close>

definition decoder_holds ::
    "'st stream_run \<Rightarrow> ('st \<Rightarrow> bytes \<Rightarrow> bytes \<Rightarrow> bool) \<Rightarrow> 'st DecoderStream \<Rightarrow> bytes \<Rightarrow> bool" where
  "decoder_holds run decodes ds out \<longleftrightarrow> decoder_ok run decodes \<and>
     (\<exists>bs. reader_holds (m_encodedDataReader ds) bs \<and>
        unat (m_currentInputOffset ds) + unat (m_inputBytesLeft ds) = length bs \<and>
        decodes (ds_state ds) (ds_in ds @ drop (unat (m_currentInputOffset ds)) bs) out)"

fun stream_holds ::
    "'st stream_run \<Rightarrow> ('st \<Rightarrow> bytes \<Rightarrow> bytes \<Rightarrow> bool) \<Rightarrow> 'st IStreamReader \<Rightarrow> bytes \<Rightarrow> bool" where
  "stream_holds run decodes (RawStreamReader reader pos) out \<longleftrightarrow>
     (\<exists>bs. reader_holds reader bs \<and> unat pos \<le> length bs \<and> out = drop (unat pos) bs)"
| "stream_holds run decodes (DecoderStreamReader ds) out \<longleftrightarrow>
     decoder_holds run decodes ds out \<and> length out < 2 ^ 63"

lemma readNextChunk_ok:
  assumes h: "decoder_holds run decodes ds out" and e: "ds_in ds = []" "m_inputBytesLeft ds \<noteq> 0"
  shows "\<exists>ds'. readNextChunk junk ds = Inr ds' \<and> decoder_holds run decodes ds' out \<and> ds_in ds' \<noteq> [] \<and>
    ds_state ds' = ds_state ds \<and>
    length (ds_in ds') + unat (m_inputBytesLeft ds') = unat (m_inputBytesLeft ds)"
proof -
  obtain bs where bs: "reader_holds (m_encodedDataReader ds) bs"
      "unat (m_currentInputOffset ds) + unat (m_inputBytesLeft ds) = length bs"
      "decodes (ds_state ds) (drop (unat (m_currentInputOffset ds)) bs) out" "decoder_ok run decodes"
    using h e by (auto simp: decoder_holds_def)
  define n where "n = min CHUNK_SIZE (m_inputBytesLeft ds)"
  have left: "0 < unat (m_inputBytesLeft ds)" using e(2) by (simp add: unat_gt_0)
  have n: "unat n = min 1024 (unat (m_inputBytesLeft ds))" by (simp add: n_def unat_min CHUNK_SIZE_def)
  then have "0 < unat n" using left by simp
  then have "n \<noteq> 0" by auto
  have nt: "unat n \<le> max_transfer" unfolding n by (simp add: max_transfer_def)
  have rng: "unat (m_currentInputOffset ds) + unat n \<le> length bs" unfolding n bs(2) [symmetric] by simp
  obtain b where b: "get_buffer junk (m_encodedDataReader ds) (m_currentInputOffset ds) n = Inr b"
      "buf_bytes b = slice_at (unat (m_currentInputOffset ds)) (unat n) bs"
    using rd.buffer_exact [OF bs(1) rng \<open>n \<noteq> 0\<close> nt, of junk] by blast
  let ?ds' = "ds\<lparr>m_currentInputOffset := m_currentInputOffset ds + n,
      m_inputBytesLeft := m_inputBytesLeft ds - n, ds_in := buf_bytes b\<rparr>"
  have len: "length (buf_bytes b) = unat n" using b(2) bs(2) n by (simp add: length_slice_at)
  have o': "unat (m_currentInputOffset ds + n) = unat (m_currentInputOffset ds) + unat n"
    using rng reader_holds_size [OF bs(1)] by (intro unat_add_small) simp
  have l': "unat (m_inputBytesLeft ds - n) = unat (m_inputBytesLeft ds) - unat n" using n by (simp add: unat_diff)
  have "slice_at (unat (m_currentInputOffset ds)) (unat n) bs @ drop (unat (m_currentInputOffset ds) + unat n) bs
      = drop (unat (m_currentInputOffset ds)) bs"
    by (simp add: slice_at_def add.commute flip: drop_drop)
  then have "decoder_holds run decodes ?ds' out"
    using bs o' l' n b(2) unfolding decoder_holds_def by (auto intro!: exI [of _ bs])
  moreover have "readNextChunk junk ds = Inr ?ds'" using b(1) by (simp add: readNextChunk_def n_def [symmetric])
  moreover have "buf_bytes b \<noteq> []" using len \<open>0 < unat n\<close> by auto
  ultimately show ?thesis using len l' n by auto
qed

text \<open>One call gets on: it uses input or gives output.\<close>

lemma decodeMoreBytes_ok:
  assumes h: "decoder_holds run decodes ds out" and a: "0 < avail" "avail \<le> length out"
  shows "\<exists>status produced ds' out'. decodeMoreBytes run junk avail ds = Inr (status, produced, ds') \<and>
    length produced \<le> avail \<and> out = produced @ out' \<and> decoder_holds run decodes ds' out' \<and>
    length (ds_in ds') + unat (m_inputBytesLeft ds') + (avail - length produced) <
    length (ds_in ds) + unat (m_inputBytesLeft ds) + avail"
proof -
  obtain step ds1 where s: "(if ds_in ds = [] then
              (if m_inputBytesLeft ds = 0 then Inr (FINISH, ds)
               else rbind (readNextChunk junk ds) (\<lambda>ds'. Inr (STEP, ds')))
            else Inr (STEP, ds)) = Inr (step, ds1)"
      "decoder_holds run decodes ds1 out" "step = FINISH \<longrightarrow> ds_in ds1 = [] \<and> m_inputBytesLeft ds1 = 0"
      "ds_in ds1 \<noteq> [] \<or> m_inputBytesLeft ds1 = 0"
      "length (ds_in ds1) + unat (m_inputBytesLeft ds1) = length (ds_in ds) + unat (m_inputBytesLeft ds)"
  proof (cases "ds_in ds = [] \<and> m_inputBytesLeft ds \<noteq> 0")
    case True
    with readNextChunk_ok [OF h, of junk] that [of STEP] show thesis by auto
  next
    case False
    then show thesis
      by (intro that [of "if ds_in ds = [] then FINISH else STEP" ds]) (use h in \<open>simp_all split: if_splits\<close>)
  qed
  obtain bs where bs: "reader_holds (m_encodedDataReader ds1) bs"
      "unat (m_currentInputOffset ds1) + unat (m_inputBytesLeft ds1) = length bs"
      "decodes (ds_state ds1) (ds_in ds1 @ drop (unat (m_currentInputOffset ds1)) bs) out" "decoder_ok run decodes"
    using s(2) unfolding decoder_holds_def by blast
  have rest: "drop (unat (m_currentInputOffset ds1)) bs = []" if "m_inputBytesLeft ds1 = 0"
    using bs(2) unfolding that by simp
  obtain status used produced st' out' where
    r: "run (ds_state ds1) step (ds_in ds1) avail = Inr (status, used, produced, st')" "used \<le> length (ds_in ds1)"
      "length produced \<le> avail" "out = produced @ out'"
      "decodes st' (drop used (ds_in ds1) @ drop (unat (m_currentInputOffset ds1)) bs) out'"
      "0 < used \<or> produced \<noteq> []"
  proof -
    have fin: "step = FINISH \<longrightarrow> ds_in ds1 = [] \<and> drop (unat (m_currentInputOffset ds1)) bs = []"
      using s(3) rest by blast
    have "ds_in ds1 \<noteq> [] \<or> drop (unat (m_currentInputOffset ds1)) bs = []"
      using s(4) rest by blast
    with decoder_ok_call [OF bs(4,3) a fin] that show thesis by blast
  qed
  let ?ds' = "ds1\<lparr>ds_state := st', ds_in := drop used (ds_in ds1)\<rparr>"
  have "decodeMoreBytes run junk avail ds = Inr (status, produced, ?ds')"
    using s(1) r(1) by (simp add: decodeMoreBytes_def)
  moreover have "decoder_holds run decodes ?ds' out'" using bs r(5) unfolding decoder_holds_def by auto
  moreover have "length (drop used (ds_in ds1)) + (avail - length produced) < length (ds_in ds1) + avail"
    using r(2,3,6) a(1) length_greater_0_conv [of produced] by (auto simp del: length_greater_0_conv)
  ultimately show ?thesis using r(3,4) s(5) by (intro exI [of _ status] exI [of _ produced] exI [of _ ?ds'] exI [of _ out']) simp
qed

lemma decoder_read_loop_ok:
  assumes "decoder_holds run decodes ds out" "n \<le> length out"
  shows "\<exists>ds'. decoder_read_loop run junk n written ds = Some (Inr (written @ take n out, ds')) \<and>
    decoder_holds run decodes ds' (drop n out)"
  using assms
proof (induction "length (ds_in ds) + unat (m_inputBytesLeft ds) + n" arbitrary: ds n out written rule: less_induct)
  case less
  show ?case
  proof (cases "n = 0")
    case True
    then show ?thesis using less.prems by (subst decoder_read_loop.simps) simp
  next
    case False
    obtain status produced ds1 out1 where
      d: "decodeMoreBytes run junk n ds = Inr (status, produced, ds1)" "length produced \<le> n" "out = produced @ out1"
        "decoder_holds run decodes ds1 out1"
        "length (ds_in ds1) + unat (m_inputBytesLeft ds1) + (n - length produced) <
          length (ds_in ds) + unat (m_inputBytesLeft ds) + n"
      using decodeMoreBytes_ok [OF less.prems(1), of n junk] less.prems(2) False by auto
    have "n - length produced \<le> length out1" using d(3) less.prems(2) by simp
    from less.hyps [OF d(5,4) this, of "written @ produced"] d(1-3) False show ?thesis
      by (subst decoder_read_loop.simps) simp
  qed
qed

section \<open>The contract of a stream\<close>

lemma raw_read_ok:
  assumes h: "reader_holds reader bs" "unat pos + unat n \<le> length bs" "unat n \<le> max_transfer"
  shows "raw_readImpl junk n reader pos = Inr (slice_at (unat pos) (unat n) bs, pos + n)"
    and "unat (pos + n) = unat pos + unat n"
proof -
  show "raw_readImpl junk n reader pos = Inr (slice_at (unat pos) (unat n) bs, pos + n)"
    using rd.read_exact [OF h(1,2) _ h(3), of "map junk [0..<unat n]"]
    by (simp add: raw_readImpl_def del: reader_read.simps)
  show "unat (pos + n) = unat pos + unat n"
    using h(2) reader_holds_size [OF h(1)] by (intro unat_add_small) simp
qed

lemma readImpl_next:
  assumes h: "stream_holds run decodes s out" and n: "unat n \<le> length out" "unat n \<le> max_transfer"
  shows "\<exists>s'. readImpl run junk n s = Inr (take (unat n) out, s') \<and>
    stream_holds run decodes s' (drop (unat n) out)"
proof (cases s)
  case (RawStreamReader reader pos)
  with h obtain bs where bs: "reader_holds reader bs" "unat pos \<le> length bs" "out = drop (unat pos) bs" by auto
  then have rng: "unat pos + unat n \<le> length bs" using n(1) by simp
  have "drop (unat n) out = drop (unat (pos + n)) bs"
    using bs(3) raw_read_ok(2) [OF bs(1) rng n(2)] by (simp add: add.commute)
  then show ?thesis
    using raw_read_ok [OF bs(1) rng n(2)] bs rng RawStreamReader by (auto simp: slice_at_def)
next
  case (DecoderStreamReader ds)
  with h obtain ds' where "decoder_read_loop run junk (unat n) [] ds = Some (Inr (take (unat n) out, ds'))"
      "decoder_holds run decodes ds' (drop (unat n) out)"
    using decoder_read_loop_ok [of run decodes ds out "unat n" junk "[]"] n(1) by auto
  with h DecoderStreamReader show ?thesis by (auto simp: decoder_readImpl_def)
qed

lemma stream_sub_reader_next:
  assumes h: "stream_holds run decodes s out" and n: "unat n \<le> length out" "unat n \<le> max_transfer"
  shows "\<exists>r s'. stream_sub_reader run junk n s = Inr (r, s') \<and> reader_holds r (take (unat n) out) \<and>
    stream_holds run decodes s' (drop (unat n) out)"
proof (cases s)
  case (RawStreamReader reader pos)
  with h obtain bs where bs: "reader_holds reader bs" "unat pos \<le> length bs" "out = drop (unat pos) bs" by auto
  then have rng: "unat pos + unat n \<le> length bs" using n(1) by simp
  obtain r where r: "sub_reader junk reader pos n = Inr r" "reader_holds r (slice_at (unat pos) (unat n) bs)"
    using rd.sub_exact [OF bs(1) rng] by blast
  have "drop (unat n) out = drop (unat (pos + n)) bs"
    using bs(3) raw_read_ok(2) [OF bs(1) rng n(2)] by (simp add: add.commute)
  then show ?thesis
    using r bs rng RawStreamReader raw_read_ok(2) [OF bs(1) rng n(2)]
    by (auto simp: raw_sub_reader_def slice_at_def)
next
  case (DecoderStreamReader ds)
  obtain s' where s': "readImpl run junk n s = Inr (take (unat n) out, s')"
      "stream_holds run decodes s' (drop (unat n) out)"
    using readImpl_next [OF h n] by blast
  have "unat n < 2 ^ 63" using n(2) by (simp add: max_transfer_def)
  then have "n < SIZE_MAX" by (simp add: word_less_nat_alt SIZE_MAX_def)
  with s' DecoderStreamReader n(1) \<open>unat n < 2 ^ 63\<close> show ?thesis
    by (auto simp: makeBuffer_fresh_def mkBuffer_def buffer_ok_def buf_bytes_def min_def)
qed

text \<open>What the library relies on in a stream, whatever class is behind it.\<close>

locale stream_contract =
  fixes sread :: "u64 \<Rightarrow> 's \<Rightarrow> (bytes \<times> 's) res"
    and ssub :: "u64 \<Rightarrow> 's \<Rightarrow> (Reader \<times> 's) res"
    and holds :: "'s \<Rightarrow> bytes \<Rightarrow> bool"
  assumes read_next: "holds s out \<Longrightarrow> unat n \<le> length out \<Longrightarrow> unat n \<le> max_transfer \<Longrightarrow>
      \<exists>s'. sread n s = Inr (take (unat n) out, s') \<and> holds s' (drop (unat n) out)"
    and sub_next: "holds s out \<Longrightarrow> unat n \<le> length out \<Longrightarrow> unat n \<le> max_transfer \<Longrightarrow>
      \<exists>r s'. ssub n s = Inr (r, s') \<and> reader_holds r (take (unat n) out) \<and> holds s' (drop (unat n) out)"
begin

lemma word_next:
  assumes h: "holds s out" and n: "sizeof TYPE('a::len) = n" "n \<le> 8" "n \<le> length out"
  shows "\<exists>s'. base_istream_read sread s = Inr (fromLittleEndian (take n out) :: 'a word, s') \<and>
    holds s' (drop n out)"
proof -
  have "unat (of_nat n :: u64) = n" using n by (simp add: unat_of_nat_small)
  with read_next [OF h, of "of_nat n"] n show ?thesis
    by (auto simp: base_istream_read_def max_transfer_def)
qed

end

interpretation str: stream_contract "readImpl run junk" "stream_sub_reader run junk" "stream_holds run decodes"
    for run :: "'st stream_run" and junk decodes
  by unfold_locales (simp_all add: readImpl_next stream_sub_reader_next)

section \<open>A stream that ends too early\<close>

text \<open>
  At the end of a truncated stream the decompressors report that they need more input:
  \<^verbatim>\<open>LZMA_BUF_ERROR\<close>, or a positive hint from zstd, and nothing changes.
\<close>

definition starves :: "'st stream_run \<Rightarrow> 'st \<Rightarrow> bool" where
  "starves run st \<longleftrightarrow> (\<forall>avail. \<exists>status. run st FINISH [] avail = Inr (status, 0, [], st))"

lemma decoder_read_loop_starves:
  assumes "decoder_read_loop run junk avail written ds = Some res"
  shows "0 < avail \<longrightarrow> ds_in ds = [] \<longrightarrow> m_inputBytesLeft ds = 0 \<longrightarrow> \<not> starves run (ds_state ds)"
  using assms
proof (rule decoder_read_loop.raw_induct [rotated], goal_cases)
  case (1 loop run junk avail written ds res)
  show ?case
  proof (intro impI notI)
    assume a: "0 < avail" "ds_in ds = []" "m_inputBytesLeft ds = 0" and st: "starves run (ds_state ds)"
    obtain status where "run (ds_state ds) FINISH [] avail = Inr (status, 0, [], ds_state ds)"
      using st by (auto simp: starves_def)
    with a have "decodeMoreBytes run junk avail ds = Inr (status, [], ds)" by (simp add: decodeMoreBytes_def)
    with 1(2) a have "loop run junk avail written ds = Some res" by simp
    from 1(1) [OF this] a st show False by blast
  qed
qed

text \<open>a decoding stream whose input has ended while the decoder still waits for more never returns
  from a read: the loop only looks at the space left, not at the status of the decoder.\<close>

theorem truncated_stream_never_returns:
  assumes "starves run (ds_state ds)" "ds_in ds = []" "m_inputBytesLeft ds = 0" "0 < nbytes"
  shows "readImpl run junk nbytes (DecoderStreamReader ds) = Inl NoReturn"
proof -
  have "decoder_read_loop run junk (unat nbytes) [] ds = None"
    using decoder_read_loop_starves [of run junk "unat nbytes" "[]" ds] assms
    by (cases "decoder_read_loop run junk (unat nbytes) [] ds") (auto simp: unat_gt_0 word_neq_0_conv)
  then show ?thesis by (simp add: decoder_readImpl_def)
qed

theorem truncated_stream_never_returns_witness:
  "readImpl (zstd_run_decode (\<lambda>st _ _. (Some 9, 0, [], st))) (\<lambda>_. 0) 4 (DecoderStreamReader
     \<lparr>m_encodedDataReader = BufferReader \<lparr>buf_data = [40, 181], buf_size = 2\<rparr>, m_currentInputOffset = 2,
      m_inputBytesLeft = 0, ds_state = (), ds_in = []\<rparr>) = Inl NoReturn"
  by (rule truncated_stream_never_returns) (simp_all add: starves_def zstd_run_decode_def)

text \<open>C23: a read of the next bytes of a stream, raw or decoding, gives exactly those bytes, and the
  stream is left at the byte after them; what a decoder must do for it is \<open>decoder_ok\<close>.\<close>

theorem stream_reads_in_order:
  assumes "stream_holds run decodes s (xs @ ys @ zs)" "unat n = length xs" "unat m = length ys"
    "length xs \<le> max_transfer" "length ys \<le> max_transfer"
  shows "\<exists>s1 r s2. readImpl run junk n s = Inr (xs, s1) \<and> stream_sub_reader run junk m s1 = Inr (r, s2) \<and>
    reader_holds r ys \<and> stream_holds run decodes s2 zs"
proof -
  obtain s1 where "readImpl run junk n s = Inr (xs, s1)" "stream_holds run decodes s1 (ys @ zs)"
    using str.read_next [OF assms(1), of n junk] assms(2,4) by auto
  with str.sub_next [of run decodes s1 "ys @ zs" m junk] assms(3,5) show ?thesis by auto
qed

text \<open>A decoder to try it on: the input starts with the output, at most two bytes are taken at a time.\<close>

definition copy_run :: "unit stream_run" where
  "copy_run st step inp avail =
     (let n = min 2 (min avail (length inp)) in
      Inr (if step = FINISH then STREAM_END else OK, n, take n inp, st))"

definition copy_decodes :: "unit \<Rightarrow> bytes \<Rightarrow> bytes \<Rightarrow> bool" where
  "copy_decodes st rest out \<longleftrightarrow> (\<exists>post. rest = out @ post)"

lemma copy_decoder_ok: "decoder_ok copy_run copy_decodes"
  unfolding decoder_ok_def
proof (intro allI impI)
  fix st :: unit and chunk later out :: bytes and avail :: nat and step :: CompStep
  assume a: "copy_decodes st (chunk @ later) out" "0 < avail" "avail \<le> length out"
    "step = FINISH \<longrightarrow> chunk = [] \<and> later = []"
  let ?n = "min 2 (min avail (length chunk))"
  obtain post where post: "chunk @ later = out @ post" using a(1) by (auto simp: copy_decodes_def)
  have n: "?n \<le> length out" "?n \<le> length chunk" using a(3) by auto
  have "take ?n chunk = take ?n out" "drop ?n chunk @ later = drop ?n out @ post"
    using n arg_cong [OF post, of "take ?n"] arg_cong [OF post, of "drop ?n"] by simp_all
  moreover have "chunk \<noteq> [] \<or> later = [] \<longrightarrow> 0 < ?n" using a(2,3) post by auto
  moreover have "copy_run st step chunk avail = Inr (if step = FINISH then STREAM_END else OK, ?n, take ?n chunk, ())"
    by (simp add: copy_run_def Let_def)
  ultimately show "\<exists>status used produced st' out'.
      copy_run st step chunk avail = Inr (status, used, produced, st') \<and> used \<le> length chunk \<and>
      length produced \<le> avail \<and> out = produced @ out' \<and> copy_decodes st' (drop used chunk @ later) out' \<and>
      (chunk \<noteq> [] \<or> later = [] \<longrightarrow> 0 < used \<or> produced \<noteq> [])"
    using n by (intro exI [of _ "if step = FINISH then STREAM_END else OK"] exI [of _ ?n] exI [of _ "take ?n chunk"]
        exI [of _ "()"] exI [of _ "drop ?n out"]) (auto simp: copy_decodes_def)
qed

theorem stream_reads_in_order_witness:
  "\<exists>s1 r s2. readImpl copy_run (\<lambda>_. 0) 3 (DecoderStreamReader
       \<lparr>m_encodedDataReader = BufferReader \<lparr>buf_data = [1, 2, 3, 4, 5], buf_size = 5\<rparr>, m_currentInputOffset = 0,
        m_inputBytesLeft = 5, ds_state = (), ds_in = []\<rparr>) = Inr ([1, 2, 3], s1) \<and>
     stream_sub_reader copy_run (\<lambda>_. 0) 1 s1 = Inr (r, s2) \<and> reader_holds r [4] \<and>
     stream_holds copy_run copy_decodes s2 [5]"
proof (rule stream_reads_in_order [of _ _ _ "[1, 2, 3]" "[4]" "[5]"])
  show "stream_holds copy_run copy_decodes (DecoderStreamReader
       \<lparr>m_encodedDataReader = BufferReader \<lparr>buf_data = [1, 2, 3, 4, 5], buf_size = 5\<rparr>, m_currentInputOffset = 0,
        m_inputBytesLeft = 5, ds_state = (), ds_in = []\<rparr>) ([1, 2, 3] @ [4] @ [5])"
    by (simp add: decoder_holds_def copy_decoder_ok copy_decodes_def buffer_ok_def buf_bytes_def SIZE_MAX_def)
qed (simp_all add: max_transfer_def)

end
