(* ===== verification/Clusters.thy ===== *)
theory Clusters
  imports Stream_Readers Dirents
begin

text \<open>
  Reading clusters: \<^verbatim>\<open>src/cluster.h\<close>, \<^verbatim>\<open>src/cluster.cpp\<close>, and the \<^verbatim>\<open>Blob\<close> of \<^verbatim>\<open>include/zim/blob.h\<close> that a
  cluster hands out. A cluster is one byte of flags, a table of offsets (32 or 64 bits each) and the
  blobs, everything after the flags being one stream that may be compressed. The blobs are cut off
  the stream in order and on demand; later requests are served from the readers kept.

  Shown here: opening a cluster gives an object that returns every blob of the cluster, whatever the
  order and number of the requests; a partial request gives the part asked for, cut at the end of the
  blob. The two widths of the table are treated once, in a locale interpreted for each of them.
\<close>

section \<open>Blobs\<close>

record Blob =
  blob_data :: bytes
  blob_size :: u64

definition empty_Blob :: Blob where
  "empty_Blob = \<lparr>blob_data = [], blob_size = 0\<rparr>"

text \<open>\<^verbatim>\<open>operator std::string\<close>, and \<^verbatim>\<open>operator==\<close> with its \<^verbatim>\<open>std::equal\<close>.\<close>

definition blob_string :: "Blob \<Rightarrow> bytes" where
  "blob_string b = take (unat (blob_size b)) (blob_data b)"

definition blob_eq :: "Blob \<Rightarrow> Blob \<Rightarrow> bool" where
  "blob_eq b1 b2 \<longleftrightarrow> blob_size b1 = blob_size b2 \<and>
     list_all2 (=) (take (unat (blob_size b1)) (blob_data b1)) (take (unat (blob_size b1)) (blob_data b2))"

text \<open>\<^verbatim>\<open>Buffer::operator Blob\<close>.\<close>

definition Blob_of_Buffer :: "Buffer \<Rightarrow> Blob" where
  "Blob_of_Buffer b = \<lparr>blob_data = buf_data b, blob_size = buf_size b\<rparr>"

section \<open>Data\<close>

text \<open>\<^verbatim>\<open>CompressionType\<close>, and the values that \<^verbatim>\<open>static_cast\<close> makes of the other codes.\<close>

datatype CompressionType = zimcompDefault | zimcompNone | zimcompZip | zimcompBzip2 | zimcompLzma | zimcompZstd
  | zimcompInvalid u8

definition CompressionType_of :: "u8 \<Rightarrow> CompressionType" where
  "CompressionType_of code =
     (if code = 0 then zimcompDefault else if code = 1 then zimcompNone else if code = 2 then zimcompZip
      else if code = 3 then zimcompBzip2 else if code = 4 then zimcompLzma else if code = 5 then zimcompZstd
      else zimcompInvalid code)"

fun CompressionType_code :: "CompressionType \<Rightarrow> u8" where
  "CompressionType_code zimcompDefault = 0"
| "CompressionType_code zimcompNone = 1"
| "CompressionType_code zimcompZip = 2"
| "CompressionType_code zimcompBzip2 = 3"
| "CompressionType_code zimcompLzma = 4"
| "CompressionType_code zimcompZstd = 5"
| "CompressionType_code (zimcompInvalid code) = code"

record 'st Cluster =
  compression :: CompressionType
  isExtended :: bool
  m_reader :: "'st IStreamReader"
  m_blobOffsets :: "u64 list"
  m_blobReaders :: "Reader list"

section \<open>Operations\<close>

text \<open>
  \<open>run\<close> is the decoder of either codec, on a state that says which one it is; \<open>lzma\<close> and \<open>zstd\<close> are
  the states \<^verbatim>\<open>init_stream_decoder\<close> makes.
\<close>

definition getClusterReader ::
    "(nat \<Rightarrow> byte) \<Rightarrow> 'st \<Rightarrow> 'st \<Rightarrow> Reader \<Rightarrow> u64 \<Rightarrow> ('st IStreamReader \<times> CompressionType \<times> bool) res" where
  "getClusterReader junk lzma zstd zimReader offset =
     rbind (reader_read_char junk zimReader offset) (\<lambda>clusterInfo.
     let ctype = CompressionType_of (clusterInfo AND 0x0F);
         extended = (clusterInfo AND 0x10 \<noteq> 0) in
     rbind (sub_reader_rest junk zimReader (offset + 1)) (\<lambda>subReader.
     case ctype of
       zimcompDefault \<Rightarrow> Inr (RawStreamReader subReader 0, ctype, extended)
     | zimcompNone \<Rightarrow> Inr (RawStreamReader subReader 0, ctype, extended)
     | zimcompLzma \<Rightarrow> rbind (new_DecoderStreamReader junk lzma subReader) (\<lambda>s. Inr (s, ctype, extended))
     | zimcompZstd \<Rightarrow> rbind (new_DecoderStreamReader junk zstd subReader) (\<lambda>s. Inr (s, ctype, extended))
     | zimcompZip \<Rightarrow> Inl (RuntimeError ''zlib not enabled in this library'')
     | zimcompBzip2 \<Rightarrow> Inl (RuntimeError ''bzip2 not enabled in this library'')
     | zimcompInvalid _ \<Rightarrow> Inl (ZimFileFormatError ''Invalid compression flag'')))"

text \<open>The loop \<^verbatim>\<open>while (--n_offset)\<close>: its first argument is the number of rounds.\<close>

fun read_offsets :: "nat \<Rightarrow> 'a::len word \<Rightarrow> streamer \<Rightarrow> u64 list res" where
  "read_offsets 0 offset seqReader = Inr []"
| "read_offsets (Suc n) offset seqReader =
     rbind (stream_read seqReader) (\<lambda>(new_offset, seqReader).
       ASSERT (new_offset \<ge> offset)
         (rbind (read_offsets n new_offset seqReader) (\<lambda>offs. Inr (ucast new_offset # offs))))"

definition read_header ::
    "'a::len itself \<Rightarrow> 'st stream_run \<Rightarrow> (nat \<Rightarrow> byte) \<Rightarrow> 'st IStreamReader \<Rightarrow> (u64 list \<times> 'st IStreamReader) res" where
  "read_header _ run junk reader =
     rbind (istream_read run junk reader) (\<lambda>(offset :: 'a word, reader).
     let n_offset = ucast offset div of_nat (sizeof TYPE('a)) :: u64;
         bufferSize = ucast offset - of_nat (sizeof TYPE('a)) in
     rbind (stream_sub_reader run junk bufferSize reader) (\<lambda>(sub, reader).
     rbind (get_buffer junk sub 0 bufferSize) (\<lambda>buffer.
     rbind (read_offsets (unat (n_offset - 1)) offset (BufferStreamer (buf_data buffer) bufferSize)) (\<lambda>offs.
       Inr (ucast offset # offs, reader)))))"

definition new_Cluster ::
    "'st stream_run \<Rightarrow> (nat \<Rightarrow> byte) \<Rightarrow> 'st IStreamReader \<Rightarrow> CompressionType \<Rightarrow> bool \<Rightarrow> 'st Cluster res" where
  "new_Cluster run junk reader ctype ext =
     rbind (if ext then read_header TYPE(64) run junk reader else read_header TYPE(32) run junk reader)
       (\<lambda>(offs, reader). Inr \<lparr>compression = ctype, isExtended = ext, m_reader = reader,
          m_blobOffsets = offs, m_blobReaders = []\<rparr>)"

definition Cluster_read ::
    "'st stream_run \<Rightarrow> (nat \<Rightarrow> byte) \<Rightarrow> 'st \<Rightarrow> 'st \<Rightarrow> Reader \<Rightarrow> u64 \<Rightarrow> 'st Cluster res" where
  "Cluster_read run junk lzma zstd zimReader clusterOffset =
     rbind (getClusterReader junk lzma zstd zimReader clusterOffset) (\<lambda>(reader, ctype, extended).
       new_Cluster run junk reader ctype extended)"

definition isCompressed :: "'st Cluster \<Rightarrow> bool" where
  "isCompressed c \<longleftrightarrow> compression c \<noteq> zimcompDefault \<and> compression c \<noteq> zimcompNone"

definition cluster_count :: "'st Cluster \<Rightarrow> u32" where
  "cluster_count c = of_nat (length (m_blobOffsets c) - 1)"

definition getBlobSize :: "u32 \<Rightarrow> 'st Cluster \<Rightarrow> u64 res" where
  "getBlobSize n c =
     (if unat (n + 1) \<ge> length (m_blobOffsets c) then Inl (ZimFileFormatError ''blob index out of range'')
      else if unat n \<ge> length (m_blobOffsets c) then Inl MemoryFault
      else Inr (m_blobOffsets c ! unat (n + 1) - m_blobOffsets c ! unat n))"

definition getBlobOffset :: "u32 \<Rightarrow> 'st Cluster \<Rightarrow> u64 res" where
  "getBlobOffset n c =
     (if unat n \<ge> length (m_blobOffsets c) then Inl MemoryFault else Inr (1 + m_blobOffsets c ! unat n))"

text \<open>The loop of \<^verbatim>\<open>getReader\<close>, from \<^verbatim>\<open>m_blobReaders.size()\<close> to \<open>n\<close>; an exception leaves it.\<close>

fun getReader_loop :: "'st stream_run \<Rightarrow> (nat \<Rightarrow> byte) \<Rightarrow> nat \<Rightarrow> 'st Cluster \<Rightarrow> 'st Cluster res" where
  "getReader_loop run junk 0 c = Inr c"
| "getReader_loop run junk (Suc k) c =
     rbind (getBlobSize (of_nat (length (m_blobReaders c))) c) (\<lambda>blobSize.
     rbind (if blobSize > SIZE_MAX then
              rbind (makeBuffer_fresh junk 0) (\<lambda>b. Inr (BufferReader b, m_reader c))
            else stream_sub_reader run junk blobSize (m_reader c)) (\<lambda>(r, reader').
       getReader_loop run junk k (c\<lparr>m_reader := reader', m_blobReaders := m_blobReaders c @ [r]\<rparr>)))"

definition getReader ::
    "'st stream_run \<Rightarrow> (nat \<Rightarrow> byte) \<Rightarrow> u32 \<Rightarrow> 'st Cluster \<Rightarrow> (Reader \<times> 'st Cluster) res" where
  "getReader run junk n c =
     rbind (getReader_loop run junk (Suc (unat n) - length (m_blobReaders c)) c) (\<lambda>c'.
       Inr (m_blobReaders c' ! unat n, c'))"

definition getBlob :: "'st stream_run \<Rightarrow> (nat \<Rightarrow> byte) \<Rightarrow> u32 \<Rightarrow> 'st Cluster \<Rightarrow> (Blob \<times> 'st Cluster) res" where
  "getBlob run junk n c =
     (if n < cluster_count c then
        rbind (getBlobSize n c) (\<lambda>blobSize.
          if blobSize > SIZE_MAX then Inr (empty_Blob, c)
          else rbind (getReader run junk n c) (\<lambda>(r, c').
            rbind (get_buffer junk r 0 blobSize) (\<lambda>b. Inr (Blob_of_Buffer b, c'))))
      else Inr (empty_Blob, c))"

text \<open>\<^verbatim>\<open>getBlob(n, offset, size)\<close>.\<close>

definition getBlob_part ::
    "'st stream_run \<Rightarrow> (nat \<Rightarrow> byte) \<Rightarrow> u32 \<Rightarrow> u64 \<Rightarrow> u64 \<Rightarrow> 'st Cluster \<Rightarrow> (Blob \<times> 'st Cluster) res" where
  "getBlob_part run junk n offset sz c =
     (if n < cluster_count c then
        rbind (getBlobSize n c) (\<lambda>blobSize.
          if offset > blobSize then Inr (empty_Blob, c)
          else let sz' = min sz (blobSize - offset) in
            if sz' > SIZE_MAX then Inr (empty_Blob, c)
            else rbind (getReader run junk n c) (\<lambda>(r, c').
              rbind (get_buffer junk r offset sz') (\<lambda>b. Inr (Blob_of_Buffer b, c'))))
      else Inr (empty_Blob, c))"

text \<open>The comparisons with \<^verbatim>\<open>SIZE_MAX\<close> are for machines with a narrower \<^verbatim>\<open>size_t\<close>.\<close>

lemma not_above_SIZE_MAX [simp]: "\<not> SIZE_MAX < x"
proof -
  have "unat x < 2 ^ 64" using unsigned_less [of x] by simp
  then show ?thesis unfolding word_less_nat_alt SIZE_MAX_def by (simp del: unat_u64_bound)
qed

section \<open>The table of offsets\<close>

text \<open>Where the blobs start and the last one ends, the first at \<open>delta\<close>.\<close>

fun blob_starts :: "nat \<Rightarrow> bytes list \<Rightarrow> nat list" where
  "blob_starts delta [] = [delta]"
| "blob_starts delta (bl # bls) = delta # blob_starts (delta + length bl) bls"

lemma length_blob_starts [simp]: "length (blob_starts delta bls) = Suc (length bls)"
  by (induction delta bls rule: blob_starts.induct) auto

lemma blob_starts_nth: "i \<le> length bls \<Longrightarrow> blob_starts delta bls ! i = delta + length (concat (take i bls))"
proof (induction delta bls arbitrary: i rule: blob_starts.induct)
  case (2 delta bl bls)
  then show ?case by (cases i) auto
qed auto

lemma blob_starts_le: "x \<in> set (blob_starts delta bls) \<Longrightarrow> delta \<le> x \<and> x \<le> delta + length (concat bls)"
  by (induction delta bls rule: blob_starts.induct) fastforce+

lemma sorted_blob_starts: "sorted (blob_starts delta bls)"
  by (induction delta bls rule: blob_starts.induct) (auto dest: blob_starts_le)

lemma hd_blob_starts: "blob_starts delta bls = delta # tl (blob_starts delta bls)"
  by (cases bls) auto

text \<open>What the two widths have in common.\<close>

locale offset_codec =
  fixes enc :: "'a::len word \<Rightarrow> bytes"
  assumes dec_enc: "fromLittleEndian (enc v @ rest) = v"
    and length_enc: "length (enc v) = sizeof TYPE('a)"
    and width: "0 < sizeof TYPE('a)" "sizeof TYPE('a) \<le> 8"
begin

lemma length_table: "length (concat (map enc ws)) = sizeof TYPE('a) * length ws"
  by (induction ws) (simp_all add: length_enc)

lemma stream_read_enc: "stream_read (BufferStreamer (enc v @ rest) n) =
    Inr (v, BufferStreamer rest (n - of_nat (sizeof TYPE('a))))"
  using dec_enc [of v "[]"] length_enc [of v] by (simp add: stream_read_def BufferStreamer_def skip_def)

lemma read_offsets_ok:
  assumes "sorted (map unat (w # ws))"
  shows "read_offsets (length ws) w (BufferStreamer (concat (map enc ws) @ rest) n) = Inr (map ucast ws)"
  using assms
  by (induction ws arbitrary: w n) (auto simp: stream_read_enc word_le_nat_alt)

lemma unat_of_width [simp]: "unat (of_nat (sizeof TYPE('a)) :: u64) = sizeof TYPE('a)"
  using width(2) by (simp add: unat_of_nat_small)

text \<open>The header comes down to the loop over its entries.\<close>

lemma read_header_reads:
  assumes s: "stream_holds run decodes s (concat (map enc (w # ws)) @ data)"
    and w: "unat w = sizeof TYPE('a) * Suc (length ws)" "ws \<noteq> []" and small: "unat w \<le> max_transfer"
  shows "\<exists>s' rest n. stream_holds run decodes s' data \<and> read_header TYPE('a) run junk s =
    rbind (read_offsets (length ws) w (BufferStreamer (concat (map enc ws) @ rest) n)) (\<lambda>offs. Inr (ucast w # offs, s'))"
proof -
  let ?N = "sizeof TYPE('a)"
  have s0: "stream_holds run decodes s (enc w @ concat (map enc ws) @ data)" using s by simp
  obtain s1 where s1: "istream_read run junk s = Inr (w, s1)"
      "stream_holds run decodes s1 (concat (map enc ws) @ data)"
    using str.word_next [OF s0 refl width(2), of junk] dec_enc [of w "[]"] by (auto simp: length_enc)
  have "unat w < 2 ^ 64" using small by (simp add: max_transfer_def)
  then have uw: "unat (ucast w :: u64) = unat w" by (simp add: unsigned_ucast_eq take_bit_nat_eq_self)
  let ?sz = "ucast w - of_nat ?N :: u64"
  have sz: "unat ?sz = ?N * length ws" using uw w(1) by (simp add: unat_diff)
  then have n: "unat ?sz = length (concat (map enc ws))" "unat ?sz \<le> max_transfer" "?sz \<noteq> 0"
    using w small width(1) by (auto simp: length_table)
  obtain r s2 where r: "stream_sub_reader run junk ?sz s1 = Inr (r, s2)" "reader_holds r (concat (map enc ws))"
      "stream_holds run decodes s2 data"
    using str.sub_next [OF s1(2) _ n(2), of junk] n(1) by auto
  obtain b where b: "get_buffer junk r 0 ?sz = Inr b" "buffer_ok b" "buf_size b = ?sz" "buf_bytes b = concat (map enc ws)"
    using rd.buffer_exact [OF r(2) _ n(3,2), of 0 junk] n(1) by (auto simp: slice_at_def)
  have data: "buf_data b = concat (map enc ws) @ drop (unat ?sz) (buf_data b)"
    using b(3,4) append_take_drop_id [of "unat ?sz" "buf_data b"] by (simp add: buf_bytes_def)
  have "unat (ucast w div of_nat ?N :: u64) = Suc (length ws)" using uw w(1) width(1) by (simp add: unat_div)
  then have "unat (ucast w div of_nat ?N - 1 :: u64) = length ws" by (simp add: unat_diff)
  then have "read_header TYPE('a) run junk s =
      rbind (read_offsets (length ws) w (BufferStreamer (buf_data b) ?sz)) (\<lambda>offs. Inr (ucast w # offs, s2))"
    using s1(1) r(1) b(1) by (simp add: read_header_def Let_def)
  then show ?thesis using r(3) data by metis
qed

lemma read_header_ok:
  assumes s: "stream_holds run decodes s (concat (map enc (w # ws)) @ data)"
    and w: "unat w = sizeof TYPE('a) * Suc (length ws)" "ws \<noteq> []" "sorted (map unat (w # ws))"
    and small: "unat w \<le> max_transfer"
  shows "\<exists>s'. read_header TYPE('a) run junk s = Inr (map ucast (w # ws), s') \<and> stream_holds run decodes s' data"
  using read_header_reads [OF s w(1,2) small, of junk] read_offsets_ok [OF w(3)] by auto

end

interpretation off32: offset_codec toLittleEndian32
  by unfold_locales simp_all

interpretation off64: offset_codec toLittleEndian64
  by unfold_locales simp_all

section \<open>What a cluster holds\<close>

definition offset_width :: "bool \<Rightarrow> nat" where
  "offset_width ext = (if ext then 8 else 4)"

text \<open>The contents of a cluster, after the flags and before compression.\<close>

definition cluster_starts :: "bool \<Rightarrow> bytes list \<Rightarrow> nat list" where
  "cluster_starts ext bls = blob_starts (offset_width ext * Suc (length bls)) bls"

definition cluster_table :: "bool \<Rightarrow> bytes list \<Rightarrow> bytes" where
  "cluster_table ext bls =
     (if ext then concat (map toLittleEndian64 (map of_nat (cluster_starts ext bls)))
      else concat (map toLittleEndian32 (map of_nat (cluster_starts ext bls))))"

definition cluster_plain :: "bool \<Rightarrow> bytes list \<Rightarrow> bytes" where
  "cluster_plain ext bls = cluster_table ext bls @ concat bls"

definition cluster_fits :: "bool \<Rightarrow> bytes list \<Rightarrow> bool" where
  "cluster_fits ext bls \<longleftrightarrow> bls \<noteq> [] \<and> (\<forall>bl\<in>set bls. length bl \<le> max_transfer) \<and>
     offset_width ext * Suc (length bls) \<le> max_transfer \<and>
     offset_width ext * Suc (length bls) + length (concat bls) < (if ext then 2 ^ 63 else 2 ^ 32)"

definition cluster_holds ::
    "'st stream_run \<Rightarrow> ('st \<Rightarrow> bytes \<Rightarrow> bytes \<Rightarrow> bool) \<Rightarrow> 'st Cluster \<Rightarrow> bytes list \<Rightarrow> bool" where
  "cluster_holds run decodes c bls \<longleftrightarrow>
     (\<exists>delta rest. m_blobOffsets c = map of_nat (blob_starts delta bls) \<and>
        delta + length (concat bls) < 2 ^ 63 \<and> Suc (length bls) < 2 ^ 32 \<and>
        (\<forall>bl\<in>set bls. length bl \<le> max_transfer) \<and> length (m_blobReaders c) \<le> length bls \<and>
        list_all2 reader_holds (m_blobReaders c) (take (length (m_blobReaders c)) bls) \<and>
        stream_holds run decodes (m_reader c) (concat (drop (length (m_blobReaders c)) bls) @ rest))"

lemma cluster_holds_count:
  assumes "cluster_holds run decodes c bls"
  shows "cluster_count c = of_nat (length bls)" "Suc (length bls) < 2 ^ 32" "length (m_blobOffsets c) = Suc (length bls)"
    "\<forall>bl\<in>set bls. length bl \<le> max_transfer"
  using assms by (auto simp: cluster_holds_def cluster_count_def)

lemma length_concat_take_Suc: "i < length xss \<Longrightarrow> length (concat (take (Suc i) xss)) = length (concat (take i xss)) + length (xss ! i)"
  by (simp add: take_Suc_conv_app_nth)

lemma length_concat_take_le: "length (concat (take i xss)) \<le> length (concat xss)"
  using append_take_drop_id [of i xss] by (metis concat_append le_add1 length_append)

lemma getBlobSize_ok:
  assumes h: "cluster_holds run decodes c bls" and n: "unat n < length bls"
  shows "getBlobSize n c = Inr (of_nat (length (bls ! unat n)))"
proof -
  obtain delta where d: "m_blobOffsets c = map of_nat (blob_starts delta bls)" "delta + length (concat bls) < 2 ^ 63"
      "Suc (length bls) < 2 ^ 32"
    using h by (auto simp: cluster_holds_def)
  have n1: "unat (n + 1) = Suc (unat n)" using n d(3) by (subst unat_add_small) simp_all
  have "m_blobOffsets c ! unat (n + 1) = of_nat (delta + length (concat (take (unat n) bls)) + length (bls ! unat n))"
    "m_blobOffsets c ! unat n = of_nat (delta + length (concat (take (unat n) bls)))"
    using n n1 d(1) by (simp_all add: blob_starts_nth length_concat_take_Suc)
  then show ?thesis using n n1 d(1) by (simp add: getBlobSize_def)
qed

lemma getReader_loop_ok:
  assumes "cluster_holds run decodes c bls" "length (m_blobReaders c) + k \<le> length bls"
  shows "\<exists>c'. getReader_loop run junk k c = Inr c' \<and> cluster_holds run decodes c' bls \<and>
    length (m_blobReaders c') = length (m_blobReaders c) + k"
  using assms
proof (induction k arbitrary: c)
  case 0
  then show ?case by simp
next
  case (Suc k)
  let ?i = "length (m_blobReaders c)"
  obtain delta rest where d: "m_blobOffsets c = map of_nat (blob_starts delta bls)" "delta + length (concat bls) < 2 ^ 63"
      "Suc (length bls) < 2 ^ 32" "\<forall>bl\<in>set bls. length bl \<le> max_transfer"
      "list_all2 reader_holds (m_blobReaders c) (take ?i bls)"
      "stream_holds run decodes (m_reader c) (concat (drop ?i bls) @ rest)"
    using Suc.prems(1) by (auto simp: cluster_holds_def)
  have i: "?i < length bls" using Suc.prems(2) by simp
  then have ui: "unat (of_nat ?i :: u32) = ?i" using d(3) by (simp add: unat_of_nat_small)
  let ?sz = "of_nat (length (bls ! ?i)) :: u64"
  have bl: "length (bls ! ?i) \<le> max_transfer" using d(4) i by simp
  then have sz: "unat ?sz = length (bls ! ?i)" by (simp add: unat_of_nat_small max_transfer_def)
  have "drop ?i bls = bls ! ?i # drop (Suc ?i) bls" using i by (simp add: Cons_nth_drop_Suc)
  with d(6) have "stream_holds run decodes (m_reader c) (bls ! ?i @ (concat (drop (Suc ?i) bls) @ rest))" by simp
  from str.sub_next [OF this, of ?sz junk] sz bl obtain r s' where
    r: "stream_sub_reader run junk ?sz (m_reader c) = Inr (r, s')" "reader_holds r (bls ! ?i)"
      "stream_holds run decodes s' (concat (drop (Suc ?i) bls) @ rest)" by auto
  let ?c = "c\<lparr>m_reader := s', m_blobReaders := m_blobReaders c @ [r]\<rparr>"
  have "list_all2 reader_holds (m_blobReaders c @ [r]) (take (Suc ?i) bls)"
    using d(5) r(2) i by (simp add: take_Suc_conv_app_nth list_all2_appendI)
  then have "cluster_holds run decodes ?c bls"
    using d r(3) i unfolding cluster_holds_def by (intro exI [of _ delta] exI [of _ rest]) simp
  moreover have "getReader_loop run junk (Suc k) c = getReader_loop run junk k ?c"
    using getBlobSize_ok [OF Suc.prems(1), of "of_nat ?i"] ui i r(1) by simp
  ultimately show ?case using Suc.IH [of ?c] Suc.prems(2) by simp
qed

lemma getReader_ok:
  assumes h: "cluster_holds run decodes c bls" and n: "unat n < length bls"
  shows "\<exists>r c'. getReader run junk n c = Inr (r, c') \<and> reader_holds r (bls ! unat n) \<and> cluster_holds run decodes c' bls"
proof -
  let ?k = "Suc (unat n) - length (m_blobReaders c)"
  have le: "length (m_blobReaders c) + ?k \<le> length bls"
    using h n by (auto simp: cluster_holds_def)
  obtain c' where c': "getReader_loop run junk ?k c = Inr c'" "cluster_holds run decodes c' bls"
      "length (m_blobReaders c') = length (m_blobReaders c) + ?k"
    using getReader_loop_ok [OF h le] by blast
  have "list_all2 reader_holds (m_blobReaders c') (take (length (m_blobReaders c')) bls)"
    using c'(2) by (auto simp: cluster_holds_def)
  moreover have "unat n < length (m_blobReaders c')" using c'(3) by simp
  ultimately have "reader_holds (m_blobReaders c' ! unat n) (bls ! unat n)" by (auto simp: list_all2_conv_all_nth)
  with c' show ?thesis by (auto simp: getReader_def)
qed

lemma cluster_index_less:
  "cluster_holds run decodes c bls \<Longrightarrow> n < cluster_count c \<longleftrightarrow> unat n < length bls"
  using cluster_holds_count [of run decodes c bls] by (simp add: word_less_nat_alt unat_of_nat_small)

text \<open>Both forms of \<^verbatim>\<open>getBlob\<close>.\<close>

lemma getBlob_part_ok:
  assumes h: "cluster_holds run decodes c bls" and n: "unat n < length bls"
    and part: "unat off < length (bls ! unat n)" "0 < sz"
  shows "\<exists>b c'. getBlob_part run junk n off sz c = Inr (b, c') \<and>
    blob_string b = slice_at (unat off) (unat sz) (bls ! unat n) \<and> cluster_holds run decodes c' bls"
proof -
  let ?bl = "bls ! unat n"
  let ?size = "of_nat (length ?bl) :: u64"
  let ?sz = "min sz (?size - off)"
  have bl: "length ?bl \<le> max_transfer" using cluster_holds_count(4) [OF h] n by simp
  then have size: "unat ?size = length ?bl" by (simp add: unat_of_nat_small max_transfer_def)
  then have sz: "unat ?sz = min (unat sz) (length ?bl - unat off)" using part(1) by (simp add: unat_min unat_diff)
  obtain r c' where r: "getReader run junk n c = Inr (r, c')" "reader_holds r ?bl" "cluster_holds run decodes c' bls"
    using getReader_ok [OF h n] by blast
  have pos: "0 < unat sz" using part(2) by (simp add: word_less_nat_alt)
  have rng: "unat off + unat ?sz \<le> length ?bl" using sz part(1) by simp
  have nz: "?sz \<noteq> 0"
  proof
    assume "?sz = 0"
    then have "unat ?sz = 0" by (simp only: unat_0)
    then show False using sz pos part(1) by linarith
  qed
  have tr: "unat ?sz \<le> max_transfer" using rng bl by linarith
  obtain b where b: "get_buffer junk r off ?sz = Inr b" "buffer_ok b" "buf_bytes b = slice_at (unat off) (unat ?sz) ?bl"
    using rd.buffer_exact [OF r(2) rng nz tr, of junk] by blast
  have "slice_at (unat off) (unat ?sz) ?bl = slice_at (unat off) (unat sz) ?bl"
    unfolding sz by (simp add: slice_at_def min_def)
  moreover have "\<not> ?size < off" using size part(1) by (simp add: word_less_nat_alt)
  ultimately show ?thesis
    using getBlobSize_ok [OF h n] cluster_index_less [OF h] n r(1,3) b
    by (simp add: getBlob_part_def Let_def Blob_of_Buffer_def blob_string_def buf_bytes_def)
qed

lemma getBlob_as_part:
  assumes h: "cluster_holds run decodes c bls" and n: "unat n < length bls"
  shows "getBlob run junk n c = getBlob_part run junk n 0 (of_nat (length (bls ! unat n))) c"
  using getBlobSize_ok [OF h n] by (simp add: getBlob_def getBlob_part_def)

lemma getBlob_ok:
  assumes h: "cluster_holds run decodes c bls" and n: "unat n < length bls" "bls ! unat n \<noteq> []"
  shows "\<exists>b c'. getBlob run junk n c = Inr (b, c') \<and> blob_string b = bls ! unat n \<and> cluster_holds run decodes c' bls"
proof -
  let ?sz = "of_nat (length (bls ! unat n)) :: u64"
  have "length (bls ! unat n) \<le> max_transfer" using cluster_holds_count(4) [OF h] n by simp
  then have "unat ?sz = length (bls ! unat n)" by (simp add: unat_of_nat_small max_transfer_def)
  then show ?thesis
    using getBlob_part_ok [OF h n(1), of 0 ?sz junk] n(2) getBlob_as_part [OF h n(1), of junk]
    by (simp add: slice_at_def word_less_nat_alt)
qed

section \<open>Opening a cluster\<close>

lemma sorted_of_nat_starts:
  assumes "\<forall>x\<in>set xs. x < 2 ^ LENGTH('a)" "sorted xs"
  shows "sorted (map unat (map of_nat xs :: 'a::len word list))"
proof -
  have "map unat (map of_nat xs :: 'a word list) = xs"
    using assms(1) by (simp add: map_idI unat_of_nat_small)
  then show ?thesis using assms(2) by simp
qed

lemma read_header_cluster:
  fixes enc :: "'a::len word \<Rightarrow> bytes"
  assumes codec: "offset_codec enc" and w: "offset_width ext = sizeof TYPE('a)"
    and bound: "offset_width ext * Suc (length bls) + length (concat bls) < 2 ^ LENGTH('a)"
    and len: "LENGTH('a) \<le> 64"
    and s: "stream_holds run decodes s (concat (map enc (map of_nat (cluster_starts ext bls))) @ data)"
    and bls: "bls \<noteq> []" "offset_width ext * Suc (length bls) \<le> max_transfer"
  shows "\<exists>s'. read_header TYPE('a) run junk s = Inr (map of_nat (cluster_starts ext bls), s') \<and>
    stream_holds run decodes s' data"
proof -
  let ?d = "offset_width ext * Suc (length bls)"
  let ?xs = "cluster_starts ext bls"
  have small: "x < 2 ^ LENGTH('a)" if "x \<in> set ?xs" for x
    using blob_starts_le [of x ?d bls] that bound by (auto simp: cluster_starts_def)
  have xs: "?xs = ?d # tl ?xs" unfolding cluster_starts_def by (rule hd_blob_starts)
  have ws: "map of_nat ?xs = of_nat ?d # map of_nat (tl ?xs)" by (subst xs) simp
  have len': "length (tl ?xs) = length bls" by (simp add: cluster_starts_def)
  have sorted: "sorted (map unat (map of_nat ?xs :: 'a word list))"
    using small unfolding cluster_starts_def by (intro sorted_of_nat_starts sorted_blob_starts) blast
  have d: "unat (of_nat ?d :: 'a word) = ?d" using bound by (intro unat_of_nat_small) simp
  have "map of_nat (tl ?xs) \<noteq> ([] :: 'a word list)" 
    using bls(1) by (cases bls) (simp_all add: cluster_starts_def flip: length_0_conv del: length_0_conv)
  then obtain s' where s': "read_header TYPE('a) run junk s = Inr (map ucast (map of_nat ?xs :: 'a word list), s')"
      "stream_holds run decodes s' data"
    using offset_codec.read_header_ok [OF codec, of run decodes s "of_nat ?d" "map of_nat (tl ?xs)" data junk]
      s sorted d w len' bls(2) unfolding ws by auto
  have "ucast (of_nat x :: 'a word) = (of_nat x :: u64)" if "x \<in> set ?xs" for x
  proof -
    have "x < 2 ^ 64" using small [OF that] power_increasing [OF len, of "2 :: nat"] by simp
    then have "unat (ucast (of_nat x :: 'a word) :: u64) = unat (of_nat x :: u64)"
      using small [OF that] by (simp add: unsigned_ucast_eq unat_of_nat_small take_bit_nat_eq_self)
    then show ?thesis by (simp only: word_unat_eq_iff)
  qed
  then have "map ucast (map of_nat ?xs :: 'a word list) = (map of_nat ?xs :: u64 list)" by simp
  with s' show ?thesis by simp
qed

lemma new_Cluster_ok:
  assumes s: "stream_holds run decodes s (cluster_plain ext bls @ rest)" and fits: "cluster_fits ext bls"
  shows "\<exists>c. new_Cluster run junk s ct ext = Inr c \<and> cluster_holds run decodes c bls \<and>
    compression c = ct \<and> isExtended c = ext \<and> m_blobOffsets c = map of_nat (cluster_starts ext bls)"
proof -
  have "\<exists>s'. (if ext then read_header TYPE(64) run junk s else read_header TYPE(32) run junk s)
      = Inr (map of_nat (cluster_starts ext bls), s') \<and> stream_holds run decodes s' (concat bls @ rest)"
    using read_header_cluster [OF off64.offset_codec_axioms, of ext bls run decodes s "concat bls @ rest" junk]
      read_header_cluster [OF off32.offset_codec_axioms, of ext bls run decodes s "concat bls @ rest" junk] s fits
    by (auto simp: cluster_plain_def cluster_table_def cluster_fits_def offset_width_def)
  then obtain s' where s': "(if ext then read_header TYPE(64) run junk s else read_header TYPE(32) run junk s)
      = Inr (map of_nat (cluster_starts ext bls), s')" "stream_holds run decodes s' (concat bls @ rest)" by blast
  have "4 * Suc (length bls) \<le> max_transfer"
    "offset_width ext * Suc (length bls) + length (concat bls) < 2 ^ 63" "\<forall>bl\<in>set bls. length bl \<le> max_transfer"
    using fits by (auto simp: cluster_fits_def offset_width_def split: if_splits)
  with s' show ?thesis
    by (auto simp: new_Cluster_def cluster_holds_def cluster_starts_def max_transfer_def)
qed

text \<open>The byte of flags, and what follows it for each kind of compression.\<close>

definition cluster_info :: "bool \<Rightarrow> CompressionType \<Rightarrow> u8" where
  "cluster_info ext ct = (if ext then 0x10 else 0) + CompressionType_code ct"

definition cluster_body ::
    "('st \<Rightarrow> bytes \<Rightarrow> bytes \<Rightarrow> bool) \<Rightarrow> 'st \<Rightarrow> 'st \<Rightarrow> bool \<Rightarrow> CompressionType \<Rightarrow> bytes list \<Rightarrow> bytes \<Rightarrow> bool" where
  "cluster_body decodes lzma zstd ext ct bls body \<longleftrightarrow> cluster_fits ext bls \<and>
     (ct \<in> {zimcompDefault, zimcompNone} \<and> (\<exists>post. body = cluster_plain ext bls @ post) \<or>
      ct = zimcompLzma \<and> decodes lzma body (cluster_plain ext bls) \<or>
      ct = zimcompZstd \<and> decodes zstd body (cluster_plain ext bls))"

lemma cluster_info_flags:
  "ct \<in> {zimcompDefault, zimcompNone, zimcompLzma, zimcompZstd} \<Longrightarrow>
   CompressionType_of (cluster_info ext ct AND 0x0F) = ct \<and> (cluster_info ext ct AND 0x10 \<noteq> 0) = ext"
  by (elim insertE emptyE; cases ext; simp add: cluster_info_def CompressionType_of_def)

lemma new_DecoderStreamReader_ok:
  assumes d: "decoder_ok run decodes" "decodes st body out" and r: "reader_holds r body" "body \<noteq> []"
    and out: "length out < 2 ^ 63"
  shows "\<exists>s. new_DecoderStreamReader junk st r = Inr s \<and> stream_holds run decodes s out"
proof -
  let ?ds = "\<lparr>m_encodedDataReader = r, m_currentInputOffset = 0, m_inputBytesLeft = reader_size r,
    ds_state = st, ds_in = []\<rparr>"
  have sz: "unat (reader_size r) = length body" using reader_holds_size [OF r(1)] by simp
  then have "reader_size r \<noteq> 0" using r(2) by auto
  moreover have "decoder_holds run decodes ?ds out"
    using d r(1) sz by (auto simp: decoder_holds_def)
  ultimately show ?thesis
    using readNextChunk_ok [of run decodes ?ds out junk] out by (auto simp: new_DecoderStreamReader_def)
qed

lemma cluster_plain_length:
  "cluster_fits ext bls \<Longrightarrow> length (cluster_plain ext bls) < 2 ^ 63"
  using off32.length_table [of "map of_nat (cluster_starts ext bls)"] off64.length_table [of "map of_nat (cluster_starts ext bls)"]
  by (auto simp: cluster_plain_def cluster_table_def cluster_fits_def offset_width_def cluster_starts_def
      simp del: length_concat map_map split: if_splits)

lemma Cluster_read_ok:
  assumes r: "reader_holds zimReader (pre @ cluster_info ext ct # body)" "unat off = length pre"
    and b: "cluster_body decodes lzma zstd ext ct bls body" "body \<noteq> []" and d: "decoder_ok run decodes"
  shows "\<exists>c. Cluster_read run junk lzma zstd zimReader off = Inr c \<and> cluster_holds run decodes c bls \<and>
    compression c = ct \<and> isExtended c = ext \<and> m_blobOffsets c = map of_nat (cluster_starts ext bls)"
proof -
  let ?bs = "pre @ cluster_info ext ct # body"
  have info: "reader_read_char junk zimReader off = Inr (cluster_info ext ct)"
    using rd.char_exact [OF r(1), of off junk] r(2) by (simp del: reader_read_char.simps)
  have o1: "unat (off + 1) = Suc (length pre)"
    using r(2) reader_holds_size [OF r(1)] by (subst unat_add_small) simp_all
  then obtain sub where sub: "sub_reader_rest junk zimReader (off + 1) = Inr sub" "reader_holds sub body"
    using rd.rest_exact(1) [OF r(1), of "off + 1" junk] b(2) by auto
  have fits: "cluster_fits ext bls" using b(1) by (simp add: cluster_body_def)
  note fl = cluster_info_flags [of ct ext]
  have "\<exists>s rest. getClusterReader junk lzma zstd zimReader off = Inr (s, ct, ext) \<and>
      stream_holds run decodes s (cluster_plain ext bls @ rest)"
    using b(1) unfolding cluster_body_def
  proof (elim conjE disjE exE)
    fix post assume "ct \<in> {zimcompDefault, zimcompNone}" "body = cluster_plain ext bls @ post"
    with sub fl info show ?thesis
      by (auto simp: getClusterReader_def Let_def simp del: reader_read_char.simps)
  next
    assume ct: "ct = zimcompLzma" "decodes lzma body (cluster_plain ext bls)"
    with new_DecoderStreamReader_ok [OF d ct(2) sub(2) b(2), of junk] cluster_plain_length [OF fits] sub fl info
    show ?thesis by (auto simp: getClusterReader_def Let_def simp del: reader_read_char.simps intro!: exI [of _ "[]"])
  next
    assume ct: "ct = zimcompZstd" "decodes zstd body (cluster_plain ext bls)"
    with new_DecoderStreamReader_ok [OF d ct(2) sub(2) b(2), of junk] cluster_plain_length [OF fits] sub fl info
    show ?thesis by (auto simp: getClusterReader_def Let_def simp del: reader_read_char.simps intro!: exI [of _ "[]"])
  qed
  then obtain s rest where "getClusterReader junk lzma zstd zimReader off = Inr (s, ct, ext)"
      "stream_holds run decodes s (cluster_plain ext bls @ rest)" by blast
  with new_Cluster_ok [OF _ fits, of run decodes s rest junk ct] show ?thesis by (simp add: Cluster_read_def)
qed

section \<open>Properties\<close>

text \<open>A sequence of requests to one cluster object.\<close>

fun get_blobs :: "'st stream_run \<Rightarrow> (nat \<Rightarrow> byte) \<Rightarrow> u32 list \<Rightarrow> 'st Cluster \<Rightarrow> (bytes list \<times> 'st Cluster) res" where
  "get_blobs run junk [] c = Inr ([], c)"
| "get_blobs run junk (n # ns) c =
     rbind (getBlob run junk n c) (\<lambda>(b, c').
     rbind (get_blobs run junk ns c') (\<lambda>(bs, c''). Inr (blob_string b # bs, c'')))"

lemma get_blobs_ok:
  assumes "cluster_holds run decodes c bls" "\<forall>n\<in>set ns. unat n < length bls \<and> bls ! unat n \<noteq> []"
  shows "\<exists>c'. get_blobs run junk ns c = Inr (map (\<lambda>n. bls ! unat n) ns, c') \<and> cluster_holds run decodes c' bls"
  using assms
proof (induction ns arbitrary: c)
  case (Cons n ns)
  obtain b c1 where "getBlob run junk n c = Inr (b, c1)" "blob_string b = bls ! unat n" "cluster_holds run decodes c1 bls"
    using getBlob_ok [OF Cons.prems(1), of n junk] Cons.prems(2) by auto
  with Cons.IH [of c1] Cons.prems(2) show ?case by auto
qed simp


definition example_cluster :: bytes where
  "example_cluster = cluster_plain False [[10], [], [20, 21, 22]]"

lemma example_cluster_bytes: "example_cluster = [16, 0, 0, 0, 17, 0, 0, 0, 17, 0, 0, 0, 20, 0, 0, 0, 10, 20, 21, 22]"
  by (simp add: example_cluster_def cluster_plain_def cluster_table_def cluster_starts_def offset_width_def
      toLittleEndian32_def)

lemma example_cluster_reader:
  "reader_holds (BufferReader \<lparr>buf_data = [255, 5] @ example_cluster, buf_size = 22\<rparr>)
     ([255] @ cluster_info False zimcompZstd # example_cluster)"
  by (simp add: example_cluster_bytes buffer_ok_def buf_bytes_def SIZE_MAX_def cluster_info_def)

lemma example_cluster_body:
  "cluster_body copy_decodes () () False zimcompZstd [[10], [], [20, 21, 22]] example_cluster"
  by (simp add: cluster_body_def cluster_fits_def copy_decodes_def example_cluster_def offset_width_def max_transfer_def)


text \<open>a request for a part of a blob gives that part, as much of it as the blob has.\<close>

theorem getBlob_part_is_slice:
  assumes "cluster_holds run decodes c bls" "unat n < length bls"
    "unat off < length (bls ! unat n)" "0 < sz"
  shows "\<exists>b c'. getBlob_part run junk n off sz c = Inr (b, c') \<and>
    blob_string b = take (unat sz) (drop (unat off) (bls ! unat n)) \<and> cluster_holds run decodes c' bls"
  using getBlob_part_ok [OF assms, of junk] by (simp add: slice_at_def)

definition example_open_cluster :: "unit Cluster" where
  "example_open_cluster = \<lparr>compression = zimcompNone, isExtended = False,
     m_reader = RawStreamReader (BufferReader \<lparr>buf_data = example_cluster, buf_size = 20\<rparr>) 16,
     m_blobOffsets = [16, 17, 17, 20], m_blobReaders = []\<rparr>"

lemma example_open_cluster_holds: "cluster_holds copy_run copy_decodes example_open_cluster [[10], [], [20, 21, 22]]"
  unfolding cluster_holds_def
  by (rule exI [of _ 16], rule exI [of _ "[]"]) (simp add: example_open_cluster_def max_transfer_def
      example_cluster_bytes buffer_ok_def buf_bytes_def SIZE_MAX_def)

theorem getBlob_part_is_slice_witness:
  "\<exists>b c'. getBlob_part copy_run (\<lambda>_. 0) 2 1 9 example_open_cluster = Inr (b, c') \<and>
    blob_string b = [21, 22] \<and> cluster_holds copy_run copy_decodes c' [[10], [], [20, 21, 22]]"
  using getBlob_part_is_slice [OF example_open_cluster_holds, of 2 1 9 "\<lambda>_. 0"] by simp

text \<open>an index past the last blob gives the empty blob and leaves the cluster as it is; so does a part
  that starts after the end of its blob.\<close>

theorem getBlob_out_of_range:
  assumes h: "cluster_holds run decodes c bls" and n: "length bls \<le> unat n \<or> length (bls ! unat n) < unat off"
  shows "(length bls \<le> unat n \<longrightarrow> getBlob run junk n c = Inr (empty_Blob, c)) \<and>
    getBlob_part run junk n off sz c = Inr (empty_Blob, c)"
proof (cases "length bls \<le> unat n")
  case True
  then show ?thesis using cluster_index_less [OF h, of n] by (simp add: getBlob_def getBlob_part_def)
next
  case False
  then have "length (bls ! unat n) \<le> max_transfer" using cluster_holds_count(4) [OF h] by simp
  then have "unat (of_nat (length (bls ! unat n)) :: u64) = length (bls ! unat n)"
    by (simp add: unat_of_nat_small max_transfer_def)
  then show ?thesis
    using getBlobSize_ok [OF h, of n] n False by (simp add: getBlob_part_def word_less_nat_alt)
qed

theorem getBlob_out_of_range_witness:
  "getBlob copy_run (\<lambda>_. 0) 3 example_open_cluster = Inr (empty_Blob, example_open_cluster) \<and>
   getBlob_part copy_run (\<lambda>_. 0) 0 2 5 example_open_cluster = Inr (empty_Blob, example_open_cluster)"
  using getBlob_out_of_range [OF example_open_cluster_holds, of 3 0 "\<lambda>_. 0"]
    getBlob_out_of_range [OF example_open_cluster_holds, of 0 2 "\<lambda>_. 0" 5] by simp

text \<open>a cluster with a compression this library does not have, or with a code that names none, is
  refused with the error of its case.\<close>

theorem Cluster_read_bad_compression:
  assumes "reader_holds zimReader (pre @ info # body)" "unat off = length pre" "body \<noteq> []"
    "info AND 0x0F \<notin> {0, 1, 4, 5}"
  shows "Cluster_read run junk lzma zstd zimReader off =
    Inl (if info AND 0x0F = 2 then RuntimeError ''zlib not enabled in this library''
         else if info AND 0x0F = 3 then RuntimeError ''bzip2 not enabled in this library''
         else ZimFileFormatError ''Invalid compression flag'')"
proof -
  have info: "reader_read_char junk zimReader off = Inr info"
    using rd.char_exact [OF assms(1), of off junk] assms(2) by (simp del: reader_read_char.simps)
  have "unat (off + 1) = Suc (length pre)"
    using assms(2) reader_holds_size [OF assms(1)] by (subst unat_add_small) simp_all
  then obtain sub where "sub_reader_rest junk zimReader (off + 1) = Inr sub"
    using rd.rest_exact(1) [OF assms(1), of "off + 1" junk] assms(3) by auto
  with info assms(4) show ?thesis
    by (simp add: Cluster_read_def getClusterReader_def Let_def CompressionType_of_def del: reader_read_char.simps)
qed

theorem Cluster_read_bad_compression_witness:
  "Cluster_read copy_run (\<lambda>_. 0) () () (BufferReader \<lparr>buf_data = [0x13, 7], buf_size = 2\<rparr>) 0 =
    Inl (RuntimeError ''bzip2 not enabled in this library'')"
  using Cluster_read_bad_compression [of "BufferReader \<lparr>buf_data = [0x13, 7], buf_size = 2\<rparr>" "[]" "0x13" "[7]" 0
      copy_run "\<lambda>_. 0" "()" "()"]
  by (simp add: buffer_ok_def buf_bytes_def SIZE_MAX_def)

text \<open>an empty blob of an uncompressed cluster cannot be read when it lies on a page boundary of the
  file: \<^verbatim>\<open>get_buffer\<close> maps its zero bytes, and \<^verbatim>\<open>mmap\<close> refuses an empty mapping.\<close>

theorem getBlob_empty_on_page_boundary:
  assumes h: "cluster_holds run decodes c bls" and n: "unat n = length (m_blobReaders c)" "unat n < length bls" "bls ! unat n = []"
    and r: "m_reader c = RawStreamReader (FileReader fd off0 size0) pos"
    and page: "(off0 + pos) AND (page_size - 1) = 0" and einval: "fd_mmap fd (off0 + pos) 0 = None"
  shows "getBlob run junk n c = Inl (RuntimeError ''Cannot mmap'')"
proof -
  have pos: "pos \<le> size0"
    using h r by (auto simp: cluster_holds_def length_slice_at word_le_nat_alt)
  have "of_nat (length (m_blobReaders c)) = n" by (simp flip: n(1))
  moreover have size: "getBlobSize n c = Inr 0" using getBlobSize_ok [OF h n(2)] n(3) by simp
  moreover have "Suc (unat n) - length (m_blobReaders c) = Suc 0" using n(1) by simp
  ultimately have reader: "getReader run junk n c =
      Inr (FileReader fd (off0 + pos) 0, c\<lparr>m_reader := RawStreamReader (FileReader fd off0 size0) pos,
        m_blobReaders := m_blobReaders c @ [FileReader fd (off0 + pos) 0]\<rparr>)"
    using r pos n(1) by (simp add: getReader_def raw_sub_reader_def)
  let ?x = "off0 + pos"
  have "?x = (?x AND (page_size - 1)) OR (?x AND NOT (page_size - 1))" by (simp flip: bit.conj_disj_distrib)
  then have "?x AND NOT (page_size - 1) = ?x" using page by simp
  then show ?thesis
    using size reader n(2) cluster_index_less [OF h, of n] einval by (simp add: getBlob_def makeMmappedBuffer_def)
qed

text \<open>A file of 4096 bytes that ends with a cluster of one empty blob.\<close>

definition page_fd :: FD where
  "page_fd = (let c = replicate 4088 0 @ [8, 0, 0, 0, 8, 0, 0, 0] in
     (mem_fd c)\<lparr>fd_mmap := (\<lambda>off n. if n = 0 then None else Some (slice_at (unat off) (unat n) c))\<rparr>)"

lemma page_fd_serves: "fd_serves page_fd (replicate 4088 0 @ [8, 0, 0, 0, 8, 0, 0, 0])"
  by (simp add: page_fd_def fd_serves_def mem_fd_def Let_def)

lemma page_cluster_holds:
  "cluster_holds copy_run copy_decodes \<lparr>compression = zimcompNone, isExtended = False,
     m_reader = RawStreamReader (FileReader page_fd 4088 8) 8, m_blobOffsets = [8, 8], m_blobReaders = []\<rparr> [[]]"
  unfolding cluster_holds_def
proof (intro exI [of _ 8] exI [of _ "[]"] conjI)
  have "reader_holds (FileReader page_fd 4088 8) [8, 0, 0, 0, 8, 0, 0, 0]"
    using page_fd_serves by (auto simp: slice_at_def intro!: exI [of _ "replicate 4088 0 @ [8, 0, 0, 0, 8, 0, 0, 0]"])
  then show "stream_holds copy_run copy_decodes (m_reader \<lparr>compression = zimcompNone, isExtended = False,
     m_reader = RawStreamReader (FileReader page_fd 4088 8) 8, m_blobOffsets = [8, 8], m_blobReaders = []\<rparr>)
     (concat (drop (length (m_blobReaders (\<lparr>compression = zimcompNone, isExtended = False,
     m_reader = RawStreamReader (FileReader page_fd 4088 8) 8, m_blobOffsets = [8, 8], m_blobReaders = []\<rparr>))) [[]]) @ [])"
    by (auto simp del: reader_holds.simps intro!: exI [of _ "[8, 0, 0, 0, 8, 0, 0, 0]"])
qed simp_all

theorem getBlob_empty_on_page_boundary_witness:
  "getBlob copy_run (\<lambda>_. 0) 0 \<lparr>compression = zimcompNone, isExtended = False,
     m_reader = RawStreamReader (FileReader page_fd 4088 8) 8, m_blobOffsets = [8, 8], m_blobReaders = []\<rparr>
   = Inl (RuntimeError ''Cannot mmap'')"
proof (rule getBlob_empty_on_page_boundary [OF page_cluster_holds])
  have e: "4088 + 8 = (4096 :: u64)" by simp
  show "(4088 + 8 :: u64) AND (page_size - 1) = 0" unfolding e by (simp add: page_size_def)
  show "fd_mmap page_fd (4088 + 8) 0 = None" by (simp add: page_fd_def Let_def)
qed simp_all

end
