(* ===== verification/Cluster_Writer.thy ===== *)
theory Cluster_Writer
  imports Clusters
begin

text \<open>
  Writing clusters: \<^verbatim>\<open>src/writer/cluster.h\<close>, \<^verbatim>\<open>src/writer/cluster.cpp\<close>, and the content providers of
  \<^verbatim>\<open>include/zim/writer/contentProvider.h\<close> and \<^verbatim>\<open>src/writer/contentProvider.cpp\<close>. A cluster is filled
  with providers, closed (which compresses it) and written behind its byte of flags.

  Shown here: every provider of the library delivers its contents; a cluster that was filled, closed
  and written is, for the reader of the theory \<open>Clusters\<close>, the list of the contents added to it; and
  offsets of 32 bits wrap when a cluster that is not extended grows too large.
\<close>

section \<open>Content providers\<close>

text \<open>
  A provider is one of the library's classes or one of the application, given by the size it announces
  and the blobs its successive calls of \<^verbatim>\<open>feed\<close> return (after the last one, empty blobs).
\<close>

datatype ContentProvider =
    StringProvider bytes bool
  | SharedStringProvider bytes bool
  | FileProvider FD u64 u64
  | CustomProvider u64 "bytes list"

definition BUFFER_SIZE :: u64 where
  "BUFFER_SIZE = 1024 * 1024"

definition new_StringProvider :: "bytes \<Rightarrow> ContentProvider" where
  "new_StringProvider content = StringProvider content False"

definition new_SharedStringProvider :: "bytes \<Rightarrow> ContentProvider" where
  "new_SharedStringProvider content = SharedStringProvider content False"

definition new_FileProvider :: "(bytes \<Rightarrow> FD option) \<Rightarrow> bytes \<Rightarrow> ContentProvider res" where
  "new_FileProvider open_file filepath =
     (case open_file filepath of None \<Rightarrow> Inl (RuntimeError '''') | Some fd \<Rightarrow> Inr (FileProvider fd (fd_stat_size fd) 0))"

fun provider_getSize :: "ContentProvider \<Rightarrow> u64" where
  "provider_getSize (StringProvider content feeded) = of_nat (length content)"
| "provider_getSize (SharedStringProvider content feeded) = of_nat (length content)"
| "provider_getSize (FileProvider fd sz offset) = sz"
| "provider_getSize (CustomProvider sz blobs) = sz"

text \<open>\<open>junk\<close> is what the fresh buffer of a file provider holds.\<close>

definition FileProvider_feed :: "(nat \<Rightarrow> byte) \<Rightarrow> FD \<Rightarrow> u64 \<Rightarrow> u64 \<Rightarrow> (bytes \<times> ContentProvider) res" where
  "FileProvider_feed junk fd sz offset =
     (let sizeToRead = min BUFFER_SIZE (sz - offset) in
      if sizeToRead = 0 then Inr ([], FileProvider fd sz offset)
      else rbind (readAt fd (map junk [0..<unat BUFFER_SIZE]) sizeToRead offset) (\<lambda>(buffer, n).
        if n = - 1 then Inl (RuntimeError ''Error reading file'')
        else Inr (take (unat sizeToRead) buffer, FileProvider fd sz (offset + sizeToRead))))"

fun feed :: "(nat \<Rightarrow> byte) \<Rightarrow> ContentProvider \<Rightarrow> (bytes \<times> ContentProvider) res" where
  "feed junk (StringProvider content feeded) =
     Inr (if feeded then [] else content, StringProvider content True)"
| "feed junk (SharedStringProvider content feeded) =
     Inr (if feeded then [] else content, SharedStringProvider content True)"
| "feed junk (FileProvider fd sz offset) = FileProvider_feed junk fd sz offset"
| "feed junk (CustomProvider sz blobs) =
     (case blobs of [] \<Rightarrow> Inr ([], CustomProvider sz []) | b # bs \<Rightarrow> Inr (b, CustomProvider sz bs))"

text \<open>The inner loop of \<^verbatim>\<open>Cluster::write_data\<close>: feed until an empty blob comes.\<close>

fun provider_left :: "ContentProvider \<Rightarrow> nat" where
  "provider_left (StringProvider content feeded) = (if feeded then 0 else 1)"
| "provider_left (SharedStringProvider content feeded) = (if feeded then 0 else 1)"
| "provider_left (FileProvider fd sz offset) = unat (sz - offset)"
| "provider_left (CustomProvider sz blobs) = length blobs"

lemma feed_progress: "feed junk p = Inr (blob, p') \<Longrightarrow> blob \<noteq> [] \<Longrightarrow> provider_left p' < provider_left p"
proof (induction junk p rule: feed.induct)
  case (3 junk fd sz offset)
  let ?n = "min BUFFER_SIZE (sz - offset)"
  have n: "?n \<noteq> 0" "p' = FileProvider fd sz (offset + ?n)"
    using 3 by (auto simp: FileProvider_feed_def Let_def split: if_splits sum.splits elim!: rbind_InrE)
  have "unat ?n \<le> unat (sz - offset)" by (simp add: unat_min)
  moreover have "0 < unat ?n" using n(1) by (simp add: unat_gt_0)
  ultimately have "unat (sz - offset - ?n) < unat (sz - offset)" by (simp add: unat_diff)
  then show ?case by (simp add: n(2) diff_diff_eq)
qed (auto split: if_splits list.splits)

function feed_all :: "(nat \<Rightarrow> byte) \<Rightarrow> ContentProvider \<Rightarrow> (bytes list \<times> ContentProvider) res" where
  "feed_all junk p =
     (case feed junk p of
        Inl e \<Rightarrow> Inl e
      | Inr (blob, p') \<Rightarrow>
          if blob = [] then Inr ([], p')
          else rbind (feed_all junk p') (\<lambda>(blobs, p''). Inr (blob # blobs, p'')))"
  by pat_completeness auto
termination
  by (relation "measure (\<lambda>(junk, p). provider_left p)") (auto intro: feed_progress)

declare feed_all.simps [simp del]

section \<open>The cluster\<close>

record WCluster =
  w_compression :: CompressionType
  w_index :: u32
  w_isExtended :: bool
  w_blobOffsets :: "u64 list"
  w_offset :: u64
  w_size :: u64
  w_providers :: "ContentProvider list"
  compressed_data :: bytes
  w_closed :: bool
  w_count :: u32

definition new_WCluster :: "CompressionType \<Rightarrow> WCluster" where
  "new_WCluster ct = \<lparr>w_compression = ct, w_index = 0, w_isExtended = False, w_blobOffsets = [0], w_offset = 0,
     w_size = 0, w_providers = [], compressed_data = [], w_closed = False, w_count = 0\<rparr>"

definition UINT32_MAX :: u64 where
  "UINT32_MAX = 0xFFFFFFFF"

definition addContent :: "ContentProvider \<Rightarrow> WCluster \<Rightarrow> WCluster" where
  "addContent provider c =
     (let sz = provider_getSize provider;
          c = c\<lparr>w_size := w_size c + sz\<rparr>;
          c = c\<lparr>w_blobOffsets := w_blobOffsets c @ [w_size c], w_count := w_count c + 1,
                 w_isExtended := w_isExtended c \<or> sz > UINT32_MAX\<rparr> in
      if sz = 0 then c else c\<lparr>w_providers := w_providers c @ [provider]\<rparr>)"

definition addContent_string :: "bytes \<Rightarrow> WCluster \<Rightarrow> WCluster" where
  "addContent_string data c = addContent (new_StringProvider data) c"

definition wcluster_size :: "WCluster \<Rightarrow> u64 res" where
  "wcluster_size c =
     (if w_closed c then Inl (RuntimeError ''oups'')
      else if w_isExtended c then Inr (of_nat (length (w_blobOffsets c)) * 8 + w_size c)
      else Inr (of_nat (length (w_blobOffsets c)) * 4 + w_size c))"

definition clear_raw_data :: "WCluster \<Rightarrow> WCluster" where
  "clear_raw_data c = c\<lparr>w_blobOffsets := [], w_providers := []\<rparr>"

definition clear_compressed_data :: "WCluster \<Rightarrow> WCluster" where
  "clear_compressed_data c = c\<lparr>compressed_data := []\<rparr>"

definition clear_data :: "WCluster \<Rightarrow> WCluster" where
  "clear_data c = clear_compressed_data (clear_raw_data c)"

definition w_getBlobSize :: "u32 \<Rightarrow> WCluster \<Rightarrow> u64 res" where
  "w_getBlobSize n c =
     (if unat (n + 1) \<ge> length (w_blobOffsets c) \<or> unat n \<ge> length (w_blobOffsets c) then Inl MemoryFault
      else Inr (w_blobOffsets c ! unat (n + 1) - w_blobOffsets c ! unat n))"

definition w_getBlobOffset :: "u32 \<Rightarrow> WCluster \<Rightarrow> u64 res" where
  "w_getBlobOffset n c = (if unat n \<ge> length (w_blobOffsets c) then Inl MemoryFault else Inr (w_blobOffsets c ! unat n))"

text \<open>\<^verbatim>\<open>(count().v + 1) * sizeof\<close>: the sum wraps at 32 bits, the product is one of 64.\<close>

definition getDataOffset :: "WCluster \<Rightarrow> u64 res" where
  "getDataOffset c = ASSERT (w_closed c) (Inr (1 + ucast (w_count c + 1) * (if w_isExtended c then 8 else 4)))"

text \<open>The blobs that \<^verbatim>\<open>write_content\<close> passes to its \<^verbatim>\<open>writer\<close>, in order, and the providers afterwards.\<close>

definition write_offsets32 :: "WCluster \<Rightarrow> bytes list" where
  "write_offsets32 c =
     (let delta = of_nat (length (w_blobOffsets c)) * 4 in
      map (\<lambda>offset. toLittleEndian32 (ucast (offset + delta))) (w_blobOffsets c))"

definition write_offsets64 :: "WCluster \<Rightarrow> bytes list" where
  "write_offsets64 c =
     (let delta = of_nat (length (w_blobOffsets c)) * 8 in
      map (\<lambda>offset. toLittleEndian64 (ucast (offset + delta))) (w_blobOffsets c))"

fun write_data_loop :: "(nat \<Rightarrow> byte) \<Rightarrow> ContentProvider list \<Rightarrow> (bytes list \<times> ContentProvider list) res" where
  "write_data_loop junk [] = Inr ([], [])"
| "write_data_loop junk (provider # rest) =
     ASSERT (provider_getSize provider \<noteq> 0)
       (rbind (feed_all junk provider) (\<lambda>(blobs, provider').
         ASSERT (of_nat (length (concat blobs)) = provider_getSize provider')
           (rbind (write_data_loop junk rest) (\<lambda>(blobs', rest').
             Inr (blobs @ blobs', provider' # rest')))))"

definition write_data :: "(nat \<Rightarrow> byte) \<Rightarrow> WCluster \<Rightarrow> (bytes list \<times> WCluster) res" where
  "write_data junk c =
     rbind (write_data_loop junk (w_providers c)) (\<lambda>(blobs, providers'). Inr (blobs, c\<lparr>w_providers := providers'\<rparr>))"

definition write_content :: "(nat \<Rightarrow> byte) \<Rightarrow> WCluster \<Rightarrow> (bytes list \<times> WCluster) res" where
  "write_content junk c =
     rbind (write_data junk c) (\<lambda>(blobs, c').
       Inr ((if w_isExtended c then write_offsets64 c else write_offsets32 c) @ blobs, c'))"

text \<open>\<open>run\<close> is the encoder of either codec, \<open>lzma\<close> and \<open>zstd\<close> the states \<^verbatim>\<open>init_stream_encoder\<close> makes.\<close>

definition compress_with :: "'st stream_run \<Rightarrow> 'st \<Rightarrow> (nat \<Rightarrow> byte) \<Rightarrow> WCluster \<Rightarrow> WCluster res" where
  "compress_with run stream junk c =
     rbind (write_content junk c) (\<lambda>(blobs, c').
     rbind (compress_blobs run stream blobs) (\<lambda>data. Inr (c'\<lparr>compressed_data := data\<rparr>)))"

definition w_compress :: "'st stream_run \<Rightarrow> 'st \<Rightarrow> 'st \<Rightarrow> (nat \<Rightarrow> byte) \<Rightarrow> WCluster \<Rightarrow> WCluster res" where
  "w_compress run lzma zstd junk c =
     (case w_compression c of
        zimcompBzip2 \<Rightarrow> Inl (RuntimeError ''Compression method not enabled in this library'')
      | zimcompZip \<Rightarrow> Inl (RuntimeError ''Compression method not enabled in this library'')
      | zimcompLzma \<Rightarrow> compress_with run lzma junk c
      | zimcompZstd \<Rightarrow> compress_with run zstd junk c
      | _ \<Rightarrow> Inl (RuntimeError ''We cannot compress an uncompressed cluster''))"

definition w_close :: "'st stream_run \<Rightarrow> 'st \<Rightarrow> 'st \<Rightarrow> (nat \<Rightarrow> byte) \<Rightarrow> WCluster \<Rightarrow> WCluster res" where
  "w_close run lzma zstd junk c =
     rbind (if w_compression c \<noteq> zimcompDefault \<and> w_compression c \<noteq> zimcompNone
            then rbind (w_compress run lzma zstd junk c) (\<lambda>c'. Inr (clear_raw_data c'))
            else Inr c) (\<lambda>c'. Inr (c'\<lparr>w_closed := True\<rparr>))"

text \<open>
  \<open>os_write\<close> is the system call on the output file: the number of bytes it took, \<open>None\<close> for -1, and the
  file afterwards. A negative result moves the pointer of the loop before the data.
\<close>

definition MAX_WRITE_SIZE :: nat where
  "MAX_WRITE_SIZE = 4 * 1024 * 1024 * 1024 - 1"

partial_function (option) write_chunks :: "('o \<Rightarrow> bytes \<Rightarrow> nat option \<times> 'o) \<Rightarrow> bytes \<Rightarrow> 'o \<Rightarrow> 'o res option" where
  "write_chunks os_write src out =
     (if src = [] then Some (Inr out)
      else case os_write out (take MAX_WRITE_SIZE src) of
          (None, out') \<Rightarrow> Some (Inl MemoryFault)
        | (Some ret, out') \<Rightarrow> write_chunks os_write (drop ret src) out')"

definition write_blob :: "('o \<Rightarrow> bytes \<Rightarrow> nat option \<times> 'o) \<Rightarrow> 'o \<Rightarrow> bytes \<Rightarrow> 'o res" where
  "write_blob os_write out src = (case write_chunks os_write src out of None \<Rightarrow> Inl NoReturn | Some r \<Rightarrow> r)"

definition w_write ::
    "('o \<Rightarrow> bytes \<Rightarrow> nat option \<times> 'o) \<Rightarrow> (nat \<Rightarrow> byte) \<Rightarrow> WCluster \<Rightarrow> 'o \<Rightarrow> (WCluster \<times> 'o) res" where
  "w_write os_write junk c out =
     (let clusterInfo = (if w_isExtended c then 0x10 else 0) + CompressionType_code (w_compression c) in
      case os_write out [clusterInfo] of
        (None, out) \<Rightarrow> Inl (RuntimeError ''Error writng'')
      | (Some _, out) \<Rightarrow>
          if w_compression c \<in> {zimcompDefault, zimcompNone} then
            rbind (write_content junk c) (\<lambda>(blobs, c').
            rbind (rfoldl (write_blob os_write) out blobs) (\<lambda>out'. Inr (c', out')))
          else if w_compression c \<in> {zimcompZip, zimcompBzip2, zimcompLzma, zimcompZstd} then
            (case os_write out (compressed_data c) of
               (None, out) \<Rightarrow> Inl (RuntimeError ''Error writing'')
             | (Some _, out) \<Rightarrow> Inr (c, out))
          else Inl (RuntimeError ''invalid compression flag''))"

section \<open>The output file\<close>

text \<open>What a writer relies on in \<^verbatim>\<open>write(2)\<close> on a file positioned at its end: everything asked for is
  appended, up to the limit of one call.\<close>

locale output_file =
  fixes os_write :: "'o \<Rightarrow> bytes \<Rightarrow> nat option \<times> 'o"
    and appended :: "'o \<Rightarrow> bytes \<Rightarrow> bool"
  assumes os_write: "appended out bs \<Longrightarrow> \<exists>out'. os_write out data = (Some (min (length data) max_transfer), out') \<and>
      appended out' (bs @ take max_transfer data)"
begin

lemma write_chunks_ok:
  "appended out bs \<Longrightarrow> \<exists>out'. write_chunks os_write src out = Some (Inr out') \<and> appended out' (bs @ src)"
proof (induction "length src" arbitrary: src out bs rule: less_induct)
  case less
  show ?case
  proof (cases "src = []")
    case True
    with less.prems show ?thesis by (simp add: write_chunks.simps)
  next
    case False
    let ?n = "min (length src) max_transfer"
    have mt: "0 < max_transfer" "max_transfer \<le> MAX_WRITE_SIZE" by (simp_all add: max_transfer_def MAX_WRITE_SIZE_def)
    then have n: "min (length (take MAX_WRITE_SIZE src)) max_transfer = ?n" by simp
    from os_write [OF less.prems, of "take MAX_WRITE_SIZE src"] n mt(2) obtain out1 where
      1: "os_write out (take MAX_WRITE_SIZE src) = (Some ?n, out1)" "appended out1 (bs @ take max_transfer src)"
      by (auto simp: min_absorb1)
    have "length (drop ?n src) < length src" using False mt(1) by (cases src) auto
    from less.hyps [OF this 1(2)] obtain out' where
      "write_chunks os_write (drop ?n src) out1 = Some (Inr out')"
      "appended out' ((bs @ take max_transfer src) @ drop ?n src)" by blast
    moreover have "take max_transfer src @ drop ?n src = src" by (cases "length src \<le> max_transfer") (simp_all add: min_def)
    ultimately show ?thesis using 1(1) False by (subst write_chunks.simps) simp
  qed
qed

lemma write_blobs_ok:
  "appended out bs \<Longrightarrow> \<exists>out'. rfoldl (write_blob os_write) out blobs = Inr out' \<and> appended out' (bs @ concat blobs)"
proof (induction blobs arbitrary: out bs)
  case (Cons b blobs)
  obtain out1 where "write_blob os_write out b = Inr out1" "appended out1 (bs @ b)"
    using write_chunks_ok [OF Cons.prems, of b] by (auto simp: write_blob_def)
  with Cons.IH [of out1 "bs @ b"] show ?case by auto
qed simp

lemma write_small:
  assumes "appended out bs" "length data \<le> max_transfer"
  shows "\<exists>out'. os_write out data = (Some (length data), out') \<and> appended out' (bs @ data)"
  using os_write [OF assms(1), of data] assms(2) by (simp add: min_absorb1)

end

text \<open>A file of the operating system: its contents and the position of the descriptor.\<close>

record OutFile =
  f_contents :: bytes
  f_pos :: nat

definition posix_write :: "OutFile \<Rightarrow> bytes \<Rightarrow> nat option \<times> OutFile" where
  "posix_write f data =
     (let d = take max_transfer data;
          c = f_contents f @ replicate (f_pos f - length (f_contents f)) 0 in
      (Some (length d), f\<lparr>f_contents := take (f_pos f) c @ d @ drop (f_pos f + length d) c,
                          f_pos := f_pos f + length d\<rparr>))"

definition file_at_end :: "OutFile \<Rightarrow> bytes \<Rightarrow> bool" where
  "file_at_end f bs \<longleftrightarrow> f_contents f = bs \<and> f_pos f = length bs"

interpretation posix: output_file posix_write file_at_end
  by unfold_locales (auto simp: posix_write_def file_at_end_def Let_def min.commute)

text \<open>A descriptor may also be positioned past the end; the next byte written there fills the gap with zeros.\<close>

definition file_padded :: "OutFile \<Rightarrow> bytes \<Rightarrow> bool" where
  "file_padded f bs \<longleftrightarrow> f_contents f @ replicate (f_pos f - length (f_contents f)) 0 = bs \<and> f_pos f = length bs"

lemma file_at_end_padded: "file_at_end f bs \<Longrightarrow> file_padded f bs"
  by (simp add: file_at_end_def file_padded_def)

lemma posix_write_padded:
  assumes "file_padded f bs" "data \<noteq> []" "length data \<le> max_transfer"
  shows "\<exists>f'. posix_write f data = (Some (length data), f') \<and> file_at_end f' (bs @ data)"
  using assms by (auto simp: posix_write_def file_padded_def file_at_end_def Let_def)

section \<open>What a provider has left to give\<close>

fun provider_rest :: "ContentProvider \<Rightarrow> bytes \<Rightarrow> bool" where
  "provider_rest (StringProvider content feeded) bl \<longleftrightarrow> bl = (if feeded then [] else content)"
| "provider_rest (SharedStringProvider content feeded) bl \<longleftrightarrow> bl = (if feeded then [] else content)"
| "provider_rest (FileProvider fd sz offset) bl \<longleftrightarrow>
     (\<exists>c. fd_serves fd c \<and> unat sz = length c \<and> unat offset \<le> length c \<and> bl = drop (unat offset) c)"
| "provider_rest (CustomProvider sz blobs) bl \<longleftrightarrow> [] \<notin> set blobs \<and> bl = concat blobs"

lemma slice_at_append_drop: "slice_at off n xs @ drop (off + n) xs = drop off xs"
  by (metis slice_at_def append_take_drop_id drop_drop add.commute)

lemma FileProvider_feed_ok:
  assumes fd: "fd_serves fd c" "unat sz = length c" "unat offset \<le> length c"
  shows "\<exists>blob offset'. FileProvider_feed junk fd sz offset = Inr (blob, FileProvider fd sz offset') \<and>
    unat offset' \<le> length c \<and> drop (unat offset) c = blob @ drop (unat offset') c \<and>
    (blob = [] \<longrightarrow> drop (unat offset) c = [])"
proof -
  let ?n = "min BUFFER_SIZE (sz - offset)"
  have left: "unat (sz - offset) = length c - unat offset" using fd by (simp add: unat_diff)
  have n: "unat ?n = min 1048576 (length c - unat offset)" by (simp add: unat_min left BUFFER_SIZE_def)
  show ?thesis
  proof (cases "?n = 0")
    case True
    then have "unat ?n = 0" by (simp only: unat_0)
    then have "drop (unat offset) c = []" using n by simp
    with True fd show ?thesis by (auto simp: FileProvider_feed_def Let_def)
  next
    case False
    have rng: "unat offset + unat ?n \<le> length c" using n fd(3) by simp
    have mt: "unat ?n \<le> max_transfer" using n by (simp add: max_transfer_def)
    have m1: "?n \<noteq> - 1"
    proof
      assume "?n = - 1"
      then have "unat ?n = unat (- 1 :: u64)" by (simp only:)
      also have "\<dots> = 18446744073709551615" by (simp add: unsigned_minus_1_eq_mask mask_eq_exp_minus_1)
      finally show False unfolding n by simp
    qed
    have o': "unat (offset + ?n) = unat offset + unat ?n"
      using rng fd_serves_D(1) [OF fd(1)] by (intro unat_add_small) simp
    have blob: "slice_at (unat offset) (unat ?n) c @ drop (unat offset + unat ?n) c = drop (unat offset) c"
      by (rule slice_at_append_drop)
    have "0 < unat ?n" using False by (simp add: unat_gt_0)
    then have ne: "slice_at (unat offset) (unat ?n) c \<noteq> []" using rng length_slice_at [OF rng] by auto
    have "FileProvider_feed junk fd sz offset =
        Inr (slice_at (unat offset) (unat ?n) c, FileProvider fd sz (offset + ?n))"
      using readAt_exact [OF fd(1) rng mt, of "map junk [0..<unat BUFFER_SIZE]"] False m1 length_slice_at [OF rng]
      by (simp add: FileProvider_feed_def Let_def)
    then show ?thesis using o' rng blob ne
      by (intro exI [of _ "slice_at (unat offset) (unat ?n) c"] exI [of _ "offset + ?n"]) simp
  qed
qed

lemma feed_step:
  assumes "provider_rest p bl"
  shows "\<exists>blob p' rest. feed junk p = Inr (blob, p') \<and> bl = blob @ rest \<and> provider_rest p' rest \<and>
    provider_getSize p' = provider_getSize p \<and> (blob = [] \<longrightarrow> bl = [])"
proof (cases p)
  case (FileProvider fd sz offset)
  with assms obtain c where c: "fd_serves fd c" "unat sz = length c" "unat offset \<le> length c" "bl = drop (unat offset) c"
    by auto
  with FileProvider_feed_ok [OF c(1-3), of junk] FileProvider show ?thesis by fastforce
next
  case (CustomProvider sz blobs)
  with assms show ?thesis by (cases blobs) auto
qed (use assms in auto)

lemma feed_all_ok:
  "provider_rest p bl \<Longrightarrow> \<exists>blobs p'. feed_all junk p = Inr (blobs, p') \<and> concat blobs = bl \<and>
     provider_getSize p' = provider_getSize p"
proof (induction junk p arbitrary: bl rule: feed_all.induct)
  case (1 junk p)
  obtain blob p1 rest where f: "feed junk p = Inr (blob, p1)" "bl = blob @ rest" "provider_rest p1 rest"
      "provider_getSize p1 = provider_getSize p" "blob = [] \<longrightarrow> bl = []"
    using feed_step [OF 1(2), of junk] by blast
  show ?case
  proof (cases "blob = []")
    case True
    with f show ?thesis by (subst feed_all.simps) simp
  next
    case False
    with 1(1) [OF f(1) refl False f(3)] f show ?thesis by (subst feed_all.simps) auto
  qed
qed

section \<open>What a cluster was filled with\<close>

definition provider_gives :: "ContentProvider \<Rightarrow> bytes \<Rightarrow> bool" where
  "provider_gives p bl \<longleftrightarrow> provider_rest p bl \<and> unat (provider_getSize p) = length bl"

definition wcluster_holds :: "WCluster \<Rightarrow> bytes list \<Rightarrow> bool" where
  "wcluster_holds c bls \<longleftrightarrow> \<not> w_closed c \<and> w_blobOffsets c = map of_nat (blob_starts 0 bls) \<and>
     w_size c = of_nat (length (concat bls)) \<and> w_count c = of_nat (length bls) \<and>
     list_all2 provider_gives (w_providers c) (filter (\<lambda>bl. bl \<noteq> []) bls) \<and>
     w_isExtended c = (\<exists>bl\<in>set bls. 2 ^ 32 \<le> length bl)"

lemma new_WCluster_holds: "wcluster_holds (new_WCluster ct) []"
  by (simp add: wcluster_holds_def new_WCluster_def)

lemma blob_starts_snoc: "blob_starts d (bls @ [bl]) = blob_starts d bls @ [d + length (concat bls) + length bl]"
  by (induction d bls rule: blob_starts.induct) (auto simp: add.assoc)

lemma blob_starts_shift: "map (\<lambda>x. x + k) (blob_starts d bls) = blob_starts (d + k) bls"
  by (induction d bls rule: blob_starts.induct) (auto simp: add.commute add.left_commute)

lemma word_of_unat: "unat w = n \<Longrightarrow> w = of_nat n"
  by (metis of_nat_unat ucast_id)

lemma addContent_holds:
  assumes c: "wcluster_holds c bls" and p: "provider_gives p bl"
  shows "wcluster_holds (addContent p c) (bls @ [bl])"
proof -
  have u: "unat (provider_getSize p) = length bl" using p by (simp add: provider_gives_def)
  then have sz: "provider_getSize p = of_nat (length bl)" by (rule word_of_unat)
  have "UINT32_MAX < provider_getSize p \<longleftrightarrow> 2 ^ 32 \<le> length bl"
    unfolding word_less_nat_alt u UINT32_MAX_def by auto
  moreover have "provider_getSize p = 0 \<longleftrightarrow> bl = []" using u by (metis length_0_conv unat_eq_0)
  ultimately show ?thesis
    using c p sz unfolding wcluster_holds_def addContent_def Let_def
    by (auto simp: blob_starts_snoc add.commute intro!: list_all2_appendI)
qed

lemma addContents_hold:
  "wcluster_holds c bls \<Longrightarrow> list_all2 provider_gives ps bls' \<Longrightarrow>
   wcluster_holds (fold addContent ps c) (bls @ bls')"
proof (induction ps arbitrary: c bls bls')
  case (Cons p ps)
  then obtain bl bls'' where "bls' = bl # bls''" "provider_gives p bl" "list_all2 provider_gives ps bls''"
    by (auto simp: list_all2_Cons1)
  with Cons.IH [OF addContent_holds [OF Cons.prems(1)]] show ?case by simp
qed simp

lemma write_data_loop_ok:
  "list_all2 provider_gives ps bls \<Longrightarrow> [] \<notin> set bls \<Longrightarrow>
   \<exists>blobs ps'. write_data_loop junk ps = Inr (blobs, ps') \<and> concat blobs = concat bls"
proof (induction ps arbitrary: bls)
  case (Cons p ps)
  then obtain bl bls' where bls: "bls = bl # bls'" "provider_gives p bl" "list_all2 provider_gives ps bls'" "bl \<noteq> []"
      "[] \<notin> set bls'"
    by (auto simp: list_all2_Cons1)
  have u: "unat (provider_getSize p) = length bl" using bls(2) by (simp add: provider_gives_def)
  obtain blobs p' where f: "feed_all junk p = Inr (blobs, p')" "concat blobs = bl" "provider_getSize p' = provider_getSize p"
    using feed_all_ok [of p bl junk] bls(2) by (auto simp: provider_gives_def)
  have "provider_getSize p \<noteq> 0" using u bls(4) by auto
  moreover have "of_nat (length bl) = provider_getSize p" using word_of_unat [OF u] by simp
  ultimately show ?case using Cons.IH [OF bls(3,5)] f bls(1) by auto
qed auto

lemma ucast_of_nat_32: "ucast (of_nat x :: u64) = (of_nat x :: u32)"
  by (simp add: word_unat_eq_iff unsigned_ucast_eq unsigned_of_nat)

lemma write_offsets_table:
  assumes "w_blobOffsets c = map of_nat (blob_starts 0 bls)"
  shows "concat (if ext then write_offsets64 c else write_offsets32 c) = cluster_table ext bls"
proof -
  have 64: "toLittleEndian64 (ucast (of_nat x + of_nat n * 8 :: u64)) = toLittleEndian64 (of_nat (x + 8 * n))" for x n
    by (simp add: mult.commute)
  have 32: "toLittleEndian32 (ucast (of_nat x + of_nat n * 4 :: u64)) = toLittleEndian32 (of_nat (x + 4 * n))" for x n
    using ucast_of_nat_32 [of "x + 4 * n"] by (simp add: mult.commute)
  have s: "cluster_starts e bls = map (\<lambda>x. x + offset_width e * Suc (length bls)) (blob_starts 0 bls)" for e
    by (simp add: cluster_starts_def blob_starts_shift)
  show ?thesis
  proof (cases ext)
    case True
    then show ?thesis
      by (simp only: cluster_table_def s write_offsets64_def assms Let_def length_map length_blob_starts map_map
          comp_def 64 offset_width_def if_True)
  next
    case False
    then show ?thesis
      by (simp only: cluster_table_def s write_offsets32_def assms Let_def length_map length_blob_starts map_map
          comp_def 32 offset_width_def if_False)
  qed
qed

lemma write_content_ok:
  assumes c: "wcluster_holds c bls"
  shows "\<exists>blobs c'. write_content junk c = Inr (blobs, c') \<and> concat blobs = cluster_plain (w_isExtended c) bls"
proof -
  obtain blobs ps' where w: "write_data_loop junk (w_providers c) = Inr (blobs, ps')"
      "concat blobs = concat (filter (\<lambda>bl. bl \<noteq> []) bls)"
    using write_data_loop_ok [of "w_providers c" "filter (\<lambda>bl. bl \<noteq> []) bls" junk] c
    by (auto simp: wcluster_holds_def)
  have "concat (filter (\<lambda>bl. bl \<noteq> []) bls) = concat bls" by (induction bls) auto
  with w write_offsets_table [of c bls "w_isExtended c"] c show ?thesis
    by (simp add: write_content_def write_data_def cluster_plain_def wcluster_holds_def)
qed

section \<open>Closing, writing and reading back\<close>

text \<open>The state a codec starts from.\<close>

definition codec_state :: "CompressionType \<Rightarrow> 'st \<Rightarrow> 'st \<Rightarrow> 'st" where
  "codec_state ct lzma zstd = (if ct = zimcompLzma then lzma else zstd)"

text \<open>
  What the encoder and the decoder of one library promise together: what was encoded, followed by
  anything, decodes to what was put in. Contents of up to a gigabyte do not grow past what one
  \<^verbatim>\<open>write\<close> transfers.
\<close>

definition codecs_fit ::
    "'e stream_run \<Rightarrow> 'e \<Rightarrow> 'd stream_run \<Rightarrow> 'd \<Rightarrow> ('d \<Rightarrow> bytes \<Rightarrow> bytes \<Rightarrow> bool) \<Rightarrow> bool" where
  "codecs_fit erun e drun d decodes \<longleftrightarrow> decoder_ok drun decodes \<and> never_exactly_full erun \<and>
     (\<exists>emitted finished pending. encoder_ok erun emitted finished pending \<and> emitted e [] [] \<and>
        (\<forall>st inp out. emitted st inp out \<longrightarrow> finished st \<longrightarrow>
           (\<forall>post. decodes d (out @ post) inp) \<and> (length inp \<le> 2 ^ 30 \<longrightarrow> length out \<le> max_transfer)))"

lemma codecs_fit_compress:
  assumes "codecs_fit erun e drun d decodes"
  shows "\<exists>out. compress_blobs erun e blobs = Inr out \<and> (\<forall>post. decodes d (out @ post) (concat blobs)) \<and>
    (length (concat blobs) \<le> 2 ^ 30 \<longrightarrow> length out \<le> max_transfer)"
proof -
  obtain emitted finished pending where E: "encoder_ok erun emitted finished pending" "never_exactly_full erun" "emitted e [] []"
      "\<And>st inp out. emitted st inp out \<Longrightarrow> finished st \<Longrightarrow>
        (\<forall>post. decodes d (out @ post) inp) \<and> (length inp \<le> 2 ^ 30 \<longrightarrow> length out \<le> max_transfer)"
    using assms unfolding codecs_fit_def by blast
  from compress_blobs_ok [OF E(1-3), of blobs] E(4) show ?thesis by blast
qed

lemma cluster_fits_32:
  assumes "cluster_fits False bls" "wcluster_holds c bls"
  shows "w_isExtended c = False"
proof -
  have "length bl < 2 ^ 32" if "bl \<in> set bls" for bl
    using assms(1) that by (auto simp: cluster_fits_def max_transfer_def)
  then show ?thesis using assms(2) by (auto simp: wcluster_holds_def not_le)
qed

lemma w_close_compressed:
  assumes c: "wcluster_holds c bls" "w_compression c = ct" "ct \<in> {zimcompLzma, zimcompZstd}" "cluster_fits False bls"
    and fit: "codecs_fit erun (codec_state ct elzma ezstd) drun (codec_state ct dlzma dzstd) decodes"
  shows "\<exists>c'. w_close erun elzma ezstd junk c = Inr c' \<and> w_compression c' = ct \<and> \<not> w_isExtended c' \<and>
    (\<forall>post. decodes (codec_state ct dlzma dzstd) (compressed_data c' @ post) (cluster_plain False bls)) \<and>
    (length (cluster_plain False bls) \<le> 2 ^ 30 \<longrightarrow> length (compressed_data c') \<le> max_transfer)"
proof -
  have ext: "w_isExtended c = False" using cluster_fits_32 [OF c(4,1)] .
  obtain blobs c1 where w: "write_content junk c = Inr (blobs, c1)" "concat blobs = cluster_plain False bls"
    using write_content_ok [OF c(1), of junk] ext by auto
  then have c1: "w_compression c1 = ct" "w_isExtended c1 = False"
    using c(2) ext by (auto simp: write_content_def write_data_def rbind_Inr_iff)
  obtain out where o: "compress_blobs erun (codec_state ct elzma ezstd) blobs = Inr out"
      "\<forall>post. decodes (codec_state ct dlzma dzstd) (out @ post) (cluster_plain False bls)"
      "length (cluster_plain False bls) \<le> 2 ^ 30 \<longrightarrow> length out \<le> max_transfer"
    using codecs_fit_compress [OF fit, of blobs] w(2) by auto
  have "w_compress erun elzma ezstd junk c = Inr (c1\<lparr>compressed_data := out\<rparr>)"
    using c(2,3) w(1) o(1) by (auto simp: w_compress_def compress_with_def codec_state_def)
  then show ?thesis using c(2,3) c1 o by (auto simp: w_close_def clear_raw_data_def)
qed

lemma cluster_body_raw:
  "cluster_fits False bls \<Longrightarrow> ct \<in> {zimcompDefault, zimcompNone} \<Longrightarrow>
   cluster_body decodes dlzma dzstd False ct bls (cluster_plain False bls @ post)"
  by (auto simp: cluster_body_def)

lemma cluster_body_compressed:
  "cluster_fits False bls \<Longrightarrow> ct \<in> {zimcompLzma, zimcompZstd} \<Longrightarrow>
   decodes (codec_state ct dlzma dzstd) body (cluster_plain False bls) \<Longrightarrow>
   cluster_body decodes dlzma dzstd False ct bls body"
  by (auto simp: cluster_body_def codec_state_def)

text \<open>What closing and writing leave alone.\<close>

definition cluster_done :: "WCluster \<Rightarrow> u64 \<Rightarrow> WCluster \<Rightarrow> bool" where
  "cluster_done c0 off c \<longleftrightarrow> w_offset c = off \<and> w_closed c \<and> w_count c = w_count c0 \<and> w_isExtended c = w_isExtended c0 \<and>
     w_index c = w_index c0"

lemma write_content_frame:
  "write_content junk c = Inr (blobs, c') \<Longrightarrow> \<exists>ps. c' = c\<lparr>w_providers := ps\<rparr>"
  by (auto simp: write_content_def write_data_def rbind_Inr_iff)

lemma w_close_frame:
  assumes "w_close run lzma zstd junk c = Inr c'"
  shows "cluster_done c (w_offset c) c'"
proof -
  have *: "\<exists>ps d. c1 = c\<lparr>w_providers := ps, compressed_data := d\<rparr>" if "w_compress run lzma zstd junk c = Inr c1" for c1
    using that by (auto simp: w_compress_def compress_with_def rbind_Inr_iff split: CompressionType.splits dest!: write_content_frame)
  show ?thesis using assms
    by (auto simp: w_close_def cluster_done_def clear_raw_data_def rbind_Inr_iff split: if_splits dest!: *)
qed

lemma w_write_frame:
  assumes "w_write os_write junk c out = Inr (c', out')"
  shows "w_offset c' = w_offset c" "w_closed c' = w_closed c" "w_count c' = w_count c" "w_isExtended c' = w_isExtended c"
    "w_index c' = w_index c"
  using assms
  by (auto simp: w_write_def Let_def rbind_Inr_iff split: prod.splits option.splits if_splits dest!: write_content_frame)

text \<open>What the writer makes of its contents is a cluster for the reader.\<close>

lemma write_raw_cluster:
  assumes c: "wcluster_holds c bls" "w_compression c = ct" "ct \<in> {zimcompDefault, zimcompNone}" and fits: "cluster_fits False bls"
    and out: "file_padded out pre"
  shows "\<exists>c'' out'. w_write posix_write junk (c\<lparr>w_closed := True, w_offset := off\<rparr>) out = Inr (c'', out') \<and>
    file_at_end out' (pre @ cluster_info False ct # cluster_plain False bls)"
proof -
  let ?c = "c\<lparr>w_closed := True, w_offset := off\<rparr>"
  have ext: "w_isExtended c = False" using cluster_fits_32 [OF fits c(1)] .
  obtain blobs c1 where w: "write_content junk c = Inr (blobs, c1)" "concat blobs = cluster_plain False bls"
    using write_content_ok [OF c(1), of junk] ext by auto
  then have w': "write_content junk ?c = Inr (blobs, c1\<lparr>w_closed := True, w_offset := off\<rparr>)"
    by (auto simp: write_content_def write_data_def rbind_Inr_iff write_offsets32_def write_offsets64_def)
  obtain o1 where o1: "posix_write out [cluster_info False ct] = (Some 1, o1)" "file_at_end o1 (pre @ [cluster_info False ct])"
    using posix_write_padded [OF out, of "[cluster_info False ct]"] by (auto simp: max_transfer_def)
  obtain o2 where o2: "rfoldl (write_blob posix_write) o1 blobs = Inr o2"
      "file_at_end o2 (pre @ cluster_info False ct # cluster_plain False bls)"
    using posix.write_blobs_ok [OF o1(2), of blobs] w(2) by auto
  have "w_write posix_write junk ?c out = Inr (c1\<lparr>w_closed := True, w_offset := off\<rparr>, o2)"
    using c(2,3) ext o1(1) o2(1) w' by (auto simp: w_write_def cluster_info_def)
  then show ?thesis using o2(2) by blast
qed

lemma write_compressed_cluster:
  assumes "w_compression c = ct" "ct \<in> {zimcompLzma, zimcompZstd}" "\<not> w_isExtended c" "length (compressed_data c) \<le> max_transfer"
    and out: "file_padded out pre"
  shows "\<exists>out'. w_write posix_write junk c out = Inr (c, out') \<and> file_at_end out' (pre @ cluster_info False ct # compressed_data c)"
proof -
  obtain o1 where o1: "posix_write out [cluster_info False ct] = (Some 1, o1)" "file_at_end o1 (pre @ [cluster_info False ct])"
    using posix_write_padded [OF out, of "[cluster_info False ct]"] by (auto simp: max_transfer_def)
  obtain o2 where o2: "posix_write o1 (compressed_data c) = (Some (length (compressed_data c)), o2)"
      "file_at_end o2 (pre @ cluster_info False ct # compressed_data c)"
    using posix.write_small [OF o1(2) assms(4)] by auto
  have "w_write posix_write junk c out = Inr (c, o2)"
    using assms(1-3) o1(1) o2(1) by (auto simp: w_write_def cluster_info_def)
  then show ?thesis using o2(2) by blast
qed

lemma write_closed_cluster:
  assumes c: "wcluster_holds c bls" "w_compression c = ct" "ct \<in> {zimcompDefault, zimcompNone, zimcompLzma, zimcompZstd}"
    and fits: "cluster_fits False bls" "length (cluster_plain False bls) \<le> 2 ^ 30"
    and fit: "codecs_fit erun (codec_state ct elzma ezstd) drun (codec_state ct dlzma dzstd) decodes"
  shows "\<exists>c' body. w_close erun elzma ezstd junk c = Inr c' \<and>
    (\<forall>post. cluster_body decodes dlzma dzstd False ct bls (body @ post)) \<and>
    (\<forall>out pre off. file_padded out pre \<longrightarrow>
       (\<exists>c'' out'. w_write posix_write junk (c'\<lparr>w_offset := off\<rparr>) out = Inr (c'', out') \<and>
          file_at_end out' (pre @ cluster_info False ct # body)))"
proof (cases "ct \<in> {zimcompDefault, zimcompNone}")
  case True
  have "w_close erun elzma ezstd junk c = Inr (c\<lparr>w_closed := True\<rparr>)" using True c(2) by (auto simp: w_close_def)
  then show ?thesis
    using cluster_body_raw [OF fits(1) True, of decodes dlzma dzstd] write_raw_cluster [OF c(1,2) True fits(1)]
    by (intro exI [of _ "c\<lparr>w_closed := True\<rparr>"] exI [of _ "cluster_plain False bls"]) simp
next
  case False
  then have ct: "ct \<in> {zimcompLzma, zimcompZstd}" using c(3) by simp
  obtain c' where c': "w_close erun elzma ezstd junk c = Inr c'" "w_compression c' = ct" "\<not> w_isExtended c'"
      "\<forall>post. decodes (codec_state ct dlzma dzstd) (compressed_data c' @ post) (cluster_plain False bls)"
      "length (compressed_data c') \<le> max_transfer"
    using w_close_compressed [OF c(1,2) ct fits(1) fit, of junk] fits(2) by blast
  have "\<exists>c'' out'. w_write posix_write junk (c'\<lparr>w_offset := off\<rparr>) out = Inr (c'', out') \<and>
      file_at_end out' (pre @ cluster_info False ct # compressed_data c')" if "file_padded out pre" for out pre off
    using write_compressed_cluster [of "c'\<lparr>w_offset := off\<rparr>" ct out pre junk] c'(2,3,5) ct that by auto
  then show ?thesis using c'(1,4) cluster_body_compressed [OF fits(1) ct, of decodes dlzma dzstd] by blast
qed

section \<open>Properties\<close>

lemma new_StringProvider_gives: "length content < 2 ^ 64 \<Longrightarrow> provider_gives (new_StringProvider content) content"
  by (simp add: provider_gives_def new_StringProvider_def unat_of_nat_small)

text \<open>a file added to an archive is delivered whole: the provider opened on it announces its size,
  and the blobs it feeds are together the contents of the file, after
  which it feeds an empty blob. The same holds for the two providers over strings.\<close>

theorem providers_deliver:
  assumes "fd_serves fd content" "open_file filepath = Some fd"
  shows "\<exists>p. new_FileProvider open_file filepath = Inr p \<and>
    (\<forall>q\<in>{p, new_StringProvider content, new_SharedStringProvider content}.
       unat (provider_getSize q) = length content \<and>
       (\<exists>blobs q'. feed_all junk q = Inr (blobs, q') \<and> concat blobs = content))"
proof -
  let ?p = "FileProvider fd (fd_stat_size fd) 0"
  have len: "length content < 2 ^ 64" "unat (fd_stat_size fd) = length content"
    using fd_serves_D(1,2) [OF assms(1)] by simp_all
  then have "provider_rest ?p content" "unat (provider_getSize ?p) = length content"
    "provider_rest (new_StringProvider content) content" "provider_rest (new_SharedStringProvider content) content"
    "unat (provider_getSize (new_StringProvider content)) = length content"
    "unat (provider_getSize (new_SharedStringProvider content)) = length content"
    using assms(1)
    by (auto simp: new_StringProvider_def new_SharedStringProvider_def unat_of_nat_small intro!: exI [of _ content])
  then have "\<forall>q\<in>{?p, new_StringProvider content, new_SharedStringProvider content}.
       unat (provider_getSize q) = length content \<and>
       (\<exists>blobs q'. feed_all junk q = Inr (blobs, q') \<and> concat blobs = content)"
    using feed_all_ok by blast
  then show ?thesis using assms(2) by (auto simp: new_FileProvider_def)
qed

theorem providers_deliver_witness:
  "\<exists>p. new_FileProvider (\<lambda>_. Some (mem_fd [1, 2, 3])) [47] = Inr p \<and>
    (\<exists>blobs q'. feed_all (\<lambda>_. 0) p = Inr (blobs, q') \<and> concat blobs = [1, 2, 3])"
  using providers_deliver [of "mem_fd [1, 2, 3]" "[1, 2, 3]" "\<lambda>_. Some (mem_fd [1, 2, 3])" "[47]" "\<lambda>_. 0"]
  by (auto simp: mem_fd_serves)


lemma store_copy_fit: "codecs_fit store_run () copy_run () copy_decodes"
  unfolding codecs_fit_def
  by (intro conjI copy_decoder_ok store_never_exactly_full exI [of _ "\<lambda>_ inp out. inp = out"] exI [of _ "\<lambda>_. True"]
      exI [of _ "\<lambda>_. 0"] store_encoder_ok) (auto simp: copy_decodes_def max_transfer_def)


text \<open>C24: two contents that each fit 32 bits but together do not make a cluster that no reader opens: the
  cluster is extended only for a single content over 4 GB, so the last offset wraps and the check
  that offsets grow fails.\<close>

theorem oversized_cluster_is_unreadable:
  assumes "list_all2 provider_gives ps [b1, b2]"
    and "12 + length b1 < 2 ^ 32" "length b2 < 2 ^ 32" "2 ^ 32 \<le> 12 + length b1 + length b2"
  shows "\<exists>blobs c'. write_content junk (fold addContent ps (new_WCluster zimcompNone)) = Inr (blobs, c') \<and>
    (\<forall>s. stream_holds run decodes s (concat blobs) \<longrightarrow> new_Cluster run junk s zimcompNone False = Inl AssertFailed)"
proof -
  let ?c = "fold addContent ps (new_WCluster zimcompNone)"
  have c: "wcluster_holds ?c [b1, b2]" using addContents_hold [OF new_WCluster_holds assms(1)] by simp
  then have "\<not> w_isExtended ?c" using assms(2,3) by (simp add: wcluster_holds_def)
  then obtain blobs c' where w: "write_content junk ?c = Inr (blobs, c')" "concat blobs = cluster_plain False [b1, b2]"
    using write_content_ok [OF c, of junk] by auto
  let ?w = "12 :: u32" and ?w1 = "of_nat (12 + length b1) :: u32" and ?w2 = "of_nat (12 + length b1 + length b2) :: u32"
  have table: "concat blobs = concat (map toLittleEndian32 (?w # [?w1, ?w2])) @ concat [b1, b2]"
    using w(2) by (simp add: cluster_plain_def cluster_table_def cluster_starts_def offset_width_def)
  have u1: "unat ?w1 = 12 + length b1" using assms(2) by (intro unat_of_nat_small) simp
  have "unat ?w2 = (12 + length b1 + length b2) mod 2 ^ 32" by (simp add: unsigned_of_nat take_bit_eq_mod del: of_nat_add of_nat_numeral)
  also have "\<dots> = 12 + length b1 + length b2 - 2 ^ 32" using assms(2-4) by (simp add: mod_if)
  finally have u2: "unat ?w2 < unat ?w1" using u1 assms(2-4) by simp
  have "?w \<le> ?w1" unfolding word_le_nat_alt u1 by simp
  moreover have "\<not> ?w1 \<le> ?w2" unfolding word_le_nat_alt using u2 by simp
  ultimately have bad: "read_offsets (length [?w1, ?w2]) ?w (BufferStreamer (concat (map toLittleEndian32 [?w1, ?w2]) @ rest) n)
      = Inl AssertFailed" for rest n
    by (simp add: off32.stream_read_enc del: of_nat_add of_nat_numeral)
  have "new_Cluster run junk s zimcompNone False = Inl AssertFailed" if s: "stream_holds run decodes s (concat blobs)" for s
    using off32.read_header_reads [OF s [unfolded table], of junk] bad
    by (auto simp: new_Cluster_def max_transfer_def simp del: of_nat_add)
  with w(1) show ?thesis by blast
qed

definition zeros :: "nat \<Rightarrow> bytes" where
  "zeros n = replicate n 0"

lemma length_zeros: "length (zeros n) = n"
  by (simp only: zeros_def length_replicate)

theorem oversized_cluster_is_unreadable_witness:
  "\<exists>blobs c'. write_content (\<lambda>_. 0) (fold addContent
       [new_StringProvider (zeros 3000000000), new_StringProvider (zeros 2000000000)] (new_WCluster zimcompNone)) = Inr (blobs, c') \<and>
    (\<forall>s. stream_holds copy_run copy_decodes s (concat blobs) \<longrightarrow>
       new_Cluster copy_run (\<lambda>_. 0) s zimcompNone False = Inl AssertFailed)"
  by (rule oversized_cluster_is_unreadable [of _ "zeros 3000000000" "zeros 2000000000"])
    (simp_all add: new_StringProvider_gives length_zeros)

end
