(* ===== verification/Writer_Dirents.thy ===== *)
theory Writer_Dirents
  imports Cluster_Writer Dirent_Lookup
begin

text \<open>
  The entries of an archive under construction: \<^verbatim>\<open>src/writer/_dirent.h\<close>, \<^verbatim>\<open>src/writer/dirent.cpp\<close> and
  \<^verbatim>\<open>src/writer/direntPool.h\<close>. Entries point to each other (redirections) and to clusters, so they live
  in a store addressed by the pool they come from and their place in it; clusters are numbered.

  Shown here: the pool never hands out a place twice; the order of entries is the one the reader
  searches by; and an entry that is written is the entry the reader parses.
\<close>

section \<open>Data\<close>

type_synonym addr = "nat \<times> nat"

text \<open>The union \<^verbatim>\<open>DirentInfo\<close>.\<close>

datatype DirentInfo = DirectInfo u32 u32 | RedirectInfo "addr option"

record WDirent =
  wd_mimeType :: u16
  wd_info :: DirentInfo
  wd_ns :: byte
  wd_path :: bytes
  wd_title :: bytes
  wd_cluster :: "nat option"
  wd_redirectNs :: byte
  wd_redirectPath :: bytes
  wd_idx :: u32
  wd_offset :: u64
  wd_removed :: bool

definition new_WDirent :: WDirent where
  "new_WDirent = \<lparr>wd_mimeType = 0, wd_info = DirectInfo 0 0, wd_ns = 0, wd_path = [], wd_title = [], wd_cluster = None,
     wd_redirectNs = 0, wd_redirectPath = [], wd_idx = 0, wd_offset = 0, wd_removed = False\<rparr>"

text \<open>\<^verbatim>\<open>Dirent(ns, path)\<close>, used as a key to search with.\<close>

definition WDirent_key :: "byte \<Rightarrow> bytes \<Rightarrow> WDirent" where
  "WDirent_key ns path = new_WDirent\<lparr>wd_ns := ns, wd_path := path\<rparr>"

type_synonym dirent_store = "addr \<Rightarrow> WDirent"

section \<open>Operations\<close>

definition wd_getTitle :: "WDirent \<Rightarrow> bytes" where
  "wd_getTitle d = (if wd_title d = [] then wd_path d else wd_title d)"

definition wd_isRedirect :: "WDirent \<Rightarrow> bool" where
  "wd_isRedirect d \<longleftrightarrow> wd_mimeType d = redirectMimeType"

definition wd_isItem :: "WDirent \<Rightarrow> bool" where
  "wd_isItem d \<longleftrightarrow> \<not> wd_isRedirect d"

definition wd_setRedirect :: "addr option \<Rightarrow> WDirent \<Rightarrow> WDirent" where
  "wd_setRedirect target d = d\<lparr>wd_info := RedirectInfo target, wd_mimeType := redirectMimeType\<rparr>"

text \<open>The redirection is followed without a test: a null pointer, or the other member of the union, faults.\<close>

definition wd_getRedirectIndex :: "dirent_store \<Rightarrow> WDirent \<Rightarrow> u32 res" where
  "wd_getRedirectIndex store d =
     (if wd_isRedirect d then
        (case wd_info d of
           RedirectInfo (Some target) \<Rightarrow> Inr (wd_idx (store target))
         | _ \<Rightarrow> Inl MemoryFault)
      else Inr 0)"

definition wd_setCluster :: "nat \<Rightarrow> u32 \<Rightarrow> WDirent \<Rightarrow> WDirent res" where
  "wd_setCluster cluster count d =
     ASSERT (wd_isItem d)
       (case wd_info d of
          DirectInfo clusterNumber _ \<Rightarrow> Inr (d\<lparr>wd_cluster := Some cluster, wd_info := DirectInfo clusterNumber count\<rparr>)
        | RedirectInfo _ \<Rightarrow> Inl MemoryFault)"

definition wd_getClusterNumber :: "(nat \<Rightarrow> WCluster) \<Rightarrow> WDirent \<Rightarrow> u32 res" where
  "wd_getClusterNumber clusters d =
     (case wd_cluster d of
        Some c \<Rightarrow> Inr (w_index (clusters c))
      | None \<Rightarrow> (case wd_info d of DirectInfo n _ \<Rightarrow> Inr n | RedirectInfo _ \<Rightarrow> Inl MemoryFault))"

definition wd_getBlobNumber :: "WDirent \<Rightarrow> u32 res" where
  "wd_getBlobNumber d =
     (if wd_isRedirect d then Inr 0
      else case wd_info d of DirectInfo _ n \<Rightarrow> Inr n | RedirectInfo _ \<Rightarrow> Inl MemoryFault)"

definition wd_getDirentSize :: "WDirent \<Rightarrow> nat" where
  "wd_getDirentSize d =
     (if wd_isRedirect d then 12 else 16) + length (wd_path d) + 2 +
     (if wd_title d \<noteq> wd_path d then length (wd_title d) else 0)"

definition wd_setItem :: "u16 \<Rightarrow> u32 \<Rightarrow> u32 \<Rightarrow> WDirent \<Rightarrow> WDirent res" where
  "wd_setItem mimeType clusterNumber blobNumber d =
     ASSERT (wd_mimeType d = 0)
       (Inr (d\<lparr>wd_mimeType := mimeType, wd_info := DirectInfo clusterNumber blobNumber\<rparr>))"

definition markRemoved :: "WDirent \<Rightarrow> WDirent" where
  "markRemoved d = d\<lparr>wd_removed := True\<rparr>"

definition compareUrl :: "WDirent \<Rightarrow> WDirent \<Rightarrow> bool" where
  "compareUrl d1 d2 \<longleftrightarrow> char_less (wd_ns d1) (wd_ns d2) \<or> wd_ns d1 = wd_ns d2 \<and> wd_path d1 < wd_path d2"

definition compareTitle :: "WDirent \<Rightarrow> WDirent \<Rightarrow> bool" where
  "compareTitle d1 d2 \<longleftrightarrow>
     char_less (wd_ns d1) (wd_ns d2) \<or> wd_ns d1 = wd_ns d2 \<and> wd_getTitle d1 < wd_getTitle d2"

text \<open>The macro \<^verbatim>\<open>_write\<close>: anything but a complete write is an error.\<close>

definition write_or_throw :: "('o \<Rightarrow> bytes \<Rightarrow> nat option \<times> 'o) \<Rightarrow> 'o \<Rightarrow> bytes \<Rightarrow> 'o res" where
  "write_or_throw os_write out data =
     (case os_write out data of (ret, out') \<Rightarrow>
        if ret \<noteq> Some (length data) then Inl (RuntimeError ''Error writing'') else Inr out')"

definition wd_write ::
    "('o \<Rightarrow> bytes \<Rightarrow> nat option \<times> 'o) \<Rightarrow> dirent_store \<Rightarrow> (nat \<Rightarrow> WCluster) \<Rightarrow> WDirent \<Rightarrow> 'o \<Rightarrow> 'o res" where
  "wd_write os_write store clusters d out =
     (let header = toLittleEndian16 (wd_mimeType d) @ [0, wd_ns d] @ toLittleEndian32 0 in
      rbind (if wd_isRedirect d then
               rbind (wd_getRedirectIndex store d) (\<lambda>idx. write_or_throw os_write out (header @ toLittleEndian32 idx))
             else
               rbind (wd_getClusterNumber clusters d) (\<lambda>cluster.
               rbind (wd_getBlobNumber d) (\<lambda>blob.
                 write_or_throw os_write out (header @ toLittleEndian32 cluster @ toLittleEndian32 blob)))) (\<lambda>out.
      rbind (write_or_throw os_write out (wd_path d @ [0])) (\<lambda>out.
      rbind (if wd_getTitle d \<noteq> wd_path d then write_or_throw os_write out (wd_getTitle d) else Inr out) (\<lambda>out.
        write_or_throw os_write out [0]))))"

section \<open>The pool\<close>

text \<open>The vector of pools is given by its length; \<^verbatim>\<open>new Dirent[0xFFFF]\<close> makes the next array.\<close>

record DirentPool =
  pools :: nat
  direntIndex :: u16

definition new_DirentPool :: DirentPool where
  "new_DirentPool = \<lparr>pools = 0, direntIndex = 0xFFFF\<rparr>"

definition allocate_new_pool :: "DirentPool \<Rightarrow> DirentPool" where
  "allocate_new_pool p = p\<lparr>pools := pools p + 1, direntIndex := 0\<rparr>"

definition pool_getDirent :: "DirentPool \<Rightarrow> addr \<times> DirentPool" where
  "pool_getDirent p =
     (let p = (if direntIndex p = 0xFFFF then allocate_new_pool p else p) in
      ((pools p - 1, unat (direntIndex p)), p\<lparr>direntIndex := direntIndex p + 1\<rparr>))"

text \<open>The \<open>n\<close>-th entry asked for.\<close>

definition pool_after :: "nat \<Rightarrow> DirentPool" where
  "pool_after n = ((\<lambda>p. snd (pool_getDirent p)) ^^ n) new_DirentPool"

definition pool_addr :: "nat \<Rightarrow> addr" where
  "pool_addr n = fst (pool_getDirent (pool_after n))"

lemma pool_after_Suc: "pool_after (Suc n) = snd (pool_getDirent (pool_after n))"
  by (simp add: pool_after_def)

lemma direntIndex_full: "direntIndex p = 0xFFFF \<longleftrightarrow> unat (direntIndex p) = 65535"
  by (simp add: word_unat_eq_iff)

lemma pool_after_state:
  "pools (pool_after (Suc m)) = Suc (m div 65535) \<and> unat (direntIndex (pool_after (Suc m))) = Suc (m mod 65535)"
proof (induction m)
  case 0
  show ?case by (simp add: pool_after_def new_DirentPool_def pool_getDirent_def allocate_new_pool_def Let_def)
next
  case (Suc m)
  let ?p = "pool_after (Suc m)"
  show ?case
  proof (cases "Suc (m mod 65535) = 65535")
    case True
    then have "direntIndex ?p = 0xFFFF" using Suc by (simp add: direntIndex_full)
    then show ?thesis
      using Suc True unfolding pool_after_Suc [of "Suc m"]
      by (simp add: pool_getDirent_def allocate_new_pool_def Let_def div_Suc mod_Suc)
  next
    case False
    then have ne: "direntIndex ?p \<noteq> 0xFFFF" using Suc by (simp add: direntIndex_full)
    have "m mod 65535 < 65535" by simp
    then have "unat (direntIndex ?p + 1) = Suc (Suc (m mod 65535))" using Suc False by (subst unat_add_small) auto
    then show ?thesis
      using Suc False ne unfolding pool_after_Suc [of "Suc m"]
      by (simp add: pool_getDirent_def Let_def div_Suc mod_Suc)
  qed
qed

lemma pool_addr_eq: "pool_addr n = (n div 65535, n mod 65535)"
proof (cases n)
  case 0
  then show ?thesis by (simp add: pool_addr_def pool_after_def new_DirentPool_def pool_getDirent_def allocate_new_pool_def Let_def)
next
  case (Suc m)
  let ?p = "pool_after (Suc m)"
  have full: "direntIndex ?p = 0xFFFF \<longleftrightarrow> Suc (m mod 65535) = 65535"
    using pool_after_state [of m] by (simp add: direntIndex_full)
  show ?thesis
    using pool_after_state [of m] unfolding Suc
    by (simp add: pool_addr_def pool_getDirent_def allocate_new_pool_def Let_def full div_Suc mod_Suc)
qed

text \<open>the pool of entries never hands out the same place twice, and every place lies inside one of the
  arrays of 65535 entries it has allocated by then.\<close>

theorem pool_places_are_fresh:
  shows "inj pool_addr \<and> (\<forall>n. case pool_addr n of (pool, i) \<Rightarrow> i < 65535 \<and> pool < pools (snd (pool_getDirent (pool_after n))))"
proof -
  have "inj pool_addr"
    by (rule injI) (metis Pair_inject div_mult_mod_eq pool_addr_eq)
  moreover have "pools (snd (pool_getDirent (pool_after n))) = Suc (n div 65535)" for n
    using pool_after_state [of n] by (simp add: pool_after_Suc)
  ultimately show ?thesis by (simp add: pool_addr_eq)
qed

section \<open>The entry that is written\<close>

text \<open>The entry as the reader has it: an empty title stands for the path.\<close>

fun res_value :: "u32 res \<Rightarrow> u32" where
  "res_value (Inr n) = n"
| "res_value (Inl _) = 0"

definition wd_dirent :: "dirent_store \<Rightarrow> (nat \<Rightarrow> WCluster) \<Rightarrow> WDirent \<Rightarrow> Dirent" where
  "wd_dirent store clusters d =
     \<lparr>d_mimeType = wd_mimeType d, d_version = 0,
      d_clusterNumber = (if wd_isRedirect d then 0 else res_value (wd_getClusterNumber clusters d)),
      d_blobNumber = res_value (wd_getBlobNumber d), d_redirectIndex = res_value (wd_getRedirectIndex store d),
      d_ns = wd_ns d, d_title = (if wd_getTitle d = wd_path d then [] else wd_getTitle d),
      d_url = wd_path d, d_parameter = []\<rparr>"

text \<open>What an entry needs before it can be written: a redirection has a target, an item is not one of
  the kinds that only the reader knows, and the strings have no zero in them.\<close>

definition wd_writable :: "WDirent \<Rightarrow> bool" where
  "wd_writable d \<longleftrightarrow>
     (if wd_isRedirect d then \<exists>target. wd_info d = RedirectInfo (Some target) else \<exists>n b. wd_info d = DirectInfo n b) \<and>
     wd_mimeType d \<notin> {linktargetMimeType, deletedMimeType} \<and> 0 \<notin> set (wd_path d) \<and> 0 \<notin> set (wd_title d)"

lemma wd_dirent_kind:
  "isRedirect (wd_dirent store clusters d) = wd_isRedirect d" "d_mimeType (wd_dirent store clusters d) = wd_mimeType d"
  "d_ns (wd_dirent store clusters d) = wd_ns d" "d_url (wd_dirent store clusters d) = wd_path d"
  "d_title (wd_dirent store clusters d) = (if wd_getTitle d = wd_path d then [] else wd_getTitle d)"
  "d_parameter (wd_dirent store clusters d) = []" "d_version (wd_dirent store clusters d) = 0"
  "d_clusterNumber (wd_dirent store clusters d) = (if wd_isRedirect d then 0 else res_value (wd_getClusterNumber clusters d))"
  "d_blobNumber (wd_dirent store clusters d) = res_value (wd_getBlobNumber d)"
  "d_redirectIndex (wd_dirent store clusters d) = res_value (wd_getRedirectIndex store d)"
  by (simp_all add: wd_dirent_def isRedirect_def wd_isRedirect_def)

lemma wd_dirent_encodable: "wd_writable d \<Longrightarrow> encodable (wd_dirent store clusters d)"
  by (simp add: encodable_def wd_dirent_kind wd_writable_def isLinktarget_def isDeleted_def wd_getRedirectIndex_def
      wd_getBlobNumber_def wd_getTitle_def)

lemma posix_write_or_throw:
  assumes "file_at_end out bs" "length data \<le> max_transfer"
  shows "\<exists>out'. write_or_throw posix_write out data = Inr out' \<and> file_at_end out' (bs @ data)"
  using posix.write_small [OF assms] by (auto simp: write_or_throw_def)

lemma wd_write_ok:
  assumes d: "wd_writable d" and out: "file_at_end out pre"
    and small: "length (wd_path d) < max_transfer" "length (wd_title d) \<le> max_transfer"
  shows "\<exists>out'. wd_write posix_write store clusters d out = Inr out' \<and>
    file_at_end out' (pre @ dirent_bytes (wd_dirent store clusters d))"
proof -
  let ?e = "wd_dirent store clusters d"
  have mt: "16 \<le> max_transfer" by (simp add: max_transfer_def)
  have "length (dirent_fixed ?e) \<le> max_transfer" using length_dirent_fixed(1) [of ?e] mt by simp
  then obtain o1 where o1: "write_or_throw posix_write out (dirent_fixed ?e) = Inr o1" "file_at_end o1 (pre @ dirent_fixed ?e)"
    using posix_write_or_throw [OF out] by blast
  obtain o2 where o2: "write_or_throw posix_write o1 (wd_path d @ [0]) = Inr o2"
      "file_at_end o2 ((pre @ dirent_fixed ?e) @ wd_path d @ [0])"
    using posix_write_or_throw [OF o1(2), of "wd_path d @ [0]"] small(1) by auto
  have t: "length (wd_getTitle d) \<le> max_transfer" using small by (simp add: wd_getTitle_def)
  obtain o3 where o3: "(if wd_getTitle d \<noteq> wd_path d then write_or_throw posix_write o2 (wd_getTitle d) else Inr o2) = Inr o3"
      "file_at_end o3 (((pre @ dirent_fixed ?e) @ wd_path d @ [0]) @ d_title ?e)"
    using posix_write_or_throw [OF o2(2) t] o2(2) by (cases "wd_getTitle d = wd_path d") (auto simp: wd_dirent_kind)
  obtain o4 where o4: "write_or_throw posix_write o3 [0] = Inr o4"
      "file_at_end o4 ((((pre @ dirent_fixed ?e) @ wd_path d @ [0]) @ d_title ?e) @ [0])"
    using posix_write_or_throw [OF o3(2), of "[0]"] mt by auto
  have "wd_write posix_write store clusters d out = Inr o4"
  proof (cases "wd_isRedirect d")
    case True
    then obtain target where "wd_info d = RedirectInfo (Some target)" using d by (auto simp: wd_writable_def)
    then have "dirent_fixed ?e = toLittleEndian16 (wd_mimeType d) @ [0, wd_ns d] @ toLittleEndian32 0 @
        toLittleEndian32 (wd_idx (store target))" "wd_getRedirectIndex store d = Inr (wd_idx (store target))"
      using True by (simp_all add: dirent_fixed_def wd_dirent_kind wd_getRedirectIndex_def)
    with True o1(1) o2(1) o3(1) o4(1) show ?thesis by (simp add: wd_write_def Let_def)
  next
    case False
    then obtain n b where i: "wd_info d = DirectInfo n b" using d by (auto simp: wd_writable_def)
    then obtain c where c: "wd_getClusterNumber clusters d = Inr c" 
      by (cases "wd_cluster d") (auto simp: wd_getClusterNumber_def)
    have "dirent_fixed ?e = toLittleEndian16 (wd_mimeType d) @ [0, wd_ns d] @ toLittleEndian32 0 @
        toLittleEndian32 c @ toLittleEndian32 b" "wd_getBlobNumber d = Inr b"
      using False i c d
      by (simp_all add: dirent_fixed_def wd_dirent_kind wd_getBlobNumber_def isLinktarget_def isDeleted_def wd_writable_def)
    with False c o1(1) o2(1) o3(1) o4(1) show ?thesis by (simp add: wd_write_def Let_def)
  qed
  with o4(2) show ?thesis by (simp add: dirent_bytes_def wd_dirent_kind)
qed

section \<open>Properties\<close>

text \<open>an entry that the writer puts at the end of a file is the entry the reader finds there: same
  kind, namespace, path, numbers and title, whatever follows it, as long as the reader's buffer can
  hold it (see the reader).\<close>

theorem dirent_write_read:
  assumes "wd_writable d" "file_at_end out pre" "length (wd_path d) + length (wd_title d) < 200"
    and "length pre < 2 ^ 30" "length post < 2 ^ 29"
  shows "\<exists>out'. wd_write posix_write store clusters d out = Inr out' \<and>
    (\<forall>r. reader_holds r (f_contents out' @ post) \<longrightarrow>
       (\<exists>e. readDirent junk r (of_nat (length pre)) = Inr e \<and> isRedirect e = wd_isRedirect d \<and>
          d_mimeType e = wd_mimeType d \<and> d_ns e = wd_ns d \<and> d_url e = wd_path d \<and> getTitle e = wd_getTitle d \<and>
          wd_getRedirectIndex store d = Inr (d_redirectIndex e) \<and> wd_getBlobNumber d = Inr (d_blobNumber e) \<and>
          (wd_isItem d \<longrightarrow> wd_getClusterNumber clusters d = Inr (d_clusterNumber e))))"
proof -
  let ?e = "wd_dirent store clusters d"
  obtain out' where o: "wd_write posix_write store clusters d out = Inr out'"
      "file_at_end out' (pre @ dirent_bytes ?e)"
    using wd_write_ok [OF assms(1,2), of store clusters] assms(3) by (auto simp: max_transfer_def)
  have len: "length (dirent_bytes ?e) \<le> 256" "0 < length (dirent_bytes ?e)"
    using assms(3) length_dirent_fixed [of ?e] by (simp_all add: dirent_bytes_def wd_dirent_kind wd_getTitle_def)
  have "readDirent junk r (of_nat (length pre)) = Inr ?e" if r: "reader_holds r (f_contents out' @ post)" for r
  proof -
    have u: "unat (of_nat (length pre) :: u64) = length pre" using assms(4) by (simp add: unat_of_nat_small)
    have r': "reader_holds r (pre @ dirent_bytes ?e @ post)" using r o(2) by (simp add: file_at_end_def)
    show ?thesis
      using readDirent_spec [OF r', of "of_nat (length pre)" ?e post junk] u len assms(4,5)
        wd_dirent_encodable [OF assms(1), of store clusters]
      by (simp add: wd_dirent_kind max_transfer_def)
  qed
  moreover have "getTitle ?e = wd_getTitle d"
    by (auto simp: getTitle_def wd_dirent_kind wd_getTitle_def)
  moreover have "wd_getRedirectIndex store d = Inr (d_redirectIndex ?e)" "wd_getBlobNumber d = Inr (d_blobNumber ?e)"
    "wd_isItem d \<longrightarrow> wd_getClusterNumber clusters d = Inr (d_clusterNumber ?e)"
    using assms(1) by (auto simp: wd_dirent_kind wd_writable_def wd_getRedirectIndex_def wd_getBlobNumber_def wd_isItem_def
        wd_getClusterNumber_def split: if_splits option.splits)
  ultimately show ?thesis using o(1) by (intro exI [of _ out'] conjI allI impI exI [of _ ?e]) (simp_all add: wd_dirent_kind)
qed

definition example_item :: WDirent where
  "example_item = (WDirent_key 67 [97, 98])\<lparr>wd_mimeType := 2, wd_info := DirectInfo 5 9, wd_title := [84]\<rparr>"

theorem dirent_write_read_witness:
  "\<exists>out'. wd_write posix_write (\<lambda>_. new_WDirent) (\<lambda>_. new_WCluster zimcompNone) example_item \<lparr>f_contents = [1], f_pos = 1\<rparr> = Inr out' \<and>
    (\<forall>r. reader_holds r (f_contents out' @ [7]) \<longrightarrow>
       (\<exists>e. readDirent (\<lambda>_. 0) r 1 = Inr e \<and> isRedirect e = False \<and> d_mimeType e = 2 \<and> d_ns e = 67 \<and>
          d_url e = [97, 98] \<and> getTitle e = [84] \<and> d_clusterNumber e = 5 \<and> d_blobNumber e = 9))"
proof -
  have "wd_writable example_item" "file_at_end \<lparr>f_contents = [1], f_pos = 1\<rparr> [1]"
    by (simp_all add: wd_writable_def example_item_def WDirent_key_def new_WDirent_def wd_isRedirect_def mime_consts file_at_end_def)
  from dirent_write_read [OF this, of "[7]" "\<lambda>_. new_WDirent" "\<lambda>_. new_WCluster zimcompNone" "\<lambda>_. 0"]
  show ?thesis
    by (simp add: example_item_def WDirent_key_def new_WDirent_def wd_isRedirect_def wd_isItem_def mime_consts wd_getTitle_def
        wd_getBlobNumber_def wd_getClusterNumber_def) metis
qed

text \<open>The order of the writer's set of entries is the order the reader searches by.\<close>

lemma compareUrl_key:
  assumes "wd_ns a < 128" "wd_ns b < 128"
  shows "compareUrl a b \<longleftrightarrow> wd_ns a # wd_path a < wd_ns b # wd_path b"
  using assms by (auto simp: compareUrl_def char_less_ascii)

lemma getDirentSize_written:
  assumes "wd_writable d"
  shows "wd_getDirentSize d = length (dirent_bytes (wd_dirent store clusters d))"
  using assms by (auto simp: wd_getDirentSize_def dirent_bytes_def dirent_fixed_def wd_dirent_kind wd_getTitle_def
      wd_writable_def isLinktarget_def isDeleted_def)

end
