(* ===== verification/Zim_Tools.thy ===== *)
theory Zim_Tools
  imports Zim_Prelude
begin

text \<open>
  The string helpers of \<^verbatim>\<open>src/tools.cpp\<close> that the rest of the library calls: which contents are worth
  compressing, the splitting of a long path into namespace and path, and the number of words of a text.

  Shown here: splitting inverts joining, and the long paths that are refused are exactly those that
  are not a namespace, possibly behind a slash, followed by nothing or by a slash and a path.
\<close>

text \<open>\<^verbatim>\<open>std::string::find(needle)\<close>, \<open>None\<close> for \<^verbatim>\<open>npos\<close>.\<close>

fun string_find :: "bytes \<Rightarrow> bytes \<Rightarrow> nat option" where
  "string_find [] needle = (if needle = [] then Some 0 else None)"
| "string_find (c # cs) needle =
     (if take (length needle) (c # cs) = needle then Some 0 else map_option Suc (string_find cs needle))"

definition isCompressibleMimetype :: "bytes \<Rightarrow> bool" where
  "isCompressibleMimetype mimetype \<longleftrightarrow>
     string_find mimetype (str ''text'') = Some 0 \<or>
     string_find mimetype (str ''+xml'') \<noteq> None \<or>
     string_find mimetype (str ''+json'') \<noteq> None \<or>
     mimetype = str ''application/javascript'' \<or>
     mimetype = str ''application/json''"

text \<open>\<^verbatim>\<open>longPath[i]\<close> at the size of the string is the terminating zero; the sum \<^verbatim>\<open>i + 1\<close> is at most two.\<close>

definition string_at :: "bytes \<Rightarrow> nat \<Rightarrow> byte" where
  "string_at s i = (if i < length s then s ! i else 0)"

abbreviation slash :: byte where
  "slash \<equiv> 47"

definition parseLongPath :: "bytes \<Rightarrow> (byte \<times> bytes) res" where
  "parseLongPath longPath =
     (let i = (if string_at longPath 0 = slash then 1 else 0) in
      if i + 1 > length longPath \<or> string_at longPath i = slash \<or>
         (i + 1 < length longPath \<and> string_at longPath (i + 1) \<noteq> slash)
      then Inl (RuntimeError ''Cannot parse path'')
      else Inr (string_at longPath i, drop (min (i + 2) (length longPath)) longPath))"

lemma string_find_iff: "string_find s needle \<noteq> None \<longleftrightarrow> (\<exists>a b. s = a @ needle @ b)"
proof (induction s)
  case Nil
  then show ?case by auto
next
  case (Cons c s)
  show ?case
  proof (cases "take (length needle) (c # s) = needle")
    case True
    then show ?thesis using append_take_drop_id [of "length needle" "c # s"] by (metis append_Nil string_find.simps(2) option.distinct(1))
  next
    case False
    have "(\<exists>a b. c # s = a @ needle @ b) \<longleftrightarrow> (\<exists>a b. s = a @ needle @ b)"
    proof
      assume "\<exists>a b. c # s = a @ needle @ b"
      then obtain a b where ab: "c # s = a @ needle @ b" by blast
      then have "a \<noteq> []" using False by auto
      with ab show "\<exists>a b. s = a @ needle @ b" by (cases a) auto
    qed (metis append_Cons)
    with False Cons show ?thesis by auto
  qed
qed

text \<open>a long path is a namespace, possibly behind a slash, followed by nothing or by a slash and a
  path; exactly these are accepted and give their namespace and path, and everything else, such as a
  path without a namespace, is refused.\<close>

theorem parseLongPath_iff:
  "parseLongPath s = Inr (ns, path) \<longleftrightarrow> ns \<noteq> slash \<and>
     (\<exists>pre\<in>{[], [slash]}. s = pre @ [ns] \<and> path = [] \<or> s = pre @ [ns, slash] @ path)"
proof (cases s)
  case Nil
  then show ?thesis by (auto simp: parseLongPath_def string_at_def)
next
  case (Cons a t)
  show ?thesis
  proof (cases "a = slash")
    case True
    then show ?thesis using Cons by (cases t rule: remdups_adj.cases) (auto simp: parseLongPath_def string_at_def Let_def)
  next
    case False
    then show ?thesis using Cons by (cases t) (auto simp: parseLongPath_def string_at_def Let_def)
  qed
qed

section \<open>Counting words\<close>

text \<open>\<^verbatim>\<open>countWords\<close> with its 32-bit position. The inner loop stops at a blank or at the end; the outer one goes on behind
  it, which is zero again if the length is the largest number of 32 bits.\<close>

function word_end :: "bytes \<Rightarrow> u32 \<Rightarrow> u32 \<Rightarrow> u32" where
  "word_end s len i = (if i < len \<and> s ! unat i \<noteq> 32 then word_end s len (i + 1) else i)"
  by pat_completeness auto
termination
proof (relation "measure (\<lambda>(s, len, i). unat len - unat i)", goal_cases)
  case (2 s len i)
  then have "unat i < unat len" by (simp add: word_less_nat_alt)
  moreover have "unat (i + 1) = unat i + 1"
  proof -
    have "i \<noteq> - 1" using 2 by auto
    then show ?thesis by (metis add.commute add_eq_0_iff2 unatSuc Suc_eq_plus1)
  qed
  ultimately show ?case by simp
qed simp

declare word_end.simps [simp del]

partial_function (option) count_loop :: "bytes \<Rightarrow> u32 \<Rightarrow> u32 \<Rightarrow> u32 \<Rightarrow> u32 option" where
  "count_loop s len i numWords =
     (if i < len then count_loop s len (word_end s len i + 1) (numWords + 1) else Some numWords)"

definition countWords :: "bytes \<Rightarrow> u32 option" where
  "countWords s = count_loop s (of_nat (length s)) 0 1"

lemma of_nat_less_u32: "a < b \<Longrightarrow> b < 2 ^ 32 \<Longrightarrow> (of_nat a :: u32) < of_nat b"
  by (simp add: word_less_nat_alt unat_of_nat take_bit_eq_mod)

lemma word_end_word:
  assumes "32 \<notin> set w" "rest = [] \<or> hd rest = 32" "length (pre @ w @ rest) < 2 ^ 32"
  shows "word_end (pre @ w @ rest) (of_nat (length (pre @ w @ rest))) (of_nat (length pre)) = of_nat (length pre + length w)"
  using assms
proof (induction w arbitrary: pre)
  case Nil
  have "(pre @ rest) ! length pre = 32" if "rest \<noteq> []" using that Nil(2) by (cases rest) simp_all
  then show ?case
    using Nil(3) by (cases rest) (simp_all add: word_end.simps [of _ _ "of_nat (length pre)"] unat_of_nat take_bit_eq_mod)
next
  case (Cons c w)
  have l: "length pre < 2 ^ 32" "length (pre @ (c # w) @ rest) < 2 ^ 32" using Cons.prems(3) by simp_all
  then have "(of_nat (length pre) :: u32) < of_nat (length (pre @ (c # w) @ rest))"
    by (intro of_nat_less_u32) simp_all
  moreover have "unat (of_nat (length pre) :: u32) = length pre" using l by (simp add: unat_of_nat)
  ultimately have "word_end (pre @ (c # w) @ rest) (of_nat (length (pre @ (c # w) @ rest))) (of_nat (length pre)) =
      word_end ((pre @ [c]) @ w @ rest) (of_nat (length ((pre @ [c]) @ w @ rest))) (of_nat (length (pre @ [c])))"
    using Cons.prems(1) by (subst word_end.simps) (simp add: algebra_simps)
  then show ?case using Cons.IH [of "pre @ [c]"] Cons.prems by (simp add: algebra_simps)
qed

end
