(* ===== verification/Creator_Data.thy ===== *)
theory Creator_Data
  imports Writer_Dirents Zim_Tools "HOL-Library.Product_Lexorder" "HOL-Library.Multiset"
begin

text \<open>
  What the creator of an archive keeps: \<^verbatim>\<open>src/writer/creatordata.h\<close>, the methods of \<^verbatim>\<open>CreatorData\<close> and the
  adding methods of \<^verbatim>\<open>Creator\<close> in \<^verbatim>\<open>src/writer/creator.cpp\<close>, and the title listings of
  \<^verbatim>\<open>src/writer/titleListingHandler.cpp\<close>. The build modelled is the one without Xapian, whose handlers are
  the two title listings.

  Shown here: the set of entries stays strictly ordered by namespace and path, whatever is added; who
  wins when a path is added twice; what the numbering and the resolution of redirections and mime
  types leave behind.
\<close>

section \<open>Ordered sets\<close>

text \<open>\<^verbatim>\<open>std::set\<close> with a comparison: \<open>insert\<close> gives the element already there, if any, and the set after;
  \<open>find\<close> is given which elements come before and after the key.\<close>

fun std_insert :: "('a \<Rightarrow> 'a \<Rightarrow> bool) \<Rightarrow> 'a \<Rightarrow> 'a list \<Rightarrow> 'a option \<times> 'a list" where
  "std_insert lt x [] = (None, [x])"
| "std_insert lt x (y # ys) =
     (if lt x y then (None, x # y # ys)
      else if lt y x then (case std_insert lt x ys of (found, zs) \<Rightarrow> (found, y # zs))
      else (Some y, y # ys))"

fun std_search :: "('a \<Rightarrow> bool) \<Rightarrow> ('a \<Rightarrow> bool) \<Rightarrow> 'a list \<Rightarrow> 'a option" where
  "std_search lo hi [] = None"
| "std_search lo hi (y # ys) =
     (if lo y then std_search lo hi ys else if hi y then None else Some y)"

fun std_erase :: "('a \<Rightarrow> 'a \<Rightarrow> bool) \<Rightarrow> 'a \<Rightarrow> 'a list \<Rightarrow> 'a list" where
  "std_erase lt x [] = []"
| "std_erase lt x (y # ys) = (if lt y x then y # std_erase lt x ys else if lt x y then y # ys else ys)"

text \<open>What a set promises when its comparison compares keys.\<close>

locale std_set =
  fixes lt :: "'a \<Rightarrow> 'a \<Rightarrow> bool" and key :: "'a \<Rightarrow> 'k::linorder"
  assumes lt_key: "lt x y \<longleftrightarrow> key x < key y"
begin

lemma insert_found:
  "sorted_wrt lt xs \<Longrightarrow> fst (std_insert lt x xs) = Some y \<Longrightarrow>
     y \<in> set xs \<and> key y = key x \<and> snd (std_insert lt x xs) = xs"
  by (induction xs) (auto simp: lt_key split: if_splits prod.splits)

lemma insert_new:
  "sorted_wrt lt xs \<Longrightarrow> fst (std_insert lt x xs) = None \<Longrightarrow>
     key x \<notin> key ` set xs \<and> set (snd (std_insert lt x xs)) = insert x (set xs) \<and>
     sorted_wrt lt (snd (std_insert lt x xs))"
proof (induction xs)
  case (Cons y ys)
  show ?case
  proof (cases "key x < key y")
    case True
    then have "key x < key z" if "z \<in> set ys" for z using Cons.prems(1) that by (auto simp: lt_key)
    with True Cons.prems(1) show ?thesis by (auto simp: lt_key)
  next
    case False
    with Cons show ?thesis by (auto simp: lt_key split: if_splits prod.splits)
  qed
qed simp

lemma search_key:
  assumes "sorted_wrt lt xs"
  shows "std_search (\<lambda>y. key y < k) (\<lambda>y. k < key y) xs = Some y \<longleftrightarrow> y \<in> set xs \<and> key y = k"
  using assms
proof (induction xs)
  case (Cons z zs)
  have "key z < k" if "w \<in> set zs" "key w = k" for w
    using Cons.prems that by (auto simp: lt_key)
  with Cons show ?case by (auto simp: lt_key)
qed simp

lemma search_none:
  assumes "sorted_wrt lt xs"
  shows "std_search (\<lambda>y. key y < k) (\<lambda>y. k < key y) xs = None \<longleftrightarrow> k \<notin> key ` set xs"
proof -
  have "std_search (\<lambda>y. key y < k) (\<lambda>y. k < key y) xs = None \<longleftrightarrow>
      (\<nexists>y. std_search (\<lambda>y. key y < k) (\<lambda>y. k < key y) xs = Some y)" by auto
  then show ?thesis using search_key [OF assms, of k] by (metis (no_types, lifting) image_iff)
qed

lemma key_inj:
  assumes "sorted_wrt lt xs" "y \<in> set xs" "z \<in> set xs" "key y = key z"
  shows "y = z"
  using search_key [OF assms(1), of "key y" y] search_key [OF assms(1), of "key y" z] assms(2-4) by simp

lemma erase_set:
  assumes "sorted_wrt lt xs"
  shows "set (std_erase lt x xs) = {y \<in> set xs. key y \<noteq> key x}"
  using assms
proof (induction xs)
  case (Cons z zs)
  have "key z < key x" if "w \<in> set zs" "key w = key x" for w
    using Cons.prems that by (auto simp: lt_key)
  with Cons show ?case by (auto simp: lt_key)
qed simp

lemma erase_sorted: "sorted_wrt lt xs \<Longrightarrow> sorted_wrt lt (std_erase lt x xs)"
  by (induction xs) (auto simp: erase_set)

end

section \<open>Data\<close>

text \<open>
  Clusters live in a list that only grows; a cluster is named by its place in it. \<open>taskList\<close> and
  \<open>clusterToWrite\<close> are what has been pushed to the two queues so far (the threads behind them are the
  subject of the theory \<open>Creator_Pipeline\<close>). The two listings are the handlers \<^verbatim>\<open>TitleListingHandler\<close>
  and \<^verbatim>\<open>TitleListingHandlerV1\<close>, each with its entries and its own entry.
\<close>

record TitleListing =
  tl_dirents :: "addr list"
  tl_dirent :: "addr option"

record CreatorData =
  store :: dirent_store
  pool :: DirentPool
  dirents :: "addr list"
  unresolvedRedirectDirents :: "addr list"
  mainPageDirent :: "addr option"
  mimeTypesMap :: "bytes \<rightharpoonup> u16"
  rmimeTypesMap :: "(u16 \<times> bytes) list"
  mimeTypesList :: "bytes list"
  nextMimeIdx :: u16
  clusters :: "WCluster list"
  clustersList :: "nat list"
  clusterToWrite :: "nat list"
  taskList :: "nat list"
  cd_compression :: CompressionType
  cd_isEmpty :: bool
  cd_isExtended :: bool
  compCluster :: nat
  uncompCluster :: nat
  minChunkSize :: u64
  titleListing :: TitleListing
  titleListingV1 :: TitleListing
  m_titleListBlobOffset :: u64
  nbRedirectItems :: u32
  nbCompItems :: u32
  nbUnCompItems :: u32
  nbClusters :: u32
  nbCompClusters :: u32
  nbUnCompClusters :: u32

definition new_CreatorData :: "CompressionType \<Rightarrow> u64 \<Rightarrow> CreatorData" where
  "new_CreatorData ct minSize = \<lparr>store = (\<lambda>_. new_WDirent), pool = new_DirentPool, dirents = [],
     unresolvedRedirectDirents = [], mainPageDirent = None, mimeTypesMap = Map.empty, rmimeTypesMap = [],
     mimeTypesList = [], nextMimeIdx = 0, clusters = [new_WCluster ct, new_WCluster zimcompNone],
     clustersList = [], clusterToWrite = [], taskList = [], cd_compression = ct, cd_isEmpty = True,
     cd_isExtended = False, compCluster = 0, uncompCluster = 1, minChunkSize = minSize,
     titleListing = \<lparr>tl_dirents = [], tl_dirent = None\<rparr>, titleListingV1 = \<lparr>tl_dirents = [], tl_dirent = None\<rparr>,
     m_titleListBlobOffset = 0, nbRedirectItems = 0, nbCompItems = 0, nbUnCompItems = 0, nbClusters = 0,
     nbCompClusters = 0, nbUnCompClusters = 0\<rparr>"

definition UrlCompare :: "dirent_store \<Rightarrow> addr \<Rightarrow> addr \<Rightarrow> bool" where
  "UrlCompare st a b = compareUrl (st a) (st b)"

definition TitleCompare :: "dirent_store \<Rightarrow> addr \<Rightarrow> addr \<Rightarrow> bool" where
  "TitleCompare st a b = compareTitle (st a) (st b)"

section \<open>Adding entries\<close>

definition getMimeTypeIdx :: "bytes \<Rightarrow> CreatorData \<Rightarrow> (u16 \<times> CreatorData) res" where
  "getMimeTypeIdx mimeType cd =
     (case mimeTypesMap cd mimeType of
        Some idx \<Rightarrow> Inr (idx, cd)
      | None \<Rightarrow>
          if nextMimeIdx cd \<ge> 0xFFFF then Inl (RuntimeError ''too many distinct mime types'')
          else Inr (nextMimeIdx cd,
            cd\<lparr>mimeTypesMap := (mimeTypesMap cd)(mimeType \<mapsto> nextMimeIdx cd),
               rmimeTypesMap := insort_key fst (nextMimeIdx cd, mimeType) (rmimeTypesMap cd),
               nextMimeIdx := nextMimeIdx cd + 1\<rparr>))"

definition getMimeType :: "u16 \<Rightarrow> CreatorData \<Rightarrow> bytes res" where
  "getMimeType idx cd =
     (case map_of (rmimeTypesMap cd) idx of
        None \<Rightarrow> Inl (RuntimeError ''mime type index not found'') | Some m \<Rightarrow> Inr m)"

definition addDirent :: "addr \<Rightarrow> CreatorData \<Rightarrow> CreatorData" where
  "addDirent d cd =
     (let lt = UrlCompare (store cd);
          finish = (\<lambda>cd. if wd_isRedirect (store cd d)
            then cd\<lparr>unresolvedRedirectDirents := snd (std_insert lt d (unresolvedRedirectDirents cd)),
                    nbRedirectItems := nbRedirectItems cd + 1\<rparr>
            else cd) in
      case std_insert lt d (dirents cd) of
        (None, ds) \<Rightarrow> finish (cd\<lparr>dirents := ds\<rparr>)
      | (Some existing, _) \<Rightarrow>
          if wd_isRedirect (store cd existing) \<and> \<not> wd_isRedirect (store cd d) then
            finish (cd\<lparr>unresolvedRedirectDirents := std_erase lt existing (unresolvedRedirectDirents cd),
                       dirents := snd (std_insert lt d (std_erase lt existing (dirents cd)))\<rparr>)
          else cd)"

text \<open>An entry from the pool, with its fields set.\<close>

definition with_dirent :: "(WDirent \<Rightarrow> WDirent) \<Rightarrow> CreatorData \<Rightarrow> addr \<times> CreatorData" where
  "with_dirent fill cd =
     (case pool_getDirent (pool cd) of (a, p) \<Rightarrow>
        (a, cd\<lparr>pool := p, store := (store cd)(a := fill (store cd a))\<rparr>))"

definition createDirent :: "byte \<Rightarrow> bytes \<Rightarrow> bytes \<Rightarrow> bytes \<Rightarrow> CreatorData \<Rightarrow> (addr \<times> CreatorData) res" where
  "createDirent ns path mimetype title cd =
     rbind (getMimeTypeIdx mimetype cd) (\<lambda>(mime, cd).
     case with_dirent (\<lambda>d. d\<lparr>wd_ns := ns, wd_path := path, wd_mimeType := mime, wd_title := title\<rparr>) cd of (a, cd) \<Rightarrow>
       Inr (a, addDirent a cd))"

definition createRedirectDirent :: "byte \<Rightarrow> bytes \<Rightarrow> bytes \<Rightarrow> byte \<Rightarrow> bytes \<Rightarrow> CreatorData \<Rightarrow> addr \<times> CreatorData" where
  "createRedirectDirent ns path title targetNs targetPath cd =
     (case with_dirent (\<lambda>d. wd_setRedirect None (d\<lparr>wd_ns := ns, wd_path := path, wd_title := title,
         wd_redirectNs := targetNs, wd_redirectPath := targetPath\<rparr>)) cd of (a, cd) \<Rightarrow>
       (a, addDirent a cd))"

text \<open>An item of the application: the results of its methods.\<close>

record Item =
  it_path :: bytes
  it_title :: bytes
  it_mimetype :: bytes
  it_hint_compress :: "u64 option"
  it_hint_front :: "u64 option"
  it_provider :: ContentProvider

definition createItemDirent :: "Item \<Rightarrow> CreatorData \<Rightarrow> (addr \<times> CreatorData) res" where
  "createItemDirent item cd =
     (let mimetype = (if it_mimetype item = [] then str ''application/octet-stream'' else it_mimetype item) in
      createDirent 67 (it_path item) mimetype (it_title item) cd)"

section \<open>Adding contents\<close>

definition closeCluster :: "bool \<Rightarrow> CreatorData \<Rightarrow> CreatorData" where
  "closeCluster compressed cd =
     (let cd = cd\<lparr>nbClusters := nbClusters cd + 1\<rparr>;
          c = (if compressed then compCluster cd else uncompCluster cd);
          cd = (if compressed then cd\<lparr>nbCompClusters := nbCompClusters cd + 1\<rparr>
                else cd\<lparr>nbUnCompClusters := nbUnCompClusters cd + 1\<rparr>);
          cd = cd\<lparr>clusters := (clusters cd)[c := (clusters cd ! c)\<lparr>w_index := of_nat (length (clustersList cd))\<rparr>]\<rparr>;
          cd = cd\<lparr>clustersList := clustersList cd @ [c], taskList := taskList cd @ [c],
                  clusterToWrite := clusterToWrite cd @ [c]\<rparr>;
          cd = (if w_isExtended (clusters cd ! c) then cd\<lparr>cd_isExtended := True\<rparr> else cd);
          new = length (clusters cd) in
      if compressed then cd\<lparr>clusters := clusters cd @ [new_WCluster (cd_compression cd)], compCluster := new\<rparr>
      else cd\<lparr>clusters := clusters cd @ [new_WCluster zimcompNone], uncompCluster := new\<rparr>)"

definition current_cluster :: "bool \<Rightarrow> CreatorData \<Rightarrow> nat" where
  "current_cluster compressContent cd = (if compressContent then compCluster cd else uncompCluster cd)"

text \<open>\<^verbatim>\<open>addItemData\<close> in two parts: a full cluster is closed first, then the content is added.\<close>

definition make_room :: "u64 \<Rightarrow> bool \<Rightarrow> CreatorData \<Rightarrow> CreatorData res" where
  "make_room itemSize compressContent cd =
     (let cluster = clusters cd ! current_cluster compressContent cd in
      if w_count cluster \<noteq> 0 then
        rbind (wcluster_size cluster) (\<lambda>sz.
          Inr (if sz + itemSize \<ge> minChunkSize cd * 1024 then closeCluster compressContent cd else cd))
      else Inr cd)"

definition place_content :: "addr \<Rightarrow> ContentProvider \<Rightarrow> bool \<Rightarrow> CreatorData \<Rightarrow> CreatorData res" where
  "place_content d provider compressContent cd =
     (let c = current_cluster compressContent cd in
      rbind (wd_setCluster c (w_count (clusters cd ! c)) (store cd d)) (\<lambda>dirent.
        Inr (cd\<lparr>store := (store cd)(d := dirent), clusters := (clusters cd)[c := addContent provider (clusters cd ! c)],
                nbCompItems := (if compressContent then nbCompItems cd + 1 else nbCompItems cd),
                nbUnCompItems := (if compressContent then nbUnCompItems cd else nbUnCompItems cd + 1)\<rparr>)))"

definition addItemData :: "addr \<Rightarrow> ContentProvider \<Rightarrow> bool \<Rightarrow> CreatorData \<Rightarrow> CreatorData res" where
  "addItemData d provider compressContent cd =
     (let itemSize = provider_getSize provider;
          cd = (if itemSize > 0 then cd\<lparr>cd_isEmpty := False\<rparr> else cd) in
      rbind (make_room itemSize compressContent cd) (place_content d provider compressContent))"

section \<open>The title listings\<close>

definition handle_v0 :: "addr \<Rightarrow> CreatorData \<Rightarrow> CreatorData" where
  "handle_v0 d cd = cd\<lparr>titleListing := (titleListing cd)\<lparr>tl_dirents := tl_dirents (titleListing cd) @ [d]\<rparr>\<rparr>"

definition handle_v1 :: "addr \<Rightarrow> u64 option \<Rightarrow> CreatorData \<Rightarrow> CreatorData" where
  "handle_v1 d front cd =
     (let isFront = (case front of None \<Rightarrow> False | Some v \<Rightarrow> v \<noteq> 0) in
      if isFront then cd\<lparr>titleListingV1 := (titleListingV1 cd)\<lparr>tl_dirents := tl_dirents (titleListingV1 cd) @ [d]\<rparr>\<rparr>
      else cd)"

definition cd_handle :: "addr \<Rightarrow> u64 option \<Rightarrow> CreatorData \<Rightarrow> CreatorData" where
  "cd_handle d front cd = handle_v1 d front (handle_v0 d cd)"

section \<open>The adding methods of Creator\<close>

definition addItem :: "Item \<Rightarrow> CreatorData \<Rightarrow> CreatorData res" where
  "addItem item cd =
     (let compressContent = (case it_hint_compress item of
          Some v \<Rightarrow> v \<noteq> 0 | None \<Rightarrow> isCompressibleMimetype (it_mimetype item)) in
      rbind (createItemDirent item cd) (\<lambda>(d, cd).
      rbind (addItemData d (it_provider item) compressContent cd) (\<lambda>cd.
        Inr (cd_handle d (it_hint_front item) cd))))"

definition addMetadata :: "bytes \<Rightarrow> ContentProvider \<Rightarrow> bytes \<Rightarrow> CreatorData \<Rightarrow> CreatorData res" where
  "addMetadata name provider mimetype cd =
     rbind (createDirent 77 name mimetype [] cd) (\<lambda>(d, cd).
     rbind (addItemData d provider (isCompressibleMimetype mimetype) cd) (\<lambda>cd.
       Inr (cd_handle d None cd)))"

definition addMetadata_string :: "bytes \<Rightarrow> bytes \<Rightarrow> bytes \<Rightarrow> CreatorData \<Rightarrow> CreatorData res" where
  "addMetadata_string name content mimetype cd = addMetadata name (new_StringProvider content) mimetype cd"

definition addRedirection :: "bytes \<Rightarrow> bytes \<Rightarrow> bytes \<Rightarrow> u64 option \<Rightarrow> CreatorData \<Rightarrow> CreatorData" where
  "addRedirection path title targetPath front cd =
     (case createRedirectDirent 67 path title 67 targetPath cd of (d, cd) \<Rightarrow> cd_handle d front cd)"

section \<open>Finishing the entries\<close>

text \<open>The loop over the unresolved redirections. The key searched for is an entry on the stack.\<close>

definition resolve_one :: "addr \<Rightarrow> CreatorData \<Rightarrow> CreatorData" where
  "resolve_one d cd =
     (let dirent = store cd d;
          tmpDirent = WDirent_key (wd_redirectNs dirent) (wd_redirectPath dirent) in
      case std_search (\<lambda>a. compareUrl (store cd a) tmpDirent) (\<lambda>a. compareUrl tmpDirent (store cd a)) (dirents cd) of
        None \<Rightarrow>
          cd\<lparr>dirents := std_erase (UrlCompare (store cd)) d (dirents cd),
             store := (store cd)(d := markRemoved dirent),
             mainPageDirent := (if mainPageDirent cd = Some d then None else mainPageDirent cd)\<rparr>
      | Some target \<Rightarrow> cd\<lparr>store := (store cd)(d := wd_setRedirect (Some target) dirent)\<rparr>)"

definition resolveRedirectIndexes :: "CreatorData \<Rightarrow> CreatorData" where
  "resolveRedirectIndexes cd = fold resolve_one (unresolvedRedirectDirents cd) cd"

fun set_indexes :: "u32 \<Rightarrow> addr list \<Rightarrow> dirent_store \<Rightarrow> dirent_store" where
  "set_indexes idx [] st = st"
| "set_indexes idx (d # ds) st = set_indexes (idx + 1) ds (st(d := (st d)\<lparr>wd_idx := idx\<rparr>))"

definition setEntryIndexes :: "CreatorData \<Rightarrow> CreatorData" where
  "setEntryIndexes cd = cd\<lparr>store := set_indexes 0 (dirents cd) (store cd)\<rparr>"

text \<open>The inner loop over \<^verbatim>\<open>j\<close>: the last match is kept, \<^verbatim>\<open>resize\<close> has put 0 where there is none.\<close>

definition mime_mapping :: "bytes list \<Rightarrow> bytes \<Rightarrow> u16" where
  "mime_mapping sorted_list old =
     foldl (\<lambda>m j. if old = sorted_list ! j then of_nat j else m) 0 [0..<length sorted_list]"

fun map_mimes :: "u16 list \<Rightarrow> addr list \<Rightarrow> dirent_store \<Rightarrow> dirent_store res" where
  "map_mimes mapping [] st = Inr st"
| "map_mimes mapping (d # ds) st =
     (if wd_isItem (st d) then
        (if unat (wd_mimeType (st d)) < length mapping
         then map_mimes mapping ds (st(d := (st d)\<lparr>wd_mimeType := mapping ! unat (wd_mimeType (st d))\<rparr>))
         else Inl MemoryFault)
      else map_mimes mapping ds st)"

definition resolveMimeTypes :: "CreatorData \<Rightarrow> CreatorData res" where
  "resolveMimeTypes cd =
     (let oldMImeList = map snd (rmimeTypesMap cd);
          newList = sort (mimeTypesList cd @ oldMImeList);
          mapping = map (mime_mapping newList) oldMImeList in
      rbind (map_mimes mapping (dirents cd) (store cd)) (\<lambda>st.
        Inr (cd\<lparr>mimeTypesList := newList, store := st\<rparr>)))"

text \<open>\<^verbatim>\<open>TitleListingHandler::stop\<close>. \<open>std_sort\<close> is \<^verbatim>\<open>std::sort\<close> with a comparison: which order it leaves equal
  elements in is its choice.\<close>

definition listing_stop ::
    "((addr \<Rightarrow> addr \<Rightarrow> bool) \<Rightarrow> addr list \<Rightarrow> addr list) \<Rightarrow> dirent_store \<Rightarrow> TitleListing \<Rightarrow> TitleListing" where
  "listing_stop std_sort st lst =
     lst\<lparr>tl_dirents := std_sort (TitleCompare st) (filter (\<lambda>d. \<not> wd_removed (st d)) (tl_dirents lst))\<rparr>"

text \<open>The \<^verbatim>\<open>ListingProvider\<close>: its size, and a blob of four bytes per entry.\<close>

definition ListingProvider :: "dirent_store \<Rightarrow> TitleListing \<Rightarrow> ContentProvider" where
  "ListingProvider st lst =
     CustomProvider (of_nat (length (tl_dirents lst)) * 4) (map (\<lambda>d. toLittleEndian32 (wd_idx (st d))) (tl_dirents lst))"

section \<open>The order of the entries\<close>

definition url_key :: "WDirent \<Rightarrow> int \<times> bytes" where
  "url_key d = (sint (wd_ns d), wd_path d)"

lemma compareUrl_url_key: "compareUrl a b \<longleftrightarrow> url_key a < url_key b"
  by (auto simp: compareUrl_def url_key_def char_less_def dest: signed_word_eqI)

lemma url_key_eq: "url_key a = url_key b \<longleftrightarrow> wd_ns a = wd_ns b \<and> wd_path a = wd_path b"
  by (auto simp: url_key_def dest: signed_word_eqI)

interpretation url: std_set "UrlCompare st" "\<lambda>a. url_key (st a)" for st
  by unfold_locales (simp add: UrlCompare_def compareUrl_url_key)

lemma sorted_url_cong:
  assumes "\<And>a. a \<in> set xs \<Longrightarrow> url_key (st' a) = url_key (st a)"
  shows "sorted_wrt (UrlCompare st') xs = sorted_wrt (UrlCompare st) xs"
  using assms by (induction xs) (auto simp: url.lt_key)

section \<open>The invariant\<close>

definition allocated :: "CreatorData \<Rightarrow> addr set" where
  "allocated cd = {a. \<exists>m n. pool cd = pool_after n \<and> m < n \<and> a = pool_addr m}"

text \<open>An entry as it is between its creation and the resolution of its redirection.\<close>

definition dirent_open :: "WDirent \<Rightarrow> bool" where
  "dirent_open d \<longleftrightarrow> (if wd_isRedirect d then wd_info d = RedirectInfo None else \<exists>n b. wd_info d = DirectInfo n b)"

definition entries_ok :: "CreatorData \<Rightarrow> bool" where
  "entries_ok cd \<longleftrightarrow>
     sorted_wrt (UrlCompare (store cd)) (dirents cd) \<and>
     sorted_wrt (UrlCompare (store cd)) (unresolvedRedirectDirents cd) \<and>
     set (unresolvedRedirectDirents cd) = {a \<in> set (dirents cd). wd_isRedirect (store cd a)}"

definition store_ok :: "CreatorData \<Rightarrow> bool" where
  "store_ok cd \<longleftrightarrow> (\<exists>n. pool cd = pool_after n \<and> set (dirents cd) \<subseteq> pool_addr ` {..<n} \<and>
     (\<forall>m. n \<le> m \<longrightarrow> store cd (pool_addr m) = new_WDirent) \<and> (\<forall>m<n. dirent_open (store cd (pool_addr m))))"

definition clusters_ok :: "CreatorData \<Rightarrow> bool" where
  "clusters_ok cd \<longleftrightarrow> compCluster cd \<noteq> uncompCluster cd \<and> compCluster cd < length (clusters cd) \<and>
     uncompCluster cd < length (clusters cd) \<and> (\<forall>c\<in>set (clusters cd). \<not> w_closed c) \<and>
     set (clustersList cd) \<subseteq> {..<length (clusters cd)} - {compCluster cd, uncompCluster cd} \<and> distinct (clustersList cd)"

definition creator_ok :: "CreatorData \<Rightarrow> bool" where
  "creator_ok cd \<longleftrightarrow> entries_ok cd \<and> store_ok cd \<and> clusters_ok cd"

lemma entries_ok_addDirent:
  assumes ok: "entries_ok cd" and new: "d \<notin> set (dirents cd)"
  shows "entries_ok (addDirent d cd)"
proof -
  let ?lt = "UrlCompare (store cd)" and ?key = "\<lambda>a. url_key (store cd a)"
  let ?red = "\<lambda>a. wd_isRedirect (store cd a)"
  have s: "sorted_wrt ?lt (dirents cd)" "sorted_wrt ?lt (unresolvedRedirectDirents cd)"
    "set (unresolvedRedirectDirents cd) = {a \<in> set (dirents cd). ?red a}"
    using ok by (simp_all add: entries_ok_def)
  show ?thesis
  proof (cases "fst (std_insert ?lt d (dirents cd))")
    case None
    note new_d = url.insert_new [OF s(1) None]
    have "fst (std_insert ?lt d (unresolvedRedirectDirents cd)) = None"
    proof (rule ccontr)
      assume "fst (std_insert ?lt d (unresolvedRedirectDirents cd)) \<noteq> None"
      then obtain y where "fst (std_insert ?lt d (unresolvedRedirectDirents cd)) = Some y" by blast
      from url.insert_found [OF s(2) this] have "y \<in> set (dirents cd)" "?key d = ?key y" using s(3) by auto
      with new_d show False by blast
    qed
    note new_u = url.insert_new [OF s(2) this]
    show ?thesis
      using new_d new_u s None by (auto simp: addDirent_def entries_ok_def Let_def split: prod.splits)
  next
    case (Some e)
    note e = url.insert_found [OF s(1) Some]
    show ?thesis
    proof (cases "?red e \<and> \<not> ?red d")
      case False
      with Some ok show ?thesis by (auto simp: addDirent_def Let_def split: prod.splits)
    next
      case True
      let ?ds = "std_erase ?lt e (dirents cd)"
      have er: "sorted_wrt ?lt ?ds" "set ?ds = {y \<in> set (dirents cd). ?key y \<noteq> ?key e}"
        using url.erase_sorted [OF s(1), of e] url.erase_set [OF s(1), of e] by auto
      have eu: "sorted_wrt ?lt (std_erase ?lt e (unresolvedRedirectDirents cd))"
        "set (std_erase ?lt e (unresolvedRedirectDirents cd)) = {y \<in> set (unresolvedRedirectDirents cd). ?key y \<noteq> ?key e}"
        using url.erase_sorted [OF s(2), of e] url.erase_set [OF s(2), of e] by auto
      have "fst (std_insert ?lt d ?ds) = None"
      proof (rule ccontr)
        assume "fst (std_insert ?lt d ?ds) \<noteq> None"
        then obtain y where "fst (std_insert ?lt d ?ds) = Some y" by blast
        from url.insert_found [OF er(1) this] er(2) e show False by auto
      qed
      note new_d = url.insert_new [OF er(1) this]
      show ?thesis
        using new_d eu er s True Some by (auto simp: addDirent_def entries_ok_def Let_def split: prod.splits)
    qed
  qed
qed

lemma addDirent_frame:
  "store (addDirent d cd) = store cd" "pool (addDirent d cd) = pool cd" "clusters (addDirent d cd) = clusters cd"
  "compCluster (addDirent d cd) = compCluster cd" "uncompCluster (addDirent d cd) = uncompCluster cd"
  "clustersList (addDirent d cd) = clustersList cd" "minChunkSize (addDirent d cd) = minChunkSize cd"
  "titleListing (addDirent d cd) = titleListing cd"
  by (auto simp: addDirent_def Let_def split: prod.splits option.splits)

lemma std_insert_subset: "set (snd (std_insert lt x xs)) \<subseteq> insert x (set xs)"
  by (induction xs) (auto split: if_splits prod.splits)

lemma std_erase_subset: "set (std_erase lt x xs) \<subseteq> set xs"
  by (induction xs) auto

lemma addDirent_dirents: "set (dirents (addDirent d cd)) \<subseteq> insert d (set (dirents cd))"
  using std_insert_subset [of "UrlCompare (store cd)" d "dirents cd"]
    std_insert_subset [of "UrlCompare (store cd)" d "std_erase (UrlCompare (store cd)) e (dirents cd)" for e]
    std_erase_subset [of "UrlCompare (store cd)" e "dirents cd" for e]
  by (auto simp: addDirent_def Let_def split: prod.splits option.splits if_splits) blast+

lemma pool_addr_inj: "pool_addr m = pool_addr k \<longleftrightarrow> m = k"
  by (metis Pair_inject div_mult_mod_eq pool_addr_eq)

lemma pool_after_inj: "pool_after m = pool_after n \<Longrightarrow> m = n"
proof -
  have *: "pools (pool_after 0) = 0" by (simp add: pool_after_def new_DirentPool_def)
  assume eq: "pool_after m = pool_after n"
  show "m = n"
  proof (cases m)
    case 0
    then show ?thesis using eq * pool_after_state [of "n - 1"] by (cases n) auto
  next
    case (Suc m')
    then obtain n' where n: "n = Suc n'" using eq * pool_after_state [of m'] by (cases n) auto
    then show ?thesis
      using eq Suc pool_after_state [of m'] pool_after_state [of n'] div_mult_mod_eq [of m' 65535] div_mult_mod_eq [of n' 65535]
      by simp
  qed
qed

lemma clusters_ok_frame:
  assumes "clusters_ok cd" "clusters cd' = clusters cd" "compCluster cd' = compCluster cd"
    "uncompCluster cd' = uncompCluster cd" "clustersList cd' = clustersList cd"
  shows "clusters_ok cd'"
  using assms by (simp add: clusters_ok_def)

lemma create_ok:
  assumes ok: "creator_ok cd" and w: "with_dirent fill cd = (a, cd1)" and fill: "dirent_open (fill new_WDirent)"
  shows "creator_ok (addDirent a cd1) \<and> a \<notin> set (dirents cd) \<and> store cd1 = (store cd)(a := fill new_WDirent) \<and>
    entries_ok cd1 \<and> dirents cd1 = dirents cd \<and> (\<exists>m n. pool cd1 = pool_after n \<and> m < n \<and> a = pool_addr m)"
proof -
  obtain n where n: "pool cd = pool_after n" "set (dirents cd) \<subseteq> pool_addr ` {..<n}"
      "\<forall>m. n \<le> m \<longrightarrow> store cd (pool_addr m) = new_WDirent" "\<forall>m<n. dirent_open (store cd (pool_addr m))"
    using ok by (auto simp: creator_ok_def store_ok_def)
  note inj = pool_addr_inj
  have a: "a = pool_addr n" "store cd a = new_WDirent"
    using w n(1,3) by (auto simp: with_dirent_def pool_addr_def split: prod.splits)
  then have fresh: "a \<notin> set (dirents cd)" using n(2) inj by auto
  have st: "store cd1 = (store cd)(a := fill new_WDirent)"
    and fr: "dirents cd1 = dirents cd" "unresolvedRedirectDirents cd1 = unresolvedRedirectDirents cd"
      "pool cd1 = pool_after (Suc n)"
      "clusters cd1 = clusters cd" "compCluster cd1 = compCluster cd" "uncompCluster cd1 = uncompCluster cd"
      "clustersList cd1 = clustersList cd"
    using w a n(1) by (auto simp: with_dirent_def pool_after_Suc split: prod.splits)
  have un: "a \<notin> set (unresolvedRedirectDirents cd)" using ok fresh by (auto simp: creator_ok_def entries_ok_def)
  have "sorted_wrt (UrlCompare (store cd1)) xs = sorted_wrt (UrlCompare (store cd)) xs" if "a \<notin> set xs" for xs
    using that by (intro sorted_url_cong) (auto simp: st)
  then have e1: "entries_ok cd1" using ok fresh un by (auto simp: creator_ok_def entries_ok_def fr st)
  then have 1: "entries_ok (addDirent a cd1)" using fresh by (intro entries_ok_addDirent) (simp_all add: fr)
  have "set (dirents (addDirent a cd1)) \<subseteq> pool_addr ` {..<Suc n}"
    using addDirent_dirents [of a cd1] n(2) by (auto simp: fr a(1) lessThan_Suc)
  moreover have "store cd1 (pool_addr m) = new_WDirent" if "Suc n \<le> m" for m
    using n(3) that inj [of m n] by (simp add: st a(1))
  moreover have "dirent_open (store cd1 (pool_addr m))" if "m < Suc n" for m
    using n(4) that fill inj [of m n] by (cases "m = n") (simp_all add: st a(1))
  ultimately have 2: "store_ok (addDirent a cd1)"
    unfolding store_ok_def addDirent_frame using fr(3) by blast
  have 3: "clusters_ok (addDirent a cd1)"
    by (rule clusters_ok_frame [of cd]) (use ok in \<open>simp_all add: creator_ok_def addDirent_frame fr\<close>)
  have "\<exists>m n. pool cd1 = pool_after n \<and> m < n \<and> a = pool_addr m" using fr(3) a(1) by blast
  with 1 2 3 fresh st e1 fr(1) show ?thesis by (simp add: creator_ok_def)
qed

lemma getMimeTypeIdx_frame:
  assumes "getMimeTypeIdx m cd = Inr (i, cd')"
  shows "store cd' = store cd" "pool cd' = pool cd" "dirents cd' = dirents cd"
    "unresolvedRedirectDirents cd' = unresolvedRedirectDirents cd" "clusters cd' = clusters cd"
    "compCluster cd' = compCluster cd" "uncompCluster cd' = uncompCluster cd" "clustersList cd' = clustersList cd"
    "titleListing cd' = titleListing cd"
  using assms by (auto simp: getMimeTypeIdx_def split: option.splits if_splits)

lemma getMimeTypeIdx_ok: "creator_ok cd \<Longrightarrow> getMimeTypeIdx m cd = Inr (i, cd') \<Longrightarrow> creator_ok cd'"
  using getMimeTypeIdx_frame [of m cd i cd']
  by (simp add: creator_ok_def entries_ok_def store_ok_def clusters_ok_def)

text \<open>The index 0xFFFF is never given out, so what \<^verbatim>\<open>createDirent\<close> makes is an item.\<close>

definition mimes_ok :: "CreatorData \<Rightarrow> bool" where
  "mimes_ok cd \<longleftrightarrow> map fst (rmimeTypesMap cd) = map of_nat [0..<unat (nextMimeIdx cd)] \<and>
     (\<forall>m i. mimeTypesMap cd m = Some i \<longleftrightarrow> (i, m) \<in> set (rmimeTypesMap cd)) \<and>
     (\<forall>a\<in>set (dirents cd). wd_isItem (store cd a) \<longrightarrow> unat (wd_mimeType (store cd a)) < unat (nextMimeIdx cd))"

lemma insort_key_last: "\<forall>x\<in>set xs. f x \<le> f y \<Longrightarrow> \<forall>x\<in>set xs. f x \<noteq> f y \<Longrightarrow> insort_key f y xs = xs @ [y]"
  by (induction xs) (auto simp: not_le less_le)

lemma mimes_ok_step:
  assumes ok: "mimes_ok cd" and g: "getMimeTypeIdx m cd = Inr (i, cd')"
  shows "mimes_ok cd' \<and> i \<noteq> redirectMimeType \<and> (i, m) \<in> set (rmimeTypesMap cd') \<and> unat i < unat (nextMimeIdx cd')"
proof -
  have fsts: "unat (fst x) < unat (nextMimeIdx cd)" if "x \<in> set (rmimeTypesMap cd)" for x
  proof -
    have "fst x \<in> set (map fst (rmimeTypesMap cd))" using that by simp
    moreover have "set (map fst (rmimeTypesMap cd)) = of_nat ` {0..<unat (nextMimeIdx cd)}"
      using ok unfolding mimes_ok_def by (metis set_map set_upt)
    ultimately obtain k where "k < unat (nextMimeIdx cd)" "fst x = of_nat k" by auto
    moreover have "unat (nextMimeIdx cd) < 2 ^ 16" using unat_bound [of "nextMimeIdx cd"] by simp
    ultimately show ?thesis by (simp add: unat_of_nat_small)
  qed
  have bound: "unat (nextMimeIdx cd) \<le> 65535" using unat_bound [of "nextMimeIdx cd"] by simp
  show ?thesis
  proof (cases "mimeTypesMap cd m")
    case (Some j)
    then have "(j, m) \<in> set (rmimeTypesMap cd)" using ok by (simp add: mimes_ok_def)
    moreover from fsts [OF this] have "j \<noteq> redirectMimeType" "unat j < unat (nextMimeIdx cd)"
      using bound by (auto simp: redirectMimeType_def)
    ultimately show ?thesis using g Some ok by (auto simp: getMimeTypeIdx_def)
  next
    case None
    with g have lt: "\<not> 0xFFFF \<le> nextMimeIdx cd" and i: "i = nextMimeIdx cd"
      and cd': "nextMimeIdx cd' = nextMimeIdx cd + 1" "mimeTypesMap cd' = (mimeTypesMap cd)(m \<mapsto> nextMimeIdx cd)"
        "rmimeTypesMap cd' = insort_key fst (nextMimeIdx cd, m) (rmimeTypesMap cd)"
        "dirents cd' = dirents cd" "store cd' = store cd"
      by (auto simp: getMimeTypeIdx_def split: if_splits)
    have u: "unat (nextMimeIdx cd) < 65535" using lt by (simp add: word_le_nat_alt)
    have r: "rmimeTypesMap cd' = rmimeTypesMap cd @ [(nextMimeIdx cd, m)]"
      unfolding cd'(3) using fsts by (intro insort_key_last) (force simp: word_le_nat_alt)+
    have "unat (nextMimeIdx cd + 1) = Suc (unat (nextMimeIdx cd))" using u by (subst unat_add_small) auto
    moreover have "(nextMimeIdx cd, m') \<notin> set (rmimeTypesMap cd)" for m' using fsts by force
    moreover have "(j, m) \<notin> set (rmimeTypesMap cd)" for j 
      using None ok unfolding mimes_ok_def by (metis option.distinct(1))
    moreover have "\<forall>a\<in>set (dirents cd). wd_isItem (store cd a) \<longrightarrow> unat (wd_mimeType (store cd a)) < Suc (unat (nextMimeIdx cd))"
      using ok by (auto simp: mimes_ok_def less_SucI)
    ultimately show ?thesis
      using ok r cd'(1,2,4,5) i u lt by (auto simp: mimes_ok_def redirectMimeType_def)
  qed
qed

lemma mimes_ok_create:
  assumes ok: "mimes_ok cd" and st: "store cd' = (store cd)(a := e)" "a \<notin> set (dirents cd)"
    "set (dirents cd') \<subseteq> insert a (set (dirents cd))" "wd_isItem e \<longrightarrow> unat (wd_mimeType e) < unat (nextMimeIdx cd)"
    and fr: "mimeTypesMap cd' = mimeTypesMap cd" "rmimeTypesMap cd' = rmimeTypesMap cd" "nextMimeIdx cd' = nextMimeIdx cd"
  shows "mimes_ok cd'"
proof -
  have "unat (wd_mimeType (store cd' x)) < unat (nextMimeIdx cd)" if "x \<in> set (dirents cd')" "wd_isItem (store cd' x)" for x
    using that st ok by (cases "x = a") (auto simp: mimes_ok_def)
  then show ?thesis using ok by (simp add: mimes_ok_def fr)
qed

text \<open>What \<^verbatim>\<open>addDirent\<close> does with a new entry: it is added, replaces a redirection, or is left out.\<close>

lemma addDirent_cases:
  assumes ok: "entries_ok cd" and d: "d \<notin> set (dirents cd)"
  defines "same \<equiv> \<lambda>a. url_key (store cd a) = url_key (store cd d)"
  shows "if \<exists>e\<in>set (dirents cd). same e \<and> \<not> (wd_isRedirect (store cd e) \<and> \<not> wd_isRedirect (store cd d))
    then addDirent d cd = cd
    else set (dirents (addDirent d cd)) = insert d {a \<in> set (dirents cd). \<not> same a}"
proof -
  let ?lt = "UrlCompare (store cd)"
  have s: "sorted_wrt ?lt (dirents cd)" using ok by (simp add: entries_ok_def)
  show ?thesis
  proof (cases "fst (std_insert ?lt d (dirents cd))")
    case None
    have "\<not> same a" if "a \<in> set (dirents cd)" for a
      using url.insert_new [OF s None] that unfolding same_def by (metis imageI)
    then show ?thesis
      using url.insert_new [OF s None] None by (auto simp: addDirent_def Let_def split: prod.splits)
  next
    case (Some e)
    note e = url.insert_found [OF s Some]
    have uniq: "a = e" if "a \<in> set (dirents cd)" "same a" for a
      using url.key_inj [OF s that(1)] e that(2) by (auto simp: same_def)
    show ?thesis
    proof (cases "wd_isRedirect (store cd e) \<and> \<not> wd_isRedirect (store cd d)")
      case False
      then show ?thesis using Some e by (auto simp: addDirent_def Let_def same_def split: prod.splits)
    next
      case True
      let ?ds = "std_erase ?lt e (dirents cd)"
      have er: "sorted_wrt ?lt ?ds" "set ?ds = {y \<in> set (dirents cd). \<not> same y}"
        using url.erase_sorted [OF s, of e] url.erase_set [OF s, of e] e by (auto simp: same_def)
      have "fst (std_insert ?lt d ?ds) = None"
      proof (rule ccontr)
        assume "fst (std_insert ?lt d ?ds) \<noteq> None"
        then obtain y where "fst (std_insert ?lt d ?ds) = Some y" by blast
        from url.insert_found [OF er(1) this] er(2) show False by (auto simp: same_def)
      qed
      from url.insert_new [OF er(1) this] er(2) True Some uniq show ?thesis
        by (auto simp: addDirent_def Let_def split: prod.splits)
    qed
  qed
qed

lemma createDirent_ok:
  assumes ok: "creator_ok cd" "mimes_ok cd" and c: "createDirent ns path mimetype title cd = Inr (a, cd')"
  shows "\<exists>cd1 mime. cd' = addDirent a cd1 \<and> entries_ok cd1 \<and> a \<notin> set (dirents cd) \<and> dirents cd1 = dirents cd \<and>
    store cd1 = (store cd)(a := new_WDirent\<lparr>wd_ns := ns, wd_path := path, wd_mimeType := mime, wd_title := title\<rparr>) \<and>
    mime \<noteq> redirectMimeType \<and> creator_ok cd' \<and> mimes_ok cd' \<and> titleListing cd' = titleListing cd \<and>
    (\<exists>m n. pool cd' = pool_after n \<and> m < n \<and> a = pool_addr m)"
proof -
  obtain mime cd1 where g: "getMimeTypeIdx mimetype cd = Inr (mime, cd1)" using c by (auto simp: createDirent_def rbind_Inr_iff)
  let ?fill = "\<lambda>d. d\<lparr>wd_ns := ns, wd_path := path, wd_mimeType := mime, wd_title := title\<rparr>"
  obtain cd2 where w: "with_dirent ?fill cd1 = (a, cd2)" and cd': "cd' = addDirent a cd2"
    using c g by (auto simp: createDirent_def split: prod.splits)
  have mime: "mimes_ok cd1" "mime \<noteq> redirectMimeType" "unat mime < unat (nextMimeIdx cd1)"
    using mimes_ok_step [OF ok(2) g] by auto
  have ok1: "creator_ok cd1" using getMimeTypeIdx_ok [OF ok(1) g] .
  have "dirent_open (?fill new_WDirent)" using mime(2) by (simp add: dirent_open_def wd_isRedirect_def new_WDirent_def)
  note c2 = create_ok [OF ok1 w this]
  have fr: "mimeTypesMap cd' = mimeTypesMap cd1" "rmimeTypesMap cd' = rmimeTypesMap cd1" "nextMimeIdx cd' = nextMimeIdx cd1"
      "titleListing cd' = titleListing cd"
    using w getMimeTypeIdx_frame(9) [OF g]
    by (auto simp: cd' addDirent_def with_dirent_def Let_def split: prod.splits option.splits)
  have "mimes_ok cd'"
    using mimes_ok_create [OF mime(1) _ _ _ _ fr(1-3), of a "?fill new_WDirent"] c2 mime(3) addDirent_dirents [of a cd2]
    by (auto simp: cd' addDirent_frame)
  with fr(4) c2 mime(2) getMimeTypeIdx_frame [OF g] show ?thesis
    by (intro exI [of _ cd2] exI [of _ mime]) (simp add: cd' addDirent_frame)
qed

lemma createRedirectDirent_ok:
  assumes ok: "creator_ok cd" "mimes_ok cd" and c: "createRedirectDirent ns path title tns tpath cd = (a, cd')"
  shows "creator_ok cd' \<and> mimes_ok cd'"
proof -
  let ?fill = "\<lambda>d. wd_setRedirect None (d\<lparr>wd_ns := ns, wd_path := path, wd_title := title,
         wd_redirectNs := tns, wd_redirectPath := tpath\<rparr>)"
  obtain cd1 where w: "with_dirent ?fill cd = (a, cd1)" and cd': "cd' = addDirent a cd1"
    using c by (auto simp: createRedirectDirent_def split: prod.splits)
  have open': "dirent_open (?fill new_WDirent)" by (simp add: dirent_open_def wd_isRedirect_def wd_setRedirect_def)
  from create_ok [OF ok(1) w open'] have "creator_ok cd'" by (simp add: cd')
  moreover have fr: "mimeTypesMap cd' = mimeTypesMap cd" "rmimeTypesMap cd' = rmimeTypesMap cd" "nextMimeIdx cd' = nextMimeIdx cd"
    using w by (auto simp: cd' addDirent_def with_dirent_def Let_def split: prod.splits option.splits)
  have "mimes_ok cd'"
    using mimes_ok_create [OF ok(2) _ _ _ _ fr, of a "?fill new_WDirent"] create_ok [OF ok(1) w open']
      addDirent_dirents [of a cd1]
    by (auto simp: cd' addDirent_frame wd_isItem_def wd_isRedirect_def wd_setRedirect_def)
  ultimately show ?thesis by simp
qed

lemma closeCluster_fields:
  "clusters (closeCluster b cd) =
     (clusters cd)[current_cluster b cd := (clusters cd ! current_cluster b cd)\<lparr>w_index := of_nat (length (clustersList cd))\<rparr>]
       @ [new_WCluster (if b then cd_compression cd else zimcompNone)]"
  "clustersList (closeCluster b cd) = clustersList cd @ [current_cluster b cd]"
  "compCluster (closeCluster b cd) = (if b then length (clusters cd) else compCluster cd)"
  "uncompCluster (closeCluster b cd) = (if b then uncompCluster cd else length (clusters cd))"
  "store (closeCluster b cd) = store cd" "pool (closeCluster b cd) = pool cd" "dirents (closeCluster b cd) = dirents cd"
  "unresolvedRedirectDirents (closeCluster b cd) = unresolvedRedirectDirents cd"
  "mimeTypesMap (closeCluster b cd) = mimeTypesMap cd" "rmimeTypesMap (closeCluster b cd) = rmimeTypesMap cd"
  "nextMimeIdx (closeCluster b cd) = nextMimeIdx cd" "titleListing (closeCluster b cd) = titleListing cd"
  by (simp_all add: closeCluster_def current_cluster_def Let_def mimes_ok_def)

lemma closeCluster_ok:
  assumes ok: "clusters_ok cd"
  shows "clusters_ok (closeCluster b cd)"
proof -
  let ?c = "current_cluster b cd"
  have c: "?c < length (clusters cd)" using ok by (simp add: clusters_ok_def current_cluster_def)
  have "\<not> w_closed x" if "x \<in> set (clusters (closeCluster b cd))" for x
  proof -
    have "x \<in> set (clusters cd) \<or> x = (clusters cd ! ?c)\<lparr>w_index := of_nat (length (clustersList cd))\<rparr> \<or>
        x = new_WCluster (if b then cd_compression cd else zimcompNone)"
      using that set_update_subset_insert [of "clusters cd" ?c "(clusters cd ! ?c)\<lparr>w_index := of_nat (length (clustersList cd))\<rparr>"]
      by (auto simp: closeCluster_fields)
    then show ?thesis using ok c by (auto simp: clusters_ok_def new_WCluster_def)
  qed
  then show ?thesis
    using ok by (auto simp: clusters_ok_def closeCluster_fields current_cluster_def)
qed

text \<open>What stays the same about the entries while contents are added.\<close>

definition same_entries :: "CreatorData \<Rightarrow> CreatorData \<Rightarrow> bool" where
  "same_entries cd cd' \<longleftrightarrow> dirents cd' = dirents cd \<and> unresolvedRedirectDirents cd' = unresolvedRedirectDirents cd \<and>
     pool cd' = pool cd \<and> titleListing cd' = titleListing cd \<and> mimeTypesMap cd' = mimeTypesMap cd \<and>
     rmimeTypesMap cd' = rmimeTypesMap cd \<and> nextMimeIdx cd' = nextMimeIdx cd \<and>
     (\<forall>a. url_key (store cd' a) = url_key (store cd a) \<and> wd_mimeType (store cd' a) = wd_mimeType (store cd a) \<and>
        dirent_open (store cd' a) = dirent_open (store cd a))"

lemma same_entries_redirect: "same_entries cd cd' \<Longrightarrow> wd_isRedirect (store cd' a) = wd_isRedirect (store cd a)"
  unfolding same_entries_def wd_isRedirect_def by metis

lemma same_entries_mimes:
  assumes "same_entries cd cd'" "mimes_ok cd"
  shows "mimes_ok cd'"
proof -
  have "wd_mimeType (store cd' a) = wd_mimeType (store cd a)" for a
    using assms(1) unfolding same_entries_def by blast
  moreover have "wd_isItem (store cd' a) = wd_isItem (store cd a)" for a
    using same_entries_redirect [OF assms(1), of a] by (simp add: wd_isItem_def)
  ultimately show ?thesis using assms by (simp add: same_entries_def mimes_ok_def)
qed

lemma same_entries_trans: "same_entries a b \<Longrightarrow> same_entries b c \<Longrightarrow> same_entries a c"
  by (simp add: same_entries_def)

lemma same_entries_ok:
  assumes "same_entries cd cd'" "entries_ok cd"
  shows "entries_ok cd'"
proof -
  have "sorted_wrt (UrlCompare (store cd')) xs = sorted_wrt (UrlCompare (store cd)) xs" for xs
    using assms(1) unfolding same_entries_def by (intro sorted_url_cong) blast
  moreover note same_entries_redirect [OF assms(1)]
  moreover have "dirents cd' = dirents cd" "unresolvedRedirectDirents cd' = unresolvedRedirectDirents cd"
    using assms(1) by (simp_all add: same_entries_def)
  ultimately show ?thesis using assms(2) by (simp add: entries_ok_def)
qed

lemma make_room_ok:
  assumes "clusters_ok cd"
  shows "\<exists>cd'. make_room n b cd = Inr cd' \<and> clusters_ok cd' \<and> same_entries cd cd' \<and> store cd' = store cd"
proof -
  have "\<not> w_closed (clusters cd ! current_cluster b cd)"
    using assms by (auto simp: clusters_ok_def current_cluster_def)
  then show ?thesis
    using assms closeCluster_ok [OF assms, of b]
    by (auto simp: make_room_def Let_def wcluster_size_def same_entries_def closeCluster_fields)
qed

lemma w_closed_addContent: "w_closed (addContent p c) = w_closed c"
  by (simp add: addContent_def Let_def)

lemma place_content_ok:
  assumes ok: "clusters_ok cd" and d: "wd_isItem (store cd d)" "wd_info (store cd d) = DirectInfo n k"
  shows "\<exists>cd' e. place_content d provider b cd = Inr cd' \<and> clusters_ok cd' \<and> same_entries cd cd' \<and>
    store cd' = (store cd)(d := e)"
proof -
  let ?c = "current_cluster b cd"
  let ?d = "(store cd d)\<lparr>wd_cluster := Some ?c, wd_info := DirectInfo n (w_count (clusters cd ! ?c))\<rparr>"
  let ?cs = "(clusters cd)[?c := addContent provider (clusters cd ! ?c)]"
  have set: "wd_setCluster ?c (w_count (clusters cd ! ?c)) (store cd d) = Inr ?d"
    using d by (simp add: wd_setCluster_def)
  have c: "?c < length (clusters cd)" using ok by (simp add: clusters_ok_def current_cluster_def)
  have "\<not> w_closed x" if "x \<in> set ?cs" for x
    using that ok c set_update_subset_insert [of "clusters cd" ?c "addContent provider (clusters cd ! ?c)"]
    by (auto simp: clusters_ok_def w_closed_addContent)
  moreover have "wd_mimeType ?d = wd_mimeType (store cd d)" "url_key ?d = url_key (store cd d)"
    "dirent_open ?d = dirent_open (store cd d)"
    using d by (simp_all add: wd_isRedirect_def url_key_def dirent_open_def wd_isItem_def)
  ultimately show ?thesis
    using ok set by (auto simp: place_content_def Let_def same_entries_def clusters_ok_def)
qed

lemma addItemData_ok:
  assumes ok: "creator_ok cd" "mimes_ok cd" and d: "wd_isItem (store cd d)" "\<exists>n k. wd_info (store cd d) = DirectInfo n k"
    and alloc: "\<exists>m n. pool cd = pool_after n \<and> m < n \<and> d = pool_addr m"
  shows "\<exists>cd'. addItemData d provider b cd = Inr cd' \<and> creator_ok cd' \<and> same_entries cd cd'"
proof -
  let ?cd0 = "if provider_getSize provider > 0 then cd\<lparr>cd_isEmpty := False\<rparr> else cd"
  have 0: "clusters_ok ?cd0" "same_entries cd ?cd0" "store ?cd0 = store cd"
    using ok by (simp_all add: creator_ok_def clusters_ok_def same_entries_def mimes_ok_def)
  obtain cd1 where 1: "make_room (provider_getSize provider) b ?cd0 = Inr cd1" "clusters_ok cd1" "same_entries ?cd0 cd1"
      "store cd1 = store cd"
    using make_room_ok [OF 0(1), of "provider_getSize provider" b] 0(3) by auto
  obtain cd2 e where 2: "place_content d provider b cd1 = Inr cd2" "clusters_ok cd2" "same_entries cd1 cd2"
      "store cd2 = (store cd1)(d := e)"
    using place_content_ok [OF 1(2), of d _ _ provider b] d 1(4) by metis
  have run: "addItemData d provider b cd = Inr cd2" using 1(1) 2(1) by (simp add: addItemData_def Let_def)
  have same: "same_entries cd cd2" using same_entries_trans [OF same_entries_trans [OF 0(2) 1(3)] 2(3)] .
  have "store_ok cd2"
  proof -
    obtain n where n: "pool cd = pool_after n" "set (dirents cd) \<subseteq> pool_addr ` {..<n}"
        "\<forall>m. n \<le> m \<longrightarrow> store cd (pool_addr m) = new_WDirent" "\<forall>m<n. dirent_open (store cd (pool_addr m))"
      using ok(1) unfolding creator_ok_def store_ok_def by blast
    obtain m where m: "m < n" "d = pool_addr m" using alloc n(1) pool_after_inj by metis
    have "store cd2 (pool_addr k) = new_WDirent" if "n \<le> k" for k
      using n(3) m that pool_addr_inj [of k m] 2(4) 1(4) by simp
    moreover have "dirent_open (store cd2 (pool_addr k))" if "k < n" for k
      using n(4) that same unfolding same_entries_def by blast
    moreover have "pool cd2 = pool_after n" "dirents cd2 = dirents cd" using same n(1) by (simp_all add: same_entries_def)
    ultimately show ?thesis using n(2) unfolding store_ok_def by metis
  qed
  then show ?thesis using run same 2(2) same_entries_ok [OF same] ok(1) by (auto simp: creator_ok_def)
qed

section \<open>Histories\<close>

text \<open>The calls an application makes between the start and the end of the creation.\<close>

inductive creator_step :: "CreatorData \<Rightarrow> CreatorData \<Rightarrow> bool" where
  item: "addItem it cd = Inr cd' \<Longrightarrow> creator_step cd cd'"
| metadata: "addMetadata name provider mimetype cd = Inr cd' \<Longrightarrow> creator_step cd cd'"
| redirection: "creator_step cd (addRedirection path title targetPath front cd)"

inductive creator_reachable :: "CreatorData \<Rightarrow> bool" where
  start: "creator_reachable (new_CreatorData ct minSize)"
| step: "creator_reachable cd \<Longrightarrow> creator_step cd cd' \<Longrightarrow> creator_reachable cd'"

lemma cd_handle_frame:
  "creator_ok (cd_handle d f cd) = creator_ok cd" "mimes_ok (cd_handle d f cd) = mimes_ok cd"
  "dirents (cd_handle d f cd) = dirents cd" "store (cd_handle d f cd) = store cd"
  "unresolvedRedirectDirents (cd_handle d f cd) = unresolvedRedirectDirents cd"
  "tl_dirents (titleListing (cd_handle d f cd)) = tl_dirents (titleListing cd) @ [d]"
  by (simp_all add: cd_handle_def handle_v0_def handle_v1_def Let_def creator_ok_def entries_ok_def store_ok_def
      clusters_ok_def mimes_ok_def split: option.splits)

lemma new_CreatorData_ok: "creator_ok (new_CreatorData ct n)" "mimes_ok (new_CreatorData ct n)"
  by (auto simp: creator_ok_def entries_ok_def store_ok_def clusters_ok_def mimes_ok_def new_CreatorData_def
      new_WCluster_def pool_after_def intro!: exI [of _ 0])

lemma new_item_filled:
  assumes "mime \<noteq> redirectMimeType"
  shows "wd_isItem (new_WDirent\<lparr>wd_ns := ns, wd_path := path, wd_mimeType := mime, wd_title := title\<rparr>)"
  using assms by (simp add: wd_isItem_def wd_isRedirect_def)

lemma create_and_add_ok:
  assumes ok: "creator_ok cd" "mimes_ok cd" and c: "createDirent ns path mimetype title cd = Inr (d, cd1)"
  shows "\<exists>cd2. addItemData d provider b cd1 = Inr cd2 \<and> creator_ok cd2 \<and> mimes_ok cd2 \<and> same_entries cd1 cd2"
proof -
  obtain cd0 mime where c0: "cd1 = addDirent d cd0" "mime \<noteq> redirectMimeType" "creator_ok cd1" "mimes_ok cd1"
      "store cd0 = (store cd)(d := new_WDirent\<lparr>wd_ns := ns, wd_path := path, wd_mimeType := mime, wd_title := title\<rparr>)"
      "\<exists>m n. pool cd1 = pool_after n \<and> m < n \<and> d = pool_addr m"
    using createDirent_ok [OF ok c] by blast
  have "store cd1 d = new_WDirent\<lparr>wd_ns := ns, wd_path := path, wd_mimeType := mime, wd_title := title\<rparr>"
    using c0(1,5) by (simp add: addDirent_frame)
  then have "wd_isItem (store cd1 d)" "\<exists>n k. wd_info (store cd1 d) = DirectInfo n k"
    using new_item_filled [OF c0(2)] by (simp_all add: new_WDirent_def)
  from addItemData_ok [OF c0(3,4) this c0(6), of provider b] same_entries_mimes [OF _ c0(4)] show ?thesis by blast
qed

lemma creator_step_ok:
  assumes "creator_step cd cd'" "creator_ok cd" "mimes_ok cd"
  shows "creator_ok cd' \<and> mimes_ok cd'"
  using assms(1)
proof (cases rule: creator_step.cases)
  case (item it)
  then obtain d cd1 cd2 b where "createItemDirent it cd = Inr (d, cd1)" and
      2: "addItemData d (it_provider it) b cd1 = Inr cd2" "cd' = cd_handle d (it_hint_front it) cd2"
    by (auto simp: addItem_def rbind_Inr_iff Let_def)
  then obtain ns path m t where "createDirent ns path m t cd = Inr (d, cd1)" by (auto simp: createItemDirent_def Let_def)
  from create_and_add_ok [OF assms(2,3) this, of "it_provider it" b] 2 show ?thesis by (auto simp: cd_handle_frame)
next
  case (metadata name provider mimetype)
  then obtain d cd1 cd2 where c: "createDirent 77 name mimetype [] cd = Inr (d, cd1)" and
      2: "addItemData d provider (isCompressibleMimetype mimetype) cd1 = Inr cd2" "cd' = cd_handle d None cd2"
    by (auto simp: addMetadata_def rbind_Inr_iff)
  from create_and_add_ok [OF assms(2,3) c, of provider "isCompressibleMimetype mimetype"] 2 show ?thesis
    by (auto simp: cd_handle_frame)
next
  case (redirection path title targetPath front)
  obtain d cd1 where c: "createRedirectDirent 67 path title 67 targetPath cd = (d, cd1)" by fastforce
  from createRedirectDirent_ok [OF assms(2,3) c] show ?thesis by (simp add: redirection addRedirection_def c cd_handle_frame)
qed

lemma creator_reachable_ok: "creator_reachable cd \<Longrightarrow> creator_ok cd \<and> mimes_ok cd"
  by (induction rule: creator_reachable.induct) (auto simp: new_CreatorData_ok dest: creator_step_ok)

end
