(* ===== verification/Creator_Entries.thy ===== *)
theory Creator_Entries
  imports Creator_Data
begin

text \<open>
  Properties of the entries of an archive under construction, over the definitions of \<open>Creator_Data\<close>:
  the order of the entries and who wins a path, the numbering, the resolution of redirections and of
  mime types, and what becomes of the title listing.
\<close>

section \<open>Numbering\<close>

lemma set_indexes_other: "a \<notin> set ds \<Longrightarrow> set_indexes i ds st a = st a"
  by (induction ds arbitrary: i st) auto

lemma set_indexes_nth:
  "distinct ds \<Longrightarrow> k < length ds \<Longrightarrow> set_indexes i ds st (ds ! k) = (st (ds ! k))\<lparr>wd_idx := i + of_nat k\<rparr>"
proof (induction ds arbitrary: i st k)
  case (Cons d ds)
  show ?case
  proof (cases k)
    case 0
    then show ?thesis using Cons.prems by (simp add: set_indexes_other)
  next
    case (Suc k')
    then have "ds ! k' \<noteq> d" using Cons.prems by (metis distinct.simps(2) length_Cons not_less_eq nth_mem)
    then show ?thesis using Suc Cons.prems Cons.IH [of k' "i + 1" "st(d := (st d)\<lparr>wd_idx := i\<rparr>)"]
      by (simp add: add.assoc fun_upd_def)
  qed
qed simp

lemma distinct_dirents: "entries_ok cd \<Longrightarrow> distinct (dirents cd)"
proof -
  have "sorted_wrt (UrlCompare st) xs \<Longrightarrow> distinct xs" for st xs
    by (induction xs) (auto simp: url.lt_key)
  then show "entries_ok cd \<Longrightarrow> distinct (dirents cd)" by (auto simp: entries_ok_def)
qed

section \<open>Redirections\<close>

lemma resolve_one_keys:
  "url_key (store (resolve_one d cd) a) = url_key (store cd a)"
  "wd_isRedirect (store cd d) \<Longrightarrow> wd_isRedirect (store (resolve_one d cd) a) = wd_isRedirect (store cd a)"
  "wd_redirectNs (store (resolve_one d cd) a) = wd_redirectNs (store cd a)"
  "wd_redirectPath (store (resolve_one d cd) a) = wd_redirectPath (store cd a)"
  by (auto simp: resolve_one_def Let_def url_key_def wd_isRedirect_def wd_setRedirect_def markRemoved_def split: option.splits)

definition target_key :: "WDirent \<Rightarrow> int \<times> bytes" where
  "target_key d = url_key (WDirent_key (wd_redirectNs d) (wd_redirectPath d))"

lemma resolve_search:
  assumes "sorted_wrt (UrlCompare (store cd)) (dirents cd)"
  shows "std_search (\<lambda>a. compareUrl (store cd a) tmp) (\<lambda>a. compareUrl tmp (store cd a)) (dirents cd) = Some t \<longleftrightarrow>
      t \<in> set (dirents cd) \<and> url_key (store cd t) = url_key tmp"
    and "std_search (\<lambda>a. compareUrl (store cd a) tmp) (\<lambda>a. compareUrl tmp (store cd a)) (dirents cd) = None \<longleftrightarrow>
      url_key tmp \<notin> (\<lambda>a. url_key (store cd a)) ` set (dirents cd)"
  unfolding compareUrl_url_key by (rule url.search_key [OF assms] url.search_none [OF assms])+

text \<open>One round: a redirection with a target gets it, one without is removed.\<close>

lemma resolve_one_cases:
  assumes s: "sorted_wrt (UrlCompare (store cd)) (dirents cd)" and d: "d \<in> set (dirents cd)"
  shows "if \<exists>t\<in>set (dirents cd). url_key (store cd t) = target_key (store cd d)
    then dirents (resolve_one d cd) = dirents cd \<and>
      (\<exists>t\<in>set (dirents cd). url_key (store cd t) = target_key (store cd d) \<and>
         store (resolve_one d cd) = (store cd)(d := wd_setRedirect (Some t) (store cd d)))
    else set (dirents (resolve_one d cd)) = set (dirents cd) - {d} \<and>
      store (resolve_one d cd) = (store cd)(d := markRemoved (store cd d))"
proof -
  let ?tmp = "WDirent_key (wd_redirectNs (store cd d)) (wd_redirectPath (store cd d))"
  let ?search = "std_search (\<lambda>a. compareUrl (store cd a) ?tmp) (\<lambda>a. compareUrl ?tmp (store cd a)) (dirents cd)"
  show ?thesis
  proof (cases ?search)
    case None
    have "set (std_erase (UrlCompare (store cd)) d (dirents cd)) = set (dirents cd) - {d}"
      using url.erase_set [OF s, of d] url.key_inj [OF s _ d] by auto
    moreover have "\<not> (\<exists>t\<in>set (dirents cd). url_key (store cd t) = target_key (store cd d))"
      using resolve_search(2) [OF s, of ?tmp] None unfolding target_key_def by (metis imageI)
    ultimately show ?thesis using None by (simp add: resolve_one_def Let_def)
  next
    case (Some t)
    then have "t \<in> set (dirents cd)" "url_key (store cd t) = target_key (store cd d)"
      using resolve_search(1) [OF s, of ?tmp t] by (auto simp: target_key_def)
    with Some show ?thesis by (auto simp: resolve_one_def Let_def)
  qed
qed

lemma resolve_one_sorted:
  assumes "sorted_wrt (UrlCompare (store cd)) (dirents cd)"
  shows "sorted_wrt (UrlCompare (store (resolve_one d cd))) (dirents (resolve_one d cd))"
proof -
  have "sorted_wrt (UrlCompare (store cd)) (dirents (resolve_one d cd))"
    using assms url.erase_sorted [OF assms, of d] by (auto simp: resolve_one_def Let_def split: option.splits)
  then show ?thesis using sorted_url_cong [of "dirents (resolve_one d cd)" "store (resolve_one d cd)" "store cd"]
    by (simp add: resolve_one_keys)
qed

text \<open>The state of the loop: \<open>D\<close> are the redirections it has seen.\<close>

definition resolved :: "CreatorData \<Rightarrow> addr set \<Rightarrow> CreatorData \<Rightarrow> bool" where
  "resolved cd0 D cd \<longleftrightarrow>
     sorted_wrt (UrlCompare (store cd)) (dirents cd) \<and> set (dirents cd) \<subseteq> set (dirents cd0) \<and>
     set (dirents cd0) - D \<subseteq> set (dirents cd) \<and>
     (\<forall>a. url_key (store cd a) = url_key (store cd0 a) \<and> wd_isRedirect (store cd a) = wd_isRedirect (store cd0 a) \<and>
        target_key (store cd a) = target_key (store cd0 a)) \<and>
     (\<forall>a\<in>D. if a \<in> set (dirents cd)
        then \<exists>t\<in>set (dirents cd0). wd_info (store cd a) = RedirectInfo (Some t) \<and> url_key (store cd0 t) = target_key (store cd0 a)
        else wd_removed (store cd a))"

lemma resolved_step:
  assumes r: "resolved cd0 D cd" and d: "d \<in> set (dirents cd0)" "d \<notin> D" "wd_isRedirect (store cd0 d)"
  shows "resolved cd0 (insert d D) (resolve_one d cd)"
proof -
  let ?cd = "resolve_one d cd"
  have s: "sorted_wrt (UrlCompare (store cd)) (dirents cd)" using r by (simp add: resolved_def)
  have keys: "url_key (store cd a) = url_key (store cd0 a)" "wd_isRedirect (store cd a) = wd_isRedirect (store cd0 a)"
    "target_key (store cd a) = target_key (store cd0 a)" for a
    using r unfolding resolved_def by blast+
  have dd: "d \<in> set (dirents cd)" using r d by (auto simp: resolved_def)
  have sub: "set (dirents cd) \<subseteq> set (dirents cd0)" "set (dirents cd0) - D \<subseteq> set (dirents cd)"
    using r by (simp_all add: resolved_def)
  have old: "if a \<in> set (dirents cd)
        then \<exists>t\<in>set (dirents cd0). wd_info (store cd a) = RedirectInfo (Some t) \<and> url_key (store cd0 t) = target_key (store cd0 a)
        else wd_removed (store cd a)" if "a \<in> D" for a
    using r that unfolding resolved_def by blast
  have 1: "sorted_wrt (UrlCompare (store ?cd)) (dirents ?cd)" using resolve_one_sorted [OF s] .
  have 2: "url_key (store ?cd a) = url_key (store cd0 a)" "wd_isRedirect (store ?cd a) = wd_isRedirect (store cd0 a)"
    "target_key (store ?cd a) = target_key (store cd0 a)" for a
    using keys d(3) by (simp_all add: resolve_one_keys target_key_def)
  show ?thesis
  proof (cases "\<exists>t\<in>set (dirents cd). url_key (store cd t) = target_key (store cd d)")
    case True
    then obtain t where t: "t \<in> set (dirents cd)" "url_key (store cd t) = target_key (store cd d)"
        "store ?cd = (store cd)(d := wd_setRedirect (Some t) (store cd d))" and ds: "dirents ?cd = dirents cd"
      using resolve_one_cases [OF s dd] by auto
    have "if a \<in> set (dirents ?cd)
        then \<exists>t\<in>set (dirents cd0). wd_info (store ?cd a) = RedirectInfo (Some t) \<and> url_key (store cd0 t) = target_key (store cd0 a)
        else wd_removed (store ?cd a)" if "a \<in> insert d D" for a
      using that old [of a] d(2) dd t ds sub(1) keys by (cases "a = d") (auto simp: wd_setRedirect_def)
    with 1 2 sub ds show ?thesis unfolding resolved_def by auto
  next
    case False
    then have ds: "set (dirents ?cd) = set (dirents cd) - {d}" "store ?cd = (store cd)(d := markRemoved (store cd d))"
      using resolve_one_cases [OF s dd] by auto
    have "if a \<in> set (dirents ?cd)
        then \<exists>t\<in>set (dirents cd0). wd_info (store ?cd a) = RedirectInfo (Some t) \<and> url_key (store cd0 t) = target_key (store cd0 a)
        else wd_removed (store ?cd a)" if "a \<in> insert d D" for a
      using that old [of a] d(2) ds by (cases "a = d") (auto simp: markRemoved_def)
    with 1 2 sub ds(1) show ?thesis unfolding resolved_def by auto
  qed
qed

lemma resolved_fold:
  "resolved cd0 D cd \<Longrightarrow> set us \<subseteq> {a \<in> set (dirents cd0). wd_isRedirect (store cd0 a)} \<Longrightarrow> distinct us \<Longrightarrow>
   set us \<inter> D = {} \<Longrightarrow> resolved cd0 (D \<union> set us) (fold resolve_one us cd)"
proof (induction us arbitrary: D cd)
  case (Cons u us)
  then have "resolved cd0 (insert u D) (resolve_one u cd)" by (intro resolved_step) auto
  from Cons.IH [OF this] Cons.prems show ?case by (auto simp: insert_commute Un_insert_left)
qed simp

lemma resolveRedirectIndexes_resolved:
  assumes "entries_ok cd"
  shows "resolved cd (set (unresolvedRedirectDirents cd)) (resolveRedirectIndexes cd)"
proof -
  have "resolved cd {} cd" using assms by (simp add: resolved_def entries_ok_def)
  moreover have "distinct (unresolvedRedirectDirents cd)"
    using distinct_dirents [of "cd\<lparr>dirents := unresolvedRedirectDirents cd, unresolvedRedirectDirents := unresolvedRedirectDirents cd\<rparr>"] assms
    by (simp add: entries_ok_def)
  ultimately show ?thesis
    using resolved_fold [of cd "{}" cd "unresolvedRedirectDirents cd"] assms
    by (simp add: resolveRedirectIndexes_def entries_ok_def)
qed

section \<open>Properties of the entries\<close>

text \<open>C25: Whatever is added, in whatever order and however often: the set of entries stays strictly ordered by
  namespace and path (no two entries have the same place), the redirections waiting for their target are
  exactly the redirections among the entries, no cluster in progress is closed or already listed, and no
  cluster is listed twice.\<close>

theorem creator_entries_ordered:
  assumes "creator_reachable cd"
  shows "sorted_wrt (UrlCompare (store cd)) (dirents cd) \<and>
    set (unresolvedRedirectDirents cd) = {a \<in> set (dirents cd). wd_isRedirect (store cd a)} \<and>
    distinct (clustersList cd) \<and> {compCluster cd, uncompCluster cd} \<inter> set (clustersList cd) = {}"
  using creator_reachable_ok [OF assms] by (auto simp: creator_ok_def entries_ok_def clusters_ok_def)

theorem creator_entries_ordered_witness:
  "let cd = addRedirection (str ''a'') [] (str ''b'') None (new_CreatorData zimcompNone 1) in
   dirents cd = [(0, 0)] \<and> set (unresolvedRedirectDirents cd) = {a \<in> set (dirents cd). wd_isRedirect (store cd a)}"
proof -
  let ?cd = "addRedirection (str ''a'') [] (str ''b'') None (new_CreatorData zimcompNone 1)"
  have "creator_reachable ?cd" by (rule creator_reachable.step [OF creator_reachable.start creator_step.redirection])
  moreover have "dirents ?cd = [(0, 0)]" by code_simp
  ultimately show ?thesis using creator_entries_ordered [of ?cd] unfolding Let_def by blast
qed

lemma addItem_unfold:
  assumes "addItem it cd = Inr cd'"
  obtains d cd1 cd2 m b where "createDirent 67 (it_path it) m (it_title it) cd = Inr (d, cd1)"
    "addItemData d (it_provider it) b cd1 = Inr cd2" "cd' = cd_handle d (it_hint_front it) cd2"
  using assms by (auto simp: addItem_def createItemDirent_def rbind_Inr_iff Let_def)

lemma addItem_effect:
  assumes r: "creator_reachable cd" and a: "addItem it cd = Inr cd'"
  defines "same \<equiv> \<lambda>a. wd_ns (store cd a) = 67 \<and> wd_path (store cd a) = it_path it"
  shows "\<exists>d. d \<notin> set (dirents cd) \<and> tl_dirents (titleListing cd') = tl_dirents (titleListing cd) @ [d] \<and>
    \<not> wd_isRedirect (store cd' d) \<and> wd_ns (store cd' d) = 67 \<and> wd_path (store cd' d) = it_path it \<and>
    (if \<exists>e\<in>set (dirents cd). same e \<and> \<not> wd_isRedirect (store cd e) then dirents cd' = dirents cd
     else set (dirents cd') = insert d {a \<in> set (dirents cd). \<not> same a})"
proof -
  from r have ok: "creator_ok cd" "mimes_ok cd" using creator_reachable_ok by blast+
  obtain d cd1 cd2 m b where c: "createDirent 67 (it_path it) m (it_title it) cd = Inr (d, cd1)"
      and d: "addItemData d (it_provider it) b cd1 = Inr cd2" and h: "cd' = cd_handle d (it_hint_front it) cd2"
    using addItem_unfold [OF a] .
  obtain cd0 mime where c0: "cd1 = addDirent d cd0" "entries_ok cd0" "d \<notin> set (dirents cd)" "dirents cd0 = dirents cd"
      "store cd0 = (store cd)(d := new_WDirent\<lparr>wd_ns := 67, wd_path := it_path it, wd_mimeType := mime, wd_title := it_title it\<rparr>)"
      "mime \<noteq> redirectMimeType" "titleListing cd1 = titleListing cd"
    using createDirent_ok [OF ok c] by blast
  have same2: "same_entries cd1 cd2" using create_and_add_ok [OF ok c, of "it_provider it" b] d by auto
  have keys: "url_key (store cd' d) = url_key (store cd0 d)" "wd_mimeType (store cd' d) = wd_mimeType (store cd0 d)"
    using same2 unfolding same_entries_def h cd_handle_frame c0(1) addDirent_frame by blast+
  have ds: "dirents cd' = dirents (addDirent d cd0)" "tl_dirents (titleListing cd') = tl_dirents (titleListing cd) @ [d]"
    using same2 c0(7) by (simp_all add: same_entries_def h cd_handle_frame c0(1))
  have same: "url_key (store cd0 e) = url_key (store cd0 d) \<longleftrightarrow> same e" if "e \<in> set (dirents cd)" for e
    using that c0(3,5) by (auto simp: url_key_eq same_def)
  have other: "store cd0 e = store cd e" if "e \<in> set (dirents cd)" for e using that c0(3,5) by auto
  have item: "\<not> wd_isRedirect (store cd0 d)" using c0(5,6) by (simp add: wd_isRedirect_def)
  have "(if \<exists>e\<in>set (dirents cd). same e \<and> \<not> wd_isRedirect (store cd e) then dirents cd' = dirents cd
     else set (dirents cd') = insert d {a \<in> set (dirents cd). \<not> same a})"
  proof (cases "\<exists>e\<in>set (dirents cd). same e \<and> \<not> wd_isRedirect (store cd e)")
    case True
    then have "\<exists>e\<in>set (dirents cd0). url_key (store cd0 e) = url_key (store cd0 d) \<and>
        \<not> (wd_isRedirect (store cd0 e) \<and> \<not> wd_isRedirect (store cd0 d))"
      using same other unfolding c0(4) by metis
    with addDirent_cases [OF c0(2), of d] c0(3,4) have "addDirent d cd0 = cd0" by simp
    with True ds(1) c0(4) show ?thesis by simp
  next
    case False
    then have "\<not> (\<exists>e\<in>set (dirents cd0). url_key (store cd0 e) = url_key (store cd0 d) \<and>
        \<not> (wd_isRedirect (store cd0 e) \<and> \<not> wd_isRedirect (store cd0 d)))"
      using same other item unfolding c0(4) by metis
    with addDirent_cases [OF c0(2), of d] c0(3,4)
    have "set (dirents (addDirent d cd0)) = insert d {a \<in> set (dirents cd). url_key (store cd0 a) \<noteq> url_key (store cd0 d)}" by simp
    with False ds(1) same show ?thesis by auto
  qed
  moreover have "wd_ns (store cd' d) = 67 \<and> wd_path (store cd' d) = it_path it \<and> \<not> wd_isRedirect (store cd' d)"
    using keys c0(5,6) by (simp add: url_key_eq wd_isRedirect_def)
  ultimately show ?thesis using c0(3) ds(2) by blast
qed

text \<open>C26: Who wins a path. Adding an item where an item already is leaves the entries as they were; otherwise
  the new item becomes the entry of that path, in place of a redirection that had it, and every other
  entry stays.\<close>

theorem addItem_precedence:
  assumes "creator_reachable cd" "addItem it cd = Inr cd'"
  defines "same \<equiv> \<lambda>a. wd_ns (store cd a) = 67 \<and> wd_path (store cd a) = it_path it"
  shows "if \<exists>e\<in>set (dirents cd). same e \<and> \<not> wd_isRedirect (store cd e) then dirents cd' = dirents cd
    else \<exists>d. d \<notin> set (dirents cd) \<and> set (dirents cd') = insert d {a \<in> set (dirents cd). \<not> same a} \<and>
      \<not> wd_isRedirect (store cd' d) \<and> wd_ns (store cd' d) = 67 \<and> wd_path (store cd' d) = it_path it"
  using addItem_effect [OF assms(1,2)] unfolding same_def by (simp split: if_splits) blast

text \<open>C28: A rejected item still shows up in the listing by title. When an item is added at a path that already has
  one, the new entry joins no set, but it is appended to the title listing, is not marked as removed, and
  so survives the filter of \<^verbatim>\<open>stop\<close>.\<close>

theorem duplicate_item_stays_listed:
  assumes "creator_reachable cd" "addItem it cd = Inr cd'"
    "\<exists>e\<in>set (dirents cd). wd_ns (store cd e) = 67 \<and> wd_path (store cd e) = it_path it \<and> \<not> wd_isRedirect (store cd e)"
  shows "\<exists>d. d \<in> set (tl_dirents (titleListing cd')) \<and> d \<notin> set (dirents cd') \<and>
    length (tl_dirents (titleListing cd')) = length (tl_dirents (titleListing cd)) + 1 \<and>
    wd_path (store cd' d) = it_path it"
  using addItem_effect [OF assms(1,2)] assms(3) by (simp split: if_splits) fastforce

text \<open>Two items at one path, for the examples below.\<close>

definition example_item :: "bytes \<Rightarrow> Item" where
  "example_item content = \<lparr>it_path = str ''a'', it_title = [], it_mimetype = str ''text/html'', it_hint_compress = None,
     it_hint_front = None, it_provider = new_StringProvider content\<rparr>"

definition example_first :: CreatorData where
  "example_first = (case addItem (example_item [1, 2]) (new_CreatorData zimcompNone 1) of Inr cd \<Rightarrow> cd | Inl _ \<Rightarrow> new_CreatorData zimcompNone 1)"

lemma example_first_added:
  "addItem (example_item [1, 2]) (new_CreatorData zimcompNone 1) = Inr example_first" "creator_reachable example_first"
  "dirents example_first = [(0, 0)]" "wd_ns (store example_first (0, 0)) = 67" "wd_path (store example_first (0, 0)) = str ''a''"
  "\<not> wd_isRedirect (store example_first (0, 0))"
proof -
  have "\<not> isl (addItem (example_item [1, 2]) (new_CreatorData zimcompNone 1))" by code_simp
  then show add: "addItem (example_item [1, 2]) (new_CreatorData zimcompNone 1) = Inr example_first"
    by (cases "addItem (example_item [1, 2]) (new_CreatorData zimcompNone 1)") (simp_all add: example_first_def)
  show "creator_reachable example_first"
    by (rule creator_reachable.step [OF creator_reachable.start creator_step.item [OF add]])
  show "dirents example_first = [(0, 0)]" "wd_ns (store example_first (0, 0)) = 67" "wd_path (store example_first (0, 0)) = str ''a''"
    "\<not> wd_isRedirect (store example_first (0, 0))" by code_simp+
qed

theorem addItem_precedence_witness:
  "\<exists>d. set (dirents example_first) = {d} \<and> wd_path (store example_first d) = str ''a''"
  using addItem_precedence [OF creator_reachable.start example_first_added(1)]
  by (simp add: new_CreatorData_def example_item_def) blast

theorem duplicate_item_stays_listed_witness:
  "\<exists>cd' d. addItem (example_item [3]) example_first = Inr cd' \<and> d \<in> set (tl_dirents (titleListing cd')) \<and> d \<notin> set (dirents cd')"
proof -
  have "\<not> isl (addItem (example_item [3]) example_first)" by code_simp
  then obtain cd' where add: "addItem (example_item [3]) example_first = Inr cd'" by (cases "addItem (example_item [3]) example_first") simp_all
  have "\<exists>e\<in>set (dirents example_first). wd_ns (store example_first e) = 67 \<and>
      wd_path (store example_first e) = it_path (example_item [3]) \<and> \<not> wd_isRedirect (store example_first e)"
    using example_first_added(3-6) by (simp add: example_item_def)
  from duplicate_item_stays_listed [OF example_first_added(2) add this] add show ?thesis by blast
qed

lemma resolved_redirects:
  assumes "creator_reachable cd"
  defines "cd' \<equiv> resolveRedirectIndexes cd"
  shows "sorted_wrt (UrlCompare (store cd')) (dirents cd')"
    and "\<forall>a. url_key (store cd' a) = url_key (store cd a)"
    and "\<forall>a\<in>set (dirents cd). \<not> wd_isRedirect (store cd a) \<longrightarrow> a \<in> set (dirents cd')"
    and "\<forall>a\<in>set (dirents cd). wd_isRedirect (store cd a) \<longrightarrow>
      (if a \<in> set (dirents cd')
       then \<exists>t\<in>set (dirents cd). wd_info (store cd' a) = RedirectInfo (Some t) \<and>
         wd_ns (store cd t) = wd_redirectNs (store cd a) \<and> wd_path (store cd t) = wd_redirectPath (store cd a)
       else wd_removed (store cd' a))"
proof -
  have e: "entries_ok cd" using creator_reachable_ok [OF assms(1)] by (simp add: creator_ok_def)
  note r = resolveRedirectIndexes_resolved [OF e, folded cd'_def, unfolded resolved_def target_key_def]
  have u: "set (unresolvedRedirectDirents cd) = {a \<in> set (dirents cd). wd_isRedirect (store cd a)}"
    using e by (simp add: entries_ok_def)
  show "sorted_wrt (UrlCompare (store cd')) (dirents cd')" using r by blast
  show "\<forall>a. url_key (store cd' a) = url_key (store cd a)" using r by blast
  show "\<forall>a\<in>set (dirents cd). \<not> wd_isRedirect (store cd a) \<longrightarrow> a \<in> set (dirents cd')" using r u by blast
  show "\<forall>a\<in>set (dirents cd). wd_isRedirect (store cd a) \<longrightarrow>
      (if a \<in> set (dirents cd')
       then \<exists>t\<in>set (dirents cd). wd_info (store cd' a) = RedirectInfo (Some t) \<and>
         wd_ns (store cd t) = wd_redirectNs (store cd a) \<and> wd_path (store cd t) = wd_redirectPath (store cd a)
       else wd_removed (store cd' a))"
  proof (intro ballI impI)
    fix a assume "a \<in> set (dirents cd)" "wd_isRedirect (store cd a)"
    then have "a \<in> set (unresolvedRedirectDirents cd)" using u by blast
    with r have "if a \<in> set (dirents cd')
       then \<exists>t\<in>set (dirents cd). wd_info (store cd' a) = RedirectInfo (Some t) \<and>
         url_key (store cd t) = url_key (WDirent_key (wd_redirectNs (store cd a)) (wd_redirectPath (store cd a)))
       else wd_removed (store cd' a)" by blast
    then show "if a \<in> set (dirents cd')
       then \<exists>t\<in>set (dirents cd). wd_info (store cd' a) = RedirectInfo (Some t) \<and>
         wd_ns (store cd t) = wd_redirectNs (store cd a) \<and> wd_path (store cd t) = wd_redirectPath (store cd a)
       else wd_removed (store cd' a)"
      unfolding url_key_eq by (auto simp: WDirent_key_def split: if_splits)
  qed
qed

text \<open>C27: Resolving the redirections keeps every item, in order; a redirection that is left has as its target an
  entry of the path it names, and a redirection whose path nobody has is taken out and marked as removed.\<close>

theorem redirects_resolved:
  assumes "creator_reachable cd"
  defines "cd' \<equiv> resolveRedirectIndexes cd"
  shows "sorted_wrt (UrlCompare (store cd')) (dirents cd') \<and>
    (\<forall>a. url_key (store cd' a) = url_key (store cd a)) \<and>
    (\<forall>a\<in>set (dirents cd). \<not> wd_isRedirect (store cd a) \<longrightarrow> a \<in> set (dirents cd')) \<and>
    (\<forall>a\<in>set (dirents cd). wd_isRedirect (store cd a) \<longrightarrow>
      (if a \<in> set (dirents cd')
       then \<exists>t\<in>set (dirents cd). wd_info (store cd' a) = RedirectInfo (Some t) \<and>
         wd_ns (store cd t) = wd_redirectNs (store cd a) \<and> wd_path (store cd t) = wd_redirectPath (store cd a)
       else wd_removed (store cd' a)))"
  unfolding cd'_def using resolved_redirects [OF assms(1)] by blast

definition example_redirect :: CreatorData where
  "example_redirect = addRedirection (str ''b'') [] (str ''a'') None example_first"

theorem redirects_resolved_witness:
  "let cd' = resolveRedirectIndexes example_redirect in
   dirents cd' = [(0, 0), (0, 1)] \<and> wd_info (store cd' (0, 1)) = RedirectInfo (Some (0, 0))"
proof -
  let ?cd = "example_redirect" and ?cd' = "resolveRedirectIndexes example_redirect"
  have r: "creator_reachable ?cd"
    unfolding example_redirect_def by (rule creator_reachable.step [OF example_first_added(2) creator_step.redirection])
  have 1: "dirents ?cd' = [(0, 0), (0, 1)]" "dirents ?cd = [(0, 0), (0, 1)]" by code_simp+
  have 2: "wd_isRedirect (store ?cd (0, 1))" "wd_path (store ?cd (0, 1)) = str ''b''" "wd_redirectPath (store ?cd (0, 1)) = str ''a''" by code_simp+
  have 3: "str ''b'' \<noteq> str ''a''" by code_simp
  show ?thesis using redirects_resolved [OF r] 1 2 3 by (auto simp: Let_def)
qed

text \<open>A chain of redirections that ends nowhere leaves a redirection to a wrong entry. Here \<open>a\<close> redirects to \<open>b\<close>
  and \<open>b\<close> to a path nobody has: \<open>a\<close> is resolved first and gets \<open>b\<close> as its target, then \<open>b\<close> is removed; the
  only entry left is \<open>a\<close>, and the index it is written with, 0, is its own.\<close>

theorem dangling_chain_redirects_to_itself:
  "let cd = addRedirection (str ''b'') [] (str ''zz'') None (addRedirection (str ''a'') [] (str ''b'') None (new_CreatorData zimcompNone 1));
       cd' = setEntryIndexes (resolveRedirectIndexes cd) in
   dirents cd' = [(0, 0)] \<and> wd_path (store cd' (0, 0)) = str ''a'' \<and> wd_removed (store cd' (0, 1)) \<and>
   wd_info (store cd' (0, 0)) = RedirectInfo (Some (0, 1)) \<and> wd_getRedirectIndex (store cd') (store cd' (0, 0)) = Inr 0"
  unfolding Let_def by (intro conjI; code_simp)

section \<open>Mime types\<close>

lemma mime_mapping_last:
  assumes "length xs < 65536" "n \<le> length xs" "\<exists>j<n. xs ! j = m"
  shows "\<exists>j<n. foldl (\<lambda>k j. if m = xs ! j then of_nat j else k) (0 :: u16) [0..<n] = of_nat j \<and> xs ! j = m"
  using assms(2,3)
proof (induction n)
  case (Suc n)
  show ?case
  proof (cases "xs ! n = m")
    case True
    then show ?thesis by (intro exI [of _ n]) simp
  next
    case False
    then have "\<exists>j<n. xs ! j = m" using Suc.prems by (metis less_Suc_eq)
    with Suc obtain j where "j < n" "foldl (\<lambda>k j. if m = xs ! j then of_nat j else k) (0 :: u16) [0..<n] = of_nat j" "xs ! j = m"
      by auto
    with False show ?thesis by (intro exI [of _ j]) simp
  qed
qed simp

lemma mime_mapping_nth:
  assumes "length xs < 65536" "m \<in> set xs"
  shows "unat (mime_mapping xs m) < length xs \<and> xs ! unat (mime_mapping xs m) = m"
proof -
  obtain j where "j < length xs" "mime_mapping xs m = of_nat j" "xs ! j = m"
    using mime_mapping_last [OF assms(1) order.refl, of m] assms(2) unfolding mime_mapping_def in_set_conv_nth by blast
  then show ?thesis using assms(1) by (simp add: unat_of_nat_small)
qed

lemma map_mimes_ok:
  assumes "distinct ds" "\<forall>d\<in>set ds. wd_isItem (st d) \<longrightarrow> unat (wd_mimeType (st d)) < length mapping"
  shows "\<exists>st'. map_mimes mapping ds st = Inr st' \<and> (\<forall>a. st' a =
    (if a \<in> set ds \<and> wd_isItem (st a) then (st a)\<lparr>wd_mimeType := mapping ! unat (wd_mimeType (st a))\<rparr> else st a))"
  using assms
proof (induction ds arbitrary: st)
  case (Cons d ds)
  let ?st = "if wd_isItem (st d) then st(d := (st d)\<lparr>wd_mimeType := mapping ! unat (wd_mimeType (st d))\<rparr>) else st"
  have "\<forall>e\<in>set ds. wd_isItem (?st e) \<longrightarrow> unat (wd_mimeType (?st e)) < length mapping" using Cons.prems by auto
  with Cons.IH [of ?st] Cons.prems(1) obtain st' where st': "map_mimes mapping ds ?st = Inr st'"
      "\<forall>a. st' a = (if a \<in> set ds \<and> wd_isItem (?st a) then (?st a)\<lparr>wd_mimeType := mapping ! unat (wd_mimeType (?st a))\<rparr> else ?st a)"
    by auto
  have "map_mimes mapping (d # ds) st = Inr st'" using st'(1) Cons.prems(2) by (simp split: if_splits)
  moreover have "st' a = (if a \<in> set (d # ds) \<and> wd_isItem (st a)
      then (st a)\<lparr>wd_mimeType := mapping ! unat (wd_mimeType (st a))\<rparr> else st a)" for a
    using spec [OF st'(2), of a] Cons.prems(1) by (cases "a = d") (auto split: if_splits)
  ultimately show ?case by blast
qed simp

text \<open>The list of the mime types is filled by the resolution only.\<close>

lemma addDirent_mimeTypesList: "mimeTypesList (addDirent d cd) = mimeTypesList cd"
  by (auto simp: addDirent_def Let_def split: prod.splits option.splits)

lemma createDirent_mimeTypesList: "createDirent ns p m t cd = Inr (d, cd') \<Longrightarrow> mimeTypesList cd' = mimeTypesList cd"
  by (auto simp: createDirent_def rbind_Inr_iff getMimeTypeIdx_def with_dirent_def addDirent_mimeTypesList
      split: prod.splits option.splits if_splits)

lemma closeCluster_mimeTypesList: "mimeTypesList (closeCluster b cd) = mimeTypesList cd"
  by (simp add: closeCluster_def Let_def)

lemma addItemData_mimeTypesList: "addItemData d p b cd = Inr cd' \<Longrightarrow> mimeTypesList cd' = mimeTypesList cd"
  by (auto simp: addItemData_def make_room_def place_content_def rbind_Inr_iff Let_def closeCluster_mimeTypesList split: if_splits)

lemma cd_handle_mimeTypesList: "mimeTypesList (cd_handle d f cd) = mimeTypesList cd"
  by (simp add: cd_handle_def handle_v0_def handle_v1_def Let_def split: option.splits)

lemma reachable_mimeTypesList: "creator_reachable cd \<Longrightarrow> mimeTypesList cd = []"
proof (induction rule: creator_reachable.induct)
  case (step cd cd')
  from step.hyps(2) show ?case
  proof cases
    case (item it)
    from addItem_unfold [OF item] step.IH show ?thesis
      by (metis createDirent_mimeTypesList addItemData_mimeTypesList cd_handle_mimeTypesList)
  next
    case (metadata name provider mimetype)
    then show ?thesis using step.IH
      by (auto simp: addMetadata_def rbind_Inr_iff cd_handle_mimeTypesList dest!: createDirent_mimeTypesList addItemData_mimeTypesList)
  next
    case redirection
    then show ?thesis using step.IH
      by (auto simp: addRedirection_def createRedirectDirent_def with_dirent_def cd_handle_mimeTypesList addDirent_mimeTypesList
          split: prod.splits)
  qed
qed (simp add: new_CreatorData_def)

text \<open>Once the mime types are sorted, every item still has the mime type it was created with: the index it now
  holds names that string in the sorted list. No item's index falls outside of the table of the mapping.\<close>

theorem mime_types_resolved:
  assumes "creator_reachable cd"
  shows "\<exists>cd'. resolveMimeTypes cd = Inr cd' \<and> sorted (mimeTypesList cd') \<and> dirents cd' = dirents cd \<and>
    (\<forall>a\<in>set (dirents cd). wd_isItem (store cd a) \<longrightarrow>
       unat (wd_mimeType (store cd' a)) < length (mimeTypesList cd') \<and>
       getMimeType (wd_mimeType (store cd a)) cd = Inr (mimeTypesList cd' ! unat (wd_mimeType (store cd' a))))"
proof -
  have ok: "creator_ok cd" "mimes_ok cd" "mimeTypesList cd = []"
    using creator_reachable_ok [OF assms] reachable_mimeTypesList [OF assms] by auto
  let ?r = "rmimeTypesMap cd" and ?new = "sort (map snd (rmimeTypesMap cd))"
  let ?map = "map (mime_mapping ?new) (map snd ?r)"
  have fsts: "map fst ?r = map of_nat [0..<unat (nextMimeIdx cd)]" using ok(2) by (simp add: mimes_ok_def)
  have len: "length ?r = unat (nextMimeIdx cd)" using arg_cong [OF fsts, of length] by simp
  have small: "length ?new < 65536" using len unat_bound [of "nextMimeIdx cd"] by simp
  have idx: "\<forall>a\<in>set (dirents cd). wd_isItem (store cd a) \<longrightarrow> unat (wd_mimeType (store cd a)) < length ?map"
    using ok(2) len by (simp add: mimes_ok_def)
  have "distinct (dirents cd)" using ok(1) distinct_dirents by (simp add: creator_ok_def)
  from map_mimes_ok [OF this idx] obtain st where st: "map_mimes ?map (dirents cd) (store cd) = Inr st"
    "\<forall>a. st a = (if a \<in> set (dirents cd) \<and> wd_isItem (store cd a)
       then (store cd a)\<lparr>wd_mimeType := ?map ! unat (wd_mimeType (store cd a))\<rparr> else store cd a)" by blast
  have run: "resolveMimeTypes cd = Inr (cd\<lparr>mimeTypesList := ?new, store := st\<rparr>)"
    using st(1) by (simp add: resolveMimeTypes_def ok(3) Let_def)
  have "unat (wd_mimeType (st a)) < length ?new \<and> getMimeType (wd_mimeType (store cd a)) cd = Inr (?new ! unat (wd_mimeType (st a)))"
    if a: "a \<in> set (dirents cd)" "wd_isItem (store cd a)" for a
  proof -
    let ?i = "unat (wd_mimeType (store cd a))"
    have i: "?i < length ?r" using idx a by simp
    have "fst (?r ! ?i) = wd_mimeType (store cd a)"
      using i len arg_cong [OF fsts, of "\<lambda>l. l ! ?i"] by simp
    moreover have "distinct (map fst ?r)"
      unfolding fsts using unat_bound [of "nextMimeIdx cd"]
      by (auto simp: distinct_map inj_on_def of_nat_inverse dest: arg_cong [where f = unat])
    ultimately have "map_of ?r (wd_mimeType (store cd a)) = Some (snd (?r ! ?i))"
      using i by (metis map_of_is_SomeI nth_mem prod.collapse)
    moreover have "wd_mimeType (st a) = mime_mapping ?new (snd (?r ! ?i))"
      using st(2) a i unfolding split_paired_All by (cases a) simp
    moreover have "snd (?r ! ?i) \<in> set ?new" using i by simp
    ultimately show ?thesis using mime_mapping_nth [OF small] by (simp add: getMimeType_def)
  qed
  then show ?thesis using run by (intro exI [of _ "cd\<lparr>mimeTypesList := ?new, store := st\<rparr>"]) simp
qed

theorem mime_types_resolved_witness:
  "\<exists>cd'. resolveMimeTypes example_first = Inr cd' \<and> mimeTypesList cd' ! unat (wd_mimeType (store cd' (0, 0))) = str ''text/html''"
proof -
  have i: "wd_isItem (store example_first (0, 0))" by code_simp
  have m: "getMimeType (wd_mimeType (store example_first (0, 0))) example_first = Inr (str ''text/html'')" by code_simp
  obtain cd' where "resolveMimeTypes example_first = Inr cd'"
    "\<forall>a\<in>set (dirents example_first). wd_isItem (store example_first a) \<longrightarrow>
       unat (wd_mimeType (store cd' a)) < length (mimeTypesList cd') \<and>
       getMimeType (wd_mimeType (store example_first a)) example_first = Inr (mimeTypesList cd' ! unat (wd_mimeType (store cd' a)))"
    using mime_types_resolved [OF example_first_added(2)] by blast
  then show ?thesis using i m example_first_added(3) by (intro exI [of _ cd']) simp
qed

end
