(* ===== verification/Creator_Pipeline.thy ===== *)
theory Creator_Pipeline
  imports Cluster_Writer "HOL-Library.Multiset"
begin

text \<open>
  The threads of a creator: the queue of \<^verbatim>\<open>src/writer/queue.h\<close>, the workers that close clusters and the
  thread that writes them (\<^verbatim>\<open>src/writer/workers.cpp\<close>, \<^verbatim>\<open>src/writer/clusterWorker.cpp\<close>), and the main thread's
  side of it: the two pushes of \<^verbatim>\<open>CreatorData::closeCluster\<close> and the end game of \<^verbatim>\<open>finishZimCreation\<close>
  (\<^verbatim>\<open>src/writer/creator.cpp\<close>).

  Each access to a queue is one step, since it holds the queue's mutex; what a thread does to a cluster
  or to the file between two such accesses is one step too, since no other thread looks at that cluster
  or at the file meanwhile. A thread that polls in vain takes no step.

  Shown here: with at least one worker every run ends, no run gets stuck before its end, and at the
  end every cluster has been written exactly once, in the order of the list of clusters, whatever the
  interleaving; the queues never hold more than eleven elements.
\<close>

section \<open>The queue\<close>

type_synonym 'a Queue = "'a list"

definition MAX_QUEUE_SIZE :: nat where
  "MAX_QUEUE_SIZE = 10"

definition queue_isEmpty :: "'a Queue \<Rightarrow> bool" where
  "queue_isEmpty q = (q = [])"

definition queue_size :: "'a Queue \<Rightarrow> nat" where
  "queue_size q = length q"

definition getHead :: "'a Queue \<Rightarrow> 'a option" where
  "getHead q = (if queue_isEmpty q then None else Some (hd q))"

definition popFromQueue :: "'a Queue \<Rightarrow> ('a \<times> 'a Queue) option" where
  "popFromQueue q = (if queue_isEmpty q then None else Some (hd q, tl q))"

text \<open>\<^verbatim>\<open>pushToQueue\<close> waits until the queue was seen with room, then pushes: two holds of the mutex.\<close>

definition queue_has_room :: "'a Queue \<Rightarrow> bool" where
  "queue_has_room q \<longleftrightarrow> \<not> queue_size q > MAX_QUEUE_SIZE"

definition queue_push :: "'a \<Rightarrow> 'a Queue \<Rightarrow> 'a Queue" where
  "queue_push x q = q @ [x]"

section \<open>The threads\<close>

text \<open>\<open>None\<close> in a queue is the null pointer. The main thread has the clusters \<open>Closing cs\<close> still to close;
  for each it pushes a task and then the cluster. After that come the steps of \<^verbatim>\<open>finishZimCreation\<close>.\<close>

datatype MainPc =
    Closing "nat list"
  | PushedTask nat "nat list"
  | WaitTasks
  | StopWorkers nat
  | JoinWorkers
  | StopWriter
  | JoinWriter
  | MainDone

datatype WorkerPc = WorkerIdle | WorkerRun nat | WorkerDelete | WorkerDone

datatype WriterPc = WriterIdle | WriterPop | WriterWrite nat | WriterDone

record Pipe =
  p_clusters :: "WCluster list"
  p_taskList :: "nat option Queue"
  p_clusterToWrite :: "nat option Queue"
  waiting_task :: nat
  p_main :: MainPc
  m_ready :: bool
  workerThreads :: "WorkerPc list"
  writerThread :: WriterPc
  out_fd :: OutFile
  p_written :: "nat list"
  p_failed :: "zim_error option"

text \<open>A push of the main thread: first the wait, then the push itself.\<close>

definition main_push :: "'a Queue \<Rightarrow> (Pipe \<Rightarrow> Pipe) \<Rightarrow> Pipe \<Rightarrow> Pipe option" where
  "main_push q push s =
     (if m_ready s then Some (push (s\<lparr>m_ready := False\<rparr>))
      else if queue_has_room q then Some (s\<lparr>m_ready := True\<rparr>) else None)"

text \<open>The constructor of \<^verbatim>\<open>ClusterTask\<close> counts the task; nobody looks at the counter between that and the push.\<close>

definition main_step :: "Pipe \<Rightarrow> Pipe option" where
  "main_step s =
     (case p_main s of
        Closing (c # cs) \<Rightarrow> main_push (p_taskList s)
          (\<lambda>s. s\<lparr>waiting_task := waiting_task s + 1, p_taskList := queue_push (Some c) (p_taskList s), p_main := PushedTask c cs\<rparr>) s
      | PushedTask c cs \<Rightarrow> main_push (p_clusterToWrite s)
          (\<lambda>s. s\<lparr>p_clusterToWrite := queue_push (Some c) (p_clusterToWrite s), p_main := Closing cs\<rparr>) s
      | Closing [] \<Rightarrow> Some (s\<lparr>p_main := WaitTasks\<rparr>)
      | WaitTasks \<Rightarrow> if waiting_task s > 0 then None else Some (s\<lparr>p_main := StopWorkers (length (workerThreads s))\<rparr>)
      | StopWorkers (Suc k) \<Rightarrow> main_push (p_taskList s)
          (\<lambda>s. s\<lparr>p_taskList := queue_push None (p_taskList s), p_main := StopWorkers k\<rparr>) s
      | StopWorkers 0 \<Rightarrow> Some (s\<lparr>p_main := JoinWorkers\<rparr>)
      | JoinWorkers \<Rightarrow> if \<forall>w\<in>set (workerThreads s). w = WorkerDone then Some (s\<lparr>p_main := StopWriter\<rparr>) else None
      | StopWriter \<Rightarrow> main_push (p_clusterToWrite s)
          (\<lambda>s. s\<lparr>p_clusterToWrite := queue_push None (p_clusterToWrite s), p_main := JoinWriter\<rparr>) s
      | JoinWriter \<Rightarrow> if writerThread s = WriterDone then Some (s\<lparr>p_main := MainDone\<rparr>) else None
      | MainDone \<Rightarrow> None)"

text \<open>\<^verbatim>\<open>taskRunner\<close>: pop, run the task, delete it. \<open>close_it\<close> is \<^verbatim>\<open>Cluster::close\<close>; an exception it throws ends
  the program.\<close>

definition ClusterTask_run :: "(WCluster \<Rightarrow> WCluster res) \<Rightarrow> nat \<Rightarrow> Pipe \<Rightarrow> Pipe" where
  "ClusterTask_run close_it c s =
     (case close_it (p_clusters s ! c) of
        Inl e \<Rightarrow> s\<lparr>p_failed := Some e\<rparr>
      | Inr c' \<Rightarrow> s\<lparr>p_clusters := (p_clusters s)[c := c']\<rparr>)"

definition taskRunner_step :: "(WCluster \<Rightarrow> WCluster res) \<Rightarrow> nat \<Rightarrow> Pipe \<Rightarrow> Pipe option" where
  "taskRunner_step close_it i s =
     (let goto = (\<lambda>pc s. s\<lparr>workerThreads := (workerThreads s)[i := pc]\<rparr>) in
      case workerThreads s ! i of
        WorkerIdle \<Rightarrow>
          (case popFromQueue (p_taskList s) of
             None \<Rightarrow> None
           | Some (task, q) \<Rightarrow>
               Some (goto (case task of None \<Rightarrow> WorkerDone | Some c \<Rightarrow> WorkerRun c) (s\<lparr>p_taskList := q\<rparr>)))
      | WorkerRun c \<Rightarrow> Some (goto WorkerDelete (ClusterTask_run close_it c s))
      | WorkerDelete \<Rightarrow> Some (goto WorkerIdle (s\<lparr>waiting_task := waiting_task s - 1\<rparr>))
      | WorkerDone \<Rightarrow> None)"

text \<open>\<^verbatim>\<open>clusterWriter\<close>: look at the head, pop it once it is closed, write it where the file ends.\<close>

definition write_cluster :: "(nat \<Rightarrow> byte) \<Rightarrow> nat \<Rightarrow> Pipe \<Rightarrow> Pipe" where
  "write_cluster junk c s =
     (let cluster = (p_clusters s ! c)\<lparr>w_offset := of_nat (f_pos (out_fd s))\<rparr> in
      case w_write posix_write junk cluster (out_fd s) of
        Inl e \<Rightarrow> s\<lparr>p_failed := Some e\<rparr>
      | Inr (cluster', out') \<Rightarrow>
          s\<lparr>p_clusters := (p_clusters s)[c := clear_data cluster'], out_fd := out', p_written := p_written s @ [c]\<rparr>)"

definition clusterWriter_step :: "(nat \<Rightarrow> byte) \<Rightarrow> Pipe \<Rightarrow> Pipe option" where
  "clusterWriter_step junk s =
     (case writerThread s of
        WriterIdle \<Rightarrow>
          (case getHead (p_clusterToWrite s) of
             None \<Rightarrow> None
           | Some None \<Rightarrow> Some (s\<lparr>writerThread := WriterDone\<rparr>)
           | Some (Some c) \<Rightarrow> if w_closed (p_clusters s ! c) then Some (s\<lparr>writerThread := WriterPop\<rparr>) else None)
      | WriterPop \<Rightarrow>
          (case popFromQueue (p_clusterToWrite s) of
             Some (Some c, q) \<Rightarrow> Some (s\<lparr>p_clusterToWrite := q, writerThread := WriterWrite c\<rparr>)
           | _ \<Rightarrow> Some (s\<lparr>p_failed := Some MemoryFault\<rparr>))
      | WriterWrite c \<Rightarrow> Some ((write_cluster junk c s)\<lparr>writerThread := WriterIdle\<rparr>)
      | WriterDone \<Rightarrow> None)"

definition pipe_start :: "nat \<Rightarrow> nat list \<Rightarrow> WCluster list \<Rightarrow> OutFile \<Rightarrow> Pipe" where
  "pipe_start n cs clusters out = \<lparr>p_clusters = clusters, p_taskList = [], p_clusterToWrite = [], waiting_task = 0,
     p_main = Closing cs, m_ready = False, workerThreads = replicate n WorkerIdle, writerThread = WriterIdle,
     out_fd = out, p_written = [], p_failed = None\<rparr>"

inductive pipe_step :: "(WCluster \<Rightarrow> WCluster res) \<Rightarrow> (nat \<Rightarrow> byte) \<Rightarrow> Pipe \<Rightarrow> Pipe \<Rightarrow> bool"
  for close_it junk where
  main: "p_failed s = None \<Longrightarrow> main_step s = Some s' \<Longrightarrow> pipe_step close_it junk s s'"
| worker: "p_failed s = None \<Longrightarrow> i < length (workerThreads s) \<Longrightarrow> taskRunner_step close_it i s = Some s' \<Longrightarrow>
    pipe_step close_it junk s s'"
| writer: "p_failed s = None \<Longrightarrow> clusterWriter_step junk s = Some s' \<Longrightarrow> pipe_step close_it junk s s'"

lemmas queue_defs = queue_isEmpty_def queue_size_def getHead_def popFromQueue_def queue_has_room_def queue_push_def

section \<open>Every run ends\<close>

fun main_left :: "nat \<Rightarrow> MainPc \<Rightarrow> nat" where
  "main_left n (Closing cs) = 12 * length cs + 4 * n + 12"
| "main_left n (PushedTask c cs) = 12 * length cs + 4 * n + 18"
| "main_left n WaitTasks = 4 * n + 11"
| "main_left n (StopWorkers k) = 4 * k + 10"
| "main_left n JoinWorkers = 9"
| "main_left n StopWriter = 8"
| "main_left n JoinWriter = 5"
| "main_left n MainDone = 0"

fun worker_left :: "WorkerPc \<Rightarrow> nat" where
  "worker_left (WorkerRun c) = 2"
| "worker_left WorkerDelete = 1"
| "worker_left _ = 0"

fun writer_left :: "WriterPc \<Rightarrow> nat" where
  "writer_left WriterIdle = 1"
| "writer_left (WriterWrite c) = 2"
| "writer_left _ = 0"

definition queue_left :: "nat \<Rightarrow> nat option Queue \<Rightarrow> nat" where
  "queue_left w q = sum_list (map (\<lambda>x. if x = None then 1 else w) q)"

definition pipe_left :: "Pipe \<Rightarrow> nat" where
  "pipe_left s = main_left (length (workerThreads s)) (p_main s) + (if m_ready s then 0 else 1) +
     sum_list (map worker_left (workerThreads s)) + writer_left (writerThread s) + queue_left 3 (p_taskList s) +
     queue_left 4 (p_clusterToWrite s) + (if p_failed s = None then 1 else 0)"

lemma queue_left_simps [simp]:
  "queue_left w [] = 0" "queue_left w (x # q) = (if x = None then 1 else w) + queue_left w q"
  "queue_left w (q @ q') = queue_left w q + queue_left w q'"
  by (simp_all add: queue_left_def)

lemma main_step_left: "main_step s = Some s' \<Longrightarrow> p_failed s = None \<Longrightarrow> pipe_left s' < pipe_left s"
  by (auto simp: main_step_def main_push_def pipe_left_def queue_push_def split: MainPc.splits list.splits nat.splits if_splits)

lemma worker_left_update:
  assumes "i < length ws"
  shows "sum_list (map worker_left (ws[i := w])) + worker_left (ws ! i) = sum_list (map worker_left ws) + worker_left w"
  using sum_list_update [of i "map worker_left ws" "worker_left w"] assms elem_le_sum_list [of i "map worker_left ws"]
  by (simp add: map_update)

lemma taskRunner_step_left:
  assumes "i < length (workerThreads s)" "taskRunner_step close_it i s = Some s'" "p_failed s = None"
  shows "pipe_left s' < pipe_left s"
proof -
  obtain w where "workerThreads s' = (workerThreads s)[i := w]"
      "worker_left w + queue_left 3 (p_taskList s') < worker_left (workerThreads s ! i) + queue_left 3 (p_taskList s)"
      "p_main s' = p_main s" "m_ready s' = m_ready s" "writerThread s' = writerThread s" "p_clusterToWrite s' = p_clusterToWrite s"
    using assms(2)
    by (cases "p_taskList s")
      (auto simp: taskRunner_step_def ClusterTask_run_def queue_defs Let_def split: WorkerPc.splits option.splits sum.splits)
  then show ?thesis using worker_left_update [OF assms(1), of w] assms(3) by (auto simp: pipe_left_def)
qed

lemma clusterWriter_step_left:
  "clusterWriter_step junk s = Some s' \<Longrightarrow> p_failed s = None \<Longrightarrow> pipe_left s' < pipe_left s"
  by (cases "p_clusterToWrite s")
    (auto simp: clusterWriter_step_def write_cluster_def pipe_left_def queue_defs Let_def
      split: WriterPc.splits option.splits sum.splits if_splits)

lemma pipe_step_left: "pipe_step close_it junk s s' \<Longrightarrow> pipe_left s' < pipe_left s"
  by (induction rule: pipe_step.induct)
    (auto dest: main_step_left taskRunner_step_left clusterWriter_step_left)

section \<open>What holds at every moment\<close>

text \<open>A cluster that closes and is then written as \<open>b\<close>, wherever the file ends.\<close>

definition cluster_prepared :: "(WCluster \<Rightarrow> WCluster res) \<Rightarrow> (nat \<Rightarrow> byte) \<Rightarrow> WCluster \<Rightarrow> bytes \<Rightarrow> bool" where
  "cluster_prepared close_it junk c0 b \<longleftrightarrow> \<not> w_closed c0 \<and>
     (\<exists>c1. close_it c0 = Inr c1 \<and> w_closed c1 \<and>
        (\<forall>out bs. file_padded out bs \<longrightarrow>
           (\<exists>c2 out'. w_write posix_write junk (c1\<lparr>w_offset := of_nat (f_pos out)\<rparr>) out = Inr (c2, out') \<and>
              file_at_end out' (bs @ b) \<and> cluster_done c0 (of_nat (length bs)) c2)))"

fun somes :: "'a option list \<Rightarrow> 'a list" where
  "somes [] = []"
| "somes (None # xs) = somes xs"
| "somes (Some x # xs) = x # somes xs"

lemma somes_append [simp]: "somes (xs @ ys) = somes xs @ somes ys"
  by (induction xs rule: somes.induct) auto

lemma somes_map_Some [simp]: "somes (map Some xs) = xs"
  by (induction xs) auto

definition running :: "WorkerPc multiset \<Rightarrow> nat multiset" where
  "running ws = (\<Sum>w\<in>#ws. case w of WorkerRun c \<Rightarrow> {#c#} | _ \<Rightarrow> {#})"

lemma running_simps [simp]:
  "running {#} = {#}" "running (add_mset w ws) = (case w of WorkerRun c \<Rightarrow> {#c#} | _ \<Rightarrow> {#}) + running ws"
  by (simp_all add: running_def)

lemma worker_split:
  assumes "i < length ws"
  obtains R where "mset ws = add_mset (ws ! i) R" "\<And>w. mset (ws[i := w]) = add_mset w R"
proof
  show "mset ws = add_mset (ws ! i) (mset ws - {#ws ! i#})" using assms by simp
  show "mset (ws[i := w]) = add_mset w (mset ws - {#ws ! i#})" for w using assms by (simp add: mset_update)
qed

fun pending_tasks :: "MainPc \<Rightarrow> nat list" where
  "pending_tasks (Closing cs) = cs"
| "pending_tasks (PushedTask c cs) = cs"
| "pending_tasks _ = []"

fun pending_writes :: "MainPc \<Rightarrow> nat list" where
  "pending_writes (Closing cs) = cs"
| "pending_writes (PushedTask c cs) = c # cs"
| "pending_writes _ = []"

fun pending_nulls :: "nat \<Rightarrow> MainPc \<Rightarrow> nat" where
  "pending_nulls n (Closing cs) = n"
| "pending_nulls n (PushedTask c cs) = n"
| "pending_nulls n WaitTasks = n"
| "pending_nulls n (StopWorkers k) = k"
| "pending_nulls n _ = 0"

fun tasks_over :: "MainPc \<Rightarrow> bool" where
  "tasks_over (Closing cs) = False"
| "tasks_over (PushedTask c cs) = False"
| "tasks_over WaitTasks = False"
| "tasks_over _ = True"

definition in_writer :: "WriterPc \<Rightarrow> nat list" where
  "in_writer w = (case w of WriterWrite c \<Rightarrow> [c] | _ \<Rightarrow> [])"

definition open_tasks :: "Pipe \<Rightarrow> nat multiset" where
  "open_tasks s = running (mset (workerThreads s)) + mset (somes (p_taskList s)) + mset (pending_tasks (p_main s))"

definition threads_ok :: "nat \<Rightarrow> nat list \<Rightarrow> Pipe \<Rightarrow> bool" where
  "threads_ok n cs s \<longleftrightarrow> p_failed s = None \<and> length (workerThreads s) = n \<and>
     p_written s @ in_writer (writerThread s) @ somes (p_clusterToWrite s) @ pending_writes (p_main s) = cs \<and>
     open_tasks s \<subseteq># mset cs \<and>
     waiting_task s = size (running (mset (workerThreads s))) + count (mset (workerThreads s)) WorkerDelete + length (somes (p_taskList s)) \<and>
     count (mset (p_taskList s)) None + count (mset (workerThreads s)) WorkerDone + pending_nulls n (p_main s) = n \<and>
     (tasks_over (p_main s) \<longrightarrow> waiting_task s = 0) \<and>
     (p_main s \<in> {StopWriter, JoinWriter, MainDone} \<longrightarrow> (\<forall>w\<in>set (workerThreads s). w = WorkerDone)) \<and>
     (if p_main s \<in> {JoinWriter, MainDone} then \<exists>q. p_clusterToWrite s = q @ [None] \<and> None \<notin> set q
      else None \<notin> set (p_clusterToWrite s)) \<and>
     (writerThread s = WriterPop \<longrightarrow> (\<exists>c q. p_clusterToWrite s = Some c # q \<and> c \<notin># open_tasks s)) \<and>
     (\<forall>c. writerThread s = WriterWrite c \<longrightarrow> c \<notin># open_tasks s) \<and>
     (writerThread s = WriterDone \<longrightarrow> p_clusterToWrite s = [None]) \<and>
     (p_main s = MainDone \<longrightarrow> writerThread s = WriterDone)"

definition contents_ok ::
    "(WCluster \<Rightarrow> WCluster res) \<Rightarrow> (nat \<Rightarrow> bytes) \<Rightarrow> bytes \<Rightarrow> WCluster list \<Rightarrow> nat list \<Rightarrow> Pipe \<Rightarrow> bool" where
  "contents_ok close_it b pre cl cs s \<longleftrightarrow> length (p_clusters s) = length cl \<and>
     (\<forall>c\<in>set cs. if c \<in># open_tasks s then p_clusters s ! c = cl ! c
        else c \<in> set (p_written s) \<or> close_it (cl ! c) = Inr (p_clusters s ! c)) \<and>
     (\<forall>k<length (p_written s). cluster_done (cl ! (p_written s ! k))
        (of_nat (length (pre @ concat (map b (take k (p_written s)))))) (p_clusters s ! (p_written s ! k))) \<and>
     file_padded (out_fd s) (pre @ concat (map b (p_written s))) \<and>
     (p_written s \<noteq> [] \<longrightarrow> file_at_end (out_fd s) (pre @ concat (map b (p_written s))))"

lemma ready_irrelevant: "threads_ok n cs (s\<lparr>m_ready := b\<rparr>) = threads_ok n cs s" "open_tasks (s\<lparr>m_ready := b\<rparr>) = open_tasks s"
  by (simp_all add: threads_ok_def open_tasks_def)

lemma main_step_cases:
  assumes "main_step s = Some s'"
  obtains "s' = s\<lparr>m_ready := True\<rparr>"
  | c cs where "p_main s = Closing (c # cs)" "s' = s\<lparr>m_ready := False, waiting_task := waiting_task s + 1,
      p_taskList := p_taskList s @ [Some c], p_main := PushedTask c cs\<rparr>"
  | c cs where "p_main s = PushedTask c cs"
      "s' = s\<lparr>m_ready := False, p_clusterToWrite := p_clusterToWrite s @ [Some c], p_main := Closing cs\<rparr>"
  | "p_main s = Closing []" "s' = s\<lparr>p_main := WaitTasks\<rparr>"
  | "p_main s = WaitTasks" "waiting_task s = 0" "s' = s\<lparr>p_main := StopWorkers (length (workerThreads s))\<rparr>"
  | k where "p_main s = StopWorkers (Suc k)"
      "s' = s\<lparr>m_ready := False, p_taskList := p_taskList s @ [None], p_main := StopWorkers k\<rparr>"
  | "p_main s = StopWorkers 0" "s' = s\<lparr>p_main := JoinWorkers\<rparr>"
  | "p_main s = JoinWorkers" "\<forall>w\<in>set (workerThreads s). w = WorkerDone" "s' = s\<lparr>p_main := StopWriter\<rparr>"
  | "p_main s = StopWriter"
      "s' = s\<lparr>m_ready := False, p_clusterToWrite := p_clusterToWrite s @ [None], p_main := JoinWriter\<rparr>"
  | "p_main s = JoinWriter" "writerThread s = WriterDone" "s' = s\<lparr>p_main := MainDone\<rparr>"
proof -
  note defs = main_step_def main_push_def queue_push_def
  show thesis
  proof (cases "p_main s")
    case (Closing cs)
    then show thesis using assms that(1,2,4) by (cases cs) (simp_all add: defs split: if_splits)
  next
    case (StopWorkers k)
    then show thesis using assms that(1,6,7) by (cases k) (simp_all add: defs split: if_splits)
  next
    case (PushedTask c cs)
    then show thesis using assms that(1,3) by (simp add: defs split: if_splits)
  next
    case StopWriter
    then show thesis using assms that(1,9) by (simp add: defs split: if_splits)
  qed (use assms that(5,8,10) in \<open>simp_all add: main_step_def split: if_splits\<close>)
qed

lemma main_step_ok:
  assumes ok: "threads_ok n cs s" and step: "main_step s = Some s'"
  shows "threads_ok n cs s' \<and> open_tasks s' = open_tasks s \<and> p_clusters s' = p_clusters s \<and> p_written s' = p_written s \<and>
    out_fd s' = out_fd s"
  using step
proof (cases rule: main_step_cases)
  case 1
  with ok show ?thesis by (simp add: ready_irrelevant)
next
  case (3 c l)
  have "writerThread s \<noteq> WriterDone"
    using ok 3(1) by (auto simp: threads_ok_def)
  then show ?thesis using ok 3(1) by (auto simp: 3(2) threads_ok_def open_tasks_def)
next
  case 9
  have "writerThread s \<noteq> WriterDone"
    using ok 9(1) by (auto simp: threads_ok_def)
  then show ?thesis using ok 9(1) by (auto simp: 9(2) threads_ok_def open_tasks_def)
qed (use ok in \<open>auto simp: threads_ok_def open_tasks_def\<close>)

lemma count_le_distinct: "M \<subseteq># mset cs \<Longrightarrow> distinct cs \<Longrightarrow> count M c \<le> 1"
  by (metis distinct_count_atmost_1 count_mset_0_iff mset_subset_eq_count le_trans le_zero_eq nle_le order.refl zero_le)

lemma pop_cases: "popFromQueue q = Some (x, q') \<longleftrightarrow> q = x # q'"
  by (cases q) (auto simp: popFromQueue_def queue_isEmpty_def)

lemma taskRunner_step_ok:
  assumes ok: "threads_ok n cs s" and i: "i < length (workerThreads s)"
    and step: "taskRunner_step close_it i s = Some s'" and dist: "distinct cs"
    and run: "\<And>c. workerThreads s ! i = WorkerRun c \<Longrightarrow> \<exists>c'. close_it (p_clusters s ! c) = Inr c'"
  shows "threads_ok n cs s' \<and> p_written s' = p_written s \<and> out_fd s' = out_fd s \<and>
    (if \<exists>c. workerThreads s ! i = WorkerRun c
     then \<exists>c c'. open_tasks s = add_mset c (open_tasks s') \<and> c \<notin># open_tasks s' \<and> c \<in> set cs \<and>
       close_it (p_clusters s ! c) = Inr c' \<and> p_clusters s' = (p_clusters s)[c := c']
     else open_tasks s' = open_tasks s \<and> p_clusters s' = p_clusters s)"
proof -
  obtain R where R: "mset (workerThreads s) = add_mset (workerThreads s ! i) R"
      "\<And>w. mset ((workerThreads s)[i := w]) = add_mset w R" using worker_split [OF i] by metis
  show ?thesis
  proof (cases "workerThreads s ! i")
    case WorkerIdle
    then obtain task q where q: "p_taskList s = task # q" and
        s': "s' = s\<lparr>p_taskList := q, workerThreads := (workerThreads s)[i := case task of None \<Rightarrow> WorkerDone | Some c \<Rightarrow> WorkerRun c]\<rparr>"
      using step by (auto simp: taskRunner_step_def Let_def pop_cases split: option.splits prod.splits)
    have late: "\<not> p_main s \<in> {StopWriter, JoinWriter, MainDone}"
      using ok WorkerIdle i unfolding threads_ok_def by (metis WorkerPc.distinct(5) nth_mem)
    show ?thesis
      using ok late R WorkerIdle q unfolding s' by (cases task) (auto simp: threads_ok_def open_tasks_def)
  next
    case (WorkerRun c)
    then obtain c' where c': "close_it (p_clusters s ! c) = Inr c'" using run by blast
    have s': "s' = s\<lparr>p_clusters := (p_clusters s)[c := c'], workerThreads := (workerThreads s)[i := WorkerDelete]\<rparr>"
      using step WorkerRun c' by (auto simp: taskRunner_step_def ClusterTask_run_def Let_def)
    have o: "open_tasks s = add_mset c (open_tasks s')" using R WorkerRun by (simp add: s' open_tasks_def)
    have "count (open_tasks s) c \<le> 1" using ok dist by (intro count_le_distinct) (auto simp: threads_ok_def)
    then have "c \<notin># open_tasks s'" using o by (simp add: not_in_iff)
    moreover have "c \<in> set cs" using ok o unfolding threads_ok_def by (metis mset_subset_eqD set_mset_mset union_single_eq_member)
    moreover have "\<not> tasks_over (p_main s)" using ok R(1) WorkerRun by (auto simp: threads_ok_def)
    moreover have "open_tasks s' \<subseteq># mset cs" using ok o by (auto simp: threads_ok_def dest: mset_subset_eq_insertD intro: subset_mset.less_imp_le)
    ultimately show ?thesis
      using ok R WorkerRun c' o by (auto simp: s' threads_ok_def)
  next
    case WorkerDelete
    then have s': "s' = s\<lparr>waiting_task := waiting_task s - 1, workerThreads := (workerThreads s)[i := WorkerIdle]\<rparr>"
      using step by (auto simp: taskRunner_step_def Let_def)
    have o: "open_tasks s' = open_tasks s" using R WorkerDelete by (simp add: s' open_tasks_def)
    have w: "waiting_task s = Suc (size (running R) + count R WorkerDelete + length (somes (p_taskList s)))"
      using ok R(1) WorkerDelete by (simp add: threads_ok_def)
    have "\<not> tasks_over (p_main s)" using ok w by (auto simp: threads_ok_def)
    moreover from this have "p_main s \<notin> {StopWriter, JoinWriter, MainDone}" by auto
    ultimately have "threads_ok n cs s'"
      using ok R w WorkerDelete unfolding threads_ok_def o by (simp add: s')
    then show ?thesis using o WorkerDelete by (simp add: s')
  next
    case WorkerDone
    then show ?thesis using step by (simp add: taskRunner_step_def Let_def)
  qed
qed

definition all_prepared ::
    "(WCluster \<Rightarrow> WCluster res) \<Rightarrow> (nat \<Rightarrow> byte) \<Rightarrow> (nat \<Rightarrow> bytes) \<Rightarrow> WCluster list \<Rightarrow> nat list \<Rightarrow> bool" where
  "all_prepared close_it junk b cl cs \<longleftrightarrow> distinct cs \<and>
     (\<forall>c\<in>set cs. c < length cl \<and> cluster_prepared close_it junk (cl ! c) (b c))"

lemma queue_in_cs: "threads_ok n cs s \<Longrightarrow> Some c \<in> set (p_clusterToWrite s) \<Longrightarrow> c \<in> set cs"
proof -
  have *: "Some c \<in> set q \<Longrightarrow> c \<in> set (somes q)" for q by (induction q rule: somes.induct) auto
  show "threads_ok n cs s \<Longrightarrow> Some c \<in> set (p_clusterToWrite s) \<Longrightarrow> c \<in> set cs"
    using * unfolding threads_ok_def by (metis Un_iff set_append)
qed

lemma head_closed:
  assumes "threads_ok n cs s" "contents_ok close_it b pre cl cs s" "all_prepared close_it junk b cl cs"
    and "p_clusterToWrite s = Some c # q"
  shows "w_closed (p_clusters s ! c) \<longleftrightarrow> c \<notin># open_tasks s"
proof -
  have c: "c \<in> set cs" using queue_in_cs [OF assms(1)] assms(4) by simp
  have d: "distinct cs" and p: "cluster_prepared close_it junk (cl ! c) (b c)" using assms(3) c by (auto simp: all_prepared_def)
  have "p_written s @ in_writer (writerThread s) @ c # somes q @ pending_writes (p_main s) = cs"
    using assms(1,4) by (auto simp: threads_ok_def)
  then have "c \<notin> set (p_written s)" using d by auto
  with assms(2) c p show ?thesis by (auto simp: contents_ok_def cluster_prepared_def)
qed

lemma write_cluster_ok:
  assumes ok: "threads_ok n cs s" "contents_ok close_it b pre cl cs s" "all_prepared close_it junk b cl cs"
    and w: "writerThread s = WriterWrite c"
  shows "threads_ok n cs ((write_cluster junk c s)\<lparr>writerThread := WriterIdle\<rparr>) \<and>
    contents_ok close_it b pre cl cs ((write_cluster junk c s)\<lparr>writerThread := WriterIdle\<rparr>)"
proof -
  have cs: "p_written s @ c # somes (p_clusterToWrite s) @ pending_writes (p_main s) = cs"
    using ok(1) w by (simp add: threads_ok_def in_writer_def)
  then have c: "c \<in> set cs" by auto
  have d: "distinct cs" and p: "cluster_prepared close_it junk (cl ! c) (b c)" and len: "c < length cl"
    using ok(3) c by (auto simp: all_prepared_def)
  have nw: "c \<notin> set (p_written s)" using d unfolding cs [symmetric] by simp
  have no: "c \<notin># open_tasks s" using ok(1) w by (simp add: threads_ok_def)
  have cl: "close_it (cl ! c) = Inr (p_clusters s ! c)" using ok(2) c nw no by (auto simp: contents_ok_def)
  have out: "file_padded (out_fd s) (pre @ concat (map b (p_written s)))" using ok(2) by (simp add: contents_ok_def)
  obtain c2 out' where wr: "w_write posix_write junk ((p_clusters s ! c)\<lparr>w_offset := of_nat (f_pos (out_fd s))\<rparr>) (out_fd s) = Inr (c2, out')"
      "file_at_end out' ((pre @ concat (map b (p_written s))) @ b c)"
      "cluster_done (cl ! c) (of_nat (length (pre @ concat (map b (p_written s))))) c2"
    using p cl out unfolding cluster_prepared_def by fastforce
  let ?s = "s\<lparr>p_clusters := (p_clusters s)[c := clear_data c2], out_fd := out', p_written := p_written s @ [c], writerThread := WriterIdle\<rparr>"
  have s': "(write_cluster junk c s)\<lparr>writerThread := WriterIdle\<rparr> = ?s" using wr(1) by (simp add: write_cluster_def Let_def)
  have o: "open_tasks ?s = open_tasks s" by (simp add: open_tasks_def)
  have t: "threads_ok n cs ?s" using ok(1) w unfolding threads_ok_def o by (auto simp: in_writer_def)
  have len': "c < length (p_clusters s)" using ok(2) len by (simp add: contents_ok_def)
  have "cluster_done (cl ! ((p_written s @ [c]) ! k)) (of_nat (length (pre @ concat (map b (take k (p_written s @ [c]))))))
      ((p_clusters s)[c := clear_data c2] ! ((p_written s @ [c]) ! k))" if "k < length (p_written s @ [c])" for k
  proof (cases "k = length (p_written s)")
    case True
    then show ?thesis using wr(3) len' by (simp add: cluster_done_def clear_data_def clear_compressed_data_def clear_raw_data_def)
  next
    case False
    then have k: "k < length (p_written s)" using that by simp
    then have "p_written s ! k \<noteq> c" using nw by (metis nth_mem)
    with ok(2) k show ?thesis by (simp add: contents_ok_def nth_append)
  qed
  moreover have "if e \<in># open_tasks s then (p_clusters s)[c := clear_data c2] ! e = cl ! e
        else e \<in> set (p_written s @ [c]) \<or> close_it (cl ! e) = Inr ((p_clusters s)[c := clear_data c2] ! e)" if "e \<in> set cs" for e
    using ok(2) that no by (cases "e = c") (auto simp: contents_ok_def)
  moreover have "length ((p_clusters s)[c := clear_data c2]) = length cl" "file_at_end out' (pre @ concat (map b (p_written s @ [c])))"
    "file_padded out' (pre @ concat (map b (p_written s @ [c])))"
    using ok(2) wr(2) by (simp_all add: contents_ok_def file_at_end_padded)
  moreover have "p_clusters ?s = (p_clusters s)[c := clear_data c2]" "p_written ?s = p_written s @ [c]" "out_fd ?s = out'" by simp_all
  ultimately have "contents_ok close_it b pre cl cs ?s" unfolding contents_ok_def o by metis
  with t show ?thesis unfolding s' by blast
qed

lemma clusterWriter_step_ok:
  assumes ok: "threads_ok n cs s" "contents_ok close_it b pre cl cs s" "all_prepared close_it junk b cl cs"
    and step: "clusterWriter_step junk s = Some s'"
  shows "threads_ok n cs s' \<and> contents_ok close_it b pre cl cs s'"
proof -
  have same: "contents_ok close_it b pre cl cs (s\<lparr>p_clusterToWrite := q, writerThread := w\<rparr>)"
      "contents_ok close_it b pre cl cs (s\<lparr>writerThread := w\<rparr>)" for q w
    using ok(2) by (simp_all add: contents_ok_def open_tasks_def)
  have o: "open_tasks (s\<lparr>writerThread := w\<rparr>) = open_tasks s" "open_tasks (s\<lparr>p_clusterToWrite := q, writerThread := w\<rparr>) = open_tasks s" for w q
    by (simp_all add: open_tasks_def)
  show ?thesis
  proof (cases "writerThread s")
    case WriterIdle
    then obtain h q where q: "p_clusterToWrite s = h # q"
      using step by (cases "p_clusterToWrite s") (auto simp: clusterWriter_step_def queue_defs)
    show ?thesis
    proof (cases h)
      case None
      then have s': "s' = s\<lparr>writerThread := WriterDone\<rparr>" using step WriterIdle q by (simp add: clusterWriter_step_def queue_defs)
      have "p_main s \<in> {JoinWriter, MainDone}" "q = []"
        using ok(1) q None by (auto simp: threads_ok_def Cons_eq_append_conv split: if_splits)
      then have "threads_ok n cs s'" using ok(1) q None WriterIdle unfolding threads_ok_def s' o by (auto simp: in_writer_def)
      then show ?thesis using same by (simp add: s')
    next
      case (Some c)
      then have s': "s' = s\<lparr>writerThread := WriterPop\<rparr>" "w_closed (p_clusters s ! c)"
        using step WriterIdle q by (simp_all add: clusterWriter_step_def queue_defs split: if_splits)
      then have "c \<notin># open_tasks s" using head_closed [OF ok, of c q] q Some by simp
      then have "threads_ok n cs s'" using ok(1) q Some WriterIdle unfolding threads_ok_def s'(1) o by (auto simp: in_writer_def)
      then show ?thesis using same by (simp add: s'(1))
    qed
  next
    case WriterPop
    then obtain c q where q: "p_clusterToWrite s = Some c # q" "c \<notin># open_tasks s" using ok(1) by (auto simp: threads_ok_def)
    then have s': "s' = s\<lparr>p_clusterToWrite := q, writerThread := WriterWrite c\<rparr>"
      using step WriterPop by (simp add: clusterWriter_step_def queue_defs)
    have "threads_ok n cs s'"
      using ok(1) q WriterPop unfolding threads_ok_def s' o by (auto simp: in_writer_def Cons_eq_append_conv split: if_splits)
    then show ?thesis using same by (simp add: s')
  next
    case (WriterWrite c)
    then have s': "s' = (write_cluster junk c s)\<lparr>writerThread := WriterIdle\<rparr>" using step by (simp add: clusterWriter_step_def)
    show ?thesis unfolding s' using write_cluster_ok [OF ok WriterWrite] .
  next
    case WriterDone
    then show ?thesis using step by (simp add: clusterWriter_step_def)
  qed
qed

lemma contents_ok_frame:
  assumes "contents_ok close_it b pre cl cs s" "open_tasks s' = open_tasks s" "p_clusters s' = p_clusters s"
    "p_written s' = p_written s" "out_fd s' = out_fd s"
  shows "contents_ok close_it b pre cl cs s'"
  using assms by (simp add: contents_ok_def)

lemma running_member: "WorkerRun c \<in> set ws \<Longrightarrow> c \<in># running (mset ws)"
  by (induction ws) (auto split: WorkerPc.splits)

lemma worker_contents_ok:
  assumes ok: "threads_ok n cs s" "contents_ok close_it b pre cl cs s" "all_prepared close_it junk b cl cs"
    and i: "i < length (workerThreads s)" and step: "taskRunner_step close_it i s = Some s'"
  shows "threads_ok n cs s' \<and> contents_ok close_it b pre cl cs s'"
proof -
  have d: "distinct cs" using ok(3) by (simp add: all_prepared_def)
  have run: "\<exists>c'. close_it (p_clusters s ! c) = Inr c'" if "workerThreads s ! i = WorkerRun c" for c
  proof -
    have o: "c \<in># open_tasks s" using running_member [of c "workerThreads s"] that i by (auto simp: open_tasks_def in_set_conv_nth)
    then have "c \<in> set cs" using ok(1) unfolding threads_ok_def by (metis mset_subset_eqD set_mset_mset)
    with o ok(2,3) show ?thesis by (auto simp: contents_ok_def all_prepared_def cluster_prepared_def)
  qed
  note w = taskRunner_step_ok [OF ok(1) i step d run]
  show ?thesis
  proof (cases "\<exists>c. workerThreads s ! i = WorkerRun c")
    case False
    then show ?thesis using w contents_ok_frame [OF ok(2)] by auto
  next
    case True
    then obtain c c' where c: "open_tasks s = add_mset c (open_tasks s')" "c \<notin># open_tasks s'" "c \<in> set cs"
        "close_it (p_clusters s ! c) = Inr c'" "p_clusters s' = (p_clusters s)[c := c']"
        "p_written s' = p_written s" "out_fd s' = out_fd s" "threads_ok n cs s'"
      using w by auto
    have "c < length (p_clusters s)" "p_clusters s ! c = cl ! c" using ok(2,3) c(1,3) by (auto simp: contents_ok_def all_prepared_def)
    moreover have "p_written s ! k \<noteq> c" if "k < length (p_written s)" for k
    proof
      assume "p_written s ! k = c"
      then have "cluster_done (cl ! c) (of_nat (length (pre @ concat (map b (take k (p_written s)))))) (p_clusters s ! c)"
        using ok(2) that by (auto simp: contents_ok_def)
      with \<open>p_clusters s ! c = cl ! c\<close> ok(3) c(3) show False
        by (auto simp: cluster_done_def all_prepared_def cluster_prepared_def)
    qed
    moreover have "if e \<in># open_tasks s' then p_clusters s' ! e = cl ! e
        else e \<in> set (p_written s) \<or> close_it (cl ! e) = Inr (p_clusters s' ! e)" if "e \<in> set cs" for e
      using calculation(1,2) ok(2) that c(1,2,4,5) by (cases "e = c") (auto simp: contents_ok_def)
    moreover have "cluster_done (cl ! (p_written s ! k)) (of_nat (length (pre @ concat (map b (take k (p_written s))))))
        (p_clusters s' ! (p_written s ! k))" if "k < length (p_written s)" for k
      using ok(2) that calculation(3) [OF that] unfolding c(5) by (auto simp: contents_ok_def)
    moreover have "length (p_clusters s') = length cl" "file_padded (out_fd s) (pre @ concat (map b (p_written s)))"
        "p_written s \<noteq> [] \<longrightarrow> file_at_end (out_fd s) (pre @ concat (map b (p_written s)))"
      using ok(2) by (simp_all add: c(5) contents_ok_def)
    ultimately have "contents_ok close_it b pre cl cs s'" unfolding contents_ok_def c(6,7) by blast
    with c(8) show ?thesis by blast
  qed
qed

lemma pipe_step_ok:
  assumes "pipe_step close_it junk s s'" "threads_ok n cs s" "contents_ok close_it b pre cl cs s" "all_prepared close_it junk b cl cs"
  shows "threads_ok n cs s' \<and> contents_ok close_it b pre cl cs s'"
  using assms
proof (cases rule: pipe_step.cases)
  case main
  with main_step_ok [OF assms(2)] contents_ok_frame [OF assms(3)] show ?thesis by blast
qed (use assms worker_contents_ok clusterWriter_step_ok in blast)+

lemma pipe_start_ok:
  assumes "file_padded out pre" "all_prepared close_it junk b cl cs"
  shows "threads_ok n cs (pipe_start n cs cl out) \<and> contents_ok close_it b pre cl cs (pipe_start n cs cl out)"
proof -
  have "running (mset (replicate n WorkerIdle)) = {#}" by (induction n) auto
  then show ?thesis
    using assms by (auto simp: threads_ok_def contents_ok_def pipe_start_def open_tasks_def in_writer_def all_prepared_def)
qed

lemma pipe_reachable_ok:
  assumes "(pipe_step close_it junk)\<^sup>*\<^sup>* (pipe_start n cs cl out) s" "file_padded out pre" "all_prepared close_it junk b cl cs"
  shows "threads_ok n cs s \<and> contents_ok close_it b pre cl cs s"
  using assms(1)
proof (induction rule: rtranclp_induct)
  case base
  show ?case using pipe_start_ok [OF assms(2,3)] .
next
  case (step s s')
  then show ?case using pipe_step_ok [OF step.hyps(2) _ _ assms(3)] by blast
qed

section \<open>No run gets stuck\<close>

lemma idle_worker_steps:
  assumes "p_failed s = None" "w \<in> set (workerThreads s)" "w \<noteq> WorkerDone" "p_taskList s \<noteq> [] \<or> w \<noteq> WorkerIdle"
  shows "\<exists>s'. pipe_step close_it junk s s'"
proof -
  obtain i where i: "i < length (workerThreads s)" "workerThreads s ! i = w" using assms(2) by (auto simp: in_set_conv_nth)
  have "\<exists>s'. taskRunner_step close_it i s = Some s'"
    using assms(3,4) i(2) by (cases w) (auto simp: taskRunner_step_def queue_defs Let_def)
  then show ?thesis using pipe_step.worker [OF assms(1) i(1)] by blast
qed

lemma task_queue_drains:
  assumes ok: "threads_ok n cs s" and q: "p_taskList s \<noteq> []" "0 < pending_nulls n (p_main s) \<or> None \<in> set (p_taskList s)"
  shows "\<exists>s'. pipe_step close_it junk s s'"
proof -
  have "0 < count (mset (p_taskList s)) None + pending_nulls n (p_main s)"
    using q(2) by (metis add_gr_0 count_greater_zero_iff set_mset_mset)
  moreover have "count (mset (p_taskList s)) None + count (mset (workerThreads s)) WorkerDone + pending_nulls n (p_main s) = length (workerThreads s)"
    using ok by (simp add: threads_ok_def)
  ultimately have "count (mset (workerThreads s)) WorkerDone < length (workerThreads s)" by linarith
  moreover have "(\<forall>w\<in>set ws. w = x) \<Longrightarrow> count (mset ws) x = length ws" for ws :: "WorkerPc list" and x by (induction ws) auto
  ultimately obtain w where "w \<in> set (workerThreads s)" "w \<noteq> WorkerDone" by fastforce
  then show ?thesis using idle_worker_steps [of s w] ok q(1) by (auto simp: threads_ok_def)
qed

lemma busy_worker_steps:
  assumes ok: "threads_ok n cs s" and w: "0 < waiting_task s" and q: "0 < n"
  shows "\<exists>s'. pipe_step close_it junk s s'"
proof -
  have e: "\<not> tasks_over (p_main s)" using ok w by (auto simp: threads_ok_def)
  then have p: "pending_nulls n (p_main s) = n" by (cases "p_main s") auto
  show ?thesis
  proof (cases "p_taskList s = []")
    case False
    then show ?thesis using task_queue_drains [OF ok] p q by simp
  next
    case True
    have *: "\<exists>w\<in>set ws. w \<noteq> WorkerDone \<and> w \<noteq> WorkerIdle" if "0 < size (running (mset ws)) + count (mset ws) WorkerDelete" for ws
      using that by (induction ws) (auto split: WorkerPc.splits if_splits)
    have "0 < size (running (mset (workerThreads s))) + count (mset (workerThreads s)) WorkerDelete"
      using ok w True by (auto simp: threads_ok_def)
    from * [OF this] show ?thesis using idle_worker_steps [of s] ok by (auto simp: threads_ok_def)
  qed
qed

lemma write_queue_drains:
  assumes ok: "threads_ok n cs s" "contents_ok close_it b pre cl cs s" "all_prepared close_it junk b cl cs"
    and q: "p_clusterToWrite s \<noteq> []" "writerThread s \<noteq> WriterDone" and n: "0 < n"
  shows "\<exists>s'. pipe_step close_it junk s s'"
proof -
  obtain h r where hr: "p_clusterToWrite s = h # r" using q(1) by (cases "p_clusterToWrite s") auto
  have f: "p_failed s = None" using ok(1) by (simp add: threads_ok_def)
  show ?thesis
  proof (cases "\<exists>c. h = Some c \<and> writerThread s = WriterIdle \<and> \<not> w_closed (p_clusters s ! c)")
    case False
    then have "\<exists>s'. clusterWriter_step junk s = Some s'"
      using q(2) hr by (cases "writerThread s"; cases h) (auto simp: clusterWriter_step_def queue_defs)
    then show ?thesis using pipe_step.writer [OF f] by blast
  next
    case True
    then obtain c where c: "h = Some c" "c \<in># open_tasks s" using head_closed [OF ok] hr by blast
    have "mset (pending_tasks (p_main s)) + {#c#} \<subseteq># mset cs"
    proof -
      have "mset (pending_tasks (p_main s)) \<subseteq># mset (pending_writes (p_main s))" by (cases "p_main s") auto
      moreover have "add_mset c (mset (pending_writes (p_main s))) \<subseteq># mset cs"
        using ok(1) hr c(1) by (auto simp: threads_ok_def)
      ultimately show ?thesis by (metis add_mset_add_single mset_subset_eq_add_mset_cancel subset_mset.order_trans)
    qed
    then have "c \<notin> set (pending_tasks (p_main s))"
      using ok(3) count_le_distinct [of "mset (pending_tasks (p_main s)) + {#c#}" cs c]
      by (auto simp: all_prepared_def count_eq_zero_iff)
    then have "0 < waiting_task s" using c(2) ok(1) by (auto simp: open_tasks_def threads_ok_def size_eq_0_iff_empty)
    then show ?thesis using busy_worker_steps [OF ok(1) _ n] by blast
  qed
qed

lemma count_less_length: "w \<in> set ws \<Longrightarrow> w \<noteq> x \<Longrightarrow> count (mset ws) x < length ws"
proof -
  assume "w \<in> set ws" "w \<noteq> x"
  then obtain R where "mset ws = add_mset w R" by (metis multi_member_split set_mset_mset)
  moreover have "size (mset ws) = length ws" by simp
  ultimately show ?thesis using \<open>w \<noteq> x\<close> count_le_size [of R x] by (metis count_add_mset le_imp_less_Suc size_add_mset)
qed

lemma main_push_None: "main_push q push s = None \<longleftrightarrow> \<not> m_ready s \<and> 10 < length q"
  by (auto simp: main_push_def queue_defs MAX_QUEUE_SIZE_def)

lemma pipe_not_stuck:
  assumes ok: "threads_ok n cs s" "contents_ok close_it b pre cl cs s" "all_prepared close_it junk b cl cs" and n: "0 < n"
    and more: "p_main s \<noteq> MainDone"
  shows "\<exists>s'. pipe_step close_it junk s s'"
proof (cases "\<exists>s'. main_step s = Some s'")
  case True
  moreover have "p_failed s = None" using ok(1) by (simp add: threads_ok_def)
  ultimately show ?thesis using pipe_step.main by blast
next
  case blocked: False
  have writer: "\<exists>s'. pipe_step close_it junk s s'" if "p_clusterToWrite s \<noteq> []" "writerThread s \<noteq> WriterDone"
    using write_queue_drains [OF ok that n] .
  have task: "\<exists>s'. pipe_step close_it junk s s'" if "\<not> length (p_taskList s) \<le> 10" "0 < pending_nulls n (p_main s)"
    using task_queue_drains [OF ok(1)] that by fastforce
  have full: "writerThread s \<noteq> WriterDone" if "\<not> length (p_clusterToWrite s) \<le> 10"
    using ok(1) that by (auto simp: threads_ok_def)
  show ?thesis
  proof (cases "p_main s")
    case (Closing l)
    then show ?thesis using blocked task n
      by (cases l) (auto simp: main_step_def main_push_None)
  next
    case (PushedTask c l)
    then have "\<not> length (p_clusterToWrite s) \<le> 10" using blocked by (auto simp: main_step_def main_push_None)
    then show ?thesis using writer full by fastforce
  next
    case WaitTasks
    then show ?thesis using blocked busy_worker_steps [OF ok(1) _ n] by (auto simp: main_step_def split: if_splits)
  next
    case (StopWorkers k)
    then show ?thesis using blocked task
      by (cases k) (auto simp: main_step_def main_push_None)
  next
    case JoinWorkers
    then have "\<exists>w\<in>set (workerThreads s). w \<noteq> WorkerDone" using blocked by (auto simp: main_step_def split: if_splits)
    then obtain w where w: "w \<in> set (workerThreads s)" "w \<noteq> WorkerDone" by blast
    have "count (mset (p_taskList s)) None + count (mset (workerThreads s)) WorkerDone = length (workerThreads s)"
      using ok(1) JoinWorkers by (simp add: threads_ok_def)
    with count_less_length [OF w] have "0 < count (mset (p_taskList s)) None" by linarith
    then have "None \<in> set (p_taskList s)" by simp
    then show ?thesis using task_queue_drains [OF ok(1)] by fastforce
  next
    case StopWriter
    then have "\<not> length (p_clusterToWrite s) \<le> 10" using blocked by (auto simp: main_step_def main_push_None)
    then show ?thesis using writer full by fastforce
  next
    case JoinWriter
    then have "writerThread s \<noteq> WriterDone" "p_clusterToWrite s \<noteq> []" using blocked ok(1) by (auto simp: main_step_def threads_ok_def)
    then show ?thesis using writer by blast
  qed (use more in simp)
qed

section \<open>The queues stay short\<close>

fun pushes_task :: "MainPc \<Rightarrow> bool" where
  "pushes_task (Closing (c # cs)) = True"
| "pushes_task (StopWorkers (Suc k)) = True"
| "pushes_task _ = False"

fun pushes_cluster :: "MainPc \<Rightarrow> bool" where
  "pushes_cluster (PushedTask c cs) = True"
| "pushes_cluster StopWriter = True"
| "pushes_cluster _ = False"

definition queues_short :: "Pipe \<Rightarrow> bool" where
  "queues_short s \<longleftrightarrow> length (p_taskList s) \<le> 11 \<and> length (p_clusterToWrite s) \<le> 11 \<and>
     (m_ready s \<longrightarrow> (pushes_task (p_main s) \<or> pushes_cluster (p_main s)) \<and>
        (pushes_task (p_main s) \<longrightarrow> length (p_taskList s) \<le> 10) \<and>
        (pushes_cluster (p_main s) \<longrightarrow> length (p_clusterToWrite s) \<le> 10))"

lemma main_step_short: "queues_short s \<Longrightarrow> main_step s = Some s' \<Longrightarrow> queues_short s'"
  by (auto simp: queues_short_def main_step_def main_push_def queue_defs MAX_QUEUE_SIZE_def
      split: MainPc.splits list.splits nat.splits if_splits)

lemma queues_shrink:
  assumes "queues_short s" "length (p_taskList s') \<le> length (p_taskList s)" "length (p_clusterToWrite s') \<le> length (p_clusterToWrite s)"
    "p_main s' = p_main s" "m_ready s' = m_ready s"
  shows "queues_short s'"
  using assms by (auto simp: queues_short_def)

lemma pipe_step_short:
  assumes "pipe_step close_it junk s s'" "queues_short s"
  shows "queues_short s'"
  using assms(1)
proof (cases rule: pipe_step.cases)
  case main
  then show ?thesis using main_step_short assms(2) by blast
next
  case (worker i)
  show ?thesis
    by (rule queues_shrink [OF assms(2)]; use worker(3) in \<open>cases "p_taskList s";
      auto simp: taskRunner_step_def ClusterTask_run_def queue_defs Let_def split: WorkerPc.splits sum.splits\<close>)
next
  case writer
  show ?thesis
    by (rule queues_shrink [OF assms(2)]; use writer(2) in \<open>cases "p_clusterToWrite s";
      auto simp: clusterWriter_step_def write_cluster_def queue_defs Let_def split: WriterPc.splits option.splits sum.splits if_splits\<close>)
qed

text \<open>C29: However fast the main thread is, neither queue ever holds more than eleven elements: the wait of
  \<^verbatim>\<open>pushToQueue\<close> lets one element past \<^verbatim>\<open>MAX_QUEUE_SIZE\<close>, and there is one thread that pushes.\<close>

theorem queues_bounded:
  assumes "(pipe_step close_it junk)\<^sup>*\<^sup>* (pipe_start n cs cl out) s"
  shows "queue_size (p_taskList s) \<le> MAX_QUEUE_SIZE + 1 \<and> queue_size (p_clusterToWrite s) \<le> MAX_QUEUE_SIZE + 1"
proof -
  have "queues_short s"
    using assms by (induction rule: rtranclp_induct) (simp add: queues_short_def pipe_start_def, blast intro: pipe_step_short)
  then show ?thesis by (simp add: queues_short_def queue_size_def MAX_QUEUE_SIZE_def)
qed

section \<open>Properties\<close>

lemma concat_map_split:
  "k < length cs \<Longrightarrow> concat (map f cs) = concat (map f (take k cs)) @ f (cs ! k) @ concat (map f (drop (Suc k) cs))"
  using arg_cong [OF id_take_nth_drop, of k cs "\<lambda>xs. concat (map f xs)"] by (simp only: map_append concat_append list.map concat.simps)

lemma prepared_cluster:
  assumes "wcluster_holds c bls" "w_compression c = ct" "ct \<in> {zimcompDefault, zimcompNone, zimcompLzma, zimcompZstd}"
    and "cluster_fits False bls" "length (cluster_plain False bls) \<le> 2 ^ 30"
    and "codecs_fit erun (codec_state ct elzma ezstd) drun (codec_state ct dlzma dzstd) decodes"
  shows "\<exists>body. cluster_prepared (w_close erun elzma ezstd junk) junk c (cluster_info False ct # body) \<and>
    (\<forall>post. cluster_body decodes dlzma dzstd False ct bls (body @ post))"
proof -
  obtain c' body where c': "w_close erun elzma ezstd junk c = Inr c'" "\<forall>post. cluster_body decodes dlzma dzstd False ct bls (body @ post)"
      "\<forall>out pre off. file_padded out pre \<longrightarrow> (\<exists>c'' out'. w_write posix_write junk (c'\<lparr>w_offset := off\<rparr>) out = Inr (c'', out') \<and>
          file_at_end out' (pre @ cluster_info False ct # body))"
    using write_closed_cluster [OF assms, of junk] by blast
  have done': "cluster_done c (w_offset c) c'" using w_close_frame [OF c'(1)] .
  have "\<exists>c'' out'. w_write posix_write junk (c'\<lparr>w_offset := of_nat (f_pos out)\<rparr>) out = Inr (c'', out') \<and>
      file_at_end out' (pre @ cluster_info False ct # body) \<and> cluster_done c (of_nat (length pre)) c''" if "file_padded out pre" for out pre
  proof -
    obtain c'' out' where w: "w_write posix_write junk (c'\<lparr>w_offset := of_nat (f_pos out)\<rparr>) out = Inr (c'', out')"
        "file_at_end out' (pre @ cluster_info False ct # body)"
      using c'(3) \<open>file_padded out pre\<close> by blast
    then show ?thesis using w_write_frame [OF w(1)] done' that by (auto simp: cluster_done_def file_padded_def)
  qed
  moreover have "\<not> w_closed c" using assms(1) by (simp add: wcluster_holds_def)
  ultimately show ?thesis using c'(1,2) done' by (auto simp: cluster_prepared_def cluster_done_def)
qed

lemma pipe_completes:
  assumes "threads_ok n cs s" "contents_ok close_it b pre cl cs s" "all_prepared close_it junk b cl cs" "0 < n"
  shows "\<exists>s'. (pipe_step close_it junk)\<^sup>*\<^sup>* s s' \<and> p_main s' = MainDone"
  using assms(1,2)
proof (induction "pipe_left s" arbitrary: s rule: less_induct)
  case less
  show ?case
  proof (cases "p_main s = MainDone")
    case False
    then obtain s1 where s1: "pipe_step close_it junk s s1" using pipe_not_stuck [OF less.prems assms(3,4)] by blast
    from less.hyps [OF pipe_step_left [OF s1]] pipe_step_ok [OF s1 less.prems assms(3)] show ?thesis
      using s1 by (meson converse_rtranclp_into_rtranclp)
  qed blast
qed

text \<open>C12: The creation of an archive ends. With at least one worker, and clusters that close and can be written,
  no interleaving of the threads runs on for ever, and none gets stuck before the main thread has
  joined the others: from wherever a run has got to, it can be completed, and there is no infinite one.\<close>

theorem pipeline_ends:
  assumes "all_prepared close_it junk b cl cs" "file_padded out pre" "0 < n"
    and "(pipe_step close_it junk)\<^sup>*\<^sup>* (pipe_start n cs cl out) s"
  shows "wfp (\<lambda>s' s. pipe_step close_it junk s s') \<and>
    (p_main s = MainDone \<or> (\<exists>s'. pipe_step close_it junk s s')) \<and>
    (\<exists>s'. (pipe_step close_it junk)\<^sup>*\<^sup>* s s' \<and> p_main s' = MainDone)"
proof -
  have "wfp (\<lambda>s' s. pipe_step close_it junk s s')"
    by (rule wfp_if_convertible_to_nat [of _ pipe_left]) (rule pipe_step_left)
  moreover note ok = pipe_reachable_ok [OF assms(4,2,1)]
  ultimately show ?thesis using pipe_not_stuck [OF _ _ assms(1,3)] pipe_completes [OF _ _ assms(1,3)] by blast
qed

text \<open>Where the clusters are once the main thread has joined the others.\<close>

lemma pipeline_layout:
  assumes "distinct cs"
    and "\<forall>c\<in>set cs. c < length cl \<and> wcluster_holds (cl ! c) (bls c) \<and> cluster_fits False (bls c) \<and>
      length (cluster_plain False (bls c)) \<le> 2 ^ 30 \<and>
      w_compression (cl ! c) \<in> {zimcompDefault, zimcompNone, zimcompLzma, zimcompZstd}"
    and fit: "\<forall>ct. codecs_fit erun (codec_state ct elzma ezstd) drun (codec_state ct dlzma dzstd) decodes"
    and out: "file_padded out pre"
    and run: "(pipe_step (w_close erun elzma ezstd junk) junk)\<^sup>*\<^sup>* (pipe_start n cs cl out) s"
  shows "p_failed s = None" "length (p_clusters s) = length cl"
    and "p_main s = MainDone \<Longrightarrow> p_written s = cs \<and> (cs \<noteq> [] \<longrightarrow> (\<exists>rest. f_contents (out_fd s) = pre @ rest))"
    and "p_main s = MainDone \<Longrightarrow> c \<in> set cs \<Longrightarrow> \<exists>p body. cluster_done (cl ! c) (of_nat p) (p_clusters s ! c) \<and> length pre \<le> p \<and>
      drop p (f_contents (out_fd s)) = cluster_info False (w_compression (cl ! c)) # body \<and>
      (\<forall>post. cluster_body decodes dlzma dzstd False (w_compression (cl ! c)) (bls c) (body @ post))"
proof -
  let ?close = "w_close erun elzma ezstd junk"
  have "\<forall>c\<in>set cs. \<exists>body. cluster_prepared ?close junk (cl ! c) (cluster_info False (w_compression (cl ! c)) # body) \<and>
      (\<forall>post. cluster_body decodes dlzma dzstd False (w_compression (cl ! c)) (bls c) (body @ post))"
    using assms(2) fit by (intro ballI prepared_cluster) auto
  then obtain body where body: "\<forall>c\<in>set cs. cluster_prepared ?close junk (cl ! c) (cluster_info False (w_compression (cl ! c)) # body c) \<and>
      (\<forall>post. cluster_body decodes dlzma dzstd False (w_compression (cl ! c)) (bls c) (body c @ post))"
    by metis
  let ?b = "\<lambda>c. cluster_info False (w_compression (cl ! c)) # body c"
  have prep: "all_prepared ?close junk ?b cl cs" using assms(1,2) body by (simp add: all_prepared_def)
  have ok: "threads_ok n cs s" "contents_ok ?close ?b pre cl cs s" using pipe_reachable_ok [OF run out prep] by auto
  show "p_failed s = None" using ok(1) by (simp add: threads_ok_def)
  show "length (p_clusters s) = length cl" using ok(2) by (simp add: contents_ok_def)
  have all: "p_written s = cs" if "p_main s = MainDone" using ok(1) that by (auto simp: threads_ok_def in_writer_def)
  then show "p_main s = MainDone \<Longrightarrow> p_written s = cs \<and> (cs \<noteq> [] \<longrightarrow> (\<exists>rest. f_contents (out_fd s) = pre @ rest))"
    using ok(2) by (auto simp: contents_ok_def file_at_end_def)
  show "\<exists>p body. cluster_done (cl ! c) (of_nat p) (p_clusters s ! c) \<and> length pre \<le> p \<and>
      drop p (f_contents (out_fd s)) = cluster_info False (w_compression (cl ! c)) # body \<and>
      (\<forall>post. cluster_body decodes dlzma dzstd False (w_compression (cl ! c)) (bls c) (body @ post))"
    if end': "p_main s = MainDone" and c: "c \<in> set cs"
  proof -
    obtain k where k: "k < length cs" "cs ! k = c" using c by (auto simp: in_set_conv_nth)
    let ?pre = "pre @ concat (map ?b (take k cs))" and ?rest = "concat (map ?b (drop (Suc k) cs))"
    have "cluster_done (cl ! c) (of_nat (length ?pre)) (p_clusters s ! c)"
      using ok(2) all [OF end'] k by (auto simp: contents_ok_def)
    moreover have "f_contents (out_fd s) = ?pre @ ?b c @ ?rest"
      using concat_map_split [OF k(1), of ?b] k ok(2) all [OF end'] by (auto simp: contents_ok_def file_at_end_def)
    then have "drop (length ?pre) (f_contents (out_fd s)) = cluster_info False (w_compression (cl ! c)) # (body c @ ?rest)" by simp
    moreover have "cluster_body decodes dlzma dzstd False (w_compression (cl ! c)) (bls c) ((body c @ ?rest) @ post)" for post
      using body c by simp
    ultimately show ?thesis
      by (intro exI [of _ "length ?pre"] exI [of _ "body c @ ?rest"]) simp
  qed
qed


definition example_cluster :: WCluster where
  "example_cluster = addContent (new_StringProvider [10, 11]) (new_WCluster zimcompNone)"

lemma example_cluster_holds: "wcluster_holds example_cluster [[10, 11]]" "w_compression example_cluster = zimcompNone"
  using addContent_holds [OF new_WCluster_holds [of zimcompNone], of "new_StringProvider [10, 11]" "[10, 11]"]
  by (simp add: example_cluster_def new_StringProvider_gives) (simp add: example_cluster_def addContent_def Let_def new_WCluster_def)

lemma example_fits: "cluster_fits False [[10, 11]]" "length (cluster_plain False [[10, 11 :: byte]]) \<le> 2 ^ 30"
  by (simp_all add: cluster_fits_def offset_width_def cluster_plain_def cluster_table_def cluster_starts_def toLittleEndian32_def
      max_transfer_def)

lemma store_fit: "codecs_fit store_run (codec_state ct () ()) copy_run (codec_state ct () ()) copy_decodes"
  using store_copy_fit by (simp add: codec_state_def)

lemma example_prepared:
  obtains b where "all_prepared (w_close store_run () () (\<lambda>_. 0)) (\<lambda>_. 0) b [example_cluster] [0]"
proof -
  obtain body where "cluster_prepared (w_close store_run () () (\<lambda>_. 0)) (\<lambda>_. 0) example_cluster (cluster_info False zimcompNone # body)"
    using prepared_cluster [OF example_cluster_holds _ example_fits store_fit, of "\<lambda>_. 0"] by auto
  then have "all_prepared (w_close store_run () () (\<lambda>_. 0)) (\<lambda>_. 0) (\<lambda>_. cluster_info False zimcompNone # body) [example_cluster] [0]"
    by (simp add: all_prepared_def)
  then show thesis using that by blast
qed

theorem pipeline_ends_witness:
  "\<exists>s'. (pipe_step (w_close store_run () () (\<lambda>_. 0)) (\<lambda>_. 0))\<^sup>*\<^sup>*
     (pipe_start 2 [0] [example_cluster] \<lparr>f_contents = [], f_pos = 0\<rparr>) s' \<and> p_main s' = MainDone"
proof -
  obtain b where "all_prepared (w_close store_run () () (\<lambda>_. 0)) (\<lambda>_. 0) b [example_cluster] [0]" by (rule example_prepared)
  from pipeline_ends [OF this _ _ rtranclp.rtrancl_refl, of "\<lparr>f_contents = [], f_pos = 0\<rparr>" "[]" 2] show ?thesis
    by (auto simp: file_padded_def)
qed


theorem queues_bounded_witness:
  "queue_size (p_taskList (pipe_start 1 [0] [example_cluster] \<lparr>f_contents = [], f_pos = 0\<rparr>)) \<le> MAX_QUEUE_SIZE + 1"
  using queues_bounded [OF rtranclp.rtrancl_refl] by blast

end
