(* ===== verification/Creator_Finish.thy ===== *)
theory Creator_Finish
  imports Creator_Entries Creator_Pipeline File_Header Md5
begin

text \<open>
  Finishing an archive: the configuration of \<^verbatim>\<open>Creator\<close> (\<^verbatim>\<open>include/zim/writer/creator.h\<close>), and in
  \<^verbatim>\<open>src/writer/creator.cpp\<close> the last entries and contents of \<^verbatim>\<open>finishZimCreation\<close>, \<^verbatim>\<open>fillHeader\<close> and
  \<^verbatim>\<open>write\<close>: mime types, directory, pointer lists, header and checksum. The threads between the two are the
  subject of \<open>Creator_Pipeline\<close>.

  Shown here: the layout of the file that \<^verbatim>\<open>write\<close> leaves, that its checksum is the MD5 digest of all that
  precedes it, and that the reader finds header and entries in it.
\<close>

section \<open>The configuration\<close>

record Creator =
  m_verbose :: bool
  m_compression :: CompressionType
  m_withIndex :: bool
  m_minClusterSize :: u64
  m_indexingLanguage :: bytes
  m_nbWorkers :: u32
  m_mainPath :: bytes
  m_faviconPath :: bytes
  m_uuid :: bytes

text \<open>\<open>generated\<close> is the identifier that \<^verbatim>\<open>Uuid::generate\<close> makes.\<close>

definition new_Creator :: "bytes \<Rightarrow> Creator" where
  "new_Creator generated = \<lparr>m_verbose = False, m_compression = zimcompZstd, m_withIndex = False, m_minClusterSize = 1024 - 64,
     m_indexingLanguage = [], m_nbWorkers = 4, m_mainPath = [], m_faviconPath = [], m_uuid = generated\<rparr>"

definition configVerbose :: "bool \<Rightarrow> Creator \<Rightarrow> Creator" where
  "configVerbose verbose c = c\<lparr>m_verbose := verbose\<rparr>"

definition configCompression :: "CompressionType \<Rightarrow> Creator \<Rightarrow> Creator res" where
  "configCompression comptype c =
     (case comptype of
        zimcompBzip2 \<Rightarrow> Inl (RuntimeError ''Compression method not enabled in this library'')
      | zimcompZip \<Rightarrow> Inl (RuntimeError ''Compression method not enabled in this library'')
      | _ \<Rightarrow> Inr (c\<lparr>m_compression := comptype\<rparr>))"

definition configMinClusterSize :: "u64 \<Rightarrow> Creator \<Rightarrow> Creator" where
  "configMinClusterSize sz c = c\<lparr>m_minClusterSize := sz\<rparr>"

definition configIndexing :: "bool \<Rightarrow> bytes \<Rightarrow> Creator \<Rightarrow> Creator" where
  "configIndexing indexing language c = c\<lparr>m_withIndex := indexing, m_indexingLanguage := language\<rparr>"

definition configNbWorkers :: "u32 \<Rightarrow> Creator \<Rightarrow> Creator" where
  "configNbWorkers n c = c\<lparr>m_nbWorkers := n\<rparr>"

definition setMainPath :: "bytes \<Rightarrow> Creator \<Rightarrow> Creator" where
  "setMainPath path c = c\<lparr>m_mainPath := path\<rparr>"

definition setFaviconPath :: "bytes \<Rightarrow> Creator \<Rightarrow> Creator" where
  "setFaviconPath path c = c\<lparr>m_faviconPath := path\<rparr>"

definition setUuid :: "bytes \<Rightarrow> Creator \<Rightarrow> Creator" where
  "setUuid u c = c\<lparr>m_uuid := u\<rparr>"

definition CLUSTER_BASE_OFFSET :: nat where
  "CLUSTER_BASE_OFFSET = 1024"

text \<open>\<^verbatim>\<open>startZimCreation\<close>: the data, with the chunk size set afterwards, and the new file, positioned for the clusters.\<close>

definition startZimCreation :: "Creator \<Rightarrow> CreatorData \<times> OutFile" where
  "startZimCreation c = (new_CreatorData (m_compression c) (m_minClusterSize c), \<lparr>f_contents = [], f_pos = CLUSTER_BASE_OFFSET\<rparr>)"

section \<open>The last entries\<close>

definition add_favicon :: "Creator \<Rightarrow> CreatorData \<Rightarrow> CreatorData" where
  "add_favicon c cd =
     (if m_faviconPath c \<noteq> [] then
        (case createRedirectDirent 87 (str ''favicon'') [] 67 (m_faviconPath c) cd of (d, cd) \<Rightarrow> cd_handle d None cd)
      else cd)"

definition add_mainPage :: "Creator \<Rightarrow> CreatorData \<Rightarrow> CreatorData" where
  "add_mainPage c cd =
     (if m_mainPath c \<noteq> [] then
        (case createRedirectDirent 87 (str ''mainPage'') [] 67 (m_mainPath c) cd of (d, cd) \<Rightarrow>
           cd_handle d None (cd\<lparr>mainPageDirent := Some d\<rparr>))
      else cd)"

text \<open>\<^verbatim>\<open>DirentHandler::getDirent\<close> of the two handlers: the entry is created once.\<close>

definition listing_mimetype :: bytes where
  "listing_mimetype = str ''application/octet-stream+zimlisting''"

definition getDirent_v0 :: "CreatorData \<Rightarrow> (addr \<times> CreatorData) res" where
  "getDirent_v0 cd =
     (case tl_dirent (titleListing cd) of
        Some d \<Rightarrow> Inr (d, cd)
      | None \<Rightarrow> rbind (createDirent 88 (str ''listing/titleOrdered/v0'') listing_mimetype [] cd) (\<lambda>(d, cd).
          Inr (d, cd\<lparr>titleListing := (titleListing cd)\<lparr>tl_dirent := Some d\<rparr>\<rparr>)))"

definition getDirent_v1 :: "CreatorData \<Rightarrow> (addr \<times> CreatorData) res" where
  "getDirent_v1 cd =
     (case tl_dirent (titleListingV1 cd) of
        Some d \<Rightarrow> Inr (d, cd)
      | None \<Rightarrow> rbind (createDirent 88 (str ''listing/titleOrdered/v1'') listing_mimetype [] cd) (\<lambda>(d, cd).
          Inr (d, cd\<lparr>titleListingV1 := (titleListingV1 cd)\<lparr>tl_dirent := Some d\<rparr>\<rparr>)))"

definition create_listing_entries :: "CreatorData \<Rightarrow> CreatorData res" where
  "create_listing_entries cd =
     rbind (getDirent_v0 cd) (\<lambda>(d, cd).
     rbind (getDirent_v1 (handle_v0 d cd)) (\<lambda>(d, cd).
       Inr (handle_v0 d cd)))"

text \<open>The loop that stops the handlers and adds their contents. The offset of the title list in its cluster is
  taken before the cluster is closed.\<close>

definition add_listing_contents ::
    "((addr \<Rightarrow> addr \<Rightarrow> bool) \<Rightarrow> addr list \<Rightarrow> addr list) \<Rightarrow> CreatorData \<Rightarrow> CreatorData res" where
  "add_listing_contents std_sort cd =
     rbind (getDirent_v0 (cd\<lparr>titleListing := listing_stop std_sort (store cd) (titleListing cd)\<rparr>)) (\<lambda>(d, cd).
     rbind (addItemData d (ListingProvider (store cd) (titleListing cd)) False cd) (\<lambda>cd.
     rbind (rbind (wd_getBlobNumber (store cd d)) (\<lambda>blob. w_getBlobOffset blob (clusters cd ! uncompCluster cd))) (\<lambda>off.
     rbind (getDirent_v1 (cd\<lparr>m_titleListBlobOffset := off,
         titleListingV1 := listing_stop std_sort (store cd) (titleListingV1 cd)\<rparr>)) (\<lambda>(d, cd).
       addItemData d (ListingProvider (store cd) (titleListingV1 cd)) False cd))))"

definition close_last_clusters :: "CreatorData \<Rightarrow> CreatorData" where
  "close_last_clusters cd =
     (let cd = (if w_count (clusters cd ! compCluster cd) \<noteq> 0 then closeCluster True cd else cd) in
      if w_count (clusters cd ! uncompCluster cd) \<noteq> 0 then closeCluster False cd else cd)"

text \<open>\<^verbatim>\<open>finishZimCreation\<close> up to the point where it waits for the workers.\<close>

definition finish_entries ::
    "((addr \<Rightarrow> addr \<Rightarrow> bool) \<Rightarrow> addr list \<Rightarrow> addr list) \<Rightarrow> Creator \<Rightarrow> CreatorData \<Rightarrow> CreatorData res" where
  "finish_entries std_sort c cd =
     rbind (create_listing_entries (add_mainPage c (add_favicon c cd))) (\<lambda>cd.
     rbind (resolveMimeTypes (setEntryIndexes (resolveRedirectIndexes cd))) (\<lambda>cd.
     rbind (add_listing_contents std_sort cd) (\<lambda>cd.
       Inr (close_last_clusters cd))))"

section \<open>Writing the rest of the file\<close>

definition posix_lseek_set :: "nat \<Rightarrow> OutFile \<Rightarrow> OutFile" where
  "posix_lseek_set n f = f\<lparr>f_pos := n\<rparr>"

definition posix_lseek_end :: "OutFile \<Rightarrow> OutFile" where
  "posix_lseek_end f = f\<lparr>f_pos := length (f_contents f)\<rparr>"

definition posix_read :: "OutFile \<Rightarrow> nat \<Rightarrow> (bytes \<times> OutFile) option" where
  "posix_read f n =
     (let d = take n (drop (f_pos f) (f_contents f)) in Some (d, f\<lparr>f_pos := f_pos f + length d\<rparr>))"

definition fillHeader :: "Creator \<Rightarrow> CreatorData \<Rightarrow> Fileheader \<Rightarrow> Fileheader res" where
  "fillHeader c cd h =
     (let h = h\<lparr>majorVersion := (if cd_isExtended cd then zimExtendedMajorVersion else zimClassicMajorVersion),
                minorVersion := zimMinorVersion,
                mainPage := (case mainPageDirent cd of Some d \<Rightarrow> wd_idx (store cd d) | None \<Rightarrow> - 1),
                layoutPage := - 1,
                uuid := m_uuid c,
                articleCount := of_nat (length (dirents cd)),
                mimeListPos := header_size\<rparr> in
      case tl_dirent (titleListing cd) of
        None \<Rightarrow> Inl MemoryFault
      | Some d \<Rightarrow>
          (case wd_cluster (store cd d) of
             None \<Rightarrow> Inl MemoryFault
           | Some n \<Rightarrow>
               (let cluster = clusters cd ! n in
                rbind (getDataOffset cluster) (\<lambda>dataOffset.
                  Inr (h\<lparr>titleIdxPos := w_offset cluster + dataOffset + m_titleListBlobOffset cd,
                         clusterCount := of_nat (length (clustersList cd))\<rparr>)))))"

definition write_mimetypes :: "bytes list \<Rightarrow> OutFile \<Rightarrow> OutFile res" where
  "write_mimetypes mimeTypes out =
     rbind (rfoldl (\<lambda>out mimeType. write_or_throw posix_write out (mimeType @ [0])) out mimeTypes) (\<lambda>out.
       write_or_throw posix_write out [0])"

fun write_dirents :: "(nat \<Rightarrow> WCluster) \<Rightarrow> addr list \<Rightarrow> dirent_store \<Rightarrow> OutFile \<Rightarrow> (dirent_store \<times> OutFile) res" where
  "write_dirents cls [] st out = Inr (st, out)"
| "write_dirents cls (d # ds) st out =
     (let st = st(d := (st d)\<lparr>wd_offset := of_nat (f_pos out)\<rparr>) in
      rbind (wd_write posix_write st cls (st d) out) (\<lambda>out. write_dirents cls ds st out))"

definition write_offset_list :: "u64 list \<Rightarrow> OutFile \<Rightarrow> OutFile res" where
  "write_offset_list offsets out = rfoldl (\<lambda>out off. write_or_throw posix_write out (toLittleEndian64 off)) out offsets"

definition write_header :: "Fileheader \<Rightarrow> OutFile \<Rightarrow> OutFile res" where
  "write_header h out =
     (case posix_write out (header_bytes h) of (n, out') \<Rightarrow>
        rbind (Fileheader_write (\<lambda>_. case n of Some k \<Rightarrow> int k | None \<Rightarrow> - 1) h) (\<lambda>_. Inr out'))"

text \<open>The loop that reads the file back: \<open>os_read\<close> is the system call, \<open>None\<close> its error.\<close>

partial_function (option) checksum_loop ::
    "(OutFile \<Rightarrow> nat \<Rightarrow> (bytes \<times> OutFile) option) \<Rightarrow> zim_MD5_CTX \<Rightarrow> OutFile \<Rightarrow> (zim_MD5_CTX \<times> OutFile) res option" where
  "checksum_loop os_read md5ctx f =
     (case os_read f 1024 of
        None \<Rightarrow> Some (Inl (RuntimeError ''oups''))
      | Some (batch_read, f) \<Rightarrow>
          if batch_read = [] then Some (Inr (md5ctx, f))
          else case zim_MD5Update md5ctx batch_read (of_nat (length batch_read)) of
                 Inl e \<Rightarrow> Some (Inl e)
               | Inr md5ctx \<Rightarrow> checksum_loop os_read md5ctx f)"

definition write_checksum :: "zim_MD5_CTX \<Rightarrow> OutFile \<Rightarrow> OutFile res" where
  "write_checksum md5ctx out =
     rbind (case checksum_loop posix_read (zim_MD5Init md5ctx) (posix_lseek_set 0 out) of None \<Rightarrow> Inl NoReturn | Some r \<Rightarrow> r)
       (\<lambda>(md5ctx, out). rbind (zim_MD5Final md5ctx) (\<lambda>(digest, _). write_or_throw posix_write out digest))"

text \<open>\<^verbatim>\<open>Creator::write\<close>. \<open>h0\<close> and \<open>md5ctx\<close> are what the stack held before the constructors ran.\<close>

definition creator_write :: "Creator \<Rightarrow> Fileheader \<Rightarrow> zim_MD5_CTX \<Rightarrow> CreatorData \<Rightarrow> OutFile \<Rightarrow> (CreatorData \<times> Fileheader \<times> OutFile) res" where
  "creator_write c h0 md5ctx cd out =
     rbind (fillHeader c cd h0) (\<lambda>h.
     rbind (write_mimetypes (mimeTypesList cd) (posix_lseek_set (unat (mimeListPos h)) out)) (\<lambda>out.
     ASSERT (f_pos out < CLUSTER_BASE_OFFSET)
     (rbind (write_dirents (\<lambda>n. clusters cd ! n) (dirents cd) (store cd) (posix_lseek_end out)) (\<lambda>(st, out).
     let cd = cd\<lparr>store := st\<rparr>;
         h = h\<lparr>urlPtrPos := of_nat (f_pos out)\<rparr> in
     rbind (write_offset_list (map (\<lambda>d. wd_offset (st d)) (dirents cd)) out) (\<lambda>out.
     let h = h\<lparr>clusterPtrPos := of_nat (f_pos out)\<rparr> in
     rbind (write_offset_list (map (\<lambda>n. w_offset (clusters cd ! n)) (clustersList cd)) out) (\<lambda>out.
     let h = h\<lparr>checksumPos := of_nat (f_pos out)\<rparr> in
     rbind (write_header h (posix_lseek_set 0 out)) (\<lambda>out.
     rbind (write_checksum md5ctx out) (\<lambda>out. Inr (cd, h, out)))))))))"

section \<open>Writing inside of the file\<close>

definition file_at :: "OutFile \<Rightarrow> bytes \<Rightarrow> bytes \<Rightarrow> bool" where
  "file_at f pre post \<longleftrightarrow> f_contents f = pre @ post \<and> f_pos f = length pre"

lemma file_at_Nil: "file_at f pre [] = file_at_end f pre"
  by (simp add: file_at_def file_at_end_def)

lemma write_or_throw_at:
  assumes "file_at f pre post" "length data \<le> max_transfer"
  shows "\<exists>f'. write_or_throw posix_write f data = Inr f' \<and> file_at f' (pre @ data) (drop (length data) post)"
  using assms by (auto simp: write_or_throw_def posix_write_def file_at_def Let_def)

lemma write_list_at:
  assumes "file_at f pre post" "\<forall>x\<in>set xs. length (enc x) \<le> max_transfer"
  shows "\<exists>f'. rfoldl (\<lambda>out x. write_or_throw posix_write out (enc x)) f xs = Inr f' \<and>
    file_at f' (pre @ concat (map enc xs)) (drop (length (concat (map enc xs))) post)"
  using assms
proof (induction xs arbitrary: f pre post)
  case (Cons x xs)
  then obtain f1 where 1: "write_or_throw posix_write f (enc x) = Inr f1" "file_at f1 (pre @ enc x) (drop (length (enc x)) post)"
    using write_or_throw_at [of f pre post "enc x"] by auto
  obtain f' where "rfoldl (\<lambda>out x. write_or_throw posix_write out (enc x)) f1 xs = Inr f'"
    "file_at f' ((pre @ enc x) @ concat (map enc xs)) (drop (length (concat (map enc xs))) (drop (length (enc x)) post))"
    using Cons.IH [OF 1(2)] Cons.prems(2) by auto
  with 1(1) show ?case by (simp add: add.commute)
qed simp

definition mime_list :: "bytes list \<Rightarrow> bytes" where
  "mime_list ms = concat (map (\<lambda>m. m @ [0]) ms) @ [0]"

lemma write_mimetypes_at:
  assumes "file_at f pre post" "\<forall>m\<in>set ms. length m < max_transfer"
  shows "\<exists>f'. write_mimetypes ms f = Inr f' \<and> file_at f' (pre @ mime_list ms) (drop (length (mime_list ms)) post)"
proof -
  have "\<forall>m\<in>set ms. length (m @ [0]) \<le> max_transfer" using assms(2) by auto
  from write_list_at [OF assms(1) this] obtain f1 where
    1: "rfoldl (\<lambda>out m. write_or_throw posix_write out (m @ [0])) f ms = Inr f1"
      "file_at f1 (pre @ concat (map (\<lambda>m. m @ [0]) ms)) (drop (length (concat (map (\<lambda>m. m @ [0]) ms))) post)" by blast
  from write_or_throw_at [OF 1(2), of "[0]"] 1(1) show ?thesis
    by (auto simp: write_mimetypes_def mime_list_def max_transfer_def)
qed

lemma write_offset_list_end:
  assumes "file_at_end f pre"
  shows "\<exists>f'. write_offset_list offs f = Inr f' \<and> file_at_end f' (pre @ concat (map toLittleEndian64 offs))"
  using write_list_at [of f pre "[]" offs toLittleEndian64] assms
  by (auto simp: write_offset_list_def file_at_Nil max_transfer_def)

lemma seek_end_at: "file_at f pre post \<Longrightarrow> file_at_end (posix_lseek_end f) (pre @ post)"
  by (simp add: file_at_def file_at_end_def posix_lseek_end_def)

lemma seek_set_at: "f_contents f = bs \<Longrightarrow> n \<le> length bs \<Longrightarrow> file_at (posix_lseek_set n f) (take n bs) (drop n bs)"
  by (simp add: file_at_def posix_lseek_set_def)

section \<open>The directory\<close>

text \<open>Setting the offset of an entry changes nothing that is written.\<close>

definition same_but_offset :: "dirent_store \<Rightarrow> dirent_store \<Rightarrow> bool" where
  "same_but_offset st st' \<longleftrightarrow> (\<forall>a. \<exists>off. st' a = (st a)\<lparr>wd_offset := off\<rparr>)"

lemma same_but_offset_bytes:
  assumes "same_but_offset st st'"
  shows "wd_dirent st' cls (st' a) = wd_dirent st cls (st a)" "wd_writable (st' a) = wd_writable (st a)"
    "wd_path (st' a) = wd_path (st a)" "wd_title (st' a) = wd_title (st a)"
proof -
  obtain off where a: "st' a = (st a)\<lparr>wd_offset := off\<rparr>" using assms unfolding same_but_offset_def by blast
  have idx: "wd_idx (st' t) = wd_idx (st t)" for t
  proof -
    obtain off where "st' t = (st t)\<lparr>wd_offset := off\<rparr>" using assms unfolding same_but_offset_def by blast
    then show ?thesis by simp
  qed
  show "wd_dirent st' cls (st' a) = wd_dirent st cls (st a)" "wd_writable (st' a) = wd_writable (st a)"
    "wd_path (st' a) = wd_path (st a)" "wd_title (st' a) = wd_title (st a)"
    by (simp_all add: a idx wd_dirent_def wd_writable_def wd_isRedirect_def wd_getTitle_def wd_getClusterNumber_def
        wd_getBlobNumber_def wd_getRedirectIndex_def split: DirentInfo.splits option.splits)
qed

lemma same_but_offset_refl: "same_but_offset st st"
  unfolding same_but_offset_def
proof
  show "\<exists>off. st a = (st a)\<lparr>wd_offset := off\<rparr>" for a by (rule exI [of _ "wd_offset (st a)"]) simp
qed

lemma same_but_offset_upd: "same_but_offset st (st(a := (st a)\<lparr>wd_offset := off\<rparr>))"
  unfolding same_but_offset_def by (metis fun_upd_apply WDirent.surjective WDirent.update_convs(10))

lemma same_but_offset_trans: "same_but_offset a b \<Longrightarrow> same_but_offset b c \<Longrightarrow> same_but_offset a c"
  unfolding same_but_offset_def by (metis (no_types, lifting) WDirent.surjective WDirent.update_convs(10))

definition entry_bytes :: "dirent_store \<Rightarrow> (nat \<Rightarrow> WCluster) \<Rightarrow> addr \<Rightarrow> bytes" where
  "entry_bytes st cls a = dirent_bytes (wd_dirent st cls (st a))"

lemma write_dirents_ok:
  assumes "file_at_end out pre" "distinct ds"
    and "\<forall>d\<in>set ds. wd_writable (st d) \<and> length (wd_path (st d)) < max_transfer \<and> length (wd_title (st d)) \<le> max_transfer"
  shows "\<exists>st' out'. write_dirents cls ds st out = Inr (st', out') \<and> same_but_offset st st' \<and> (\<forall>a. a \<notin> set ds \<longrightarrow> st' a = st a) \<and>
    file_at_end out' (pre @ concat (map (entry_bytes st cls) ds)) \<and>
    (\<forall>k<length ds. wd_offset (st' (ds ! k)) = of_nat (length (pre @ concat (map (entry_bytes st cls) (take k ds)))))"
  using assms
proof (induction ds arbitrary: st out pre)
  case Nil
  then show ?case by (simp add: same_but_offset_refl)
next
  case (Cons d ds)
  let ?st = "st(d := (st d)\<lparr>wd_offset := of_nat (f_pos out)\<rparr>)"
  note same = same_but_offset_bytes [OF same_but_offset_upd, of st d "of_nat (f_pos out)"]
  have eb: "entry_bytes ?st cls a = entry_bytes st cls a" for a by (simp only: entry_bytes_def same)
  have prem: "\<forall>e\<in>set (d # ds). wd_writable (?st e) \<and> length (wd_path (?st e)) < max_transfer \<and> length (wd_title (?st e)) \<le> max_transfer"
    using Cons.prems(3) unfolding same .
  have "wd_writable (?st d)" "length (wd_path (?st d)) < max_transfer" "length (wd_title (?st d)) \<le> max_transfer" using prem by simp_all
  from wd_write_ok [OF this(1) Cons.prems(1) this(2,3), of ?st cls] obtain out1 where
    w: "wd_write posix_write ?st cls (?st d) out = Inr out1" "file_at_end out1 (pre @ entry_bytes ?st cls d)"
    unfolding entry_bytes_def by blast
  have 1: "wd_write posix_write ?st cls (?st d) out = Inr out1" "file_at_end out1 (pre @ entry_bytes st cls d)"
    using w unfolding eb by blast+
  obtain st' out' where 2: "write_dirents cls ds ?st out1 = Inr (st', out')" "same_but_offset ?st st'" "\<forall>a. a \<notin> set ds \<longrightarrow> st' a = ?st a"
      "file_at_end out' ((pre @ entry_bytes st cls d) @ concat (map (entry_bytes ?st cls) ds))"
      "\<forall>k<length ds. wd_offset (st' (ds ! k)) = of_nat (length ((pre @ entry_bytes st cls d) @ concat (map (entry_bytes ?st cls) (take k ds))))"
  proof -
    have "distinct ds" "\<forall>e\<in>set ds. wd_writable (?st e) \<and> length (wd_path (?st e)) < max_transfer \<and> length (wd_title (?st e)) \<le> max_transfer"
      using Cons.prems(2) prem by (simp, meson list.set_intros(2))
    from Cons.IH [OF 1(2) this] show thesis using that by blast
  qed
  have eb': "entry_bytes ?st cls = entry_bytes st cls" using eb by blast
  have "wd_offset (st' ((d # ds) ! k)) = of_nat (length (pre @ concat (map (entry_bytes st cls) (take k (d # ds)))))" if "k < length (d # ds)" for k
  proof (cases k)
    case 0
    have "st' d = ?st d" using 2(3) Cons.prems(2) by (metis distinct.simps(2))
    then show ?thesis using 0 Cons.prems(1) by (simp add: file_at_end_def)
  next
    case (Suc j)
    then show ?thesis using 2(5) that by (simp add: eb' del: of_nat_add)
  qed
  moreover have "write_dirents cls (d # ds) st out = Inr (st', out')" using 1(1) 2(1) by (simp add: Let_def)
  moreover have "same_but_offset st st'" using same_but_offset_trans [OF same_but_offset_upd 2(2)] .
  moreover have "\<forall>a. a \<notin> set (d # ds) \<longrightarrow> st' a = st a" using 2(3) by auto
  moreover have "file_at_end out' (pre @ concat (map (entry_bytes st cls) (d # ds)))" using 2(4) by (simp add: eb')
  ultimately show ?case by blast
qed

section \<open>The checksum\<close>

lemma checksum_loop_ok:
  assumes "md5_absorbed ctx (take (f_pos f) (f_contents f))" "f_pos f \<le> length (f_contents f)"
  shows "\<exists>ctx' f'. checksum_loop posix_read ctx f = Some (Inr (ctx', f')) \<and> md5_absorbed ctx' (f_contents f) \<and>
    file_at_end f' (f_contents f)"
  using assms
proof (induction "length (f_contents f) - f_pos f" arbitrary: ctx f rule: less_induct)
  case less
  let ?d = "take 1024 (drop (f_pos f) (f_contents f))" and ?f = "f\<lparr>f_pos := f_pos f + length (take 1024 (drop (f_pos f) (f_contents f)))\<rparr>"
  have read: "posix_read f 1024 = Some (?d, ?f)" by (simp add: posix_read_def Let_def)
  show ?case
  proof (cases "?d = []")
    case True
    then have "f_pos f = length (f_contents f)" using less.prems(2) by simp
    then show ?thesis using True read less.prems(1) by (auto simp: checksum_loop.simps file_at_end_def)
  next
    case False
    have "md5_chunk_ok ?d" by (simp add: md5_chunk_ok_def)
    then obtain c' where c': "zim_MD5Update ctx ?d (of_nat (length ?d)) = Inr c'"
        "md5_absorbed c' (take (f_pos f) (f_contents f) @ ?d)"
      using md5.update_absorbs [OF less.prems(1), of ?d] unfolding md5_feed_def by blast
    have "take (f_pos f) (f_contents f) @ ?d = take (f_pos ?f) (f_contents ?f)"
      by (simp add: take_add [symmetric] min_def)
    then have a: "md5_absorbed c' (take (f_pos ?f) (f_contents ?f))" using c'(2) by simp
    have "length (f_contents ?f) - f_pos ?f < length (f_contents f) - f_pos f" using False less.prems(2) by auto
    moreover have "f_pos ?f \<le> length (f_contents ?f)" using less.prems(2) by simp
    ultimately obtain ctx' f' where
      "checksum_loop posix_read c' ?f = Some (Inr (ctx', f'))" "md5_absorbed ctx' (f_contents f)" "file_at_end f' (f_contents f)"
      using less.hyps [OF _ a] by auto
    moreover have "checksum_loop posix_read ctx f = checksum_loop posix_read c' ?f"
      using False read c'(1) by (subst checksum_loop.simps) simp
    ultimately show ?thesis by auto
  qed
qed

lemma write_checksum_ok:
  assumes "length (md5_buffer ctx) = 64"
  shows "\<exists>out'. write_checksum ctx out = Inr out' \<and> f_contents out' = f_contents out @ rfc1321_md5 (f_contents out)"
proof -
  have "md5_absorbed (zim_MD5Init ctx) (take (f_pos (posix_lseek_set 0 out)) (f_contents (posix_lseek_set 0 out)))"
    using md5_absorbed_init [OF assms] by (simp add: posix_lseek_set_def)
  from checksum_loop_ok [OF this] obtain ctx' f' where
    1: "checksum_loop posix_read (zim_MD5Init ctx) (posix_lseek_set 0 out) = Some (Inr (ctx', f'))"
      "md5_absorbed ctx' (f_contents out)" "file_at_end f' (f_contents out)" by (auto simp: posix_lseek_set_def)
  obtain c'' where 2: "zim_MD5Final ctx' = Inr (rfc1321_md5 (f_contents out), c'')" using md5.final_digest [OF 1(2)] by blast
  have "length (rfc1321_md5 (f_contents out)) \<le> max_transfer" by (simp add: rfc1321_md5_def max_transfer_def split: prod.split)
  from posix_write_or_throw [OF 1(3) this] 1(1) 2 show ?thesis by (auto simp: write_checksum_def file_at_end_def)
qed

section \<open>The file\<close>

lemma write_header_at:
  assumes "length (uuid h) = 16" "file_at f [] (old @ rest)" "length old = 80"
  shows "\<exists>f'. write_header h f = Inr f' \<and> f_contents f' = header_bytes h @ rest"
proof -
  have len: "length (header_bytes h) = 80" using assms(1) by (simp add: header_bytes_def)
  have "posix_write f (header_bytes h) = (Some 80, f\<lparr>f_contents := header_bytes h @ rest, f_pos := 80\<rparr>)"
    using assms(2,3) len by (simp add: posix_write_def file_at_def Let_def max_transfer_def)
  then show ?thesis by (simp add: write_header_def Fileheader_write_def)
qed

text \<open>What must hold of the data when \<^verbatim>\<open>write\<close> starts.\<close>

definition ready_to_write :: "CreatorData \<Rightarrow> bool" where
  "ready_to_write cd \<longleftrightarrow> distinct (dirents cd) \<and>
     (\<forall>d\<in>set (dirents cd). wd_writable (store cd d) \<and> length (wd_path (store cd d)) < max_transfer \<and>
        length (wd_title (store cd d)) \<le> max_transfer) \<and>
     80 + length (mime_list (mimeTypesList cd)) < CLUSTER_BASE_OFFSET"

text \<open>The file: header, mime types, what was there (the clusters), directory, the two lists of offsets.\<close>

definition archive_body :: "CreatorData \<Rightarrow> bytes \<Rightarrow> u64 list \<Rightarrow> Fileheader \<Rightarrow> bytes" where
  "archive_body cd base offs h =
     header_bytes h @ mime_list (mimeTypesList cd) @ drop (80 + length (mime_list (mimeTypesList cd))) base @
     concat (map (entry_bytes (store cd) (\<lambda>n. clusters cd ! n)) (dirents cd)) @ concat (map toLittleEndian64 offs) @
     concat (map (\<lambda>n. toLittleEndian64 (w_offset (clusters cd ! n))) (clustersList cd))"

definition entry_offset :: "CreatorData \<Rightarrow> bytes \<Rightarrow> nat \<Rightarrow> nat" where
  "entry_offset cd base k =
     length base + length (concat (map (entry_bytes (store cd) (\<lambda>n. clusters cd ! n)) (take k (dirents cd))))"

definition final_header :: "CreatorData \<Rightarrow> bytes \<Rightarrow> Fileheader \<Rightarrow> Fileheader" where
  "final_header cd base h =
     (let n = length (dirents cd) in
      h\<lparr>urlPtrPos := of_nat (entry_offset cd base n), clusterPtrPos := of_nat (entry_offset cd base n + 8 * n),
        checksumPos := of_nat (entry_offset cd base n + 8 * n + 8 * length (clustersList cd))\<rparr>)"

lemma length_mime_list: "m \<in> set ms \<Longrightarrow> length m \<le> length (mime_list ms)"
  by (induction ms) (auto simp: mime_list_def)

lemma write_mime_part:
  assumes "f_contents out = base" "80 + length (mime_list ms) < 1024" "1024 \<le> length base"
  shows "\<exists>o1. write_mimetypes ms (posix_lseek_set 80 out) = Inr o1 \<and> f_pos o1 < 1024 \<and>
    file_at_end (posix_lseek_end o1) (take 80 base @ mime_list ms @ drop (80 + length (mime_list ms)) base)"
proof -
  have "file_at (posix_lseek_set 80 out) (take 80 base) (drop 80 base)" using seek_set_at [OF assms(1)] assms(3) by simp
  moreover have "\<forall>m\<in>set ms. length m < max_transfer"
    using length_mime_list [of _ ms] assms(2) by (fastforce simp: max_transfer_def)
  ultimately obtain o1 where o1: "write_mimetypes ms (posix_lseek_set 80 out) = Inr o1"
      "file_at o1 (take 80 base @ mime_list ms) (drop (length (mime_list ms)) (drop 80 base))"
    using write_mimetypes_at by blast
  moreover have "f_pos o1 < 1024" using o1(2) assms(2,3) by (simp add: file_at_def)
  ultimately show ?thesis using seek_end_at [OF o1(2)] by (simp add: add.commute)
qed

lemma creator_write_ok:
  assumes ready: "ready_to_write cd" and base: "f_contents out = base" "CLUSTER_BASE_OFFSET \<le> length base"
    and h: "fillHeader c cd h0 = Inr h" "length (m_uuid c) = 16" and md5: "length (md5_buffer ctx) = 64"
  defines "h' \<equiv> final_header cd base h"
  defines "body \<equiv> archive_body cd base (map (\<lambda>k. of_nat (entry_offset cd base k)) [0..<length (dirents cd)]) h'"
  shows "\<exists>cd' out'. creator_write c h0 ctx cd out = Inr (cd', h', out') \<and> f_contents out' = body @ rfc1321_md5 body"
proof -
  let ?M = "mime_list (mimeTypesList cd)" and ?cls = "\<lambda>n. clusters cd ! n"
  let ?ds = "dirents cd" and ?E = "entry_bytes (store cd) (\<lambda>n. clusters cd ! n)"
  let ?offs = "map (\<lambda>k. of_nat (entry_offset cd base k)) [0..<length ?ds]"
  have hf: "mimeListPos h = header_size" "uuid h = m_uuid c"
    using h(1) by (auto simp: fillHeader_def Let_def rbind_Inr_iff split: option.splits)
  have small: "80 + length ?M < 1024" "1024 \<le> length base" using ready base(2) by (simp_all add: ready_to_write_def CLUSTER_BASE_OFFSET_def)
  have m80: "unat (mimeListPos h) = 80" by (simp add: hf header_size_def)
  let ?B = "take 80 base @ ?M @ drop (80 + length ?M) base"
  obtain o1 where o1: "write_mimetypes (mimeTypesList cd) (posix_lseek_set (unat (mimeListPos h)) out) = Inr o1"
      "f_pos o1 < CLUSTER_BASE_OFFSET" "file_at_end (posix_lseek_end o1) ?B"
    using write_mime_part [OF base(1), of "mimeTypesList cd"] small unfolding m80 by (auto simp: CLUSTER_BASE_OFFSET_def)
  have lenB: "length ?B = length base" using small by simp
  obtain st o2 where o2: "write_dirents ?cls ?ds (store cd) (posix_lseek_end o1) = Inr (st, o2)"
      "file_at_end o2 (?B @ concat (map ?E ?ds))"
      "\<forall>k<length ?ds. wd_offset (st (?ds ! k)) = of_nat (length (?B @ concat (map ?E (take k ?ds))))"
    using write_dirents_ok [OF o1(3), of ?ds "store cd" ?cls] ready unfolding ready_to_write_def by blast
  have eo: "length (?B @ concat (map ?E (take k ?ds))) = entry_offset cd base k" for k
    using lenB by (simp add: entry_offset_def)
  have offs: "map (\<lambda>d. wd_offset (st d)) ?ds = ?offs"
    using o2(3) unfolding eo by (intro nth_equalityI) simp_all
  obtain o3 where o3: "write_offset_list ?offs o2 = Inr o3" "file_at_end o3 ((?B @ concat (map ?E ?ds)) @ concat (map toLittleEndian64 ?offs))"
    using write_offset_list_end [OF o2(2)] by blast
  let ?coffs = "map (\<lambda>n. w_offset (clusters cd ! n)) (clustersList cd)"
  obtain o4 where o4: "write_offset_list ?coffs o3 = Inr o4"
      "file_at_end o4 (((?B @ concat (map ?E ?ds)) @ concat (map toLittleEndian64 ?offs)) @ concat (map toLittleEndian64 ?coffs))"
    using write_offset_list_end [OF o3(2)] by blast
  have l: "length (concat (map toLittleEndian64 ?offs)) = 8 * length ?ds" "length (concat (map toLittleEndian64 ?coffs)) = 8 * length (clustersList cd)"
    by (subst length_concat_64, simp)+
  have "f_pos o2 = entry_offset cd base (length ?ds)"
    using o2(2) eo [of "length ?ds"] by (simp only: file_at_end_def take_all order.refl)
  moreover have "f_pos o3 = f_pos o2 + 8 * length ?ds" using o2(2) o3(2) l(1) by (simp only: file_at_end_def length_append)
  moreover have "f_pos o4 = f_pos o3 + 8 * length (clustersList cd)" using o3(2) o4(2) l(2) by (simp only: file_at_end_def length_append)
  ultimately have pos: "f_pos o2 = entry_offset cd base (length ?ds)" "f_pos o3 = entry_offset cd base (length ?ds) + 8 * length ?ds"
    "f_pos o4 = entry_offset cd base (length ?ds) + 8 * length ?ds + 8 * length (clustersList cd)" by simp_all
  have h': "h\<lparr>urlPtrPos := of_nat (f_pos o2), clusterPtrPos := of_nat (f_pos o3), checksumPos := of_nat (f_pos o4)\<rparr> = h'"
    by (simp add: pos h'_def final_header_def Let_def)
  let ?rest = "?M @ drop (80 + length ?M) base @ concat (map ?E ?ds) @ concat (map toLittleEndian64 ?offs) @ concat (map toLittleEndian64 ?coffs)"
  have "file_at (posix_lseek_set 0 o4) [] (take 80 base @ ?rest)" using o4(2) by (simp add: file_at_def posix_lseek_set_def file_at_end_def)
  moreover have "length (uuid h') = 16" using hf(2) h(2) by (simp add: h'_def final_header_def Let_def)
  ultimately obtain o5 where o5: "write_header h' (posix_lseek_set 0 o4) = Inr o5" "f_contents o5 = header_bytes h' @ ?rest"
    using write_header_at [of h' "posix_lseek_set 0 o4" "take 80 base" ?rest] small by auto
  have body: "header_bytes h' @ ?rest = body" by (simp add: body_def archive_body_def comp_def)
  obtain o6 where o6: "write_checksum ctx o5 = Inr o6" "f_contents o6 = body @ rfc1321_md5 body"
    using write_checksum_ok [OF md5, of o5] o5(2) body by auto
  have "creator_write c h0 ctx cd out = Inr (cd\<lparr>store := st\<rparr>, h', o6)"
    using h(1) o1(1,2) o2(1) o3(1) o4(1) o5(1) o6(1) offs h' by (simp add: creator_write_def Let_def ASSERT_def)
  with o6(2) show ?thesis by blast
qed

section \<open>Reading it back\<close>

definition archive_entries :: "CreatorData \<Rightarrow> Dirent list" where
  "archive_entries cd = map (\<lambda>d. wd_dirent (store cd) (\<lambda>n. clusters cd ! n) (store cd d)) (dirents cd)"

text \<open>The offsets that \<^verbatim>\<open>write\<close> put into the pointer list.\<close>

definition archive_offsets :: "CreatorData \<Rightarrow> bytes \<Rightarrow> u64 list" where
  "archive_offsets cd base = map (\<lambda>k. of_nat (entry_offset cd base k)) [0..<length (dirents cd)]"

definition archive_file :: "CreatorData \<Rightarrow> bytes \<Rightarrow> Fileheader \<Rightarrow> bytes" where
  "archive_file cd base h =
     archive_body cd base (archive_offsets cd base) h @ rfc1321_md5 (archive_body cd base (archive_offsets cd base) h)"

lemma archive_file_split:
  assumes "length (uuid h) = 16" "ready_to_write cd" "CLUSTER_BASE_OFFSET \<le> length base"
  obtains pre post where "archive_file cd base h = pre @ concat (map (entry_bytes (store cd) (\<lambda>n. clusters cd ! n)) (dirents cd)) @
      concat (map toLittleEndian64 (archive_offsets cd base)) @ post" "length pre = length base" "take 80 pre = header_bytes h"
proof
  let ?M = "mime_list (mimeTypesList cd)"
  let ?pre = "header_bytes h @ ?M @ drop (80 + length ?M) base"
  show "archive_file cd base h = ?pre @ concat (map (entry_bytes (store cd) (\<lambda>n. clusters cd ! n)) (dirents cd)) @
      concat (map toLittleEndian64 (archive_offsets cd base)) @
      (concat (map (\<lambda>n. toLittleEndian64 (w_offset (clusters cd ! n))) (clustersList cd)) @
       rfc1321_md5 (archive_body cd base (archive_offsets cd base) h))"
    by (simp add: archive_file_def archive_body_def)
  have "length (header_bytes h) = 80" using assms(1) by (simp add: header_bytes_def)
  then show "length ?pre = length base" "take 80 ?pre = header_bytes h"
    using assms(2,3) by (simp_all add: ready_to_write_def CLUSTER_BASE_OFFSET_def)
qed

lemma entry_bytes_short:
  "length (wd_path (st a)) + length (wd_title (st a)) < 200 \<Longrightarrow> length (entry_bytes st cls a) \<le> 256 \<and> 0 < length (entry_bytes st cls a)"
  using length_dirent_fixed [of "wd_dirent st cls (st a)"]
  by (simp add: entry_bytes_def dirent_bytes_def wd_dirent_kind wd_getTitle_def)

lemma archive_entry_at:
  assumes fl: "length (uuid h) = 16" "ready_to_write cd" "CLUSTER_BASE_OFFSET \<le> length base"
    and short: "\<forall>d\<in>set (dirents cd). length (wd_path (store cd d)) + length (wd_title (store cd d)) < 200"
    and small: "length (archive_file cd base h) \<le> max_transfer" and k: "k < length (dirents cd)"
  shows "dirent_at (archive_file cd base h) (archive_offsets cd base ! k) (archive_entries cd ! k)"
proof -
  let ?cls = "\<lambda>n. clusters cd ! n" and ?d = "dirents cd ! k"
  let ?E = "entry_bytes (store cd) ?cls"
  obtain pre post where f: "archive_file cd base h = pre @ concat (map ?E (dirents cd)) @ concat (map toLittleEndian64 (archive_offsets cd base)) @ post"
      "length pre = length base" using archive_file_split [OF fl] by blast
  have d: "?d \<in> set (dirents cd)" using k by simp
  let ?front = "pre @ concat (map ?E (take k (dirents cd)))"
  have split: "archive_file cd base h = ?front @ ?E ?d @ concat (map ?E (drop (Suc k) (dirents cd))) @ concat (map toLittleEndian64 (archive_offsets cd base)) @ post"
    unfolding f(1) concat_map_split [OF k, of ?E] by simp
  have front: "length ?front = entry_offset cd base k" by (simp add: entry_offset_def f(2))
  have e: "length (?E ?d) \<le> 256" "0 < length (?E ?d)" using entry_bytes_short [of "store cd" ?d ?cls] short d by blast+
  have lt: "length ?front + length (?E ?d) \<le> length (archive_file cd base h)" unfolding split by simp
  have off: "unat (archive_offsets cd base ! k) = length ?front"
    using lt small k unfolding front by (simp add: archive_offsets_def unat_of_nat_small max_transfer_def)
  have "drop (length ?front) (archive_file cd base h) = ?E ?d @ (concat (map ?E (drop (Suc k) (dirents cd))) @ concat (map toLittleEndian64 (archive_offsets cd base)) @ post)"
    unfolding split by simp
  moreover have "encodable (wd_dirent (store cd) ?cls (store cd ?d))"
    using fl(2) d by (intro wd_dirent_encodable) (simp add: ready_to_write_def)
  moreover have "length ?front < length (archive_file cd base h)" using lt e(2) by linarith
  ultimately show ?thesis
    using e k off by (auto simp: dirent_at_def archive_entries_def entry_bytes_def wd_dirent_kind)
qed

lemma unat_8_ucast: "unat (8 * ucast (a :: u32) :: u64) = 8 * unat a"
proof -
  have "8 * (n mod 2 ^ 64) mod 2 ^ 64 = 8 * n" if "n < 2 ^ 32" for n :: nat using that by simp
  from this [of "unat a"] show ?thesis using unat_bound [of a] by (simp add: unat_word_ariths unat_ucast_mod)
qed

lemma archive_accessor:
  assumes fl: "length (uuid h) = 16" "ready_to_write cd" "CLUSTER_BASE_OFFSET \<le> length base"
    and short: "\<forall>d\<in>set (dirents cd). length (wd_path (store cd d)) + length (wd_title (store cd d)) < 200"
    and small: "length (archive_file cd base h) \<le> max_transfer"
    and h: "urlPtrPos h = of_nat (entry_offset cd base (length (dirents cd)))" "articleCount h = of_nat (length (dirents cd))"
    and r: "reader_holds r (archive_file cd base h)"
  shows "\<exists>u. sub_reader junk r (urlPtrPos h) (8 * ucast (articleCount h)) = Inr u \<and>
    accessor_holds junk \<lparr>mp_zimReader = r, mp_urlPtrReader = u, m_direntCount = articleCount h, m_direntCache = lru_new N\<rparr> (archive_entries cd)"
proof -
  let ?n = "length (dirents cd)" and ?file = "archive_file cd base h"
  let ?E = "entry_bytes (store cd) (\<lambda>n. clusters cd ! n)"
  obtain pre post where f: "?file = pre @ concat (map ?E (dirents cd)) @ concat (map toLittleEndian64 (archive_offsets cd base)) @ post"
      "length pre = length base" using archive_file_split [OF fl] by blast
  let ?front = "pre @ concat (map ?E (dirents cd))"
  have front: "length ?front = entry_offset cd base ?n" by (simp add: entry_offset_def f(2))
  have l: "length (concat (map toLittleEndian64 (archive_offsets cd base))) = 8 * ?n"
    by (subst length_concat_64) (simp add: archive_offsets_def)
  have lt: "entry_offset cd base ?n + 8 * ?n \<le> length ?file" unfolding front [symmetric] l [symmetric] f(1) by simp
  have u: "unat (urlPtrPos h) = entry_offset cd base ?n" "unat (articleCount h) = ?n" "unat (8 * ucast (articleCount h) :: u64) = 8 * ?n"
  proof -
    show "unat (urlPtrPos h) = entry_offset cd base ?n" using lt small by (simp add: h unat_of_nat_small max_transfer_def)
    show c: "unat (articleCount h) = ?n" using lt small by (simp add: h unat_of_nat_small max_transfer_def)
    show "unat (8 * ucast (articleCount h) :: u64) = 8 * ?n" using c by (simp add: unat_8_ucast)
  qed
  have sl: "slice_at (entry_offset cd base ?n) (8 * ?n) ?file = concat (map toLittleEndian64 (archive_offsets cd base))"
    unfolding front [symmetric] l [symmetric] f(1) by (simp add: slice_at_def)
  obtain ur where ur: "sub_reader junk r (urlPtrPos h) (8 * ucast (articleCount h)) = Inr ur"
      "reader_holds ur (concat (map toLittleEndian64 (archive_offsets cd base)))"
    using rd.sub_exact [OF r, of "urlPtrPos h" "8 * ucast (articleCount h)" junk] lt u sl by auto
  have "list_all2 (dirent_at ?file) (archive_offsets cd base) (archive_entries cd)"
    using archive_entry_at [OF fl short small] by (simp add: list_all2_conv_all_nth archive_offsets_def archive_entries_def)
  then have "entries_stored \<lparr>mp_zimReader = r, mp_urlPtrReader = ur, m_direntCount = articleCount h, m_direntCache = lru_new N\<rparr> (archive_entries cd)"
    using r ur(2) small u(2) unfolding entries_stored_def by (auto simp: archive_entries_def simp del: reader_holds.simps)
  with ur(1) show ?thesis by (auto simp: accessor_holds_def lru.sound_def lru_put_items lru_lookup_def)
qed

section \<open>Properties\<close>

lemma fillHeader_fields:
  assumes "fillHeader c cd h0 = Inr h"
  shows "mimeListPos h = 80" "uuid h = m_uuid c" "articleCount h = of_nat (length (dirents cd))"
  using assms by (auto simp: fillHeader_def Let_def rbind_Inr_iff header_size_def split: option.splits)

lemma archive_body_length:
  assumes "length (uuid h) = 16" "ready_to_write cd" "CLUSTER_BASE_OFFSET \<le> length base"
  shows "length (archive_body cd base (archive_offsets cd base) h) =
    entry_offset cd base (length (dirents cd)) + 8 * length (dirents cd) + 8 * length (clustersList cd)"
proof -
  have "length (header_bytes h) = 80" using assms(1) by (simp add: header_bytes_def)
  moreover have "length (concat (map toLittleEndian64 (archive_offsets cd base))) = 8 * length (dirents cd)"
    by (subst length_concat_64) (simp add: archive_offsets_def)
  moreover have "length (concat (map (\<lambda>n. toLittleEndian64 (f n)) xs)) = 8 * length xs" for f and xs :: "nat list"
    using length_concat_64 [of "map f xs"] by (simp add: comp_def)
  moreover have "80 + length (mime_list (mimeTypesList cd)) \<le> length base" using assms(2,3) by (simp add: ready_to_write_def)
  ultimately show ?thesis by (simp add: archive_body_def entry_offset_def)
qed

lemma creator_write_file:
  assumes "ready_to_write cd" "f_contents out = base" "CLUSTER_BASE_OFFSET \<le> length base"
    and "fillHeader c cd h0 = Inr h" "length (m_uuid c) = 16" "length (md5_buffer ctx) = 64"
  shows "\<exists>cd' out'. creator_write c h0 ctx cd out = Inr (cd', final_header cd base h, out') \<and>
    f_contents out' = archive_file cd base (final_header cd base h)"
  using creator_write_ok [OF assms] unfolding archive_file_def archive_offsets_def .

text \<open>C5: The file that \<^verbatim>\<open>Creator::write\<close> leaves behind consists, without gaps, of the header, the list of mime types,
  the clusters that were there, the entries in the order of the directory, the offsets of the entries, the
  offsets of the clusters, and the MD5 digest of everything before it; the header holds the positions of the
  two lists and of the digest.\<close>

theorem archive_layout:
  assumes "ready_to_write cd" "f_contents out = base" "CLUSTER_BASE_OFFSET \<le> length base"
    and "fillHeader c cd h0 = Inr h" "length (m_uuid c) = 16" "length (md5_buffer ctx) = 64"
  shows "\<exists>cd' out' h' body. creator_write c h0 ctx cd out = Inr (cd', h', out') \<and>
    f_contents out' = body @ rfc1321_md5 body \<and>
    body = header_bytes h' @ mime_list (mimeTypesList cd) @ drop (80 + length (mime_list (mimeTypesList cd))) base @
      concat (map (entry_bytes (store cd) (\<lambda>n. clusters cd ! n)) (dirents cd)) @
      concat (map (\<lambda>k. toLittleEndian64 (of_nat (entry_offset cd base k))) [0..<length (dirents cd)]) @
      concat (map (\<lambda>n. toLittleEndian64 (w_offset (clusters cd ! n))) (clustersList cd)) \<and>
    urlPtrPos h' = of_nat (entry_offset cd base (length (dirents cd))) \<and>
    clusterPtrPos h' = urlPtrPos h' + of_nat (8 * length (dirents cd)) \<and>
    checksumPos h' = of_nat (length body)"
proof -
  let ?h = "final_header cd base h" and ?offs = "archive_offsets cd base"
  have "length (uuid ?h) = 16" using fillHeader_fields(2) [OF assms(4)] assms(5) by (simp add: final_header_def Let_def)
  note len = archive_body_length [OF this assms(1,3)]
  obtain cd' out' where "creator_write c h0 ctx cd out = Inr (cd', ?h, out')" "f_contents out' = archive_file cd base ?h"
    using creator_write_file [OF assms] by blast
  moreover have "archive_body cd base ?offs ?h = header_bytes ?h @ mime_list (mimeTypesList cd) @
      drop (80 + length (mime_list (mimeTypesList cd))) base @
      concat (map (entry_bytes (store cd) (\<lambda>n. clusters cd ! n)) (dirents cd)) @
      concat (map (\<lambda>k. toLittleEndian64 (of_nat (entry_offset cd base k))) [0..<length (dirents cd)]) @
      concat (map (\<lambda>n. toLittleEndian64 (w_offset (clusters cd ! n))) (clustersList cd))"
    by (simp add: archive_body_def archive_offsets_def comp_def)
  moreover have "checksumPos ?h = of_nat (length (archive_body cd base ?offs ?h))"
    unfolding len by (simp add: final_header_def Let_def)
  moreover have "urlPtrPos ?h = of_nat (entry_offset cd base (length (dirents cd)))"
    "clusterPtrPos ?h = urlPtrPos ?h + of_nat (8 * length (dirents cd))"
    by (simp_all add: final_header_def Let_def)
  ultimately show ?thesis
    by (intro exI [of _ cd'] exI [of _ out'] exI [of _ ?h] exI [of _ "archive_body cd base ?offs ?h"] conjI)
      (simp_all only: archive_file_def)
qed

text \<open>A finished archive reads back: through any reader of the file, the header that comes out is the one that
  was written, and going through the list of offsets, the entry with a given index is the entry the creator
  had at that place of its directory, for every index; an index beyond the last entry is refused.\<close>

theorem archive_read_back:
  assumes "ready_to_write cd" "f_contents out = base" "CLUSTER_BASE_OFFSET \<le> length base"
    and "fillHeader c cd h0 = Inr h" "length (m_uuid c) = 16" "length (md5_buffer ctx) = 64"
    and "\<forall>d\<in>set (dirents cd). length (wd_path (store cd d)) + length (wd_title (store cd d)) < 200"
    and "length (archive_file cd base (final_header cd base h)) \<le> max_transfer" "valid_header (final_header cd base h)"
  shows "\<exists>cd' h' out'. creator_write c h0 ctx cd out = Inr (cd', h', out') \<and>
    (\<forall>r. reader_holds r (f_contents out') \<longrightarrow> Fileheader_read junk r = Inr h' \<and>
       (\<exists>u. sub_reader junk r (urlPtrPos h') (8 * ucast (articleCount h')) = Inr u \<and>
          (\<forall>idx. fst (getDirent junk idx \<lparr>mp_zimReader = r, mp_urlPtrReader = u, m_direntCount = articleCount h', m_direntCache = lru_new N\<rparr>) =
             (if unat idx < length (dirents cd)
              then Inr (wd_dirent (store cd) (\<lambda>n. clusters cd ! n) (store cd (dirents cd ! unat idx)))
              else Inl (OutOfRange ''entry index out of range'')))))"
proof -
  let ?h = "final_header cd base h"
  note ff = fillHeader_fields [OF assms(4)]
  have hf: "length (uuid ?h) = 16" "mimeListPos ?h = 80" "articleCount ?h = of_nat (length (dirents cd))"
    "urlPtrPos ?h = of_nat (entry_offset cd base (length (dirents cd)))"
    using ff assms(5) by (simp_all add: final_header_def Let_def)
  obtain cd' out' where w: "creator_write c h0 ctx cd out = Inr (cd', ?h, out')" "f_contents out' = archive_file cd base ?h"
    using creator_write_file [OF assms(1-6)] by blast
  have header: "Fileheader_read junk r = Inr ?h" if r: "reader_holds r (archive_file cd base ?h)" for r
  proof -
    obtain pre post where "archive_file cd base ?h = pre @ post" "take 80 pre = header_bytes ?h" "length pre = length base"
      using archive_file_split [OF hf(1) assms(1,3)] by metis
    then have "archive_file cd base ?h = raw_header zimMagic ?h @ drop 80 pre @ post"
      using header_bytes_raw [of ?h] hf(2) by (metis append.assoc append_take_drop_id)
    with r have "reader_holds r (raw_header zimMagic ?h @ drop 80 pre @ post)" by simp
    from Fileheader_read_raw [OF this hf(1), of junk] header_accept_valid [OF hf(1), of zimMagic ?h] assms(9) show ?thesis by simp
  qed
  have entries: "\<exists>u. sub_reader junk r (urlPtrPos ?h) (8 * ucast (articleCount ?h)) = Inr u \<and>
      (\<forall>idx. fst (getDirent junk idx \<lparr>mp_zimReader = r, mp_urlPtrReader = u, m_direntCount = articleCount ?h, m_direntCache = lru_new N\<rparr>) =
         (if unat idx < length (dirents cd)
          then Inr (wd_dirent (store cd) (\<lambda>n. clusters cd ! n) (store cd (dirents cd ! unat idx)))
          else Inl (OutOfRange ''entry index out of range'')))" if r: "reader_holds r (archive_file cd base ?h)" for r
    using archive_accessor [OF hf(1) assms(1,3,7,8) hf(4,3) r, of junk N] getDirent_holds [of junk _ "archive_entries cd"]
    by (auto simp: archive_entries_def)
  show ?thesis using w header entries by (intro exI [of _ cd'] exI [of _ ?h] exI [of _ out']) simp
qed

text \<open>A small archive: one entry, one cluster.\<close>

definition example_data :: CreatorData where
  "example_data = (new_CreatorData zimcompNone 1)\<lparr>
     store := (\<lambda>_. new_WDirent)((0, 0) := (WDirent_key 67 [97])\<lparr>wd_cluster := Some 0\<rparr>),
     dirents := [(0, 0)], mimeTypesList := [[116, 120, 116]],
     clusters := [(new_WCluster zimcompNone)\<lparr>w_closed := True, w_offset := 1024\<rparr>], clustersList := [0],
     titleListing := \<lparr>tl_dirents = [(0, 0)], tl_dirent = Some (0, 0)\<rparr>\<rparr>"

definition example_base :: bytes where
  "example_base = zeros 1030"

definition example_header0 :: Fileheader where
  "example_header0 = (case fillHeader (new_Creator (zeros 16)) example_data (new_Fileheader [] 0) of Inr h \<Rightarrow> h)"

definition example_ctx :: zim_MD5_CTX where
  "example_ctx = \<lparr>md5_state = (0, 0, 0, 0), md5_count = (0, 0), md5_buffer = zeros 64\<rparr>"

lemma example_data_simps:
  "dirents example_data = [(0, 0)]" "store example_data (0, 0) = (WDirent_key 67 [97])\<lparr>wd_cluster := Some 0\<rparr>"
  "mimeTypesList example_data = [[116, 120, 116]]" "clusters example_data = [(new_WCluster zimcompNone)\<lparr>w_closed := True, w_offset := 1024\<rparr>]"
  "clustersList example_data = [0]" "tl_dirent (titleListing example_data) = Some (0, 0)" "cd_isExtended example_data = False"
  "mainPageDirent example_data = None" "m_titleListBlobOffset example_data = 0"
  by (simp_all add: example_data_def new_CreatorData_def)

lemma example_ready: "ready_to_write example_data"
  by (simp add: ready_to_write_def example_data_simps wd_writable_def WDirent_key_def new_WDirent_def wd_isRedirect_def mime_consts
      max_transfer_def mime_list_def CLUSTER_BASE_OFFSET_def)

lemma example_fill: "fillHeader (new_Creator (zeros 16)) example_data (new_Fileheader [] 0) = Inr example_header0"
  "articleCount example_header0 = 1" "clusterCount example_header0 = 1" "titleIdxPos example_header0 = 1029"
  "majorVersion example_header0 = 5" "uuid example_header0 = zeros 16" "mimeListPos example_header0 = 80"
  by (simp_all add: example_header0_def fillHeader_def Let_def example_data_simps WDirent_key_def getDataOffset_def ASSERT_def
      new_WCluster_def header_consts new_Creator_def)

lemma example_entry_length: "length (entry_bytes (store example_data) cls (0, 0)) = 19"
  by (simp add: entry_bytes_def dirent_bytes_def dirent_fixed_def example_data_simps wd_dirent_def WDirent_key_def new_WDirent_def
      wd_isRedirect_def mime_consts wd_getTitle_def isRedirect_def isLinktarget_def isDeleted_def wd_getClusterNumber_def wd_getBlobNumber_def)

lemma example_offsets: "entry_offset example_data example_base (Suc 0) = 1049"
  by (simp add: entry_offset_def example_data_simps example_entry_length example_base_def length_zeros)

lemma example_valid: "valid_header (final_header example_data example_base example_header0)"
  by (simp add: valid_header_def sanity_check_ok_iff final_header_def Let_def example_fill example_data_simps example_offsets length_zeros)

lemma example_file_length: "length (archive_file example_data example_base (final_header example_data example_base example_header0)) \<le> max_transfer"
  by (simp add: archive_file_def archive_body_def archive_offsets_def header_bytes_def final_header_def Let_def example_fill(6) length_zeros
      example_data_simps example_entry_length example_base_def mime_list_def rfc1321_md5_def max_transfer_def split: prod.split)

theorem archive_layout_witness:
  "\<exists>cd' out' h' body. creator_write (new_Creator (zeros 16)) (new_Fileheader [] 0) example_ctx example_data
      \<lparr>f_contents = example_base, f_pos = 0\<rparr> = Inr (cd', h', out') \<and>
    f_contents out' = body @ rfc1321_md5 body \<and> urlPtrPos h' = 1049"
proof -
  have "CLUSTER_BASE_OFFSET \<le> length example_base" by (simp add: CLUSTER_BASE_OFFSET_def example_base_def length_zeros)
  moreover have "length (m_uuid (new_Creator (zeros 16))) = 16" "length (md5_buffer example_ctx) = 64"
    by (simp_all add: new_Creator_def example_ctx_def length_zeros)
  moreover have "entry_offset example_data example_base (length (dirents example_data)) = 1049"
    using example_offsets by (simp add: example_data_simps)
  ultimately show ?thesis
    using archive_layout [OF example_ready _ _ example_fill(1), of "\<lparr>f_contents = example_base, f_pos = 0\<rparr>" example_base example_ctx]
    by (metis OutFile.select_convs(1) of_nat_numeral)
qed

theorem archive_read_back_witness:
  "\<exists>cd' h' out'. creator_write (new_Creator (zeros 16)) (new_Fileheader [] 0) example_ctx example_data
      \<lparr>f_contents = example_base, f_pos = 0\<rparr> = Inr (cd', h', out') \<and>
    (\<forall>r. reader_holds r (f_contents out') \<longrightarrow> Fileheader_read (\<lambda>_. 0) r = Inr h' \<and>
       (\<exists>u. fst (getDirent (\<lambda>_. 0) 0 \<lparr>mp_zimReader = r, mp_urlPtrReader = u, m_direntCount = articleCount h', m_direntCache = lru_new 5\<rparr>) =
         Inr (wd_dirent (store example_data) (\<lambda>n. clusters example_data ! n) (store example_data (0, 0)))))"
proof -
  have short: "\<forall>d\<in>set (dirents example_data). length (wd_path (store example_data d)) + length (wd_title (store example_data d)) < 200"
    by (simp add: example_data_simps WDirent_key_def new_WDirent_def)
  have base: "CLUSTER_BASE_OFFSET \<le> length example_base" by (simp add: CLUSTER_BASE_OFFSET_def example_base_def length_zeros)
  from archive_read_back [OF example_ready _ base example_fill(1) _ _ short example_file_length example_valid,
      of "\<lparr>f_contents = example_base, f_pos = 0\<rparr>" example_ctx "\<lambda>_. 0" 5]
  obtain cd' h' out' where w: "creator_write (new_Creator (zeros 16)) (new_Fileheader [] 0) example_ctx example_data
      \<lparr>f_contents = example_base, f_pos = 0\<rparr> = Inr (cd', h', out')"
    and r: "\<forall>r. reader_holds r (f_contents out') \<longrightarrow> Fileheader_read (\<lambda>_. 0) r = Inr h' \<and>
       (\<exists>u. sub_reader (\<lambda>_. 0) r (urlPtrPos h') (8 * ucast (articleCount h')) = Inr u \<and>
          (\<forall>idx. fst (getDirent (\<lambda>_. 0) idx \<lparr>mp_zimReader = r, mp_urlPtrReader = u, m_direntCount = articleCount h', m_direntCache = lru_new 5\<rparr>) =
             (if unat idx < length (dirents example_data)
              then Inr (wd_dirent (store example_data) (\<lambda>n. clusters example_data ! n) (store example_data (dirents example_data ! unat idx)))
              else Inl (OutOfRange ''entry index out of range''))))"
    by (auto simp: new_Creator_def example_ctx_def length_zeros)
  have first: "unat (0 :: u32) < length (dirents example_data)" "dirents example_data ! unat (0 :: u32) = (0, 0)" by (simp_all add: example_data_simps)
  show ?thesis using w r first by (metis (no_types, lifting))
qed

end
