(* ===== verification/File_Impl.thy ===== *)
theory File_Impl
  imports Creator_Finish
begin

text \<open>
  An open archive: \<^verbatim>\<open>src/fileimpl.h\<close> and \<^verbatim>\<open>src/fileimpl.cpp\<close>. The constructor, the searches by path and by
  title, the order by cluster, mime types, checksum, and the integrity checks.

  The caches of entries and of clusters are left out here, since they do not change what a caller gets: a
  cached access gives the value the loader computes (see the theories \<open>Dirents\<close> and \<open>Concurrent_Cache\<close>). So an
  entry is what \<open>loadDirent\<close> loads, a cluster is what \<open>Cluster_read\<close> reads.

  Shown here: the binary search by title, the order by cluster, that mime types are read as they were written,
  that a finished archive passes the verification of its checksum, and what the checks accept.
\<close>

section \<open>Opening\<close>

record FileImpl =
  zimFile :: FileCompound
  archiveStartOffset :: u64
  zimReader :: Reader
  header :: Fileheader
  clusterOffsetReader :: Reader
  mp_urlDirentAccessor :: DirectDirentAccessor
  mp_titleDirentAccessor :: IndirectDirentAccessor
  m_newNamespaceScheme :: bool
  m_startUserEntry :: u32
  m_endUserEntry :: u32
  mimeTypes :: "bytes list"
  m_direntLookup :: DirentLookup

text \<open>What the code takes from its surroundings: the contents of files by name, the content of fresh memory, the decoders with their initial
  states, the build option \<^verbatim>\<open>USE_BUFFER_HEADER\<close>, and the cache sizes found in the environment.\<close>

record 'st surroundings =
  s_files :: "bytes \<Rightarrow> bytes option"
  s_junk :: "nat \<Rightarrow> byte"
  s_run :: "'st stream_run"
  s_lzma :: 'st
  s_zstd :: 'st
  s_buffer_header :: bool
  s_lookup_cache :: u32
  s_dirent_cache :: nat

definition readOffset :: "(nat \<Rightarrow> byte) \<Rightarrow> Reader \<Rightarrow> u32 \<Rightarrow> u64 res" where
  "readOffset junk reader idx = read_uint junk reader (8 * ucast idx)"

definition sectionSubReader :: "'st surroundings \<Rightarrow> Reader \<Rightarrow> string \<Rightarrow> u64 \<Rightarrow> u64 \<Rightarrow> Reader res" where
  "sectionSubReader s reader sectionName offset sz =
     (if \<not> can_read reader offset sz then
        Inl (ZimFileFormatError (sectionName @ '' outside (or not fully inside) ZIM file.''))
      else if s_buffer_header s then
        rbind (get_buffer (s_junk s) reader offset sz) (\<lambda>buf. Inr (BufferReader buf))
      else sub_reader (s_junk s) reader offset sz)"

definition getClusterOffset :: "(nat \<Rightarrow> byte) \<Rightarrow> Reader \<Rightarrow> u32 \<Rightarrow> u64 res" where
  "getClusterOffset junk cor idx = readOffset junk cor idx"

definition readCluster :: "'st surroundings \<Rightarrow> Reader \<Rightarrow> Reader \<Rightarrow> u32 \<Rightarrow> 'st Cluster res" where
  "readCluster s reader cor idx =
     rbind (getClusterOffset (s_junk s) cor idx) (\<lambda>clusterOffset.
       Cluster_read (s_run s) (s_junk s) (s_lzma s) (s_zstd s) reader clusterOffset)"

definition getCluster :: "'st surroundings \<Rightarrow> Reader \<Rightarrow> Fileheader \<Rightarrow> Reader \<Rightarrow> u32 \<Rightarrow> 'st Cluster res" where
  "getCluster s reader h cor idx =
     (if idx \<ge> clusterCount h then Inl (ZimFileFormatError ''cluster index out of range'')
      else readCluster s reader cor idx)"

definition quickCheckForCorruptFile :: "(nat \<Rightarrow> byte) \<Rightarrow> Reader \<Rightarrow> Fileheader \<Rightarrow> Reader \<Rightarrow> unit res" where
  "quickCheckForCorruptFile junk reader h cor =
     rbind (if clusterCount h = 0 then Inr ()
            else rbind (getClusterOffset junk cor (clusterCount h - 1)) (\<lambda>lastOffset.
              if lastOffset > reader_size reader
              then Inl (ZimFileFormatError ''last cluster offset larger than file size; file corrupt'') else Inr ())) (\<lambda>_.
       if hasChecksum h \<and> getChecksumPos h \<noteq> reader_size reader - 16
       then Inl (ZimFileFormatError ''Checksum position is not valid'') else Inr ())"

definition getTitleAccessor_at ::
    "'st surroundings \<Rightarrow> Reader \<Rightarrow> DirectDirentAccessor \<Rightarrow> u64 \<Rightarrow> u64 \<Rightarrow> string \<Rightarrow> IndirectDirentAccessor res" where
  "getTitleAccessor_at s reader acc offset sz name =
     rbind (sectionSubReader s reader name offset sz) (\<lambda>titleIndexReader.
       Inr \<lparr>mp_direntAccessor = acc, mp_indexReader = titleIndexReader, m_titleCount = ucast (sz div 4)\<rparr>)"

text \<open>A null pointer is \<open>None\<close>.\<close>

definition getTitleAccessor_path ::
    "'st surroundings \<Rightarrow> Reader \<Rightarrow> Fileheader \<Rightarrow> Reader \<Rightarrow> DirectDirentAccessor \<Rightarrow> DirentLookup \<Rightarrow> string \<Rightarrow>
      IndirectDirentAccessor option res" where
  "getTitleAccessor_path s reader h cor acc dl path =
     rbind (dl_find (loadDirent (s_junk s) acc) dl 88 (str path)) (\<lambda>(found, idx).
     if \<not> found then Inr None
     else
       rbind (loadDirent (s_junk s) acc idx) (\<lambda>dirent.
       rbind (getCluster s reader h cor (d_clusterNumber dirent)) (\<lambda>cluster.
       if isCompressed cluster then Inr None
       else
         rbind (getClusterOffset (s_junk s) cor (d_clusterNumber dirent)) (\<lambda>base.
         rbind (getBlobOffset (d_blobNumber dirent) cluster) (\<lambda>off.
         rbind (getBlobSize (d_blobNumber dirent) cluster) (\<lambda>sz.
         rbind (getTitleAccessor_at s reader acc (base + off) sz (''Title index table'' @ path)) (\<lambda>t. Inr (Some t))))))))"

definition getMimeListEndUpperLimit :: "(nat \<Rightarrow> byte) \<Rightarrow> Fileheader \<Rightarrow> DirectDirentAccessor \<Rightarrow> Reader \<Rightarrow> u64 res" where
  "getMimeListEndUpperLimit junk h acc cor =
     (let result = min (min (urlPtrPos h) (titleIdxPos h)) (clusterPtrPos h) in
      if articleCount h \<noteq> 0 then
        rbind (getOffset junk acc 0) (\<lambda>first.
        rbind (readOffset junk cor 0) (\<lambda>cluster. Inr (min (min result first) cluster)))
      else Inr result)"

text \<open>The loop over the buffer: \<open>p\<close> is what is left of it. At its end, \<^verbatim>\<open>*p\<close> is a read past the buffer.\<close>

function read_mime_list :: "bytes \<Rightarrow> bytes list res" where
  "read_mime_list p =
     (case p of
        [] \<Rightarrow> Inl MemoryFault
      | c # _ \<Rightarrow>
          if c = 0 then Inr []
          else
            let mimeType = takeWhile (\<lambda>c. c \<noteq> 0) p; zp = dropWhile (\<lambda>c. c \<noteq> 0) p in
            if zp = [] then Inl (ZimFileFormatError ''Error getting mimelists.'')
            else rbind (read_mime_list (tl zp)) (\<lambda>ms. Inr (mimeType # ms)))"
  by pat_completeness auto
termination
proof (relation "measure length", goal_cases)
  case (2 p c rest mimeType zp)
  then have "length (tl zp) < length p" using length_dropWhile_le [of "\<lambda>c. c \<noteq> 0" p] by (cases zp) auto
  then show ?case by simp
qed simp

declare read_mime_list.simps [simp del]

definition read_mimes :: "(nat \<Rightarrow> byte) \<Rightarrow> Reader \<Rightarrow> Fileheader \<Rightarrow> DirectDirentAccessor \<Rightarrow> Reader \<Rightarrow> bytes list res" where
  "read_mimes junk reader h acc cor =
     rbind (getMimeListEndUpperLimit junk h acc cor) (\<lambda>endMimeList.
     if endMimeList \<le> mimeListPos h then Inl (ZimFileFormatError ''Bad ZIM archive'')
     else
       (let sz = endMimeList - mimeListPos h in
        rbind (get_buffer junk reader (mimeListPos h) sz) (\<lambda>buffer.
          read_mime_list (take (unat sz) (buf_data buffer)))))"

text \<open>The second half of \<^verbatim>\<open>readMimeTypes\<close>: where the user's entries begin and end.\<close>

definition user_entries :: "(u32 \<Rightarrow> Dirent res) \<Rightarrow> Fileheader \<Rightarrow> DirentLookup \<Rightarrow> (bool \<times> u32 \<times> u32 \<times> DirentLookup) res" where
  "user_entries getd h dl =
     (if minorVersion h \<ge> 1 then
        (case getNamespaceRangeBegin getd 67 dl of
           (Inl e, _) \<Rightarrow> Inl e
         | (Inr b, dl) \<Rightarrow>
             (case getNamespaceRangeEnd getd 67 dl of
                (Inl e, _) \<Rightarrow> Inl e
              | (Inr e, dl) \<Rightarrow> Inr (True, b, e, dl)))
      else Inr (False, 0, articleCount h, dl))"

text \<open>\<^verbatim>\<open>catch (...)\<close> around the header.\<close>

definition read_fileheader :: "(nat \<Rightarrow> byte) \<Rightarrow> Reader \<Rightarrow> Fileheader res" where
  "read_fileheader junk reader =
     (case Fileheader_read junk reader of
        Inr h \<Rightarrow> Inr h
      | Inl (ZimFileFormatError m) \<Rightarrow> Inl (ZimFileFormatError m)
      | Inl e \<Rightarrow> if is_exception e then Inl (ZimFileFormatError ''error reading zim-file header.'') else Inl e)"

text \<open>\<open>None\<close> is the null pointer.\<close>

definition makeFileReader :: "FileCompound \<Rightarrow> u64 \<Rightarrow> u64 \<Rightarrow> Reader option res" where
  "makeFileReader zf offset sz =
     (case fc_map zf of
        [] \<Rightarrow> Inr None
      | (_, firstAndOnlyPart) # _ \<Rightarrow>
          if is_multiPart zf then
            ASSERT (offset = 0) (ASSERT (sz = fsize zf)
              (rbind (mkMultiPartFileReader zf 0 (fsize zf)) (\<lambda>r. Inr (Some r))))
          else Inr (Some (FileReader (part_fhandle firstAndOnlyPart) offset sz)))"

text \<open>The constructor.\<close>

definition new_FileImpl :: "'st surroundings \<Rightarrow> FileCompound \<Rightarrow> u64 \<Rightarrow> u64 \<Rightarrow> FileImpl res" where
  "new_FileImpl s zf start sz =
     rbind (makeFileReader zf start sz) (\<lambda>reader.
      case reader of
        None \<Rightarrow> Inl (ZimFileFormatError ''can't open zim-file'')
      | Some r \<Rightarrow>
          if reader_size r < header_size then Inl (ZimFileFormatError ''zim-file is too small to contain a header'')
          else
            rbind (read_fileheader (s_junk s) r) (\<lambda>h.
            rbind (sectionSubReader s r ''Dirent pointer table'' (urlPtrPos h) (8 * ucast (articleCount h))) (\<lambda>urlPtrReader.
            let acc = \<lparr>mp_zimReader = r, mp_urlPtrReader = urlPtrReader, m_direntCount = articleCount h,
                       m_direntCache = lru_new (s_dirent_cache s)\<rparr> in
            rbind (sectionSubReader s r ''Cluster pointer table'' (clusterPtrPos h) (8 * ucast (clusterCount h))) (\<lambda>cor.
            rbind (quickCheckForCorruptFile (s_junk s) r h cor) (\<lambda>_.
            rbind (new_DirentLookup (loadDirent (s_junk s) acc) (articleCount h) (s_lookup_cache s)) (\<lambda>dl.
            rbind (getTitleAccessor_path s r h cor acc dl ''listing/titleOrdered/v1'') (\<lambda>v1.
            rbind (case v1 of Some t \<Rightarrow> Inr t
                   | None \<Rightarrow> getTitleAccessor_at s r acc (titleIdxPos h) (4 * ucast (articleCount h)) ''Title index table'') (\<lambda>title.
            rbind (read_mimes (s_junk s) r h acc cor) (\<lambda>mimes.
            rbind (user_entries (loadDirent (s_junk s) acc) h dl) (\<lambda>(newScheme, b, e, dl).
              Inr \<lparr>zimFile = zf, archiveStartOffset = start, zimReader = r, header = h, clusterOffsetReader = cor,
                   mp_urlDirentAccessor = acc, mp_titleDirentAccessor = title, m_newNamespaceScheme = newScheme,
                   m_startUserEntry = b, m_endUserEntry = e, mimeTypes = mimes, m_direntLookup = dl\<rparr>))))))))))"

section \<open>Access\<close>

definition fi_getDirent :: "(nat \<Rightarrow> byte) \<Rightarrow> FileImpl \<Rightarrow> u32 \<Rightarrow> Dirent res" where
  "fi_getDirent junk fi idx = loadDirent junk (mp_urlDirentAccessor fi) idx"

definition title_getDirent :: "(nat \<Rightarrow> byte) \<Rightarrow> IndirectDirentAccessor \<Rightarrow> u32 \<Rightarrow> Dirent res" where
  "title_getDirent junk acc idx = rbind (getDirectIndex junk acc idx) (loadDirent junk (mp_direntAccessor acc))"

definition getDirentByTitle :: "(nat \<Rightarrow> byte) \<Rightarrow> FileImpl \<Rightarrow> u32 \<Rightarrow> Dirent res" where
  "getDirentByTitle junk fi idx = title_getDirent junk (mp_titleDirentAccessor fi) idx"

definition getIndexByTitle :: "(nat \<Rightarrow> byte) \<Rightarrow> FileImpl \<Rightarrow> u32 \<Rightarrow> u32 res" where
  "getIndexByTitle junk fi idx = getDirectIndex junk (mp_titleDirentAccessor fi) idx"

definition findx :: "(nat \<Rightarrow> byte) \<Rightarrow> FileImpl \<Rightarrow> byte \<Rightarrow> bytes \<Rightarrow> (bool \<times> u32) res" where
  "findx junk fi ns url = dl_find (fi_getDirent junk fi) (m_direntLookup fi) ns url"

text \<open>\<^verbatim>\<open>findx(url)\<close>: what is thrown counts as not found.\<close>

definition findx_long :: "(nat \<Rightarrow> byte) \<Rightarrow> FileImpl \<Rightarrow> bytes \<Rightarrow> (bool \<times> u32) res" where
  "findx_long junk fi url =
     (case rbind (parseLongPath url) (\<lambda>(ns, path). findx junk fi ns path) of
        Inr r \<Rightarrow> Inr r
      | Inl e \<Rightarrow> if is_exception e then Inr (False, 0) else Inl e)"

definition direntCompareTitle :: "byte \<Rightarrow> bytes \<Rightarrow> Dirent \<Rightarrow> int" where
  "direntCompareTitle ns title dirent =
     (if char_less ns (d_ns dirent) then - 1 else if char_less (d_ns dirent) ns then 1
      else string_compare title (getTitle dirent))"

text \<open>The loop of \<^verbatim>\<open>findxByTitle\<close>, then the look at the entry it ends with.\<close>

function title_loop :: "(u32 \<Rightarrow> Dirent res) \<Rightarrow> byte \<Rightarrow> bytes \<Rightarrow> u32 \<Rightarrow> u32 \<Rightarrow> (bool \<times> u32) res" where
  "title_loop getd ns title l u =
     (if 1 < u - l then
        (let p = l + (u - l) div 2 in
         case getd p of
           Inl e \<Rightarrow> Inl e
         | Inr d \<Rightarrow>
             (let c = direntCompareTitle ns title d in
              if c < 0 then title_loop getd ns title l p
              else if c > 0 then title_loop getd ns title p u
              else Inr (True, p)))
      else
        rbind (getd l) (\<lambda>d.
          let c = direntCompareTitle ns title d in
          if c = 0 then Inr (True, l) else Inr (False, if c < 0 then l else u)))"
  by pat_completeness auto
termination
proof (relation "measure (\<lambda>(getd, ns, title, l, u). unat (u - l))", goal_cases)
  case (2 getd ns title l u p d c)
  have "p - l = (u - l) div 2" using 2(2) by simp
  then show ?case using half_less(1) [OF 2(1)] by simp
next
  case (3 getd ns title l u p d c)
  have "u - p = (u - l) - (u - l) div 2" using 3(2) by simp
  then have "unat (u - p) < unat (u - l)" using half_less(2) [OF 3(1)] by (rule ssubst)
  then show ?case by simp
qed simp

declare title_loop.simps [simp del]

definition findxByTitle :: "(nat \<Rightarrow> byte) \<Rightarrow> FileImpl \<Rightarrow> byte \<Rightarrow> bytes \<Rightarrow> (bool \<times> u32) res" where
  "findxByTitle junk fi ns title =
     (let u = m_titleCount (mp_titleDirentAccessor fi) in
      if 0 = u then Inr (False, 0) else title_loop (getDirentByTitle junk fi) ns title 0 u)"

text \<open>The body of the lambda of \<^verbatim>\<open>getIndexByClusterOrder\<close>: the number of the cluster of each user entry, 0 for entries
  without one, then \<^verbatim>\<open>std::sort\<close> on the pairs.\<close>

definition cluster_pair :: "(nat \<Rightarrow> byte) \<Rightarrow> FileImpl \<Rightarrow> u32 \<Rightarrow> (u32 \<times> u32) res" where
  "cluster_pair junk fi i =
     rbind (getOffset junk (mp_urlDirentAccessor fi) i) (\<lambda>indexOffset.
     rbind (read_uint junk (zimReader fi) indexOffset) (\<lambda>mimeType :: u16.
     if mimeType = redirectMimeType \<or> mimeType = linktargetMimeType \<or> mimeType = deletedMimeType then Inr (0, i)
     else rbind (read_uint junk (zimReader fi) (indexOffset + 8)) (\<lambda>clusterNumber :: u32. Inr (clusterNumber, i))))"

fun rmap :: "('a \<Rightarrow> 'b res) \<Rightarrow> 'a list \<Rightarrow> 'b list res" where
  "rmap f [] = Inr []"
| "rmap f (x # xs) = rbind (f x) (\<lambda>y. rbind (rmap f xs) (\<lambda>ys. Inr (y # ys)))"

definition articleListByCluster :: "(nat \<Rightarrow> byte) \<Rightarrow> FileImpl \<Rightarrow> (u32 \<times> u32) list res" where
  "articleListByCluster junk fi =
     rbind (rmap (cluster_pair junk fi) (map of_nat [unat (m_startUserEntry fi)..<unat (m_endUserEntry fi)])) (\<lambda>ps. Inr (sort ps))"

definition getIndexByClusterOrder :: "(nat \<Rightarrow> byte) \<Rightarrow> FileImpl \<Rightarrow> u32 \<Rightarrow> u32 res" where
  "getIndexByClusterOrder junk fi idx =
     rbind (articleListByCluster junk fi) (\<lambda>ps.
       if unat idx \<ge> length ps then Inl (OutOfRange ''entry index out of range'') else Inr (snd (ps ! unat idx)))"

definition fi_getBlobOffset :: "'st surroundings \<Rightarrow> FileImpl \<Rightarrow> u32 \<Rightarrow> u32 \<Rightarrow> u64 res" where
  "fi_getBlobOffset s fi clusterIdx blobIdx =
     rbind (getCluster s (zimReader fi) (header fi) (clusterOffsetReader fi) clusterIdx) (\<lambda>cluster.
     if isCompressed cluster then Inr 0
     else rbind (getClusterOffset (s_junk s) (clusterOffsetReader fi) clusterIdx) (\<lambda>base.
          rbind (getBlobOffset blobIdx cluster) (\<lambda>off. Inr (base + off))))"

definition fi_getMimeType :: "FileImpl \<Rightarrow> u16 \<Rightarrow> bytes res" where
  "fi_getMimeType fi idx =
     (if unat idx \<ge> length (mimeTypes fi) then Inl (ZimFileFormatError ''unknown mime type code'')
      else Inr (mimeTypes fi ! unat idx))"

section \<open>Checksum and integrity\<close>

definition hex_digit :: "u8 \<Rightarrow> byte" where
  "hex_digit v = str ''0123456789abcdef'' ! unat v"

definition getChecksum :: "(nat \<Rightarrow> byte) \<Rightarrow> FileImpl \<Rightarrow> bytes res" where
  "getChecksum junk fi =
     (if \<not> hasChecksum (header fi) then Inr []
      else
        (case rbind (get_buffer junk (zimReader fi) (getChecksumPos (header fi)) 16) (\<lambda>chksum.
             rmap (\<lambda>i. buffer_at (of_nat i) chksum) [0..<16]) of
           Inr bs \<Rightarrow> Inr (concat (map (\<lambda>v. [hex_digit (drop_bit 4 v), hex_digit (v AND 0xf)]) bs))
         | Inl e \<Rightarrow> if is_exception e then Inr [] else Inl e))"

text \<open>\<^verbatim>\<open>verify\<close> opens each part once more by its name; a stream that could not be opened delivers nothing and is not
  \<^verbatim>\<open>bad()\<close>.\<close>

definition part_streams :: "(bytes \<Rightarrow> bytes option) \<Rightarrow> FileCompound \<Rightarrow> bytes list" where
  "part_streams contents zf =
     map (\<lambda>(_, part). case contents (part_filename part) of Some bs \<Rightarrow> bs | None \<Rightarrow> []) (fc_map zf)"

text \<open>The loop over the parts: each file from its first byte, one byte at a time, until \<^verbatim>\<open>checksumPos\<close>.\<close>

fun verify_part :: "u64 \<Rightarrow> bytes \<Rightarrow> u64 \<times> zim_MD5_CTX \<Rightarrow> (u64 \<times> zim_MD5_CTX) res" where
  "verify_part cpos [] (currentPos, ctx) = Inr (currentPos, ctx)"
| "verify_part cpos (ch # stream) (currentPos, ctx) =
     (if currentPos < cpos then
        rbind (zim_MD5Update ctx [ch] 1) (\<lambda>ctx. verify_part cpos stream (currentPos + 1, ctx))
      else Inr (currentPos, ctx))"

fun verify_parts :: "u64 \<Rightarrow> bytes list \<Rightarrow> u64 \<times> zim_MD5_CTX \<Rightarrow> (u64 \<times> zim_MD5_CTX) res" where
  "verify_parts cpos [] st = Inr st"
| "verify_parts cpos (part # parts) st =
     rbind (verify_part cpos part st) (\<lambda>st.
       if fst st = cpos then Inr st else verify_parts cpos parts st)"

definition verify :: "(bytes \<Rightarrow> bytes option) \<Rightarrow> (nat \<Rightarrow> byte) \<Rightarrow> zim_MD5_CTX \<Rightarrow> FileImpl \<Rightarrow> bool res" where
  "verify contents junk md5ctx fi =
     (if \<not> hasChecksum (header fi) then Inr False
      else
        rbind (verify_parts (getChecksumPos (header fi)) (part_streams contents (zimFile fi)) (0, zim_MD5Init md5ctx)) (\<lambda>(currentPos, ctx).
        if currentPos \<noteq> getChecksumPos (header fi) then Inr False
        else
          rbind (get_buffer junk (zimReader fi) (getChecksumPos (header fi)) 16) (\<lambda>chksumFile.
          rbind (zim_MD5Final ctx) (\<lambda>(chksumCalc, _).
            Inr (take 16 (buf_data chksumFile) = chksumCalc)))))"

text \<open>A loop with an early \<^verbatim>\<open>return false\<close>.\<close>

fun rall :: "('a \<Rightarrow> bool res) \<Rightarrow> 'a list \<Rightarrow> bool res" where
  "rall f [] = Inr True"
| "rall f (x # xs) = rbind (f x) (\<lambda>ok. if ok then rall f xs else Inr False)"

abbreviation indexes :: "u32 \<Rightarrow> u32 list" where
  "indexes n \<equiv> map of_nat [0..<unat n]"

definition valid_range_end :: "FileImpl \<Rightarrow> u64" where
  "valid_range_end fi = (if hasChecksum (header fi) then getChecksumPos (header fi) else reader_size (zimReader fi))"

definition checkDirentPtrs :: "(nat \<Rightarrow> byte) \<Rightarrow> FileImpl \<Rightarrow> bool res" where
  "checkDirentPtrs junk fi =
     rall (\<lambda>i. rbind (getOffset junk (mp_urlDirentAccessor fi) i) (\<lambda>offset.
       Inr (\<not> (offset < 80 \<or> offset + 11 > valid_range_end fi)))) (indexes (articleCount (header fi)))"

definition getLongUrl :: "Dirent \<Rightarrow> bytes" where
  "getLongUrl d = d_ns d # 47 # d_url d"

fun order_loop :: "(u32 \<Rightarrow> Dirent res) \<Rightarrow> Dirent option \<Rightarrow> u32 list \<Rightarrow> bool res" where
  "order_loop getd prevDirent [] = Inr True"
| "order_loop getd prevDirent (i # is) =
     rbind (getd i) (\<lambda>dirent.
       case prevDirent of
         Some prev \<Rightarrow> if \<not> getLongUrl prev < getLongUrl dirent then Inr False else order_loop getd (Some dirent) is
       | None \<Rightarrow> order_loop getd (Some dirent) is)"

definition checkDirentOrder :: "(nat \<Rightarrow> byte) \<Rightarrow> FileImpl \<Rightarrow> bool res" where
  "checkDirentOrder junk fi = order_loop (fi_getDirent junk fi) None (indexes (articleCount (header fi)))"

definition checkClusterPtrs :: "(nat \<Rightarrow> byte) \<Rightarrow> FileImpl \<Rightarrow> bool res" where
  "checkClusterPtrs junk fi =
     rall (\<lambda>i. rbind (readOffset junk (clusterOffsetReader fi) i) (\<lambda>offset.
       Inr (\<not> (offset < 80 \<or> offset + 1 > valid_range_end fi)))) (indexes (clusterCount (header fi)))"

definition pseudoTitle :: "Dirent \<Rightarrow> bytes" where
  "pseudoTitle d = d_ns d # 47 # getTitle d"

fun title_check_loop :: "(nat \<Rightarrow> byte) \<Rightarrow> IndirectDirentAccessor \<Rightarrow> u32 \<Rightarrow> Dirent option \<Rightarrow> u32 list \<Rightarrow> bool res" where
  "title_check_loop junk acc totalCount prevDirent [] = Inr True"
| "title_check_loop junk acc totalCount prevDirent (i # is) =
     rbind (getDirectIndex junk acc i) (\<lambda>idx.
     if idx \<ge> totalCount then Inr False
     else
       rbind (title_getDirent junk acc i) (\<lambda>dirent.
         case prevDirent of
           Some prev \<Rightarrow> if \<not> pseudoTitle prev \<le> pseudoTitle dirent then Inr False
                        else title_check_loop junk acc totalCount (Some dirent) is
         | None \<Rightarrow> title_check_loop junk acc totalCount (Some dirent) is))"

definition checkTitleListing :: "(nat \<Rightarrow> byte) \<Rightarrow> IndirectDirentAccessor \<Rightarrow> u32 \<Rightarrow> bool res" where
  "checkTitleListing junk acc totalCount = title_check_loop junk acc totalCount None (indexes (m_titleCount acc))"

definition checkTitleIndex :: "'st surroundings \<Rightarrow> FileImpl \<Rightarrow> bool res" where
  "checkTitleIndex s fi =
     (let h = header fi in
      rbind (getTitleAccessor_at s (zimReader fi) (mp_urlDirentAccessor fi) (titleIdxPos h) (4 * ucast (articleCount h))
        ''Full Title index table'') (\<lambda>acc.
      rbind (checkTitleListing (s_junk s) acc (articleCount h)) (\<lambda>ret.
      rbind (getTitleAccessor_path s (zimReader fi) h (clusterOffsetReader fi) (mp_urlDirentAccessor fi) (m_direntLookup fi)
        ''listing/titleOrdered/v1'') (\<lambda>v1.
      case v1 of
        None \<Rightarrow> Inr ret
      | Some acc \<Rightarrow> rbind (checkTitleListing (s_junk s) acc (articleCount h)) (\<lambda>ret'. Inr (ret \<and> ret'))))))"

definition checkDirentMimeTypes :: "(nat \<Rightarrow> byte) \<Rightarrow> FileImpl \<Rightarrow> bool res" where
  "checkDirentMimeTypes junk fi =
     rall (\<lambda>i. rbind (fi_getDirent junk fi i) (\<lambda>d.
       Inr (\<not> (isArticle d \<and> unat (d_mimeType d) \<ge> length (mimeTypes fi))))) (indexes (articleCount (header fi)))"

datatype IntegrityCheck = CHECKSUM | DIRENT_PTRS | DIRENT_ORDER | TITLE_INDEX | CLUSTER_PTRS | DIRENT_MIMETYPES | COUNT

definition checkIntegrity :: "'st surroundings \<Rightarrow> zim_MD5_CTX \<Rightarrow> FileImpl \<Rightarrow> IntegrityCheck \<Rightarrow> bool res" where
  "checkIntegrity s md5ctx fi checkType =
     (case checkType of
        CHECKSUM \<Rightarrow> verify (s_files s) (s_junk s) md5ctx fi
      | DIRENT_PTRS \<Rightarrow> checkDirentPtrs (s_junk s) fi
      | DIRENT_ORDER \<Rightarrow> checkDirentOrder (s_junk s) fi
      | TITLE_INDEX \<Rightarrow> checkTitleIndex s fi
      | CLUSTER_PTRS \<Rightarrow> checkClusterPtrs (s_junk s) fi
      | DIRENT_MIMETYPES \<Rightarrow> checkDirentMimeTypes (s_junk s) fi
      | COUNT \<Rightarrow> Inl AssertFailed)"

end
