(* ===== verification/File_Archive.thy ===== *)
theory File_Archive
  imports File_Impl
begin

text \<open>
  Properties of an open archive, over the definitions of \<open>File_Impl\<close>, and of a finished archive that is opened: the
  mime types it lists, its checksum, its order, the search by title and the order by cluster.
\<close>

section \<open>Mime types\<close>

lemma read_mime_list_ok:
  "\<forall>m\<in>set ms. m \<noteq> [] \<and> 0 \<notin> set m \<Longrightarrow> read_mime_list (mime_list ms @ rest) = Inr ms"
proof (induction ms)
  case Nil
  then show ?case by (simp add: mime_list_def read_mime_list.simps [of "0 # rest"])
next
  case (Cons m ms)
  let ?p = "mime_list (m # ms) @ rest"
  have p: "?p = m @ 0 # (mime_list ms @ rest)" by (simp add: mime_list_def)
  have m: "m \<noteq> []" "0 \<notin> set m" using Cons.prems by auto
  obtain c m' where c: "m = c # m'" "c \<noteq> 0" using m by (cases m) auto
  let ?R = "mime_list ms @ rest"
  have w: "takeWhile (\<lambda>c. c \<noteq> 0) (m' @ 0 # ?R) = m'" "dropWhile (\<lambda>c. c \<noteq> 0) (m' @ 0 # ?R) = 0 # ?R"
    using m(2) c(1) by (auto simp: takeWhile_append dropWhile_append)
  have "read_mime_list (c # m' @ 0 # ?R) = Inr (m # ms)"
    using Cons.IH Cons.prems c w by (subst read_mime_list.simps) (simp add: Let_def)
  then show ?case using p c(1) by simp
qed

text \<open>The mime types that the creator lists are the mime types a reader finds, in the same order, whatever
  follows the list in the file, as long as none of them is empty or has a zero in it.\<close>

theorem mime_types_roundtrip:
  assumes "\<forall>m\<in>set ms. m \<noteq> [] \<and> 0 \<notin> set m" "\<forall>m\<in>set ms. length m < max_transfer" "file_at f pre post"
  shows "\<exists>f'. write_mimetypes ms f = Inr f' \<and> read_mime_list (drop (length pre) (f_contents f')) = Inr ms"
proof -
  obtain f' where "write_mimetypes ms f = Inr f'" "file_at f' (pre @ mime_list ms) (drop (length (mime_list ms)) post)"
    using write_mimetypes_at [OF assms(3,2)] by blast
  then show ?thesis using read_mime_list_ok [OF assms(1)] by (auto simp: file_at_def)
qed

theorem mime_types_roundtrip_witness:
  "\<exists>f'. write_mimetypes [[116], [117, 118]] \<lparr>f_contents = [9, 9, 9], f_pos = 1\<rparr> = Inr f' \<and>
    read_mime_list (drop 1 (f_contents f')) = Inr [[116], [117, 118]]"
  using mime_types_roundtrip [of "[[116], [117, 118]]" "\<lparr>f_contents = [9, 9, 9], f_pos = 1\<rparr>" "[9]" "[9, 9]"]
  by (simp add: file_at_def max_transfer_def)

text \<open>One empty mime type hides all the others. \<^verbatim>\<open>addMetadata\<close> accepts an empty mime type; it sorts first, and
  the list that is written then starts with the byte that ends it, so the reader has no mime type at all.\<close>

theorem empty_mime_type_hides_the_rest:
  "read_mime_list (mime_list ([] # ms)) = Inr []"
  by (simp add: mime_list_def read_mime_list.simps)

section \<open>The checksum\<close>

lemma verify_part_ok:
  assumes "md5_absorbed ctx m" "unat pos = length m" "length m \<le> unat cpos"
  shows "\<exists>ctx'. verify_part cpos bs (pos, ctx) = Inr (pos + of_nat (min (length bs) (unat cpos - length m)), ctx') \<and>
    md5_absorbed ctx' (m @ take (unat cpos - length m) bs)"
  using assms
proof (induction cpos bs "(pos, ctx)" arbitrary: pos ctx m rule: verify_part.induct)
  case (1 cpos pos ctx)
  then show ?case by simp
next
  case (2 cpos ch bs pos ctx)
  show ?case
  proof (cases "pos < cpos")
    case True
    then have lt: "length m < unat cpos" using "2.prems"(2) by (simp add: word_less_nat_alt)
    have "md5_chunk_ok [ch]" by (simp add: md5_chunk_ok_def)
    then obtain ctx1 where c1: "zim_MD5Update ctx [ch] 1 = Inr ctx1" "md5_absorbed ctx1 (m @ [ch])"
      using md5.update_absorbs [OF "2.prems"(1), of "[ch]"] by (auto simp: md5_feed_def)
    have pos: "unat (pos + 1) = length (m @ [ch])"
      using "2.prems"(2) lt unat_bound [of cpos] by (subst unat_add_small) (auto simp del: unat_u64_bound)
    obtain ctx' where "verify_part cpos bs (pos + 1, ctx1) =
        Inr (pos + 1 + of_nat (min (length bs) (unat cpos - length (m @ [ch]))), ctx')"
      "md5_absorbed ctx' ((m @ [ch]) @ take (unat cpos - length (m @ [ch])) bs)"
      using "2.hyps" [OF True c1 pos] lt by auto
    moreover have "unat cpos - length m = Suc (unat cpos - length (m @ [ch]))" using lt by simp
    ultimately show ?thesis using True c1(1) by (simp add: min_Suc_Suc ac_simps)
  next
    case False
    then have "unat cpos = length m" using "2.prems"(2,3) by (simp add: word_less_nat_alt)
    then show ?thesis using False "2.prems"(1) by auto
  qed
qed

lemma verify_parts_ok:
  assumes "md5_absorbed ctx m" "unat pos = length m" "length m \<le> unat cpos" "length m + length (concat parts) < 2 ^ 64"
  shows "\<exists>pos' ctx'. verify_parts cpos parts (pos, ctx) = Inr (pos', ctx') \<and>
    unat pos' = min (unat cpos) (length m + length (concat parts)) \<and> md5_absorbed ctx' (m @ take (unat cpos - length m) (concat parts))"
  using assms
proof (induction parts arbitrary: pos ctx m)
  case (Cons p parts)
  let ?n = "min (length p) (unat cpos - length m)" and ?m = "m @ take (unat cpos - length m) p"
  obtain ctx1 where 1: "verify_part cpos p (pos, ctx) = Inr (pos + of_nat ?n, ctx1)" "md5_absorbed ctx1 ?m"
    using verify_part_ok [OF Cons.prems(1-3)] by blast
  have n: "unat (of_nat ?n :: u64) = ?n" using Cons.prems(4) by (intro unat_of_nat_small) simp
  have pos: "unat (pos + of_nat ?n) = length m + ?n" using Cons.prems(2,4) n by (subst unat_add_small) auto
  show ?case
  proof (cases "pos + of_nat ?n = cpos")
    case True
    then have "unat cpos = length m + ?n" using pos by simp
    then show ?thesis using 1 True Cons.prems(3) by (auto simp: min_def split: if_splits)
  next
    case False
    then have "length m + ?n \<noteq> unat cpos" using pos by (metis word_unat_eq_iff)
    then have short: "length m + length p < unat cpos" using Cons.prems(3) by (auto simp: min_def split: if_splits)
    then have m: "?m = m @ p" "?n = length p" by simp_all
    obtain pos' ctx' where "verify_parts cpos parts (pos + of_nat ?n, ctx1) = Inr (pos', ctx')"
      "unat pos' = min (unat cpos) (length ?m + length (concat parts))" "md5_absorbed ctx' (?m @ take (unat cpos - length ?m) (concat parts))"
      using Cons.IH [OF 1(2), of "pos + of_nat ?n"] pos short Cons.prems(4) unfolding m by auto
    then show ?thesis using 1(1) False short unfolding m by auto
  qed
qed simp

lemma verify_value:
  assumes r: "reader_holds (zimReader fi) bs" "concat (part_streams files (zimFile fi)) = bs" and h: "hasChecksum (header fi)"
    "unat (getChecksumPos (header fi)) + 16 \<le> length bs" and ctx: "length (md5_buffer ctx) = 64"
  shows "verify files junk ctx fi =
    Inr (take 16 (drop (unat (getChecksumPos (header fi))) bs) = rfc1321_md5 (take (unat (getChecksumPos (header fi))) bs))"
proof -
  let ?c = "getChecksumPos (header fi)"
  have len: "length bs < 2 ^ 63" using rd.holds_size [OF r(1)] by simp
  obtain pos ctx' where p: "verify_parts ?c (part_streams files (zimFile fi)) (0, zim_MD5Init ctx) = Inr (pos, ctx')" "unat pos = unat ?c"
      "md5_absorbed ctx' (take (unat ?c) bs)"
    using verify_parts_ok [OF md5_absorbed_init [OF ctx], of 0 ?c "part_streams files (zimFile fi)"] r(2) h(2) len by auto
  have pos: "pos = ?c" using p(2) by (simp add: word_unat_eq_iff)
  obtain b where b: "get_buffer junk (zimReader fi) ?c 16 = Inr b" "take (unat (buf_size b)) (buf_data b) = slice_at (unat ?c) 16 bs"
      "buf_size b = 16"
    using rd.buffer_exact [OF r(1), of ?c 16 junk] h(2) by (auto simp: max_transfer_def buf_bytes_def)
  obtain ctx'' where "zim_MD5Final ctx' = Inr (rfc1321_md5 (take (unat ?c) bs), ctx'')" using md5.final_digest [OF p(3)] by blast
  then show ?thesis using p(1) pos h(1) b by (simp add: verify_def slice_at_def)
qed

text \<open>C31: The check of the checksum compares what it should: for an archive that starts where its files start, read
  over any number of parts, \<^verbatim>\<open>verify\<close> answers whether the sixteen bytes at the position of the checksum are the
  MD5 digest of all bytes before them.\<close>

theorem verify_is_md5:
  assumes "reader_holds (zimReader fi) bs" "concat (part_streams files (zimFile fi)) = bs" "hasChecksum (header fi)"
    "unat (getChecksumPos (header fi)) + 16 \<le> length bs" "length (md5_buffer ctx) = 64"
  shows "verify files junk ctx fi =
    Inr (take 16 (drop (unat (getChecksumPos (header fi))) bs) = rfc1321_md5 (take (unat (getChecksumPos (header fi))) bs))"
  by (rule verify_value [OF assms])

text \<open>C6: The checksum of a finished archive is right: whoever opens the file that \<^verbatim>\<open>Creator::write\<close> has left,
  split into parts or not, finds that \<^verbatim>\<open>verify\<close> accepts it.\<close>

theorem finished_archive_verifies:
  assumes "ready_to_write cd" "f_contents out = base" "CLUSTER_BASE_OFFSET \<le> length base"
    and "fillHeader c cd h0 = Inr h" "length (m_uuid c) = 16" "length (md5_buffer ctx) = 64"
  shows "\<exists>cd' h' out'. creator_write c h0 ctx cd out = Inr (cd', h', out') \<and>
    (\<forall>fi files ctx' junk. reader_holds (zimReader fi) (f_contents out') \<and> concat (part_streams files (zimFile fi)) = f_contents out' \<and> header fi = h' \<and>
       length (md5_buffer ctx') = 64 \<longrightarrow> verify files junk ctx' fi = Inr True)"
proof -
  let ?h = "final_header cd base h" and ?body = "archive_body cd base (archive_offsets cd base) (final_header cd base h)"
  obtain cd' out' where w: "creator_write c h0 ctx cd out = Inr (cd', ?h, out')" "f_contents out' = ?body @ rfc1321_md5 ?body"
    using creator_write_file [OF assms] unfolding archive_file_def by blast
  have u: "length (uuid ?h) = 16" "mimeListPos ?h = 80"
    using fillHeader_fields [OF assms(4)] assms(5) by (simp_all add: final_header_def Let_def)
  have md: "length (rfc1321_md5 ?body) = 16" by (simp add: rfc1321_md5_def split: prod.split)
  have hc: "hasChecksum ?h" "getChecksumPos ?h = of_nat (length ?body)"
    using u(2) archive_body_length [OF u(1) assms(1,3)] by (simp_all add: hasChecksum_def getChecksumPos_def final_header_def Let_def)
  have "verify files junk ctx' fi = Inr True"
    if fi: "reader_holds (zimReader fi) (f_contents out')" "concat (part_streams files (zimFile fi)) = f_contents out'" "header fi = ?h" "length (md5_buffer ctx') = 64"
    for fi files ctx' junk
  proof -
    have "length ?body < 2 ^ 63" using rd.holds_size [OF fi(1)] w(2) by simp
    then have pos: "unat (getChecksumPos ?h) = length ?body" unfolding hc(2) by (intro unat_of_nat_small) simp
    show ?thesis using verify_value [OF fi(1,2) _ _ fi(4), of junk] fi(3) hc(1) pos md w(2) by simp
  qed
  then show ?thesis using w(1) by blast
qed

theorem finished_archive_verifies_witness:
  "\<exists>cd' h' out'. creator_write (new_Creator (zeros 16)) (new_Fileheader [] 0) example_ctx example_data
      \<lparr>f_contents = example_base, f_pos = 0\<rparr> = Inr (cd', h', out') \<and>
    (\<forall>fi files ctx' junk. reader_holds (zimReader fi) (f_contents out') \<and> concat (part_streams files (zimFile fi)) = f_contents out' \<and> header fi = h' \<and>
       length (md5_buffer ctx') = 64 \<longrightarrow> verify files junk ctx' fi = Inr True)"
proof -
  have "CLUSTER_BASE_OFFSET \<le> length example_base" by (simp add: CLUSTER_BASE_OFFSET_def example_base_def length_zeros)
  moreover have "length (m_uuid (new_Creator (zeros 16))) = 16" "length (md5_buffer example_ctx) = 64"
    by (simp_all add: new_Creator_def example_ctx_def length_zeros)
  ultimately show ?thesis
    using finished_archive_verifies [OF example_ready _ _ example_fill(1), of "\<lparr>f_contents = example_base, f_pos = 0\<rparr>" example_base example_ctx]
    by simp
qed

section \<open>The order of the entries\<close>

lemma order_loop_value:
  "rmap getd is = Inr ds \<Longrightarrow> order_loop getd prev is =
     Inr (successively (<) (map getLongUrl ((case prev of None \<Rightarrow> [] | Some p \<Rightarrow> [p]) @ ds)))"
proof (induction "is" arbitrary: prev ds)
  case Nil
  then show ?case by (cases prev) auto
next
  case (Cons i "is")
  then obtain d ds' where d: "getd i = Inr d" "rmap getd is = Inr ds'" "ds = d # ds'" by (auto simp: rbind_Inr_iff)
  show ?case using Cons.IH [OF d(2), of "Some d"] d by (cases prev) auto
qed

lemma rmap_indexes:
  assumes "\<And>i. unat i < length ds \<Longrightarrow> getd i = Inr (ds ! unat i)" "unat n = length ds"
  shows "rmap getd (indexes n) = Inr ds"
proof -
  have *: "rmap getd (map f is) = Inr (map g is)" if "\<And>i. i \<in> set is \<Longrightarrow> getd (f i) = Inr (g i)" for f g and "is" :: "nat list"
    using that by (induction "is") auto
  have "unat (of_nat i :: u32) = i" if "i < length ds" for i
    using that assms(2) unat_bound [of n] by (intro unat_of_nat_small) simp
  then have "rmap getd (map of_nat [0..<length ds]) = Inr (map ((!) ds) [0..<length ds])" by (intro *) (simp add: assms(1))
  then show ?thesis using assms(2) by (simp add: map_nth)
qed

text \<open>The check of the order answers whether the entries are strictly ordered by namespace and path, for every archive
  whose entries can be loaded.\<close>

theorem checkDirentOrder_iff:
  assumes "entries_stored (mp_urlDirentAccessor fi) ds" "articleCount (header fi) = m_direntCount (mp_urlDirentAccessor fi)"
  shows "checkDirentOrder junk fi = Inr (sorted_wrt (<) (map getLongUrl ds))"
proof -
  have "rmap (fi_getDirent junk fi) (indexes (articleCount (header fi))) = Inr ds"
    using acc.get_holds [OF assms(1)] acc.count_holds [OF assms(1)] assms(2) by (intro rmap_indexes) (simp_all add: fi_getDirent_def)
  from order_loop_value [OF this, of None] show ?thesis
    by (simp add: checkDirentOrder_def successively_conv_sorted_wrt)
qed

section \<open>Search by title\<close>

definition title_key :: "Dirent \<Rightarrow> int \<times> bytes" where
  "title_key d = (sint (d_ns d), getTitle d)"

lemma direntCompareTitle_key:
  "direntCompareTitle ns title d < 0 \<longleftrightarrow> (sint ns, title) < title_key d"
  "direntCompareTitle ns title d > 0 \<longleftrightarrow> title_key d < (sint ns, title)"
  by (auto simp: direntCompareTitle_def title_key_def char_less_def string_compare_def)

lemma unat_midpoint:
  assumes "unat (l :: u32) < unat u"
  shows "unat (u - l) = unat u - unat l" "unat (l + (u - l) div 2) = unat l + (unat u - unat l) div 2"
proof -
  show ul: "unat (u - l) = unat u - unat l" using assms by (simp add: unat_diff)
  then have half: "unat ((u - l) div 2) = (unat u - unat l) div 2" by (simp add: unat_div_distrib)
  have "unat l + (unat u - unat l) div 2 < unat u" using assms by simp
  then have "unat l + unat ((u - l) div 2) < 2 ^ LENGTH(32)" unfolding half using unat_bound [of u] by (rule less_trans)
  then show "unat (l + (u - l) div 2) = unat l + (unat u - unat l) div 2" using half by (simp add: unat_add_small)
qed

text \<open>What the search promises: an entry of that title, or the place where it would have to be.\<close>

definition title_result :: "Dirent list \<Rightarrow> int \<times> bytes \<Rightarrow> bool \<Rightarrow> nat \<Rightarrow> bool" where
  "title_result ts k b i \<longleftrightarrow>
     (if b then i < length ts \<and> title_key (ts ! i) = k
      else i \<le> length ts \<and> (\<forall>j<i. title_key (ts ! j) < k) \<and> (\<forall>j. i \<le> j \<and> j < length ts \<longrightarrow> k < title_key (ts ! j)))"

lemma title_loop_correct:
  assumes getd: "\<And>i. unat i < length ts \<Longrightarrow> getd i = Inr (ts ! unat i)" and srt: "sorted (map title_key ts)"
    and lu: "unat l < unat u" "unat u \<le> length ts"
    and before: "\<forall>j<unat l. title_key (ts ! j) < (sint ns, title)"
    and after: "\<forall>j. unat u \<le> j \<and> j < length ts \<longrightarrow> (sint ns, title) < title_key (ts ! j)"
  shows "\<exists>b i. title_loop getd ns title l u = Inr (b, i) \<and> title_result ts (sint ns, title) b (unat i)"
  using lu before after
proof (induction "unat u - unat l" arbitrary: l u rule: less_induct)
  case less
  let ?k = "(sint ns, title)"
  have le: "title_key (ts ! i) \<le> title_key (ts ! j)" if "i \<le> j" "j < length ts" for i j
    using sorted_nth_mono [OF srt that(1)] that by simp
  show ?case
  proof (cases "1 < u - l")
    case True
    define p where "p = l + (u - l) div 2"
    have "1 < unat u - unat l" using True unat_midpoint(1) [OF less.prems(1)] by (simp add: word_less_nat_alt)
    then have p: "unat l < unat p" "unat p < unat u" using unat_midpoint(2) [OF less.prems(1)] by (auto simp: p_def)
    then have pl: "unat p < length ts" using less.prems(2) by simp
    have unf: "title_loop getd ns title l u = (if ?k < title_key (ts ! unat p) then title_loop getd ns title l p
        else if title_key (ts ! unat p) < ?k then title_loop getd ns title p u else Inr (True, p))"
      using True getd [OF pl] by (subst title_loop.simps) (simp add: Let_def p_def [symmetric] direntCompareTitle_key)
    consider "?k < title_key (ts ! unat p)" | "title_key (ts ! unat p) < ?k" | "title_key (ts ! unat p) = ?k" by fastforce
    then show ?thesis
    proof cases
      case 1
      then have "\<forall>j. unat p \<le> j \<and> j < length ts \<longrightarrow> ?k < title_key (ts ! j)" using le order_less_le_trans by blast
      then show ?thesis using less.hyps [of p l] less.prems p 1 by (simp add: unf)
    next
      case 2
      then have "\<forall>j<unat p. title_key (ts ! j) < ?k" using le pl order_le_less_trans less_imp_le_nat by blast
      moreover have "\<not> ?k < title_key (ts ! unat p)" using 2 by simp
      ultimately show ?thesis using less.hyps [of u p] less.prems p 2 by (simp add: unf)
    next
      case 3
      then show ?thesis using pl by (auto simp: unf title_result_def)
    qed
  next
    case False
    then have u: "unat u = Suc (unat l)" using less.prems(1) unat_midpoint(1) [OF less.prems(1)] by (simp add: word_less_nat_alt)
    then have l: "unat l < length ts" using less.prems(2) by simp
    let ?c = "direntCompareTitle ns title (ts ! unat l)"
    have unf: "title_loop getd ns title l u = (if ?c = 0 then Inr (True, l) else Inr (False, if ?c < 0 then l else u))"
      using False getd [OF l] by (subst title_loop.simps) (simp add: Let_def)
    consider "?c < 0" | "?c > 0" | "?c = 0" by linarith
    then show ?thesis
    proof cases
      case 1
      then have "\<forall>j. unat l \<le> j \<and> j < length ts \<longrightarrow> ?k < title_key (ts ! j)"
        using direntCompareTitle_key(1) [of ns title "ts ! unat l"] le order_less_le_trans by blast
      then show ?thesis using 1 less.prems(3) l by (auto simp: unf title_result_def)
    next
      case 2
      then have "\<forall>j<unat u. title_key (ts ! j) < ?k"
        using direntCompareTitle_key(2) [of ns title "ts ! unat l"] less.prems(3) by (auto simp: u less_Suc_eq)
      then show ?thesis using 2 less.prems(2,4) by (auto simp: unf title_result_def)
    next
      case 3
      then have "title_key (ts ! unat l) = ?k" using direntCompareTitle_key [of ns title "ts ! unat l"] by (metis less_irrefl linorder_cases)
      then show ?thesis using 3 l by (auto simp: unf title_result_def)
    qed
  qed
qed

text \<open>C30: Search by title. When the titles of the listing are in order (entries of equal titles in any order), the search
  always ends with an answer: found, with the position of an entry of that namespace and title, or not found, with
  the position before which all titles are smaller and from which on all are greater.\<close>

theorem findxByTitle_correct:
  assumes "\<And>i. unat i < length ts \<Longrightarrow> getDirentByTitle junk fi i = Inr (ts ! unat i)"
    and "unat (m_titleCount (mp_titleDirentAccessor fi)) = length ts" "sorted (map title_key ts)"
  shows "\<exists>b i. findxByTitle junk fi ns title = Inr (b, i) \<and>
    (if b then unat i < length ts \<and> title_key (ts ! unat i) = (sint ns, title)
     else unat i \<le> length ts \<and> (\<forall>j<unat i. title_key (ts ! j) < (sint ns, title)) \<and>
       (\<forall>j. unat i \<le> j \<and> j < length ts \<longrightarrow> (sint ns, title) < title_key (ts ! j)))"
proof (cases "m_titleCount (mp_titleDirentAccessor fi) = 0")
  case True
  then show ?thesis using assms(2) by (auto simp: findxByTitle_def)
next
  case False
  then have "0 < length ts" using assms(2) by (metis length_greater_0_conv list.size(3) unat_eq_zero)
  then have "\<exists>b i. title_loop (getDirentByTitle junk fi) ns title 0 (m_titleCount (mp_titleDirentAccessor fi)) = Inr (b, i) \<and>
      title_result ts (sint ns, title) b (unat i)"
    using assms by (intro title_loop_correct) auto
  then show ?thesis using False unfolding title_result_def findxByTitle_def Let_def by metis
qed

section \<open>The order by cluster\<close>

definition entry_cluster :: "Dirent \<Rightarrow> u32" where
  "entry_cluster d = (if isArticle d then d_clusterNumber d else 0)"

lemma slice_at_prefix: "drop n bs = xs @ tail \<Longrightarrow> k + m \<le> length xs \<Longrightarrow> slice_at (n + k) m bs = take m (drop k xs)"
  by (simp add: slice_at_def add.commute [of n] drop_drop [symmetric])

lemma cluster_pair_ok:
  assumes st: "entries_stored (mp_urlDirentAccessor fi) ds" and r: "zimReader fi = mp_zimReader (mp_urlDirentAccessor fi)"
    and i: "unat i < length ds"
  shows "cluster_pair junk fi i = Inr (entry_cluster (ds ! unat i), i)"
proof -
  let ?d = "ds ! unat i"
  obtain bs offs where A: "reader_holds (zimReader fi) bs" "length bs \<le> max_transfer"
      "reader_holds (mp_urlPtrReader (mp_urlDirentAccessor fi)) (concat (map toLittleEndian64 offs))"
      "unat (m_direntCount (mp_urlDirentAccessor fi)) = length ds" "list_all2 (dirent_at bs) offs ds"
    using st r unfolding entries_stored_def by metis
  have len: "unat i < length offs" using i A(5) by (simp add: list_all2_lengthD)
  let ?off = "offs ! unat i"
  have "dirent_at bs ?off ?d" using A(5) i by (simp add: list_all2_nthD2)
  then obtain tail where at: "drop (unat ?off) bs = dirent_bytes ?d @ tail" "unat ?off < length bs" by (auto simp: dirent_at_def)
  have db: "dirent_bytes ?d = dirent_fixed ?d @ d_url ?d @ [0] @ d_title ?d @ [0] @ d_parameter ?d" by (simp add: dirent_bytes_def)
  have lenbs: "unat ?off + length (dirent_bytes ?d) \<le> length bs" using arg_cong [OF at(1), of length] at(2) by simp
  have l8: "8 \<le> length (dirent_fixed ?d)" by (rule length_dirent_fixed)
  have off: "getOffset junk (mp_urlDirentAccessor fi) i = Inr ?off"
    using read_offset_list [OF A(3) len] A(4) i by (simp add: getOffset_def word_le_nat_alt)
  have "slice_at (unat ?off) 2 bs = toLittleEndian16 (d_mimeType ?d)"
    using slice_at_prefix [OF at(1), of 0 2] db l8 by (simp add: dirent_fixed_def toLittleEndian16_def)
  then have mime: "read_uint junk (zimReader fi) ?off = Inr (d_mimeType ?d)"
    using rd.read_uint_exact [OF A(1), where 'a = 16 and n = 2 and junk = junk and off = ?off] lenbs db l8 by (simp add: from_to_16)
  show ?thesis
  proof (cases "isArticle ?d")
    case False
    then show ?thesis using off mime
      by (auto simp: cluster_pair_def entry_cluster_def isArticle_def isRedirect_def isLinktarget_def isDeleted_def)
  next
    case True
    then have fixed: "dirent_fixed ?d = (toLittleEndian16 (d_mimeType ?d) @ [of_nat (length (d_parameter ?d)), d_ns ?d] @
        toLittleEndian32 (d_version ?d)) @ toLittleEndian32 (d_clusterNumber ?d) @ toLittleEndian32 (d_blobNumber ?d)"
      by (simp add: dirent_fixed_def isArticle_def)
    then have l12: "length (dirent_fixed ?d) = 16" by simp
    have u8: "unat (?off + 8) = unat ?off + 8"
      using lenbs A(2) l12 db by (subst unat_add_small) (simp_all add: max_transfer_def)
    have "slice_at (unat ?off + 8) 4 bs = toLittleEndian32 (d_clusterNumber ?d)"
      using slice_at_prefix [OF at(1), of 8 4] db l12 by (simp add: fixed)
    then have "read_uint junk (zimReader fi) (?off + 8) = Inr (d_clusterNumber ?d)"
      using rd.read_uint_exact [OF A(1), where 'a = 32 and n = 4 and junk = junk and off = "?off + 8"] lenbs db l12 u8 by (simp add: from_to_32)
    then show ?thesis using off mime True
      by (auto simp: cluster_pair_def entry_cluster_def isArticle_def isRedirect_def isLinktarget_def isDeleted_def)
  qed
qed

lemma sorted_map_fst: "sorted ps \<Longrightarrow> sorted (map fst ps)" for ps :: "('a::linorder \<times> 'b::linorder) list"
  by (induction ps) (auto simp: less_eq_prod_def)

text \<open>The order by cluster is a rearrangement of the user entries in which the numbers of their clusters never decrease
  (entries without a cluster count as 0), so that reading the entries in that order visits each cluster once; an index
  beyond the last entry is refused.\<close>

lemma cluster_order_is_sorted:
  assumes "entries_stored (mp_urlDirentAccessor fi) ds" "zimReader fi = mp_zimReader (mp_urlDirentAccessor fi)"
    and "unat (m_startUserEntry fi) \<le> unat (m_endUserEntry fi)" "unat (m_endUserEntry fi) \<le> length ds"
  shows "\<exists>order. mset order = mset (map of_nat [unat (m_startUserEntry fi)..<unat (m_endUserEntry fi)]) \<and>
    sorted (map (\<lambda>i. entry_cluster (ds ! unat i)) order) \<and>
    (\<forall>idx. getIndexByClusterOrder junk fi idx =
       (if unat idx < length order then Inr (order ! unat idx) else Inl (OutOfRange ''entry index out of range'')))"
proof -
  let ?is = "map of_nat [unat (m_startUserEntry fi)..<unat (m_endUserEntry fi)] :: u32 list"
  let ?pair = "\<lambda>i. (entry_cluster (ds ! unat i), i)"
  have "unat i < length ds" if i: "i \<in> set ?is" for i
  proof -
    obtain k where k: "i = of_nat k" "k < unat (m_endUserEntry fi)" using i by auto
    then have "unat i = k" using unat_bound [of "m_endUserEntry fi"] by (simp add: unat_of_nat_small del: unat_u32_bound)
    then show ?thesis using k(2) assms(4) by simp
  qed
  moreover have "(\<forall>i\<in>set is. unat i < length ds) \<Longrightarrow> rmap (cluster_pair junk fi) is = Inr (map ?pair is)" for "is"
    using cluster_pair_ok [OF assms(1,2)] by (induction "is") auto
  ultimately have run: "articleListByCluster junk fi = Inr (sort (map ?pair ?is))" by (simp add: articleListByCluster_def del: map_map)
  let ?ps = "sort (map ?pair ?is)"
  have pairs: "map fst ?ps = map (\<lambda>i. entry_cluster (ds ! unat i)) (map snd ?ps)"
  proof -
    have "\<forall>p\<in>set ?ps. fst p = entry_cluster (ds ! unat (snd p))" by auto
    then show ?thesis by simp
  qed
  have "sorted (map fst ?ps)"
  proof -
    have "sorted ?ps" by (rule sorted_sort)
    then show ?thesis by (rule sorted_map_fst)
  qed
  then have "sorted (map (\<lambda>i. entry_cluster (ds ! unat i)) (map snd ?ps))" unfolding pairs .
  moreover have "mset (map snd ?ps) = mset ?is"
  proof -
    have "mset (map snd ?ps) = image_mset snd (mset (map ?pair ?is))" by (simp only: mset_map mset_sort)
    also have "\<dots> = mset (map snd (map ?pair ?is))" by (simp only: mset_map)
    also have "map snd (map ?pair ?is) = ?is" by (simp add: comp_def)
    finally show ?thesis .
  qed
  moreover have "getIndexByClusterOrder junk fi idx =
      (if unat idx < length (map snd ?ps) then Inr (map snd ?ps ! unat idx) else Inl (OutOfRange ''entry index out of range''))" for idx
    using run by (simp add: getIndexByClusterOrder_def not_le)
  ultimately show ?thesis by blast
qed

section \<open>Examples\<close>

text \<open>An archive of one entry, in memory.\<close>

definition example_fi :: FileImpl where
  "example_fi = \<lparr>zimFile = addPart \<lparr>part_filename = [97], part_fhandle = mem_fd (zeros 100), part_size = 100\<rparr> \<lparr>fc_map = [], fsize = 0\<rparr>,
     archiveStartOffset = 0, zimReader = mp_zimReader example_accessor,
     header = example_header\<lparr>articleCount := 1, checksumPos := 84\<rparr>, clusterOffsetReader = mp_urlPtrReader example_accessor,
     mp_urlDirentAccessor = example_accessor,
     mp_titleDirentAccessor = \<lparr>mp_direntAccessor = example_accessor,
       mp_indexReader = BufferReader \<lparr>buf_data = toLittleEndian32 0, buf_size = 4\<rparr>, m_titleCount = 1\<rparr>,
     m_newNamespaceScheme = True, m_startUserEntry = 0, m_endUserEntry = 1, mimeTypes = [],
     m_direntLookup = \<lparr>namespaceBoundaryCache = Map.empty, direntCount = 1, lookupGrid = new_NarrowDown\<rparr>\<rparr>"

lemma example_fi_stored: "entries_stored (mp_urlDirentAccessor example_fi) [example_dirent 2]"
  using example_accessor_holds by (simp add: example_fi_def accessor_holds_def)

theorem checkDirentOrder_iff_witness: "checkDirentOrder (\<lambda>_. 0) example_fi = Inr True"
  using checkDirentOrder_iff [OF example_fi_stored, of "\<lambda>_. 0"] by (simp add: example_fi_def example_accessor_def)

theorem findxByTitle_correct_witness: "\<exists>b i. findxByTitle (\<lambda>_. 0) example_fi 67 [1] = Inr (b, i)"
proof -
  have "reader_holds (mp_indexReader (mp_titleDirentAccessor example_fi)) (concat (map toLittleEndian32 [0]))"
    using memory_reader_holds [of "toLittleEndian32 0"] by (simp add: example_fi_def del: reader_holds.simps)
  then have "getDirentByTitle (\<lambda>_. 0) example_fi i = Inr ([example_dirent 2] ! unat i)" if "unat i < length [example_dirent 2]" for i
    using read_index_list [of "mp_indexReader (mp_titleDirentAccessor example_fi)" "[0]" i "\<lambda>_. 0"] that
      acc.get_holds [OF example_fi_stored, of 0 "\<lambda>_. 0"]
    by (auto simp: getDirentByTitle_def title_getDirent_def getDirectIndex_def example_fi_def word_le_nat_alt simp del: reader_holds.simps)
  from findxByTitle_correct [OF this, of 67 "[1]"] show ?thesis by (auto simp: example_fi_def)
qed

theorem verify_is_md5_witness:
  "verify (\<lambda>_. Some (zeros 100)) (\<lambda>_. 0) example_ctx (example_fi\<lparr>zimReader := BufferReader \<lparr>buf_data = zeros 100, buf_size = 100\<rparr>\<rparr>) =
     Inr (take 16 (drop 84 (zeros 100)) = rfc1321_md5 (take 84 (zeros 100)))"
proof -
  let ?fi = "example_fi\<lparr>zimReader := BufferReader \<lparr>buf_data = zeros 100, buf_size = 100\<rparr>\<rparr>"
  have "reader_holds (zimReader ?fi) (zeros 100)"
    using memory_reader_holds [of "zeros 100"] by (simp add: length_zeros del: reader_holds.simps)
  moreover have "concat (part_streams (\<lambda>_. Some (zeros 100)) (zimFile ?fi)) = zeros 100" "hasChecksum (header ?fi)" "getChecksumPos (header ?fi) = 84"
    by (simp_all add: example_fi_def example_header_def hasChecksum_def getChecksumPos_def part_streams_def addPart_def emplace_def
      lower_bound_def)
  ultimately show ?thesis using verify_is_md5 [of ?fi "zeros 100" "\<lambda>_. Some (zeros 100)" example_ctx "\<lambda>_. 0"] by (simp add: length_zeros example_ctx_def)
qed

text \<open>The check of the directory pointers lets the largest pointer pass: the sum of the pointer and the smallest size
  of an entry wraps around, so a pointer far outside of the file counts as valid.\<close>

theorem wrapped_pointer_passes_check:
  "checkDirentPtrs (\<lambda>_. 0) (example_fi\<lparr>mp_urlDirentAccessor := example_accessor\<lparr>mp_urlPtrReader :=
     BufferReader \<lparr>buf_data = toLittleEndian64 (- 1), buf_size = 8\<rparr>\<rparr>\<rparr>) = Inr True"
proof -
  let ?acc = "example_accessor\<lparr>mp_urlPtrReader := BufferReader \<lparr>buf_data = toLittleEndian64 (- 1), buf_size = 8\<rparr>\<rparr>"
  have "reader_holds (mp_urlPtrReader ?acc) (concat (map toLittleEndian64 [- 1]))"
    using memory_reader_holds [of "toLittleEndian64 (- 1)"] by (simp del: reader_holds.simps)
  then have "getOffset (\<lambda>_. 0) ?acc 0 = Inr (- 1)"
    using read_offset_list [of "mp_urlPtrReader ?acc" "[- 1]" 0 "\<lambda>_. 0"] by (simp add: getOffset_def example_accessor_def del: reader_holds.simps)
  then show ?thesis
    by (simp add: checkDirentPtrs_def example_fi_def example_header_def valid_range_end_def hasChecksum_def getChecksumPos_def)
qed

end
