(* ===== verification/Archive_Api.thy ===== *)
theory Archive_Api
  imports File_Archive
begin

text \<open>
  The public face of the reader: \<^verbatim>\<open>src/archive.cpp\<close>, \<^verbatim>\<open>src/entry.cpp\<close>, \<^verbatim>\<open>src/item.cpp\<close> and the iterators of
  \<^verbatim>\<open>include/zim/archive.h\<close>, on top of \<open>File_Impl\<close>. The shared pointer to the implementation that each of these
  classes keeps is the argument \<open>fi\<close> of its operations.
\<close>

section \<open>Entries and items\<close>

record Entry =
  e_idx :: u32
  e_dirent :: Dirent

definition new_Entry :: "(nat \<Rightarrow> byte) \<Rightarrow> FileImpl \<Rightarrow> u32 \<Rightarrow> Entry res" where
  "new_Entry junk fi idx = rbind (fi_getDirent junk fi idx) (\<lambda>d. Inr \<lparr>e_idx = idx, e_dirent = d\<rparr>)"

definition e_getTitle :: "Entry \<Rightarrow> bytes" where
  "e_getTitle e = getTitle (e_dirent e)"

definition e_getPath :: "FileImpl \<Rightarrow> Entry \<Rightarrow> bytes" where
  "e_getPath fi e = (if m_newNamespaceScheme fi then d_url (e_dirent e) else getLongUrl (e_dirent e))"

definition e_isRedirect :: "Entry \<Rightarrow> bool" where
  "e_isRedirect e = isRedirect (e_dirent e)"

record Item =
  i_idx :: u32
  i_dirent :: Dirent

definition new_Item :: "(nat \<Rightarrow> byte) \<Rightarrow> FileImpl \<Rightarrow> u32 \<Rightarrow> Item res" where
  "new_Item junk fi idx = rbind (fi_getDirent junk fi idx) (\<lambda>d. Inr \<lparr>i_idx = idx, i_dirent = d\<rparr>)"

definition getRedirectEntry :: "(nat \<Rightarrow> byte) \<Rightarrow> FileImpl \<Rightarrow> Entry \<Rightarrow> Entry res" where
  "getRedirectEntry junk fi e =
     (if \<not> e_isRedirect e then Inl (InvalidType ''Entry is not a redirect entry.'')
      else new_Entry junk fi (getRedirectIndex (e_dirent e)))"

text \<open>\<^verbatim>\<open>getItem(false)\<close>, which \<^verbatim>\<open>getRedirect\<close> ends with.\<close>

definition getItem_nofollow :: "(nat \<Rightarrow> byte) \<Rightarrow> FileImpl \<Rightarrow> Entry \<Rightarrow> Item res" where
  "getItem_nofollow junk fi e =
     (if e_isRedirect e then Inl (InvalidType ''Entry is a redirect entry.'') else new_Item junk fi (e_idx e))"

lemma unat_pred_less: "v \<noteq> 0 \<Longrightarrow> unat (v - 1) < unat (v :: u32)"
  by (simp add: unat_minus_one unat_gt_0)

text \<open>The loop of \<^verbatim>\<open>getRedirect\<close>: \<open>watchdog\<close> is decremented before it is tested.\<close>

function redirect_loop :: "(nat \<Rightarrow> byte) \<Rightarrow> FileImpl \<Rightarrow> u32 \<Rightarrow> Entry \<Rightarrow> Entry res" where
  "redirect_loop junk fi watchdog nextEntry =
     (if e_isRedirect nextEntry \<and> watchdog - 1 \<noteq> 0
      then rbind (getRedirectEntry junk fi nextEntry) (redirect_loop junk fi (watchdog - 1))
      else Inr nextEntry)"
  by pat_completeness auto
termination
proof (relation "measure (\<lambda>(_, _, w, _). unat (w - 1))", goal_cases)
  case (2 junk fi w e e')
  then show ?case using unat_pred_less [of "w - 1"] by simp
qed simp

declare redirect_loop.simps [simp del]

definition getRedirect :: "(nat \<Rightarrow> byte) \<Rightarrow> FileImpl \<Rightarrow> Entry \<Rightarrow> Item res" where
  "getRedirect junk fi e =
     rbind (getRedirectEntry junk fi e) (\<lambda>nextEntry.
     rbind (redirect_loop junk fi 50 nextEntry) (\<lambda>nextEntry.
       getItem_nofollow junk fi nextEntry))"

definition getItem :: "(nat \<Rightarrow> byte) \<Rightarrow> FileImpl \<Rightarrow> bool \<Rightarrow> Entry \<Rightarrow> Item res" where
  "getItem junk fi follow e =
     (if e_isRedirect e then
        (if \<not> follow then Inl (InvalidType ''Entry is a redirect entry.'') else getRedirect junk fi e)
      else new_Item junk fi (e_idx e))"

definition i_getTitle :: "Item \<Rightarrow> bytes" where
  "i_getTitle i = getTitle (i_dirent i)"

definition i_getPath :: "FileImpl \<Rightarrow> Item \<Rightarrow> bytes" where
  "i_getPath fi i = (if m_newNamespaceScheme fi then d_url (i_dirent i) else getLongUrl (i_dirent i))"

definition i_getMimetype :: "FileImpl \<Rightarrow> Item \<Rightarrow> bytes res" where
  "i_getMimetype fi i = fi_getMimeType fi (d_mimeType (i_dirent i))"

definition item_cluster :: "'st surroundings \<Rightarrow> FileImpl \<Rightarrow> Item \<Rightarrow> 'st Cluster res" where
  "item_cluster s fi i = getCluster s (zimReader fi) (header fi) (clusterOffsetReader fi) (getClusterNumber (i_dirent i))"

definition i_getSize :: "'st surroundings \<Rightarrow> FileImpl \<Rightarrow> Item \<Rightarrow> u64 res" where
  "i_getSize s fi i = rbind (item_cluster s fi i) (\<lambda>cluster. getBlobSize (getBlobNumber (i_dirent i)) cluster)"

text \<open>\<^verbatim>\<open>getData(offset, size)\<close> and \<^verbatim>\<open>getData(offset)\<close>; the subtraction wraps.\<close>

definition i_getData_part :: "'st surroundings \<Rightarrow> FileImpl \<Rightarrow> u64 \<Rightarrow> u64 \<Rightarrow> Item \<Rightarrow> Blob res" where
  "i_getData_part s fi offset sz i =
     rbind (item_cluster s fi i) (\<lambda>cluster.
     rbind (getBlob_part (s_run s) (s_junk s) (getBlobNumber (i_dirent i)) offset sz cluster) (\<lambda>(b, _). Inr b))"

definition i_getData :: "'st surroundings \<Rightarrow> FileImpl \<Rightarrow> u64 \<Rightarrow> Item \<Rightarrow> Blob res" where
  "i_getData s fi offset i = rbind (i_getSize s fi i) (\<lambda>sz. i_getData_part s fi offset (sz - offset) i)"

text \<open>The pair of iterators of \<^verbatim>\<open>getFileParts\<close> is a pair of positions; moving one past the end of the map is not
  defined.\<close>

definition getDirectAccessInformation :: "'st surroundings \<Rightarrow> FileImpl \<Rightarrow> Item \<Rightarrow> (bytes \<times> u64) res" where
  "getDirectAccessInformation s fi i =
     rbind (item_cluster s fi i) (\<lambda>cluster.
     if isCompressed cluster then Inr ([], 0)
     else
       rbind (fi_getBlobOffset s fi (getClusterNumber (i_dirent i)) (getBlobNumber (i_dirent i))) (\<lambda>off.
       let full_offset = off + archiveStartOffset fi in
       rbind (i_getSize s fi i) (\<lambda>sz.
       case locate full_offset sz (zimFile fi) of (fst_it, end_it) \<Rightarrow>
         if fst_it \<ge> length (fc_map (zimFile fi)) then Inl MemoryFault
         else if fst_it + 1 \<noteq> end_it then Inr ([], 0)
         else
           (case fc_map (zimFile fi) ! fst_it of (rng, part) \<Rightarrow>
              Inr (part_filename part, full_offset - range_min rng)))))"

section \<open>The archive\<close>

definition ar_getFilesize :: "FileImpl \<Rightarrow> u64" where
  "ar_getFilesize fi = reader_size (zimReader fi)"

definition getEntryCount :: "FileImpl \<Rightarrow> u32" where
  "getEntryCount fi = m_endUserEntry fi - m_startUserEntry fi"

definition getMetadata :: "'st surroundings \<Rightarrow> FileImpl \<Rightarrow> bytes \<Rightarrow> bytes res" where
  "getMetadata s fi name =
     rbind (findx (s_junk s) fi 77 name) (\<lambda>r.
     if \<not> fst r then Inl (EntryNotFound ''Cannot find metadata'')
     else
       rbind (new_Entry (s_junk s) fi (snd r)) (\<lambda>entry.
       rbind (getItem (s_junk s) fi True entry) (\<lambda>item.
       rbind (i_getData s fi 0 item) (\<lambda>b. Inr (blob_string b)))))"

text \<open>The loop compares with \<^verbatim>\<open>!=\<close>: with the end before the start it runs over the largest index.\<close>

partial_function (option) keys_loop :: "(u32 \<Rightarrow> Dirent res) \<Rightarrow> u32 \<Rightarrow> u32 \<Rightarrow> bytes list \<Rightarrow> bytes list res option" where
  "keys_loop getd idx end ret =
     (if idx = end then Some (Inr ret)
      else case getd idx of
             Inl e \<Rightarrow> Some (Inl e)
           | Inr d \<Rightarrow> keys_loop getd (idx + 1) end (ret @ [d_url d]))"

definition getMetadataKeys :: "(nat \<Rightarrow> byte) \<Rightarrow> FileImpl \<Rightarrow> bytes list res" where
  "getMetadataKeys junk fi =
     (case getNamespaceRangeBegin (fi_getDirent junk fi) 77 (m_direntLookup fi) of
        (Inl e, _) \<Rightarrow> Inl e
      | (Inr start, dl) \<Rightarrow>
          (case getNamespaceRangeEnd (fi_getDirent junk fi) 77 dl of
             (Inl e, _) \<Rightarrow> Inl e
           | (Inr end, _) \<Rightarrow>
               (case keys_loop (fi_getDirent junk fi) start end [] of None \<Rightarrow> Inl NoReturn | Some r \<Rightarrow> r)))"

definition getEntryByPath_idx :: "(nat \<Rightarrow> byte) \<Rightarrow> FileImpl \<Rightarrow> u32 \<Rightarrow> Entry res" where
  "getEntryByPath_idx junk fi idx =
     (if idx \<ge> articleCount (header fi) then Inl (OutOfRange ''entry index out of range'') else new_Entry junk fi idx)"

text \<open>A loop over namespaces that returns at the first hit.\<close>

fun first_found :: "('a \<Rightarrow> (bool \<times> u32) res) \<Rightarrow> 'a list \<Rightarrow> u32 option res" where
  "first_found look [] = Inr None"
| "first_found look (x # xs) = rbind (look x) (\<lambda>r. if fst r then Inr (Some (snd r)) else first_found look xs)"

definition entry_or_not_found :: "(u32 \<Rightarrow> Entry res) \<Rightarrow> string \<Rightarrow> u32 option \<Rightarrow> Entry res" where
  "entry_or_not_found mk msg r = (case r of Some i \<Rightarrow> mk i | None \<Rightarrow> Inl (EntryNotFound msg))"

text \<open>The part of \<^verbatim>\<open>getEntryByPath\<close> in the \<^verbatim>\<open>try\<close> block; making the entry is inside of it as well.\<close>

definition stored_path :: "(nat \<Rightarrow> byte) \<Rightarrow> FileImpl \<Rightarrow> bytes \<Rightarrow> Entry option res" where
  "stored_path junk fi path =
     (case rbind (parseLongPath path) (\<lambda>(_, p).
             rbind (findx junk fi 67 p) (\<lambda>r.
               if fst r then rbind (new_Entry junk fi (snd r)) (\<lambda>e. Inr (Some e)) else Inr None)) of
        Inr r \<Rightarrow> Inr r
      | Inl e \<Rightarrow> if is_runtime_error e then Inr None else Inl e)"

definition getEntryByPath :: "(nat \<Rightarrow> byte) \<Rightarrow> FileImpl \<Rightarrow> bytes \<Rightarrow> Entry res" where
  "getEntryByPath junk fi path =
     (if m_newNamespaceScheme fi then
        rbind (findx junk fi 67 path) (\<lambda>r.
        if fst r then new_Entry junk fi (snd r)
        else
          rbind (stored_path junk fi path) (\<lambda>e.
            case e of Some e \<Rightarrow> Inr e | None \<Rightarrow> Inl (EntryNotFound ''Cannot find entry'')))
      else
        rbind (findx_long junk fi path) (\<lambda>r.
        if fst r then new_Entry junk fi (snd r)
        else
          rbind (first_found (\<lambda>ns. findx junk fi ns path) (str ''AIJ-'')) (\<lambda>r.
            entry_or_not_found (new_Entry junk fi) ''Cannot find entry'' r)))"

definition getEntryByTitle_idx :: "(nat \<Rightarrow> byte) \<Rightarrow> FileImpl \<Rightarrow> u32 \<Rightarrow> Entry res" where
  "getEntryByTitle_idx junk fi idx = rbind (getIndexByTitle junk fi idx) (new_Entry junk fi)"

definition getEntryByTitle :: "(nat \<Rightarrow> byte) \<Rightarrow> FileImpl \<Rightarrow> bytes \<Rightarrow> Entry res" where
  "getEntryByTitle junk fi title =
     rbind (first_found (\<lambda>ns. findxByTitle junk fi ns title) (str ''CAIJ-'')) (\<lambda>r.
       entry_or_not_found (getEntryByTitle_idx junk fi) ''Cannot find entry'' r)"

definition getEntryByClusterOrder :: "(nat \<Rightarrow> byte) \<Rightarrow> FileImpl \<Rightarrow> u32 \<Rightarrow> Entry res" where
  "getEntryByClusterOrder junk fi idx = rbind (getIndexByClusterOrder junk fi idx) (new_Entry junk fi)"

definition getMainEntry :: "(nat \<Rightarrow> byte) \<Rightarrow> FileImpl \<Rightarrow> Entry res" where
  "getMainEntry junk fi =
     rbind (findx junk fi 87 (str ''mainPage'')) (\<lambda>r.
     if fst r then getEntryByPath_idx junk fi (snd r)
     else if \<not> hasMainPage (header fi) then Inl (EntryNotFound ''No main page'')
     else getEntryByPath_idx junk fi (mainPage (header fi)))"

definition hasMainEntry :: "FileImpl \<Rightarrow> bool" where
  "hasMainEntry fi = hasMainPage (header fi)"

definition favicon_places :: "(byte \<times> bytes) list" where
  "favicon_places = concat (map (\<lambda>ns. map (\<lambda>path. (ns, path)) [str ''favicon'', str ''favicon.png'']) (str ''W-I''))"

definition getFaviconEntry :: "(nat \<Rightarrow> byte) \<Rightarrow> FileImpl \<Rightarrow> Entry res" where
  "getFaviconEntry junk fi =
     rbind (first_found (\<lambda>(ns, path). findx junk fi ns path) favicon_places) (\<lambda>r.
       entry_or_not_found (getEntryByPath_idx junk fi) ''Cannot find favicon entry'' r)"

definition hasFaviconEntry :: "(nat \<Rightarrow> byte) \<Rightarrow> FileImpl \<Rightarrow> bool res" where
  "hasFaviconEntry junk fi =
     (case getFaviconEntry junk fi of
        Inr _ \<Rightarrow> Inr True
      | Inl (EntryNotFound _) \<Rightarrow> Inr False
      | Inl e \<Rightarrow> Inl e)"

text \<open>What the two index queries do with the entry they found.\<close>

definition index_accessible :: "'st surroundings \<Rightarrow> FileImpl \<Rightarrow> u32 \<Rightarrow> bool res" where
  "index_accessible s fi idx =
     rbind (new_Entry (s_junk s) fi idx) (\<lambda>entry.
     rbind (getItem (s_junk s) fi True entry) (\<lambda>item.
     rbind (getDirectAccessInformation s fi item) (\<lambda>accessInfo. Inr (snd accessInfo \<noteq> 0))))"

definition hasFulltextIndex :: "'st surroundings \<Rightarrow> FileImpl \<Rightarrow> bool res" where
  "hasFulltextIndex s fi =
     rbind (first_found (\<lambda>(ns, path). findx (s_junk s) fi ns path)
        [(88, str ''fulltext/xapian''), (90, str ''/fulltextIndex/xapian'')]) (\<lambda>r.
       case r of None \<Rightarrow> Inr False | Some i \<Rightarrow> index_accessible s fi i)"

definition hasTitleIndex :: "'st surroundings \<Rightarrow> FileImpl \<Rightarrow> bool res" where
  "hasTitleIndex s fi =
     rbind (findx (s_junk s) fi 88 (str ''title/xapian'')) (\<lambda>r.
       if \<not> fst r then Inr False else index_accessible s fi (snd r))"

section \<open>Ranges and iterators\<close>

datatype EntryOrder = pathOrder | titleOrder | efficientOrder

record EntryRange =
  m_begin :: u32
  m_end :: u32

definition iterByPath :: "FileImpl \<Rightarrow> EntryRange" where
  "iterByPath fi = \<lparr>m_begin = m_startUserEntry fi, m_end = m_endUserEntry fi\<rparr>"

definition iterByTitle :: "FileImpl \<Rightarrow> EntryRange" where
  "iterByTitle fi = \<lparr>m_begin = m_startUserEntry fi, m_end = m_endUserEntry fi\<rparr>"

definition iterEfficient :: "FileImpl \<Rightarrow> EntryRange" where
  "iterEfficient fi = \<lparr>m_begin = 0, m_end = getEntryCount fi\<rparr>"

text \<open>\<^verbatim>\<open>path.back()++\<close>; on an empty string it is not defined.\<close>

definition increment_back :: "bytes \<Rightarrow> bytes res" where
  "increment_back path = (if path = [] then Inl MemoryFault else Inr (butlast path @ [last path + 1]))"

definition findByPath :: "(nat \<Rightarrow> byte) \<Rightarrow> FileImpl \<Rightarrow> bytes \<Rightarrow> EntryRange res" where
  "findByPath junk fi path =
     (if path = [] \<or> path = [slash] then Inr (iterByPath fi)
      else if m_newNamespaceScheme fi then
        rbind (findx junk fi 67 path) (\<lambda>b.
        rbind (increment_back path) (\<lambda>path'.
        rbind (findx junk fi 67 path') (\<lambda>e. Inr \<lparr>m_begin = snd b, m_end = snd e\<rparr>)))
      else
        (case parseLongPath path of
           Inl err \<Rightarrow> if is_exception err then Inr \<lparr>m_begin = 0, m_end = 0\<rparr> else Inl err
         | Inr (ns, path) \<Rightarrow>
             rbind (findx junk fi ns path) (\<lambda>b.
             rbind (if path = [] then Inr (ns + 1, path) else rbind (increment_back path) (\<lambda>path'. Inr (ns, path'))) (\<lambda>(ns', path').
             rbind (findx junk fi ns' path') (\<lambda>e. Inr \<lparr>m_begin = snd b, m_end = snd e\<rparr>)))))"

definition findByTitle :: "(nat \<Rightarrow> byte) \<Rightarrow> FileImpl \<Rightarrow> bytes \<Rightarrow> EntryRange res" where
  "findByTitle junk fi title =
     (let ns = (if m_newNamespaceScheme fi then 67 else 65) in
      rbind (findxByTitle junk fi ns title) (\<lambda>b.
      rbind (increment_back title) (\<lambda>title'.
      rbind (findxByTitle junk fi ns title') (\<lambda>e. Inr \<lparr>m_begin = snd b, m_end = snd e\<rparr>))))"

fun toPathOrder :: "(nat \<Rightarrow> byte) \<Rightarrow> FileImpl \<Rightarrow> EntryOrder \<Rightarrow> u32 \<Rightarrow> u32 res" where
  "toPathOrder junk fi pathOrder idx = Inr idx"
| "toPathOrder junk fi titleOrder idx = getIndexByTitle junk fi idx"
| "toPathOrder junk fi efficientOrder idx = getIndexByClusterOrder junk fi idx"

record iterator =
  it_idx :: u32
  it_entry :: "Entry option"

definition new_iterator :: "u32 \<Rightarrow> iterator" where
  "new_iterator idx = \<lparr>it_idx = idx, it_entry = None\<rparr>"

text \<open>The copy constructor dereferences the pointer to the entry, which is null before the first \<^verbatim>\<open>operator*\<close>.\<close>

definition it_copy :: "iterator \<Rightarrow> iterator res" where
  "it_copy it = (case it_entry it of None \<Rightarrow> Inl MemoryFault | Some e \<Rightarrow> Inr \<lparr>it_idx = it_idx it, it_entry = Some e\<rparr>)"

definition it_eq :: "iterator \<Rightarrow> iterator \<Rightarrow> bool" where
  "it_eq a b \<longleftrightarrow> it_idx a = it_idx b"

definition it_preinc :: "iterator \<Rightarrow> iterator" where
  "it_preinc it = \<lparr>it_idx = it_idx it + 1, it_entry = None\<rparr>"

definition it_postinc :: "iterator \<Rightarrow> (iterator \<times> iterator) res" where
  "it_postinc it = rbind (it_copy it) (\<lambda>old. Inr (old, it_preinc it))"

definition it_predec :: "iterator \<Rightarrow> iterator" where
  "it_predec it = \<lparr>it_idx = it_idx it - 1, it_entry = None\<rparr>"

definition it_postdec :: "iterator \<Rightarrow> (iterator \<times> iterator) res" where
  "it_postdec it = rbind (it_copy it) (\<lambda>old. Inr (old, it_predec it))"

definition it_deref :: "(nat \<Rightarrow> byte) \<Rightarrow> FileImpl \<Rightarrow> EntryOrder \<Rightarrow> iterator \<Rightarrow> (Entry \<times> iterator) res" where
  "it_deref junk fi order it =
     (case it_entry it of
        Some e \<Rightarrow> Inr (e, it)
      | None \<Rightarrow>
          rbind (toPathOrder junk fi order (it_idx it)) (\<lambda>i.
          rbind (new_Entry junk fi i) (\<lambda>e. Inr (e, it\<lparr>it_entry := Some e\<rparr>))))"

text \<open>What a range-based \<^verbatim>\<open>for\<close> does with a range: the entries it visits.\<close>

partial_function (option) visit ::
    "(nat \<Rightarrow> byte) \<Rightarrow> FileImpl \<Rightarrow> EntryOrder \<Rightarrow> iterator \<Rightarrow> iterator \<Rightarrow> Entry list \<Rightarrow> Entry list res option" where
  "visit junk fi order it end visited =
     (if it_eq it end then Some (Inr visited)
      else case it_deref junk fi order it of
             Inl e \<Rightarrow> Some (Inl e)
           | Inr (entry, it) \<Rightarrow> visit junk fi order (it_preinc it) end (visited @ [entry]))"

definition visit_range :: "(nat \<Rightarrow> byte) \<Rightarrow> FileImpl \<Rightarrow> EntryOrder \<Rightarrow> EntryRange \<Rightarrow> Entry list res" where
  "visit_range junk fi order r =
     (case visit junk fi order (new_iterator (m_begin r)) (new_iterator (m_end r)) [] of None \<Rightarrow> Inl NoReturn | Some x \<Rightarrow> x)"

section \<open>Validation\<close>

fun IntegrityCheck_of :: "nat \<Rightarrow> IntegrityCheck" where
  "IntegrityCheck_of i =
     (if i < 6 then [CHECKSUM, DIRENT_PTRS, DIRENT_ORDER, TITLE_INDEX, CLUSTER_PTRS, DIRENT_MIMETYPES] ! i else COUNT)"

text \<open>The loop of \<^verbatim>\<open>validate\<close> over the selected checks, in their order.\<close>

fun run_checks :: "(IntegrityCheck \<Rightarrow> bool res) \<Rightarrow> IntegrityCheck list \<Rightarrow> bool res" where
  "run_checks check [] = Inr True"
| "run_checks check (c # cs) = rbind (check c) (\<lambda>ok. if ok then run_checks check cs else Inr False)"

definition validate :: "'st surroundings \<Rightarrow> zim_MD5_CTX \<Rightarrow> FileCompound res \<Rightarrow> nat set \<Rightarrow> bool res" where
  "validate s md5ctx opened checksToRun =
     (case rbind opened (\<lambda>zf.
           rbind (new_FileImpl s zf 0 (fsize zf)) (\<lambda>a.
             run_checks (checkIntegrity s md5ctx a) (map IntegrityCheck_of (filter (\<lambda>i. i \<in> checksToRun) [0..<6])))) of
        Inr r \<Rightarrow> Inr r
      | Inl (ZimFileFormatError _) \<Rightarrow> Inr False
      | Inl e \<Rightarrow> Inl e)"

end
