(* ===== verification/Archive_Lookup.thy ===== *)
theory Archive_Lookup
  imports Archive_Api "HOL-Library.Sublist"
begin

text \<open>
  What the operations of \<open>Archive_Api\<close> promise for an archive with a sorted directory: entries by path, ranges of
  paths with a prefix, iteration, and redirections.
\<close>

section \<open>Ranges of strings\<close>

lemma less_succ_iff: "a \<noteq> - 1 \<Longrightarrow> b < a + 1 \<longleftrightarrow> b \<le> (a :: byte)"
proof -
  assume "a \<noteq> - 1"
  then have "unat (a + 1) = unat a + 1" by (metis add.commute add_eq_0_iff2 unatSuc Suc_eq_plus1)
  then show ?thesis by (auto simp: word_le_nat_alt word_less_nat_alt)
qed

lemma prefix_interval:
  fixes p x :: bytes
  shows "p \<noteq> [] \<Longrightarrow> last p \<noteq> - 1 \<Longrightarrow> prefix p x \<longleftrightarrow> p \<le> x \<and> x < butlast p @ [last p + 1]"
proof (induction p arbitrary: x)
  case (Cons a p)
  show ?case
  proof (cases "p = []")
    case True
    then show ?thesis using Cons.prems by (cases x) (auto simp: less_succ_iff)
  next
    case False
    show ?thesis
    proof (cases x)
      case (Cons b y)
      have "prefix p y \<longleftrightarrow> p \<le> y \<and> y < butlast p @ [last p + 1]" using Cons.IH [of y] Cons.prems False by simp
      then show ?thesis using Cons False by (cases "a = b") (simp_all, metis less_asym)
    qed simp
  qed
qed simp

section \<open>What a look-up by key promises\<close>

definition below :: "Dirent list \<Rightarrow> bytes \<Rightarrow> nat" where
  "below ds k = length (filter (\<lambda>d. dirent_key d < k) ds)"

lemma below_mono: "k \<le> k' \<Longrightarrow> below ds k \<le> below ds k'"
  unfolding below_def by (induction ds) (auto intro: order_less_le_trans)

lemma below_unique:
  assumes "\<forall>j<i. dirent_key (ds ! j) < k" "\<forall>j. i \<le> j \<longrightarrow> j < length ds \<longrightarrow> \<not> dirent_key (ds ! j) < k" "i \<le> length ds"
  shows "below ds k = i"
proof -
  have "filter (\<lambda>d. dirent_key d < k) ds = filter (\<lambda>d. dirent_key d < k) (take i ds) @ filter (\<lambda>d. dirent_key d < k) (drop i ds)"
    by (simp flip: filter_append)
  moreover have "filter (\<lambda>d. dirent_key d < k) (take i ds) = take i ds"
    using assms(1,3) by (intro filter_True) (auto simp: in_set_conv_nth)
  moreover have "filter (\<lambda>d. dirent_key d < k) (drop i ds) = []"
    using assms(2) by (intro filter_False) (auto simp: in_set_conv_nth)
  ultimately show ?thesis using assms(3) by (simp add: below_def)
qed

locale ordered_lookup =
  fixes look :: "'f \<Rightarrow> byte \<Rightarrow> bytes \<Rightarrow> (bool \<times> u32) res"
    and holds :: "'f \<Rightarrow> Dirent list \<Rightarrow> bool"
  assumes ordered: "holds f ds \<Longrightarrow> sorted_wrt (\<lambda>d e. dirent_key d < dirent_key e) ds"
    and look_spec: "holds f ds \<Longrightarrow> ns < 128 \<Longrightarrow> \<exists>b i. look f ns url = Inr (b, i) \<and> unat i \<le> length ds \<and>
      (if b then unat i < length ds \<and> dirent_key (ds ! unat i) = ns # url
       else (\<forall>j<unat i. dirent_key (ds ! j) < ns # url) \<and>
            (\<forall>j. unat i \<le> j \<longrightarrow> j < length ds \<longrightarrow> ns # url < dirent_key (ds ! j)))"
begin

lemma key_less_iff: "holds f ds \<Longrightarrow> i < length ds \<Longrightarrow> j < length ds \<Longrightarrow> dirent_key (ds ! i) < dirent_key (ds ! j) \<longleftrightarrow> i < j"
  using ordered sorted_wrt_nth_less [of "\<lambda>d e. dirent_key d < dirent_key e" ds] by (metis linorder_neqE_nat less_asym less_irrefl)

lemma below_index: "holds f ds \<Longrightarrow> i < length ds \<Longrightarrow> below ds (dirent_key (ds ! i)) = i"
  using key_less_iff by (intro below_unique) (auto simp: not_less)

text \<open>Both outcomes in one: the position is the number of smaller keys, the flag says whether the key is there.\<close>

lemma look_lower_bound:
  assumes h: "holds f ds" and ns: "ns < 128"
  shows "\<exists>i. look f ns url = Inr (ns # url \<in> dirent_key ` set ds, i) \<and> unat i = below ds (ns # url)"
proof -
  obtain b i where bi: "look f ns url = Inr (b, i)" "unat i \<le> length ds"
      "if b then unat i < length ds \<and> dirent_key (ds ! unat i) = ns # url
       else (\<forall>j<unat i. dirent_key (ds ! j) < ns # url) \<and>
            (\<forall>j. unat i \<le> j \<longrightarrow> j < length ds \<longrightarrow> ns # url < dirent_key (ds ! j))"
    using look_spec [OF h ns] by blast
  have "below ds (ns # url) = unat i"
  proof (cases b)
    case True
    then have "dirent_key (ds ! unat i) = ns # url" "unat i < length ds" using bi(3) by simp_all
    then show ?thesis using below_index [OF h] by metis
  next
    case False
    then show ?thesis using bi(2,3) by (intro below_unique) (auto dest: less_asym)
  qed
  moreover have "b \<longleftrightarrow> ns # url \<in> dirent_key ` set ds"
  proof (cases b)
    case True
    then show ?thesis using bi(3) by (auto intro!: rev_image_eqI [of "ds ! unat i"])
  next
    case False
    have "dirent_key (ds ! j) \<noteq> ns # url" if "j < length ds" for j using False bi(3) that by (metis less_irrefl not_le)
    then show ?thesis using False by (metis imageE in_set_conv_nth)
  qed
  ultimately show ?thesis using bi(1) by (intro exI [of _ i]) simp
qed

lemma below_le: "holds f ds \<Longrightarrow> i < length ds \<Longrightarrow> below ds k \<le> i \<longleftrightarrow> k \<le> dirent_key (ds ! i)"
proof -
  assume h: "holds f ds" and i: "i < length ds"
  have srt: "dirent_key (ds ! a) \<le> dirent_key (ds ! b)" if "a \<le> b" "b < length ds" for a b
    using key_less_iff [OF h, of a b] that by (cases "a = b") (auto simp: less_imp_le)
  define n where "n = length (takeWhile (\<lambda>d. dirent_key d < k) ds)"
  have lt: "dirent_key (ds ! j) < k" if "j < n" for j using that nth_length_takeWhile set_takeWhileD
    by (metis n_def nth_mem takeWhile_nth)
  have ge: "\<not> dirent_key (ds ! j) < k" if "n \<le> j" "j < length ds" for j
    using that nth_length_takeWhile [of "\<lambda>d. dirent_key d < k" ds] srt [of n j] n_def by (auto dest: order_le_less_trans)
  have "below ds k = n" using lt ge by (intro below_unique) (auto simp: n_def length_takeWhile_le)
  then show ?thesis using lt [of i] ge [of i] i by (cases "n \<le> i") auto
qed

text \<open>The interval between a prefix and its successor.\<close>

lemma prefix_range:
  assumes "holds f ds" "p \<noteq> []" "last p \<noteq> - 1"
  shows "filter (\<lambda>i. prefix p (dirent_key (ds ! i))) [0..<length ds] = [below ds p..<below ds (butlast p @ [last p + 1])]"
proof -
  let ?q = "butlast p @ [last p + 1]"
  have len: "below ds ?q \<le> length ds" by (simp add: below_def)
  have "filter (\<lambda>i. prefix p (dirent_key (ds ! i))) [0..<length ds] = filter (\<lambda>i. below ds p \<le> i \<and> i < below ds ?q) [0..<length ds]"
    using below_le [OF assms(1)] by (intro filter_cong) (auto simp: prefix_interval [OF assms(2,3)] not_le [symmetric])
  also have "\<dots> = [below ds p..<below ds ?q]"
  proof (rule sorted_distinct_set_unique)
    show "set (filter (\<lambda>i. below ds p \<le> i \<and> i < below ds ?q) [0..<length ds]) = set [below ds p..<below ds ?q]"
      using len by auto
  qed (simp_all add: sorted_wrt_filter)
  finally show ?thesis .
qed

end

section \<open>An open archive\<close>

definition archive_open :: "(nat \<Rightarrow> byte) \<Rightarrow> FileImpl \<Rightarrow> Dirent list \<Rightarrow> bool" where
  "archive_open junk fi ds \<longleftrightarrow>
     entries_stored (mp_urlDirentAccessor fi) ds \<and> sorted_entries ds \<and> distinct (map dirent_key ds) \<and> 2 * length ds \<le> 2 ^ 32 \<and>
     articleCount (header fi) = m_direntCount (mp_urlDirentAccessor fi) \<and>
     (if m_newNamespaceScheme fi
      then unat (m_startUserEntry fi) = length (filter (\<lambda>d. d_ns d < 67) ds) \<and>
           unat (m_endUserEntry fi) = length (filter (\<lambda>d. d_ns d \<le> 67) ds)
      else m_startUserEntry fi = 0 \<and> m_endUserEntry fi = articleCount (header fi)) \<and>
     (\<exists>n dl. 0 < n \<and> lookupGrid dl = lookupGrid (m_direntLookup fi) \<and>
        new_DirentLookup (loadDirent junk (mp_urlDirentAccessor fi)) (m_direntCount (mp_urlDirentAccessor fi)) n = Inr dl)"

lemma archive_open_strict: "archive_open junk fi ds \<Longrightarrow> sorted_wrt (\<lambda>d e. dirent_key d < dirent_key e) ds"
proof -
  assume "archive_open junk fi ds"
  then have "sorted_wrt (<) (map dirent_key ds)" by (simp add: archive_open_def sorted_entries_def strict_sorted_iff)
  then show ?thesis by (simp add: sorted_wrt_map)
qed

interpretation al: ordered_lookup "findx junk" "archive_open junk" for junk
proof (unfold_locales, goal_cases)
  case (1 fi ds)
  then show ?case by (rule archive_open_strict)
next
  case (2 fi ds ns url)
  then obtain n dl where "0 < n" "lookupGrid dl = lookupGrid (m_direntLookup fi)" "entries_stored (mp_urlDirentAccessor fi) ds"
      "sorted_entries ds" "2 * length ds \<le> 2 ^ 32"
      "new_DirentLookup (loadDirent junk (mp_urlDirentAccessor fi)) (m_direntCount (mp_urlDirentAccessor fi)) n = Inr dl"
    unfolding archive_open_def by blast
  moreover from this have "findx junk fi ns url = dl_find (loadDirent junk (mp_urlDirentAccessor fi)) dl ns url"
    by (simp add: findx_def dl_find_def fi_getDirent_def [abs_def])
  ultimately show ?case using acc.find_correct [of "mp_urlDirentAccessor fi" ds ns n junk dl url] 2(2) by simp
qed

lemma open_count: "archive_open junk fi ds \<Longrightarrow> unat (articleCount (header fi)) = length ds"
  using acc.count_holds by (simp add: archive_open_def)

lemma open_length: "archive_open junk fi ds \<Longrightarrow> length ds < 2 ^ 32"
  using open_count [of junk fi ds] unat_bound [of "articleCount (header fi)"] by simp

definition nth_entry :: "Dirent list \<Rightarrow> nat \<Rightarrow> Entry" where
  "nth_entry ds i = \<lparr>e_idx = of_nat i, e_dirent = ds ! i\<rparr>"

lemma open_getDirent: "archive_open junk fi ds \<Longrightarrow> unat i < length ds \<Longrightarrow> fi_getDirent junk fi i = Inr (ds ! unat i)"
  by (simp add: fi_getDirent_def archive_open_def acc.get_holds)

lemma open_new_Entry: "archive_open junk fi ds \<Longrightarrow> unat i < length ds \<Longrightarrow> new_Entry junk fi i = Inr (nth_entry ds (unat i))"
  by (simp add: new_Entry_def open_getDirent nth_entry_def)

lemma open_new_Item:
  "archive_open junk fi ds \<Longrightarrow> unat i < length ds \<Longrightarrow> new_Item junk fi i = Inr \<lparr>i_idx = i, i_dirent = ds ! unat i\<rparr>"
  by (simp add: new_Item_def open_getDirent)

text \<open>The entry with a key, if there is one.\<close>

definition entry_with :: "Dirent list \<Rightarrow> bytes \<Rightarrow> Entry option" where
  "entry_with ds k = map_option (nth_entry ds) (List.find (\<lambda>i. dirent_key (ds ! i) = k) [0..<length ds])"

lemma entry_with_None: "entry_with ds k = None \<longleftrightarrow> k \<notin> dirent_key ` set ds"
proof -
  have "entry_with ds k = None \<longleftrightarrow> \<not> (\<exists>i<length ds. dirent_key (ds ! i) = k)" by (auto simp: entry_with_def find_None_iff)
  then show ?thesis by (metis image_iff in_set_conv_nth)
qed

lemma findx_entry:
  assumes h: "archive_open junk fi ds" and ns: "ns < 128"
  shows "\<exists>i. findx junk fi ns url = Inr (entry_with ds (ns # url) \<noteq> None, i) \<and>
    (\<forall>e. entry_with ds (ns # url) = Some e \<longrightarrow> new_Entry junk fi i = Inr e)"
proof -
  obtain i where i: "findx junk fi ns url = Inr (ns # url \<in> dirent_key ` set ds, i)" "unat i = below ds (ns # url)"
    using al.look_lower_bound [OF h ns] by blast
  have "new_Entry junk fi i = Inr e" if e: "entry_with ds (ns # url) = Some e" for e
  proof -
    obtain j where j: "j < length ds" "dirent_key (ds ! j) = ns # url" "e = nth_entry ds j"
      using e by (auto simp: entry_with_def find_Some_iff)
    then have "unat i = j" using i(2) al.below_index [OF h j(1)] by simp
    then show ?thesis using open_new_Entry [OF h, of i] j by simp
  qed
  then show ?thesis using i(1) by (auto simp: entry_with_None)
qed

section \<open>Entries by path\<close>

text \<open>The keys that \<^verbatim>\<open>getEntryByPath\<close> tries, in this order.\<close>

definition path_candidates :: "bool \<Rightarrow> bytes \<Rightarrow> bytes list" where
  "path_candidates newScheme path =
     (if newScheme then (67 # path) # (case parseLongPath path of Inr (_, p) \<Rightarrow> [67 # p] | Inl _ \<Rightarrow> [])
      else (case parseLongPath path of Inr (ns, p) \<Rightarrow> [ns # p] | Inl _ \<Rightarrow> []) @ map (\<lambda>ns. ns # path) (str ''AIJ-''))"

fun first_entry :: "Dirent list \<Rightarrow> bytes list \<Rightarrow> Entry option" where
  "first_entry ds [] = None"
| "first_entry ds (k # ks) = (case entry_with ds k of Some e \<Rightarrow> Some e | None \<Rightarrow> first_entry ds ks)"

definition found_as :: "(nat \<Rightarrow> byte) \<Rightarrow> FileImpl \<Rightarrow> u32 option \<Rightarrow> Entry option \<Rightarrow> bool" where
  "found_as junk fi r e \<longleftrightarrow> (case e of None \<Rightarrow> r = None | Some e \<Rightarrow> \<exists>i. r = Some i \<and> new_Entry junk fi i = Inr e)"

lemma first_found_entry:
  assumes h: "archive_open junk fi ds" and ns: "\<forall>p\<in>set ps. fst p < 128"
  shows "\<exists>r. first_found (\<lambda>p. findx junk fi (fst p) (snd p)) ps = Inr r \<and>
    found_as junk fi r (first_entry ds (map (\<lambda>p. fst p # snd p) ps))"
  using ns
proof (induction ps)
  case Nil
  then show ?case by (simp add: found_as_def)
next
  case (Cons p ps)
  obtain i where i: "findx junk fi (fst p) (snd p) = Inr (entry_with ds (fst p # snd p) \<noteq> None, i)"
      "\<forall>e. entry_with ds (fst p # snd p) = Some e \<longrightarrow> new_Entry junk fi i = Inr e"
    using findx_entry [OF h, of "fst p" "snd p"] Cons.prems by auto
  show ?case
  proof (cases "entry_with ds (fst p # snd p)")
    case None
    then show ?thesis using i Cons.IH Cons.prems by simp
  next
    case (Some e)
    then show ?thesis using i by (simp add: found_as_def)
  qed
qed

lemma first_found_map: "first_found f (map g xs) = first_found (f \<circ> g) xs"
  by (induction xs) (auto intro!: rbind_cong)

lemma parseLongPath_error: "parseLongPath path = Inl e \<Longrightarrow> e = RuntimeError ''Cannot parse path''"
  by (auto simp: parseLongPath_def Let_def split: if_splits)

text \<open>C7: Entries by path. The archive answers with the entry of the first key that exists among the candidates: with
  the new namespace scheme the path in the namespace of the contents, then the path without its leading namespace;
  with the old scheme the full path, then the path in each of the namespaces of old archives. If none exists, the
  answer is \<^verbatim>\<open>EntryNotFound\<close>, and never another entry.\<close>

theorem getEntryByPath_correct:
  assumes "archive_open junk fi ds" "\<forall>ns p. parseLongPath path = Inr (ns, p) \<longrightarrow> ns < 128"
  shows "getEntryByPath junk fi path =
    (case first_entry ds (path_candidates (m_newNamespaceScheme fi) path) of
       Some e \<Rightarrow> Inr e
     | None \<Rightarrow> Inl (EntryNotFound ''Cannot find entry''))"
proof (cases "m_newNamespaceScheme fi")
  case True
  obtain i where i: "findx junk fi 67 path = Inr (entry_with ds (67 # path) \<noteq> None, i)"
      "\<forall>e. entry_with ds (67 # path) = Some e \<longrightarrow> new_Entry junk fi i = Inr e"
    using findx_entry [OF assms(1), of 67 path] by auto
  show ?thesis
  proof (cases "parseLongPath path")
    case (Inl err)
    then show ?thesis using i True parseLongPath_error [OF Inl]
      by (cases "entry_with ds (67 # path)") (auto simp: getEntryByPath_def path_candidates_def stored_path_def)
  next
    case (Inr np)
    obtain ns p where np: "np = (ns, p)" by (cases np)
    obtain j where "findx junk fi 67 p = Inr (entry_with ds (67 # p) \<noteq> None, j)"
        "\<forall>e. entry_with ds (67 # p) = Some e \<longrightarrow> new_Entry junk fi j = Inr e"
      using findx_entry [OF assms(1), of 67 p] by auto
    then show ?thesis using i True Inr np
      by (cases "entry_with ds (67 # path)"; cases "entry_with ds (67 # p)") (auto simp: getEntryByPath_def path_candidates_def stored_path_def)
  qed
next
  case False
  have ascii: "\<forall>p\<in>set (map (\<lambda>ns. (ns, path)) (str ''AIJ-'')). fst p < 128" by (simp add: str_def)
  obtain r where r: "first_found (\<lambda>ns. findx junk fi ns path) (str ''AIJ-'') = Inr r"
      "found_as junk fi r (first_entry ds (map (\<lambda>ns. ns # path) (str ''AIJ-'')))"
    using first_found_entry [OF assms(1) ascii] by (auto simp: first_found_map comp_def)
  show ?thesis
  proof (cases "parseLongPath path")
    case (Inl err)
    then show ?thesis using r False parseLongPath_error [OF Inl]
      by (auto simp: getEntryByPath_def path_candidates_def findx_long_def entry_or_not_found_def found_as_def split: option.splits)
  next
    case (Inr np)
    obtain ns p where np: "np = (ns, p)" by (cases np)
    obtain j where "findx junk fi ns p = Inr (entry_with ds (ns # p) \<noteq> None, j)"
        "\<forall>e. entry_with ds (ns # p) = Some e \<longrightarrow> new_Entry junk fi j = Inr e"
      using findx_entry [OF assms(1), of ns p] assms(2) Inr np by auto
    then show ?thesis using r False Inr np
      by (cases "entry_with ds (ns # p)") (auto simp: getEntryByPath_def path_candidates_def findx_long_def entry_or_not_found_def found_as_def split: option.splits)
  qed
qed

section \<open>Iteration\<close>

declare visit.simps [simp del]

lemma unat_of_nat_less: "k < unat (e :: u32) \<Longrightarrow> unat (of_nat k :: u32) = k"
  using unat_bound [of e] by (intro unat_of_nat_small) (simp del: unat_u32_bound)

lemma unat_suc_less: "unat (b :: u32) < unat (e :: u32) \<Longrightarrow> unat (b + 1) = Suc (unat b)"
  using unat_plus_of_nat [of b 1] unat_bound [of e] by (simp del: unat_u32_bound)

lemma visit_entries:
  assumes h: "archive_open junk fi ds" and "\<And>k. unat b \<le> k \<Longrightarrow> k < unat e \<Longrightarrow> toPathOrder junk fi order (of_nat k) = Inr (p k)"
    and "\<And>k. unat b \<le> k \<Longrightarrow> k < unat e \<Longrightarrow> unat (p k) < length ds" and le: "unat b \<le> unat e"
  shows "visit junk fi order (new_iterator b) (new_iterator e) es =
    Some (Inr (es @ map (\<lambda>k. nth_entry ds (unat (p k))) [unat b..<unat e]))"
  using assms(2-)
proof (induction "unat e - unat b" arbitrary: b es)
  case 0
  then have "b = e" by (simp add: word_unat_eq_iff)
  then show ?case by (subst visit.simps) (simp add: it_eq_def)
next
  case (Suc n)
  then have lt: "unat b < unat e" by linarith
  have b1: "unat (b + 1) = Suc (unat b)" using lt by (rule unat_suc_less)
  have p: "toPathOrder junk fi order b = Inr (p (unat b))" "unat (p (unat b)) < length ds" using Suc.prems(1,2) [of "unat b"] lt by auto
  have "visit junk fi order (new_iterator (b + 1)) (new_iterator e) (es @ [nth_entry ds (unat (p (unat b)))]) =
      Some (Inr ((es @ [nth_entry ds (unat (p (unat b)))]) @ map (\<lambda>k. nth_entry ds (unat (p k))) [unat (b + 1)..<unat e]))"
    using Suc.hyps(2) b1 Suc.prems by (intro Suc.hyps(1)) auto
  moreover have "it_deref junk fi order (new_iterator b) = Inr (nth_entry ds (unat (p (unat b))),
      (new_iterator b)\<lparr>it_entry := Some (nth_entry ds (unat (p (unat b))))\<rparr>)"
    using p open_new_Entry [OF h p(2)] by (simp add: it_deref_def new_iterator_def)
  moreover have "b \<noteq> e" using lt by auto
  ultimately show ?case using lt b1
    by (subst visit.simps) (simp add: it_eq_def new_iterator_def it_preinc_def upt_conv_Cons)
qed

lemma visit_by_path:
  assumes h: "archive_open junk fi ds" and "unat b \<le> unat e" "unat e \<le> length ds"
  shows "visit_range junk fi pathOrder \<lparr>m_begin = b, m_end = e\<rparr> = Inr (map (nth_entry ds) [unat b..<unat e])"
proof -
  have "unat (of_nat k :: u32) = k" if "k < unat e" for k
    using that by (rule unat_of_nat_less)
  then have "visit junk fi pathOrder (new_iterator b) (new_iterator e) [] =
      Some (Inr (map (\<lambda>k. nth_entry ds (unat (of_nat k :: u32))) [unat b..<unat e]))"
    using visit_entries [OF h, of b e pathOrder of_nat "[]"] assms(2,3) by simp
  moreover have "map (\<lambda>k. nth_entry ds (unat (of_nat k :: u32))) [unat b..<unat e] = map (nth_entry ds) [unat b..<unat e]"
    using \<open>\<And>k. k < unat e \<Longrightarrow> unat (of_nat k :: u32) = k\<close> by (intro map_cong) auto
  ultimately show ?thesis by (simp add: visit_range_def)
qed


lemma namespace_interval:
  assumes srt: "sorted_entries ds" and c: "c < 127"
  shows "filter (\<lambda>i. d_ns (ds ! i) = c) [0..<length ds] =
    [length (filter (\<lambda>d. d_ns d < c) ds)..<length (filter (\<lambda>d. d_ns d \<le> c) ds)]"
proof -
  have count: "i < length (filter (\<lambda>d. d_ns d < ch) ds) \<longleftrightarrow> d_ns (ds ! i) < ch" if i: "i < length ds" for i ch
  proof -
    define n where "n = length (takeWhile (\<lambda>d. d_ns d < ch) ds)"
    have lt: "\<forall>j<n. d_ns (ds ! j) < ch" by (metis n_def nth_mem set_takeWhileD takeWhile_nth)
    have ge: "\<forall>j. n \<le> j \<longrightarrow> j < length ds \<longrightarrow> \<not> d_ns (ds ! j) < ch"
      using nth_length_takeWhile [of "\<lambda>d. d_ns d < ch" ds] sorted_entries_ns [OF srt, of n] unfolding n_def
      by (meson order_le_less_trans)
    have "length (filter (\<lambda>d. d_ns d < ch) ds) = n"
      using lt ge by (intro count_less_ns) (auto simp: n_def length_takeWhile_le)
    then show ?thesis using lt ge i by (meson not_le)
  qed
  have "c \<noteq> - 1" using c by auto
  then have le: "d_ns d \<le> c \<longleftrightarrow> d_ns d < c + 1" for d by (simp add: less_succ_iff)
  have mem: "d_ns (ds ! i) = c \<longleftrightarrow> length (filter (\<lambda>d. d_ns d < c) ds) \<le> i \<and> i < length (filter (\<lambda>d. d_ns d \<le> c) ds)"
    if i: "i < length ds" for i
  proof -
    have "length (filter (\<lambda>d. d_ns d < c) ds) \<le> i \<longleftrightarrow> \<not> d_ns (ds ! i) < c" using count [OF i, of c] by linarith
    moreover have "i < length (filter (\<lambda>d. d_ns d \<le> c) ds) \<longleftrightarrow> d_ns (ds ! i) \<le> c" unfolding le by (rule count [OF i])
    ultimately show ?thesis by auto
  qed
  have "filter (\<lambda>i. d_ns (ds ! i) = c) [0..<length ds] =
      filter (\<lambda>i. length (filter (\<lambda>d. d_ns d < c) ds) \<le> i \<and> i < length (filter (\<lambda>d. d_ns d \<le> c) ds)) [0..<length ds]"
    by (intro filter_cong) (simp_all add: mem)
  also have "\<dots> = [length (filter (\<lambda>d. d_ns d < c) ds)..<length (filter (\<lambda>d. d_ns d \<le> c) ds)]"
  proof (rule sorted_distinct_set_unique)
    show "set (filter (\<lambda>i. length (filter (\<lambda>d. d_ns d < c) ds) \<le> i \<and> i < length (filter (\<lambda>d. d_ns d \<le> c) ds)) [0..<length ds]) =
        set [length (filter (\<lambda>d. d_ns d < c) ds)..<length (filter (\<lambda>d. d_ns d \<le> c) ds)]"
      using order_less_le_trans [OF _ length_filter_le [of "\<lambda>d. d_ns d \<le> c" ds]] by auto
  qed (simp_all add: sorted_wrt_filter)
  finally show ?thesis .
qed

lemma user_range:
  assumes "archive_open junk fi ds"
  shows "unat (m_startUserEntry fi) \<le> unat (m_endUserEntry fi)" "unat (m_endUserEntry fi) \<le> length ds"
    "[unat (m_startUserEntry fi)..<unat (m_endUserEntry fi)] = filter (\<lambda>i. m_newNamespaceScheme fi \<longrightarrow> d_ns (ds ! i) = 67) [0..<length ds]"
proof (atomize (full), cases "m_newNamespaceScheme fi")
  case True
  then have se: "unat (m_startUserEntry fi) = length (filter (\<lambda>d. d_ns d < 67) ds)" "sorted_entries ds"
      "unat (m_endUserEntry fi) = length (filter (\<lambda>d. d_ns d \<le> 67) ds)"
    using assms by (simp_all add: archive_open_def)
  have "length (filter (\<lambda>d. d_ns d < 67) ds) \<le> length (filter (\<lambda>d. d_ns d \<le> 67) ds)"
    by (induction ds) (auto simp: less_imp_le)
  then show "unat (m_startUserEntry fi) \<le> unat (m_endUserEntry fi) \<and> unat (m_endUserEntry fi) \<le> length ds \<and>
      [unat (m_startUserEntry fi)..<unat (m_endUserEntry fi)] = filter (\<lambda>i. m_newNamespaceScheme fi \<longrightarrow> d_ns (ds ! i) = 67) [0..<length ds]"
    using namespace_interval [OF se(2), of 67] True by (simp add: se)
next
  case False
  then have "m_startUserEntry fi = 0" "m_endUserEntry fi = articleCount (header fi)" using assms by (simp_all add: archive_open_def)
  then show "unat (m_startUserEntry fi) \<le> unat (m_endUserEntry fi) \<and> unat (m_endUserEntry fi) \<le> length ds \<and>
      [unat (m_startUserEntry fi)..<unat (m_endUserEntry fi)] = filter (\<lambda>i. m_newNamespaceScheme fi \<longrightarrow> d_ns (ds ! i) = 67) [0..<length ds]"
    using open_count [OF assms] False by simp
qed

text \<open>Iteration in the order of the paths visits exactly the entries of the contents, each once and in the order of
  the directory: those in the namespace \<^verbatim>\<open>C\<close> with the new namespace scheme, all entries with the old one.\<close>

theorem iterByPath_visits_contents:
  assumes "archive_open junk fi ds"
  shows "visit_range junk fi pathOrder (iterByPath fi) =
    Inr (map (nth_entry ds) (filter (\<lambda>i. m_newNamespaceScheme fi \<longrightarrow> d_ns (ds ! i) = 67) [0..<length ds]))"
  using visit_by_path [OF assms user_range(1,2) [OF assms]] by (simp add: iterByPath_def user_range(3) [OF assms])

section \<open>Redirections\<close>

text \<open>One step along a redirection; an item stays where it is.\<close>

definition hop :: "Dirent list \<Rightarrow> nat \<Rightarrow> nat" where
  "hop ds i = (if isRedirect (ds ! i) then unat (getRedirectIndex (ds ! i)) else i)"

definition redirects_inside :: "Dirent list \<Rightarrow> bool" where
  "redirects_inside ds \<longleftrightarrow> (\<forall>d\<in>set ds. isRedirect d \<longrightarrow> unat (getRedirectIndex d) < length ds)"

lemma hop_inside: "redirects_inside ds \<Longrightarrow> i < length ds \<Longrightarrow> (hop ds ^^ n) i < length ds"
  by (induction n) (auto simp: hop_def redirects_inside_def)

lemma hop_item: "\<not> isRedirect (ds ! i) \<Longrightarrow> (hop ds ^^ n) i = i"
  by (induction n) (auto simp: hop_def)

lemma nth_entry_sel [simp]: "e_dirent (nth_entry ds i) = ds ! i" "e_idx (nth_entry ds i) = of_nat i" "e_isRedirect (nth_entry ds i) = isRedirect (ds ! i)"
  by (simp_all add: nth_entry_def e_isRedirect_def)

lemma getRedirectEntry_hop:
  assumes "archive_open junk fi ds" "redirects_inside ds" "i < length ds" "isRedirect (ds ! i)"
  shows "getRedirectEntry junk fi (nth_entry ds i) = Inr (nth_entry ds (hop ds i))"
proof -
  have "unat (getRedirectIndex (ds ! i)) < length ds" using assms(2-4) by (auto simp: redirects_inside_def)
  then show ?thesis using open_new_Entry [OF assms(1)] assms(4) by (simp add: getRedirectEntry_def hop_def)
qed

lemma redirect_loop_hops:
  assumes "archive_open junk fi ds" "redirects_inside ds" "i < length ds" "unat w = Suc n"
  shows "redirect_loop junk fi w (nth_entry ds i) = Inr (nth_entry ds ((hop ds ^^ n) i))"
  using assms(3,4)
proof (induction n arbitrary: w i)
  case 0
  then have "w = 1" by (metis One_nat_def unat_1 word_unat_eq_iff)
  then show ?case by (subst redirect_loop.simps) simp
next
  case (Suc n)
  have w: "unat (w - 1) = Suc n" using Suc.prems(2) unat_minus_of_nat [of 1 w] by simp
  then have w1: "w - 1 \<noteq> 0" by (metis nat.distinct(1) unat_0)
  show ?case
  proof (cases "isRedirect (ds ! i)")
    case True
    have "hop ds i < length ds" using hop_inside [OF assms(2) Suc.prems(1), of 1] by simp
    then show ?thesis using Suc.IH [of "hop ds i" "w - 1"] w w1 True getRedirectEntry_hop [OF assms(1,2) Suc.prems(1) True]
      by (subst redirect_loop.simps) (simp add: funpow_Suc_right del: funpow.simps)
  next
    case False
    then show ?thesis using hop_item [OF False, of "Suc n"] by (subst redirect_loop.simps) (simp del: funpow.simps)
  qed
qed


section \<open>Iteration in other orders\<close>

text \<open>C32: Efficient iteration visits the same entries, each once, in an order in which the numbers of their clusters never
  decrease, so that every cluster is opened in one run.\<close>

theorem iterEfficient_visits_contents:
  assumes "archive_open junk fi ds" "zimReader fi = mp_zimReader (mp_urlDirentAccessor fi)"
  shows "\<exists>order. mset order = mset (filter (\<lambda>i. m_newNamespaceScheme fi \<longrightarrow> d_ns (ds ! i) = 67) [0..<length ds]) \<and>
    sorted (map (\<lambda>i. entry_cluster (ds ! i)) order) \<and>
    visit_range junk fi efficientOrder (iterEfficient fi) = Inr (map (nth_entry ds) order)"
proof -
  let ?s = "unat (m_startUserEntry fi)" and ?e = "unat (m_endUserEntry fi)"
  have user: "?s \<le> ?e" "?e \<le> length ds" "[?s..<?e] = filter (\<lambda>i. m_newNamespaceScheme fi \<longrightarrow> d_ns (ds ! i) = 67) [0..<length ds]"
    using user_range [OF assms(1)] by simp_all
  have st: "entries_stored (mp_urlDirentAccessor fi) ds" using assms(1) by (simp add: archive_open_def)
  obtain order where o: "mset order = mset (map of_nat [?s..<?e] :: u32 list)" "sorted (map (\<lambda>i. entry_cluster (ds ! unat i)) order)"
      "\<forall>idx. getIndexByClusterOrder junk fi idx =
         (if unat idx < length order then Inr (order ! unat idx) else Inl (OutOfRange ''entry index out of range''))"
    using cluster_order_is_sorted [OF st assms(2) user(1,2), of junk] by blast
  have mem: "set order = set (map of_nat [?s..<?e])" using o(1) by (metis set_mset_mset)
  have len: "length order = ?e - ?s" using o(1) by (metis length_map length_upt size_mset)
  have cnt: "unat (getEntryCount fi) = length order" using user(1) len by (simp add: getEntryCount_def unat_diff)
  have small: "unat (of_nat k :: u32) = k" if "k < ?e" for k using that by (rule unat_of_nat_less)
  have inside: "unat i < length ds" if i: "i \<in> set order" for i
  proof -
    obtain k where "i = of_nat k" "k < ?e" using i unfolding mem by auto
    then show ?thesis using small user(2) by simp
  qed
  have "visit junk fi efficientOrder (new_iterator 0) (new_iterator (getEntryCount fi)) [] =
      Some (Inr ([] @ map (\<lambda>k. nth_entry ds (unat (order ! k))) [unat (0 :: u32)..<unat (getEntryCount fi)]))"
    using o(3) cnt inside unat_of_nat_less [of _ "getEntryCount fi"] by (intro visit_entries [OF assms(1)]) auto
  also have "map (\<lambda>k. nth_entry ds (unat (order ! k))) [unat (0 :: u32)..<unat (getEntryCount fi)] = map (nth_entry ds) (map unat order)"
    by (rule nth_equalityI) (simp_all add: cnt)
  finally have "visit_range junk fi efficientOrder (iterEfficient fi) = Inr (map (nth_entry ds) (map unat order))"
    by (simp add: visit_range_def iterEfficient_def)
  moreover have "mset (map unat order) = mset [?s..<?e]"
  proof -
    have "mset (map unat order) = mset (map unat (map of_nat [?s..<?e] :: u32 list))" by (simp only: mset_map o(1))
    also have "map unat (map of_nat [?s..<?e] :: u32 list) = [?s..<?e]" using small by (auto intro!: map_idI)
    finally show ?thesis .
  qed
  moreover have "sorted (map (\<lambda>i. entry_cluster (ds ! i)) (map unat order))" using o(2) by (simp add: comp_def)
  ultimately show ?thesis unfolding user(3) [symmetric] by blast
qed

lemma visit_fails:
  assumes h: "archive_open junk fi ds" and "\<And>k. unat b \<le> k \<Longrightarrow> k < m \<Longrightarrow> toPathOrder junk fi order (of_nat k) = Inr (p k)"
    and "\<And>k. unat b \<le> k \<Longrightarrow> k < m \<Longrightarrow> unat (p k) < length ds" and "toPathOrder junk fi order (of_nat m) = Inl err"
    and "unat b \<le> m" "m < unat e"
  shows "visit junk fi order (new_iterator b) (new_iterator e) es = Some (Inl err)"
  using assms(2-)
proof (induction "m - unat b" arbitrary: b es)
  case 0
  then have "b \<noteq> e" "toPathOrder junk fi order b = Inl err" by auto
  then show ?case by (subst visit.simps) (simp add: it_eq_def new_iterator_def it_deref_def)
next
  case (Suc n)
  then have lt: "unat b < m" by linarith
  then have b1: "unat (b + 1) = Suc (unat b)" using Suc.prems(5) unat_suc_less [of b e] by simp
  have p: "toPathOrder junk fi order b = Inr (p (unat b))" "unat (p (unat b)) < length ds" using Suc.prems(1,2) [of "unat b"] lt by auto
  have "visit junk fi order (new_iterator (b + 1)) (new_iterator e) (es @ [nth_entry ds (unat (p (unat b)))]) = Some (Inl err)"
    using Suc.hyps(2) b1 Suc.prems by (intro Suc.hyps(1)) auto
  moreover have "b \<noteq> e" using lt Suc.prems(5) by auto
  ultimately show ?case using p open_new_Entry [OF h p(2)]
    by (subst visit.simps) (simp add: it_eq_def new_iterator_def it_preinc_def it_deref_def)
qed

text \<open>C33: Iteration by title overruns the listing. The range it uses is that of the entries of the contents; when the
  listing of titles is shorter, as the listing of front articles is as soon as one entry of the contents is none,
  the iteration does not end at the end of the listing but with \<^verbatim>\<open>std::out_of_range\<close>.\<close>

theorem iterByTitle_overruns:
  assumes "archive_open junk fi ds" "reader_holds (mp_indexReader (mp_titleDirentAccessor fi)) (concat (map toLittleEndian32 listing))"
    and "unat (m_titleCount (mp_titleDirentAccessor fi)) = length listing" "\<forall>i\<in>set listing. unat i < length ds"
    and "unat (m_startUserEntry fi) \<le> length listing" "length listing < unat (m_endUserEntry fi)"
  shows "visit_range junk fi titleOrder (iterByTitle fi) = Inl (OutOfRange ''entry index out of range'')"
proof -
  have small: "unat (of_nat k :: u32) = k" if "k \<le> length listing" for k
    using that assms(6) by (intro unat_of_nat_less [of _ "m_endUserEntry fi"]) simp
  have "getDirectIndex junk (mp_titleDirentAccessor fi) (of_nat k) = Inr (listing ! k)" if "k < length listing" for k
    using read_index_list [OF assms(2), of "of_nat k" junk] small [of k] that assms(3) by (simp add: getDirectIndex_def word_le_nat_alt)
  moreover have "getDirectIndex junk (mp_titleDirentAccessor fi) (of_nat (length listing)) = Inl (OutOfRange ''entry index out of range'')"
    using small [of "length listing"] assms(3) by (simp add: getDirectIndex_def word_le_nat_alt)
  ultimately have "visit junk fi titleOrder (new_iterator (m_startUserEntry fi)) (new_iterator (m_endUserEntry fi)) [] =
      Some (Inl (OutOfRange ''entry index out of range''))"
    using assms(4-6) by (intro visit_fails [OF assms(1), of _ "length listing" _ "\<lambda>k. listing ! k"]) (auto simp: getIndexByTitle_def)
  then show ?thesis by (simp add: visit_range_def iterByTitle_def)
qed

text \<open>C34: A search by title can skip entries. Titles need not be unique, and the look-up of a title returns any of the
  entries that have it, so the range \<^verbatim>\<open>findByTitle\<close> returns may start behind other entries of exactly this title:
  with two entries of the same title the range begins at the second.\<close>

theorem findByTitle_skips_equal_title:
  assumes "m_newNamespaceScheme fi" "m_titleCount (mp_titleDirentAccessor fi) = 2" "title \<noteq> []" "last title \<noteq> - 1"
    and "\<And>i. unat i < 2 \<Longrightarrow> getDirentByTitle junk fi i = Inr (ts ! unat i)"
    and "\<forall>i<2. d_ns (ts ! i) = 67 \<and> getTitle (ts ! i) = title"
  shows "findByTitle junk fi title = Inr \<lparr>m_begin = 1, m_end = 2\<rparr>"
proof -
  let ?t = "butlast title @ [last title + 1]"
  have g: "getDirentByTitle junk fi 0 = Inr (ts ! 0)" "getDirentByTitle junk fi 1 = Inr (ts ! 1)"
    using assms(5) [of 0] assms(5) [of 1] by simp_all
  have less: "title < ?t" using prefix_interval [OF assms(3,4), of title] by simp
  have cmp: "direntCompareTitle 67 title (ts ! i) = 0" "0 < direntCompareTitle 67 ?t (ts ! i)" if "i < 2" for i
    using assms(6) that less by (auto simp: direntCompareTitle_def char_less_def string_compare_def)
  have half: "(2 :: u32) div 2 = 1" by (simp add: word_unat_eq_iff unat_div_distrib)
  have "findxByTitle junk fi 67 title = Inr (True, 1)"
    using g cmp(1) [of 1] by (simp add: findxByTitle_def assms(2), subst title_loop.simps) (simp add: half)
  moreover have "findxByTitle junk fi 67 ?t = Inr (False, 2)"
    using g cmp(2) [of 0] cmp(2) [of 1]
    by (simp add: findxByTitle_def assms(2), subst title_loop.simps, subst title_loop.simps) (simp add: half)
  ultimately show ?thesis using assms(1,3) by (simp add: findByTitle_def increment_back_def)
qed

section \<open>Contents\<close>

lemma item_cluster_holds:
  assumes "isArticle d" "getCluster s (zimReader fi) (header fi) (clusterOffsetReader fi) (d_clusterNumber d) = Inr c"
  shows "item_cluster s fi \<lparr>i_idx = idx, i_dirent = d\<rparr> = Inr c" "getBlobNumber d = d_blobNumber d"
  using assms by (simp_all add: item_cluster_def getClusterNumber_def getBlobNumber_def isArticle_def)

text \<open>The data of an item. If the cluster of an item holds the contents \<open>bls\<close>, then the size of the item and its data
  from any position on are those of the content with its number; behind the end there is nothing to read.\<close>

theorem item_data_is_content:
  assumes "isArticle d" "getCluster s (zimReader fi) (header fi) (clusterOffsetReader fi) (d_clusterNumber d) = Inr c"
    and "cluster_holds (s_run s) decodes c bls" "unat (d_blobNumber d) < length bls"
  shows "i_getSize s fi \<lparr>i_idx = idx, i_dirent = d\<rparr> = Inr (of_nat (length (bls ! unat (d_blobNumber d)))) \<and>
    (\<forall>off. unat off < length (bls ! unat (d_blobNumber d)) \<longrightarrow>
      (\<exists>b. i_getData s fi off \<lparr>i_idx = idx, i_dirent = d\<rparr> = Inr b \<and>
         blob_string b = drop (unat off) (bls ! unat (d_blobNumber d))))"
proof -
  let ?n = "d_blobNumber d" and ?i = "\<lparr>i_idx = idx, i_dirent = d\<rparr>"
  have c: "item_cluster s fi ?i = Inr c" "getBlobNumber d = ?n" using item_cluster_holds [OF assms(1,2)] by simp_all
  have size: "i_getSize s fi ?i = Inr (of_nat (length (bls ! unat ?n)))"
    using c getBlobSize_ok [OF assms(3,4)] by (simp add: i_getSize_def)
  have "length (bls ! unat ?n) \<le> max_transfer" using cluster_holds_count(4) [OF assms(3)] assms(4) by simp
  then have len: "unat (of_nat (length (bls ! unat ?n)) :: u64) = length (bls ! unat ?n)"
    by (intro unat_of_nat_small) (simp add: max_transfer_def)
  have "\<exists>b. i_getData s fi off ?i = Inr b \<and> blob_string b = drop (unat off) (bls ! unat ?n)"
    if off: "unat off < length (bls ! unat ?n)" for off
  proof -
    have sz: "unat (of_nat (length (bls ! unat ?n)) - off) = length (bls ! unat ?n) - unat off" using off len by (simp add: unat_diff)
    then have pos: "0 < (of_nat (length (bls ! unat ?n)) - off :: u64)" using off by (simp add: word_less_nat_alt)
    obtain b c' where "getBlob_part (s_run s) (s_junk s) ?n off (of_nat (length (bls ! unat ?n)) - off) c = Inr (b, c')"
        "blob_string b = slice_at (unat off) (unat (of_nat (length (bls ! unat ?n)) - off :: u64)) (bls ! unat ?n)"
      using getBlob_part_ok [OF assms(3,4) off pos, of "s_junk s"] by auto
    then show ?thesis using size c sz by (simp add: i_getData_def i_getData_part_def slice_at_def)
  qed
  then show ?thesis using size by blast
qed

section \<open>Examples\<close>

text \<open>The archive of one entry from \<open>File_Archive\<close>, with the look-up structure that opening it would build.\<close>

definition example_lookup :: DirentLookup where
  "example_lookup = (case new_DirentLookup (loadDirent (\<lambda>_. 0) example_accessor) 1 1024 of Inr dl \<Rightarrow> dl | Inl _ \<Rightarrow> m_direntLookup example_fi)"

definition example_archive :: FileImpl where
  "example_archive = example_fi\<lparr>m_direntLookup := example_lookup\<rparr>"

lemma example_archive_open: "archive_open (\<lambda>_. 0) example_archive [example_dirent 2]"
proof -
  have acc: "mp_urlDirentAccessor example_archive = example_accessor" "m_direntCount example_accessor = 1"
    by (simp_all add: example_archive_def example_fi_def example_accessor_def)
  obtain dl where "new_DirentLookup (loadDirent (\<lambda>_. 0) example_accessor) 1 1024 = Inr dl"
    using acc.new_DirentLookup_correct [OF example_accessor_stored example_sorted, of 1024 "\<lambda>_. 0"] acc(2) by auto
  then have "new_DirentLookup (loadDirent (\<lambda>_. 0) example_accessor) 1 1024 = Inr (m_direntLookup example_archive)"
    by (simp add: example_archive_def example_lookup_def)
  then have "\<exists>n dl. 0 < n \<and> lookupGrid dl = lookupGrid (m_direntLookup example_archive) \<and>
      new_DirentLookup (loadDirent (\<lambda>_. 0) (mp_urlDirentAccessor example_archive)) (m_direntCount (mp_urlDirentAccessor example_archive)) n = Inr dl"
    unfolding acc by (intro exI [of _ 1024] exI [of _ "m_direntLookup example_archive"]) simp
  then show ?thesis unfolding archive_open_def using example_accessor_stored example_sorted acc
    by (simp add: example_archive_def example_fi_def example_dirent_def)
qed

lemma example_scheme: "m_newNamespaceScheme example_archive"
  by (simp add: example_archive_def example_fi_def)

theorem getEntryByPath_correct_witness:
  "getEntryByPath (\<lambda>_. 0) example_archive [117, 117] = Inr (nth_entry [example_dirent 2] 0)"
proof -
  have "parseLongPath [117, 117] = Inl (RuntimeError ''Cannot parse path'')" by (simp add: parseLongPath_def string_at_def)
  then have "getEntryByPath (\<lambda>_. 0) example_archive [117, 117] =
      (case first_entry [example_dirent 2] (path_candidates (m_newNamespaceScheme example_archive) [117, 117]) of
         Some e \<Rightarrow> Inr e | None \<Rightarrow> Inl (EntryNotFound ''Cannot find entry''))"
    using getEntryByPath_correct [OF example_archive_open, of "[117, 117]"] by simp
  then show ?thesis
    by (simp add: example_scheme path_candidates_def entry_with_def dirent_key_def example_dirent_def numeral_2_eq_2)
qed


theorem iterByPath_visits_contents_witness:
  "visit_range (\<lambda>_. 0) example_archive pathOrder (iterByPath example_archive) = Inr [nth_entry [example_dirent 2] 0]"
  using iterByPath_visits_contents [OF example_archive_open] by (simp add: example_dirent_def)

theorem iterEfficient_visits_contents_witness:
  "\<exists>order. mset order = mset [0 :: nat] \<and>
     visit_range (\<lambda>_. 0) example_archive efficientOrder (iterEfficient example_archive) = Inr (map (nth_entry [example_dirent 2]) order)"
  using iterEfficient_visits_contents [OF example_archive_open]
  by (auto simp: example_archive_def example_fi_def example_dirent_def)


theorem iterByTitle_overruns_witness:
  "visit_range (\<lambda>_. 0) (example_archive\<lparr>mp_titleDirentAccessor := \<lparr>mp_direntAccessor = example_accessor,
      mp_indexReader = BufferReader \<lparr>buf_data = [], buf_size = 0\<rparr>, m_titleCount = 0\<rparr>\<rparr>) titleOrder (iterByTitle example_archive) =
    Inl (OutOfRange ''entry index out of range'')"
proof -
  let ?fi = "example_archive\<lparr>mp_titleDirentAccessor := \<lparr>mp_direntAccessor = example_accessor,
      mp_indexReader = BufferReader \<lparr>buf_data = [], buf_size = 0\<rparr>, m_titleCount = 0\<rparr>\<rparr>"
  have "archive_open (\<lambda>_. 0) ?fi [example_dirent 2]" using example_archive_open by (simp add: archive_open_def)
  moreover have "reader_holds (mp_indexReader (mp_titleDirentAccessor ?fi)) (concat (map toLittleEndian32 []))"
    using memory_reader_holds [of "[]"] by (simp del: reader_holds.simps)
  ultimately have "visit_range (\<lambda>_. 0) ?fi titleOrder (iterByTitle ?fi) = Inl (OutOfRange ''entry index out of range'')"
    by (rule iterByTitle_overruns) (simp_all add: example_archive_def example_fi_def)
  then show ?thesis by (simp add: iterByTitle_def)
qed

theorem findByTitle_skips_equal_title_witness:
  "findByTitle (\<lambda>_. 0) (example_archive\<lparr>mp_titleDirentAccessor := \<lparr>mp_direntAccessor = example_accessor,
      mp_indexReader = BufferReader \<lparr>buf_data = zeros 8, buf_size = 8\<rparr>, m_titleCount = 2\<rparr>\<rparr>) [84] = Inr \<lparr>m_begin = 1, m_end = 2\<rparr>"
proof -
  let ?fi = "example_archive\<lparr>mp_titleDirentAccessor := \<lparr>mp_direntAccessor = example_accessor,
      mp_indexReader = BufferReader \<lparr>buf_data = zeros 8, buf_size = 8\<rparr>, m_titleCount = 2\<rparr>\<rparr>"
  have z: "zeros 8 = concat (map toLittleEndian32 [0, 0])" by (simp add: zeros_def toLittleEndian32_def numeral_eq_Suc)
  have "reader_holds (mp_indexReader (mp_titleDirentAccessor ?fi)) (concat (map toLittleEndian32 [0, 0]))"
    using memory_reader_holds [of "zeros 8"] unfolding z by (simp add: length_concat_32 del: reader_holds.simps)
  then have "getDirentByTitle (\<lambda>_. 0) ?fi i = Inr ([example_dirent 2, example_dirent 2] ! unat i)" if "unat i < 2" for i
  proof -
    have "[0, 0] ! unat i = (0 :: u32)" "[example_dirent 2, example_dirent 2] ! unat i = example_dirent 2" using that by (auto simp: less_2_cases_iff)
    then show ?thesis
      using read_index_list [of "mp_indexReader (mp_titleDirentAccessor ?fi)" "[0, 0]" i "\<lambda>_. 0"] that
        \<open>reader_holds (mp_indexReader (mp_titleDirentAccessor ?fi)) (concat (map toLittleEndian32 [0, 0]))\<close>
        acc.get_holds [OF example_accessor_stored, of 0 "\<lambda>_. 0"]
      by (simp add: getDirentByTitle_def title_getDirent_def getDirectIndex_def word_le_nat_alt del: reader_holds.simps)
  qed
  from findByTitle_skips_equal_title [OF _ _ _ _ this, of "[84]"] show ?thesis
    by (auto simp: example_scheme example_archive_def example_fi_def example_dirent_def getTitle_def less_2_cases_iff)
qed

text \<open>An archive with one cluster, at the offset 1 of its file.\<close>

definition example_surroundings :: "unit surroundings" where
  "example_surroundings = \<lparr>s_files = (\<lambda>_. None), s_junk = (\<lambda>_. 0), s_run = copy_run, s_lzma = (), s_zstd = (),
     s_buffer_header = False, s_lookup_cache = 1024, s_dirent_cache = 512\<rparr>"

definition example_clusters :: FileImpl where
  "example_clusters = example_fi\<lparr>zimReader := BufferReader \<lparr>buf_data = [255, 5] @ Clusters.example_cluster, buf_size = 22\<rparr>,
     clusterOffsetReader := BufferReader \<lparr>buf_data = toLittleEndian64 1, buf_size = 8\<rparr>\<rparr>"

theorem item_data_is_content_witness:
  "\<exists>b. i_getData example_surroundings example_clusters 1
     \<lparr>i_idx = 0, i_dirent = (example_dirent 2)\<lparr>d_clusterNumber := 0, d_blobNumber := 2\<rparr>\<rparr> = Inr b \<and> blob_string b = [21, 22]"
proof -
  let ?d = "(example_dirent 2)\<lparr>d_clusterNumber := 0, d_blobNumber := 2\<rparr>" and ?s = example_surroundings and ?fi = example_clusters
  obtain c where c: "Cluster_read copy_run (\<lambda>_. 0) () () (zimReader ?fi) 1 = Inr c" "cluster_holds copy_run copy_decodes c [[10], [], [20, 21, 22]]"
    using Cluster_read_ok [OF example_cluster_reader _ example_cluster_body _ copy_decoder_ok, of 1 "\<lambda>_. 0"]
    by (auto simp: example_clusters_def example_cluster_bytes)
  have "reader_holds (clusterOffsetReader ?fi) (concat (map toLittleEndian64 [1]))"
    using memory_reader_holds [of "toLittleEndian64 1"] by (simp add: example_clusters_def del: reader_holds.simps)
  then have "getClusterOffset (\<lambda>_. 0) (clusterOffsetReader ?fi) 0 = Inr 1"
    using read_offset_list [of "clusterOffsetReader ?fi" "[1]" 0 "\<lambda>_. 0"] by (simp add: getClusterOffset_def readOffset_def del: reader_holds.simps)
  then have "getCluster ?s (zimReader ?fi) (header ?fi) (clusterOffsetReader ?fi) (d_clusterNumber ?d) = Inr c"
    using c(1) by (simp add: getCluster_def readCluster_def example_surroundings_def example_clusters_def example_fi_def example_header_def)
  moreover have "isArticle ?d" by (simp add: isArticle_def isRedirect_def isLinktarget_def isDeleted_def example_dirent_def mime_consts)
  moreover have "s_run ?s = copy_run" by (simp add: example_surroundings_def)
  ultimately have "\<forall>off. unat off < length [20, 21, 22 :: byte] \<longrightarrow>
      (\<exists>b. i_getData ?s ?fi off \<lparr>i_idx = 0, i_dirent = ?d\<rparr> = Inr b \<and> blob_string b = drop (unat off) [20, 21, 22])"
    using item_data_is_content [of ?d ?s ?fi c copy_decodes "[[10], [], [20, 21, 22]]" 0] c(2) by simp
  from spec [OF this, of 1] show ?thesis by simp
qed

end
