(* ===== verification/Archive_Image.thy ===== *)
theory Archive_Image
  imports Archive_Lookup
begin

text \<open>
  The ZIM format as a relation between the bytes of a file and what it stores, and that the reader opens every such
  file: the header, the list of mime types, the directory with its pointer list, the clusters with theirs, the
  listing of titles.
\<close>

section \<open>The format\<close>

text \<open>A cluster in the file: flags, then the contents, compressed or not.\<close>

definition stored_cluster ::
    "'st surroundings \<Rightarrow> ('st \<Rightarrow> bytes \<Rightarrow> bytes \<Rightarrow> bool) \<Rightarrow> bytes \<Rightarrow> u64 \<Rightarrow> bool \<times> CompressionType \<times> bytes list \<Rightarrow> bool" where
  "stored_cluster s decodes bs off c \<longleftrightarrow>
     (case c of (ext, ct, bls) \<Rightarrow> \<exists>body. drop (unat off) bs = cluster_info ext ct # body \<and> body \<noteq> [] \<and>
        cluster_body decodes (s_lzma s) (s_zstd s) ext ct bls body)"

definition table_at :: "bytes \<Rightarrow> u64 \<Rightarrow> u64 list \<Rightarrow> bool" where
  "table_at bs pos offs \<longleftrightarrow> unat pos + 8 * length offs \<le> length bs \<and>
     slice_at (unat pos) (8 * length offs) bs = concat (map toLittleEndian64 offs)"

definition zim_image ::
    "'st surroundings \<Rightarrow> ('st \<Rightarrow> bytes \<Rightarrow> bytes \<Rightarrow> bool) \<Rightarrow> bytes \<Rightarrow> Fileheader \<Rightarrow> Dirent list \<Rightarrow>
      (bool \<times> CompressionType \<times> bytes list) list \<Rightarrow> bytes list \<Rightarrow> bool" where
  "zim_image s decodes bs h ds cls mimes \<longleftrightarrow>
     valid_header h \<and> take 80 bs = raw_header zimMagic h \<and> 96 \<le> length bs \<and> length bs \<le> max_transfer \<and>
     checksumPos h = of_nat (length bs - 16) \<and> mimeListPos h = 80 \<and>
     unat (articleCount h) = length ds \<and> unat (clusterCount h) = length cls \<and>
     sorted_entries ds \<and> distinct (map dirent_key ds) \<and>
     (\<exists>offs coffs. table_at bs (urlPtrPos h) offs \<and> list_all2 (dirent_at bs) offs ds \<and>
        table_at bs (clusterPtrPos h) coffs \<and> list_all2 (stored_cluster s decodes bs) coffs cls \<and>
        (\<forall>pos\<in>{urlPtrPos h, titleIdxPos h, clusterPtrPos h} \<union> set offs \<union> set coffs. 80 + length (mime_list mimes) \<le> unat pos)) \<and>
     (\<exists>rest. drop 80 bs = mime_list mimes @ rest) \<and> (\<forall>m\<in>set mimes. m \<noteq> [] \<and> 0 \<notin> set m)"

text \<open>The listing of front articles: an entry whose content is an uncompressed list of indexes.\<close>

definition listing_path :: string where
  "listing_path = ''listing/titleOrdered/v1''"

definition title_listing :: "Dirent list \<Rightarrow> (bool \<times> CompressionType \<times> bytes list) list \<Rightarrow> bytes \<Rightarrow> bool" where
  "title_listing ds cls listing \<longleftrightarrow>
     (\<exists>d\<in>set ds. dirent_key d = 88 # str listing_path \<and> unat (d_clusterNumber d) < length cls \<and>
        (case cls ! unat (d_clusterNumber d) of (ext, ct, bls) \<Rightarrow>
           ct \<in> {zimcompDefault, zimcompNone} \<and> unat (d_blobNumber d) < length bls \<and> bls ! unat (d_blobNumber d) = listing)) \<and>
     listing \<noteq> [] \<and> length listing \<le> max_transfer"

section \<open>Opening\<close>

lemma section_ok:
  assumes "reader_holds r bs" "unat off + unat sz \<le> length bs" "unat sz \<le> max_transfer" "sz \<noteq> 0"
  shows "\<exists>u. sectionSubReader s r name off sz = Inr u \<and> reader_holds u (slice_at (unat off) (unat sz) bs)"
proof -
  have sz: "length bs < 2 ^ 63" using rd.holds_size [OF assms(1)] by simp
  then have can: "can_read r off sz" using rd.can_read_iff [OF assms(1), of off sz] assms(2) by simp
  show ?thesis
  proof (cases "s_buffer_header s")
    case True
    obtain b where "get_buffer (s_junk s) r off sz = Inr b" "buffer_ok b" "buf_bytes b = slice_at (unat off) (unat sz) bs"
      using rd.buffer_exact [OF assms(1,2,4,3), of "s_junk s"] by blast
    then show ?thesis using can True sz by (auto simp: sectionSubReader_def slice_at_def)
  next
    case False
    then show ?thesis using can rd.sub_exact [OF assms(1,2), of "s_junk s"] by (auto simp: sectionSubReader_def)
  qed
qed

lemma table_section:
  assumes "reader_holds r bs" "length bs \<le> max_transfer" "table_at bs pos offs" "unat n = length offs" "offs \<noteq> []"
  shows "\<exists>u. sectionSubReader s r name pos (8 * ucast (n :: u32)) = Inr u \<and> reader_holds u (concat (map toLittleEndian64 offs))"
proof -
  have sz: "unat (8 * ucast n :: u64) = 8 * length offs" using assms(4) by (simp add: unat_8_ucast)
  moreover have "(8 * ucast n :: u64) \<noteq> 0" using sz assms(5) by auto
  ultimately show ?thesis using section_ok [OF assms(1), of pos "8 * ucast n" s name] assms(2,3) by (simp add: table_at_def)
qed

lemma stored_cluster_opens:
  assumes r: "reader_holds r bs" and c: "stored_cluster s decodes bs off (ext, ct, bls)" and d: "decoder_ok (s_run s) decodes"
  shows "\<exists>c. Cluster_read (s_run s) (s_junk s) (s_lzma s) (s_zstd s) r off = Inr c \<and> cluster_holds (s_run s) decodes c bls \<and>
    compression c = ct \<and> m_blobOffsets c = map of_nat (cluster_starts ext bls)"
proof -
  obtain body where body: "drop (unat off) bs = cluster_info ext ct # body" "body \<noteq> []"
      "cluster_body decodes (s_lzma s) (s_zstd s) ext ct bls body" using c by (auto simp: stored_cluster_def)
  have len: "unat off < length bs" using body(1) by (metis drop_all length_drop list.distinct(1) not_le)
  have split: "bs = take (unat off) bs @ cluster_info ext ct # body" using body(1) by (metis append_take_drop_id)
  have "unat off = length (take (unat off) bs)" using len by simp
  from Cluster_read_ok [OF _ this body(3,2) d, of r "s_junk s"] r split show ?thesis by auto
qed

text \<open>Where a content of an uncompressed cluster lies in the file.\<close>

lemma stored_blob_position:
  assumes "stored_cluster s decodes bs off (ext, ct, bls)" "ct \<in> {zimcompDefault, zimcompNone}" "n < length bls"
  defines "p \<equiv> unat off + 1 + cluster_starts ext bls ! n"
  shows "p + length (bls ! n) \<le> length bs" "slice_at p (length (bls ! n)) bs = bls ! n"
proof -
  obtain body post where body: "drop (unat off) bs = cluster_info ext ct # body" "body = cluster_plain ext bls @ post"
    using assms(1,2) by (auto simp: stored_cluster_def cluster_body_def)
  have table: "length (cluster_table ext bls) = offset_width ext * Suc (length bls)"
    using off32.length_table [of "map of_nat (cluster_starts ext bls)"] off64.length_table [of "map of_nat (cluster_starts ext bls)"]
    by (auto simp: cluster_table_def offset_width_def cluster_starts_def simp del: length_concat map_map)
  have start: "cluster_starts ext bls ! n = length (cluster_table ext bls) + length (concat (take n bls))"
    using assms(3) by (simp add: cluster_starts_def blob_starts_nth table)
  have "concat bls = concat (take n bls) @ bls ! n @ concat (drop (Suc n) bls)"
    using assms(3) by (metis append_take_drop_id Cons_nth_drop_Suc concat.simps(2) concat_append)
  then have all: "drop (unat off) bs = (cluster_info ext ct # cluster_table ext bls @ concat (take n bls)) @ bls ! n @ concat (drop (Suc n) bls) @ post"
    using body by (simp add: cluster_plain_def)
  have "drop p bs = drop (1 + cluster_starts ext bls ! n) (drop (unat off) bs)" by (simp add: p_def add.commute)
  also have "\<dots> = bls ! n @ concat (drop (Suc n) bls) @ post" unfolding all by (simp add: start)
  finally have d: "drop p bs = bls ! n @ concat (drop (Suc n) bls) @ post" .
  show "slice_at p (length (bls ! n)) bs = bls ! n" using d by (simp add: slice_at_def)
  have "p \<le> length bs"
  proof -
    have "length (drop (unat off) bs) \<ge> 1 + cluster_starts ext bls ! n" unfolding all by (simp add: start)
    then show ?thesis by (simp add: p_def)
  qed
  moreover have "length bs - p \<ge> length (bls ! n)" using arg_cong [OF d, of length] by simp
  ultimately show "p + length (bls ! n) \<le> length bs" by simp
qed

lemma listed_entry:
  assumes "entries_stored acc ds" "sorted_entries ds" "2 * length ds \<le> 2 ^ 32" "0 < n"
    and "new_DirentLookup (loadDirent junk acc) (m_direntCount acc) n = Inr dl" "distinct (map dirent_key ds)"
    and "d \<in> set ds" "dirent_key d = ns # url"
  shows "\<exists>i. dl_find (loadDirent junk acc) dl ns url = Inr (True, i) \<and> unat i < length ds \<and> ds ! unat i = d"
proof -
  have ns: "ns < 128" using assms(2,7,8) by (auto simp: sorted_entries_def dirent_key_def)
  obtain k where k: "k < length ds" "ds ! k = d" using assms(7) by (auto simp: in_set_conv_nth)
  obtain b i where bi: "dl_find (loadDirent junk acc) dl ns url = Inr (b, i)"
      "if b then unat i < length ds \<and> dirent_key (ds ! unat i) = ns # url
       else (\<forall>j<unat i. dirent_key (ds ! j) < ns # url) \<and> (\<forall>j. unat i \<le> j \<longrightarrow> j < length ds \<longrightarrow> ns # url < dirent_key (ds ! j))"
    using acc.find_correct [OF assms(1,2) ns assms(4,3,5)] by blast
  have b using bi(2) k assms(8) by (metis less_irrefl not_le)
  moreover have "unat i = k" using \<open>b\<close> bi(2) k assms(6,8) by (simp add: distinct_conv_nth) (metis k(2))
  ultimately show ?thesis using bi k by auto
qed

lemma getTitleAccessor_ok:
  assumes r: "reader_holds r bs" "length bs \<le> max_transfer" and acc: "entries_stored acc ds" "sorted_entries ds" "2 * length ds \<le> 2 ^ 32"
    and dl: "new_DirentLookup (loadDirent (s_junk s) acc) (m_direntCount acc) n = Inr dl" "0 < n"
    and cls: "list_all2 (stored_cluster s decodes bs) coffs cls" "unat (clusterCount h) = length cls"
      "reader_holds cor (concat (map toLittleEndian64 coffs))" and dec: "decoder_ok (s_run s) decodes"
    and t: "title_listing ds cls listing" "distinct (map dirent_key ds)"
  shows "\<exists>t. getTitleAccessor_path s r h cor acc dl listing_path = Inr (Some t) \<and> mp_direntAccessor t = acc \<and>
    reader_holds (mp_indexReader t) listing \<and> unat (m_titleCount t) = length listing div 4"
proof -
  obtain d where d: "d \<in> set ds" "dirent_key d = 88 # str listing_path" "unat (d_clusterNumber d) < length cls"
      "case cls ! unat (d_clusterNumber d) of (ext, ct, bls) \<Rightarrow>
         ct \<in> {zimcompDefault, zimcompNone} \<and> unat (d_blobNumber d) < length bls \<and> bls ! unat (d_blobNumber d) = listing"
    and l: "listing \<noteq> []" "length listing \<le> max_transfer" using t(1) by (auto simp: title_listing_def)
  obtain ext ct bls where c: "cls ! unat (d_clusterNumber d) = (ext, ct, bls)" by (metis prod_cases3)
  have c': "ct \<in> {zimcompDefault, zimcompNone}" "unat (d_blobNumber d) < length bls" "bls ! unat (d_blobNumber d) = listing"
    using d(4) c by simp_all
  let ?k = "d_clusterNumber d" and ?b = "d_blobNumber d"
  have st: "stored_cluster s decodes bs (coffs ! unat ?k) (ext, ct, bls)" "unat ?k < length coffs"
    using list_all2_nthD2 [OF cls(1) d(3)] c list_all2_lengthD [OF cls(1)] d(3) by simp_all
  have off: "getClusterOffset (s_junk s) cor ?k = Inr (coffs ! unat ?k)"
    using read_offset_list [OF cls(3) st(2), of "s_junk s"] by (simp add: getClusterOffset_def readOffset_def)
  obtain cl where cl: "Cluster_read (s_run s) (s_junk s) (s_lzma s) (s_zstd s) r (coffs ! unat ?k) = Inr cl"
      "cluster_holds (s_run s) decodes cl bls" "compression cl = ct" "m_blobOffsets cl = map of_nat (cluster_starts ext bls)"
    using stored_cluster_opens [OF r(1) st(1) dec] by blast
  have get: "getCluster s r h cor ?k = Inr cl"
    using off cl(1) d(3) cls(2) by (simp add: getCluster_def readCluster_def word_le_nat_alt)
  have unc: "\<not> isCompressed cl" using cl(3) c'(1) by (auto simp: isCompressed_def)
  let ?start = "cluster_starts ext bls ! unat ?b"
  have bo: "getBlobOffset ?b cl = Inr (1 + of_nat ?start)" "getBlobSize ?b cl = Inr (of_nat (length listing))"
    using cl(4) c'(2) getBlobSize_ok [OF cl(2) c'(2)] c'(3) by (simp_all add: getBlobOffset_def cluster_starts_def)
  note pos = stored_blob_position [OF st(1) c'(1,2)]
  have bound: "unat (coffs ! unat ?k) + 1 + ?start + length listing \<le> length bs" using pos(1) c'(3) by simp
  then have off1: "unat (coffs ! unat ?k + of_nat (1 + ?start)) = unat (coffs ! unat ?k) + 1 + ?start"
    using r(2) by (subst unat_plus_of_nat) (simp_all add: max_transfer_def del: of_nat_Suc of_nat_add unat_u64_bound)
  have sz: "unat (of_nat (length listing) :: u64) = length listing" using l(2) by (intro unat_of_nat_small) (simp add: max_transfer_def)
  have nz: "(of_nat (length listing) :: u64) \<noteq> 0" using sz l(1) by (metis length_0_conv unat_0)
  obtain u where u: "sectionSubReader s r (''Title index table'' @ listing_path) (coffs ! unat ?k + of_nat (1 + ?start)) (of_nat (length listing)) = Inr u"
      "reader_holds u listing"
    using section_ok [OF r(1), of "coffs ! unat ?k + of_nat (1 + ?start)" "of_nat (length listing)" s "''Title index table'' @ listing_path"]
      bound sz nz l(2) pos(2) c'(3) by (auto simp only: off1)
  have count: "unat (ucast ((of_nat (length listing) :: u64) div 4) :: u32) = length listing div 4"
    using l(2) sz by (simp add: unat_ucast_mod unat_div_distrib max_transfer_def)
  obtain i where i: "dl_find (loadDirent (s_junk s) acc) dl 88 (str listing_path) = Inr (True, i)" "unat i < length ds" "ds ! unat i = d"
    using listed_entry [OF acc dl(2,1) t(2) d(1,2)] by auto
  have "loadDirent (s_junk s) acc i = Inr d" using acc.get_holds [OF acc(1) i(2), of "s_junk s"] i(3) by simp
  moreover have "1 + of_nat ?start = (of_nat (1 + ?start) :: u64)" by simp
  ultimately have "getTitleAccessor_path s r h cor acc dl listing_path =
      Inr (Some \<lparr>mp_direntAccessor = acc, mp_indexReader = u, m_titleCount = ucast ((of_nat (length listing) :: u64) div 4)\<rparr>)"
    using i(1) get unc off bo u(1) by (simp add: getTitleAccessor_path_def getTitleAccessor_at_def del: of_nat_add of_nat_Suc)
  then show ?thesis using u(2) count by simp
qed

lemma image_header:
  assumes "zim_image s decodes bs h ds cls mimes" "reader_holds r bs"
  shows "read_fileheader junk r = Inr h" "\<not> reader_size r < header_size"
proof -
  have i: "valid_header h" "bs = raw_header zimMagic h @ drop 80 bs" "96 \<le> length bs"
    using assms(1) by (auto simp: zim_image_def) (metis append_take_drop_id)
  have "Fileheader_read junk r = Inr h"
    using Fileheader_read_raw [of r zimMagic h "drop 80 bs" junk] assms(2) i header_accept_valid [of h zimMagic h] by (auto simp: valid_header_def)
  then show "read_fileheader junk r = Inr h" by (simp add: read_fileheader_def)
  show "\<not> reader_size r < header_size" using rd.holds_size [OF assms(2)] i(3) by (simp add: word_less_nat_alt header_size_def)
qed

lemma image_quick_check:
  assumes img: "zim_image s decodes bs h ds cls mimes" and r: "reader_holds r bs"
    and coffs: "list_all2 (stored_cluster s decodes bs) coffs cls" "reader_holds cor (concat (map toLittleEndian64 coffs))"
  shows "quickCheckForCorruptFile junk r h cor = Inr ()"
proof -
  have size: "unat (reader_size r) = length bs" using rd.holds_size [OF r] by simp
  have len: "unat (clusterCount h) = length coffs" "96 \<le> length bs" "length bs \<le> max_transfer" "checksumPos h = of_nat (length bs - 16)" "mimeListPos h = 80"
    using img list_all2_lengthD [OF coffs(1)] by (simp_all add: zim_image_def)
  have "unat (reader_size r - 16) = length bs - 16" using size len(2) by (subst unat_diff) simp_all
  moreover have "unat (of_nat (length bs - 16) :: u64) = length bs - 16" using len(3) by (intro unat_of_nat_small) (simp add: max_transfer_def)
  ultimately have "checksumPos h = reader_size r - 16" unfolding len(4) word_unat_eq_iff by simp
  moreover have "getClusterOffset junk cor (clusterCount h - 1) = Inr (last coffs) \<and> last coffs \<le> reader_size r" if nz: "clusterCount h \<noteq> 0"
  proof -
    have ne: "coffs \<noteq> []" using nz len(1) by (auto simp: word_unat_eq_iff)
    have k: "unat (clusterCount h - 1) = length coffs - 1" using unat_minus_of_nat [of 1 "clusterCount h"] len(1) ne by (cases coffs) auto
    have "stored_cluster s decodes bs (last coffs) (cls ! (length coffs - 1))"
      using list_all2_nthD [OF coffs(1), of "length coffs - 1"] ne by (simp add: last_conv_nth)
    then have "drop (unat (last coffs)) bs \<noteq> []" by (auto simp: stored_cluster_def split: prod.splits)
    then have "last coffs \<le> reader_size r" using size by (simp add: word_le_nat_alt)
    moreover have "getClusterOffset junk cor (clusterCount h - 1) = Inr (last coffs)"
      using read_offset_list [OF coffs(2), of "clusterCount h - 1" junk] k ne by (simp add: getClusterOffset_def readOffset_def last_conv_nth)
    ultimately show ?thesis by blast
  qed
  ultimately show ?thesis
    using len(5) by (cases "clusterCount h = 0") (auto simp: quickCheckForCorruptFile_def hasChecksum_def getChecksumPos_def)
qed

lemma image_mimes:
  assumes img: "zim_image s decodes bs h ds cls mimes" and r: "reader_holds r bs" and ne: "ds \<noteq> []" "cls \<noteq> []"
    and offs: "reader_holds (mp_urlPtrReader acc) (concat (map toLittleEndian64 offs))" "list_all2 (dirent_at bs) offs ds"
      "unat (m_direntCount acc) = length ds"
    and coffs: "reader_holds cor (concat (map toLittleEndian64 coffs))" "list_all2 (stored_cluster s decodes bs) coffs cls"
    and behind: "\<forall>pos\<in>{urlPtrPos h, titleIdxPos h, clusterPtrPos h} \<union> set offs \<union> set coffs. 80 + length (mime_list mimes) \<le> unat pos"
  shows "read_mimes junk r h acc cor = Inr mimes"
proof -
  have i: "mimeListPos h = 80" "unat (articleCount h) = length ds" "length bs \<le> max_transfer" "\<forall>m\<in>set mimes. m \<noteq> [] \<and> 0 \<notin> set m"
    using img by (simp_all add: zim_image_def)
  obtain rest where rest: "drop 80 bs = mime_list mimes @ rest" using img by (auto simp: zim_image_def)
  have lens: "length offs = length ds" "length coffs = length cls" using offs(2) coffs(2) by (auto dest: list_all2_lengthD)
  have "offs \<noteq> []" "coffs \<noteq> []" using lens ne by auto
  then have mem: "offs ! 0 \<in> set offs" "coffs ! 0 \<in> set coffs" by simp_all
  define L where "L = min (min (min (min (urlPtrPos h) (titleIdxPos h)) (clusterPtrPos h)) (offs ! 0)) (coffs ! 0)"
  have "getOffset junk acc 0 = Inr (offs ! 0)"
    using read_offset_list [OF offs(1), of 0 junk] lens ne offs(3) by (auto simp: getOffset_def word_le_nat_alt)
  moreover have "readOffset junk cor 0 = Inr (coffs ! 0)" using read_offset_list [OF coffs(1), of 0 junk] lens ne by (auto simp: readOffset_def)
  moreover have "articleCount h \<noteq> 0" using i(2) ne by auto
  ultimately have lim: "getMimeListEndUpperLimit junk h acc cor = Inr L" by (simp add: getMimeListEndUpperLimit_def Let_def L_def)
  have L1: "80 + length (mime_list mimes) \<le> unat L" using behind mem unfolding L_def unat_min min.bounded_iff by blast
  have "dirent_at bs (offs ! 0) (ds ! 0)" using list_all2_nthD2 [OF offs(2), of 0] ne by simp
  then have L2: "unat L \<le> length bs" unfolding L_def unat_min dirent_at_def by linarith
  have pos: "0 < length (mime_list mimes)" by (simp add: mime_list_def)
  let ?sz = "L - 80"
  have sz: "unat ?sz = unat L - 80" using L1 by (subst unat_diff) simp_all
  have nz: "?sz \<noteq> 0" using sz L1 pos by auto
  obtain b where b: "get_buffer junk r 80 ?sz = Inr b" "buf_size b = ?sz" "buf_bytes b = slice_at 80 (unat ?sz) bs"
  proof -
    have "unat ?sz \<le> max_transfer" "unat (80 :: u64) + unat ?sz \<le> length bs" using sz L1 L2 i(3) by simp_all
    then show ?thesis using rd.buffer_exact [OF r _ nz, of 80 junk] that by auto
  qed
  have "take (unat ?sz) (buf_data b) = slice_at 80 (unat ?sz) bs" using b(2,3) by (simp add: buf_bytes_def)
  also have "\<dots> = mime_list mimes @ take (unat ?sz - length (mime_list mimes)) rest" using rest sz L1 by (simp add: slice_at_def)
  finally have "read_mime_list (take (unat ?sz) (buf_data b)) = Inr mimes" using read_mime_list_ok [OF i(4)] by simp
  moreover have "80 < unat L" using L1 pos by linarith
  then have "\<not> L \<le> 80" by (simp add: word_le_nat_alt)
  ultimately show ?thesis using lim b(1) i(1) by (simp add: read_mimes_def Let_def)
qed

text \<open>Everything the reader knows of an image once it is open.\<close>

definition image_open ::
    "'st surroundings \<Rightarrow> ('st \<Rightarrow> bytes \<Rightarrow> bytes \<Rightarrow> bool) \<Rightarrow> FileImpl \<Rightarrow> Dirent list \<Rightarrow>
      (bool \<times> CompressionType \<times> bytes list) list \<Rightarrow> bytes list \<Rightarrow> bytes \<Rightarrow> bool" where
  "image_open s decodes fi ds cls mimes listing \<longleftrightarrow>
     archive_open (s_junk s) fi ds \<and> mimeTypes fi = mimes \<and> zimReader fi = mp_zimReader (mp_urlDirentAccessor fi) \<and>
     mp_direntAccessor (mp_titleDirentAccessor fi) = mp_urlDirentAccessor fi \<and>
     reader_holds (mp_indexReader (mp_titleDirentAccessor fi)) listing \<and>
     unat (m_titleCount (mp_titleDirentAccessor fi)) = length listing div 4 \<and>
     (\<forall>k. unat k < length cls \<longrightarrow> (\<exists>c. getCluster s (zimReader fi) (header fi) (clusterOffsetReader fi) k = Inr c \<and>
        cluster_holds (s_run s) decodes c (snd (snd (cls ! unat k))) \<and> compression c = fst (snd (cls ! unat k))))"

lemma user_entries_ok:
  assumes "entries_stored acc ds" "sorted_entries ds" "ds \<noteq> []" "direntCount dl = m_direntCount acc" "namespaceBoundaryCache dl = Map.empty"
    and "unat (articleCount h) = length ds"
  shows "\<exists>b e dl'. user_entries (loadDirent junk acc) h dl = Inr (1 \<le> minorVersion h, b, e, dl') \<and> lookupGrid dl' = lookupGrid dl \<and>
    (if 1 \<le> minorVersion h
     then unat b = length (filter (\<lambda>d. d_ns d < 67) ds) \<and> unat e = length (filter (\<lambda>d. d_ns d \<le> 67) ds)
     else b = 0 \<and> e = articleCount h)"
proof (cases "1 \<le> minorVersion h")
  case True
  have s0: "nsc.sound (getNamespaceBeginOffset (loadDirent junk acc) (direntCount dl)) (namespaceBoundaryCache dl)"
    using assms(5) by (simp add: nsc.sound_def)
  obtain b dl1 where 1: "getNamespaceRangeBegin (loadDirent junk acc) 67 dl = (Inr b, dl1)" "unat b = length (filter (\<lambda>d. d_ns d < 67) ds)"
      "direntCount dl1 = direntCount dl" "lookupGrid dl1 = lookupGrid dl"
      "nsc.sound (getNamespaceBeginOffset (loadDirent junk acc) (direntCount dl1)) (namespaceBoundaryCache dl1)"
    using namespace_range_begin [OF assms(1-3) _ _ s0 assms(4), of 67] by auto
  obtain e dl2 where 2: "getNamespaceRangeBegin (loadDirent junk acc) 68 dl1 = (Inr e, dl2)" "unat e = length (filter (\<lambda>d. d_ns d < 68) ds)"
      "lookupGrid dl2 = lookupGrid dl1"
    using namespace_range_begin [OF assms(1-3) _ _ 1(5), of 68] 1(3) assms(4) by auto
  have "(d_ns d < 68) = (d_ns d \<le> 67)" for d using less_succ_iff [of 67 "d_ns d"] by simp
  then have "filter (\<lambda>d. d_ns d < 68) ds = filter (\<lambda>d. d_ns d \<le> 67) ds" by (intro filter_cong refl)
  then show ?thesis using True 1 2 by (simp add: user_entries_def getNamespaceRangeEnd_def)
qed (simp add: user_entries_def)

lemma image_opens:
  assumes img: "zim_image s decodes bs h ds cls mimes" and t: "title_listing ds cls listing" and ne: "cls \<noteq> []"
    and mk: "makeFileReader zf start sz = Inr (Some r)" and r: "reader_holds r bs" and dec: "decoder_ok (s_run s) decodes"
    and cache: "0 < s_lookup_cache s"
  shows "\<exists>fi. new_FileImpl s zf start sz = Inr fi \<and> image_open s decodes fi ds cls mimes listing \<and> header fi = h \<and> zimReader fi = r \<and>
    m_newNamespaceScheme fi = (1 \<le> minorVersion h)"
proof -
  have i: "length bs \<le> max_transfer" "unat (articleCount h) = length ds" "unat (clusterCount h) = length cls" "sorted_entries ds"
    "distinct (map dirent_key ds)" using img by (simp_all add: zim_image_def)
  have ds: "ds \<noteq> []" using t by (auto simp: title_listing_def)
  obtain offs coffs where o: "table_at bs (urlPtrPos h) offs" "list_all2 (dirent_at bs) offs ds"
      "table_at bs (clusterPtrPos h) coffs" "list_all2 (stored_cluster s decodes bs) coffs cls"
      "\<forall>pos\<in>{urlPtrPos h, titleIdxPos h, clusterPtrPos h} \<union> set offs \<union> set coffs. 80 + length (mime_list mimes) \<le> unat pos"
    using img by (auto simp: zim_image_def)
  have lens: "length offs = length ds" "length coffs = length cls" using o(2,4) by (auto dest: list_all2_lengthD)
  have "offs \<noteq> []" "coffs \<noteq> []" using lens ds ne by auto
  obtain ur where ur: "sectionSubReader s r ''Dirent pointer table'' (urlPtrPos h) (8 * ucast (articleCount h)) = Inr ur"
      "reader_holds ur (concat (map toLittleEndian64 offs))"
    using table_section [OF r i(1) o(1), of "articleCount h"] i(2) lens \<open>offs \<noteq> []\<close> by auto
  obtain cor where cor: "sectionSubReader s r ''Cluster pointer table'' (clusterPtrPos h) (8 * ucast (clusterCount h)) = Inr cor"
      "reader_holds cor (concat (map toLittleEndian64 coffs))"
    using table_section [OF r i(1) o(3), of "clusterCount h"] i(3) lens \<open>coffs \<noteq> []\<close> by auto
  define acc where "acc = \<lparr>mp_zimReader = r, mp_urlPtrReader = ur, m_direntCount = articleCount h, m_direntCache = lru_new (s_dirent_cache s)\<rparr>"
  have acc: "mp_zimReader acc = r" "mp_urlPtrReader acc = ur" "m_direntCount acc = articleCount h" by (simp_all add: acc_def)
  have st: "entries_stored acc ds" using r i(1,2) ur(2) o(2) unfolding entries_stored_def acc by blast
  have small: "2 * length ds \<le> 2 ^ 32" using o(1) lens i(1) by (simp add: table_at_def max_transfer_def)
  obtain dl where dl: "new_DirentLookup (loadDirent (s_junk s) acc) (m_direntCount acc) (s_lookup_cache s) = Inr dl"
      "direntCount dl = m_direntCount acc" "namespaceBoundaryCache dl = Map.empty"
    using acc.new_DirentLookup_correct [OF st i(4) cache small, of "s_junk s"] by blast
  obtain ti where ti: "getTitleAccessor_path s r h cor acc dl listing_path = Inr (Some ti)" "mp_direntAccessor ti = acc"
      "reader_holds (mp_indexReader ti) listing" "unat (m_titleCount ti) = length listing div 4"
    using getTitleAccessor_ok [OF r i(1) st i(4) small dl(1) cache o(4) i(3) cor(2) dec t i(5)] by blast
  have mimes: "read_mimes (s_junk s) r h acc cor = Inr mimes"
    using image_mimes [OF img r ds ne _ o(2) _ cor(2) o(4,5), of acc "s_junk s"] ur(2) i(2) acc by simp
  obtain b e dl' where ue: "user_entries (loadDirent (s_junk s) acc) h dl = Inr (1 \<le> minorVersion h, b, e, dl')" "lookupGrid dl' = lookupGrid dl"
      "if 1 \<le> minorVersion h then unat b = length (filter (\<lambda>d. d_ns d < 67) ds) \<and> unat e = length (filter (\<lambda>d. d_ns d \<le> 67) ds)
       else b = 0 \<and> e = articleCount h"
    using user_entries_ok [OF st i(4) ds dl(2,3) i(2), of "s_junk s"] by blast
  let ?fi = "\<lparr>zimFile = zf, archiveStartOffset = start, zimReader = r, header = h, clusterOffsetReader = cor,
    mp_urlDirentAccessor = acc, mp_titleDirentAccessor = ti, m_newNamespaceScheme = 1 \<le> minorVersion h,
    m_startUserEntry = b, m_endUserEntry = e, mimeTypes = mimes, m_direntLookup = dl'\<rparr>"
  have open_ok: "new_FileImpl s zf start sz = Inr ?fi"
    using mk image_header(1) [OF img r, of "s_junk s"] image_header(2) [OF img r] ur(1) cor(1) image_quick_check [OF img r o(4) cor(2), of "s_junk s"] dl(1) ti(1) mimes ue(1)
    unfolding new_FileImpl_def listing_path_def Let_def acc_def by simp
  have "archive_open (s_junk s) ?fi ds"
    unfolding archive_open_def using st i(4,5) small acc(3) ue(2,3) dl(1) cache by (auto intro!: exI [of _ "s_lookup_cache s"] exI [of _ dl])
  moreover have "\<exists>c. getCluster s r h cor k = Inr c \<and> cluster_holds (s_run s) decodes c (snd (snd (cls ! unat k))) \<and>
      compression c = fst (snd (cls ! unat k))" if k: "unat k < length cls" for k
  proof -
    obtain ext ct bls where c: "cls ! unat k = (ext, ct, bls)" by (metis prod_cases3)
    have "getClusterOffset (s_junk s) cor k = Inr (coffs ! unat k)"
      using read_offset_list [OF cor(2), of k "s_junk s"] k lens by (simp add: getClusterOffset_def readOffset_def)
    then show ?thesis
      using stored_cluster_opens [OF r _ dec, of "coffs ! unat k" ext ct bls] list_all2_nthD2 [OF o(4) k] c k i(3)
      by (auto simp: getCluster_def readCluster_def word_le_nat_alt)
  qed
  ultimately have "image_open s decodes ?fi ds cls mimes listing" using ti(2-4) acc(1) by (simp add: image_open_def)
  then show ?thesis using open_ok by (intro exI [of _ ?fi]) simp
qed

section \<open>Reading an item\<close>

lemma entry_with_nth:
  assumes "distinct (map dirent_key ds)" "i < length ds"
  shows "entry_with ds (dirent_key (ds ! i)) = Some (nth_entry ds i)"
proof -
  have "find (\<lambda>j. dirent_key (ds ! j) = dirent_key (ds ! i)) [0..<length ds] = Some i"
    using assms by (auto simp: find_Some_iff distinct_conv_nth intro!: exI [of _ i])
  then show ?thesis by (simp add: entry_with_def)
qed

lemma image_item_read:
  assumes "image_open s decodes fi ds cls mimes listing" "m_newNamespaceScheme fi" "distinct (map dirent_key ds)"
    and "i < length ds" "dirent_key (ds ! i) = 67 # path" "isArticle (ds ! i)"
    and "unat (d_clusterNumber (ds ! i)) < length cls" "cls ! unat (d_clusterNumber (ds ! i)) = (ext, ct, bls)"
    and "unat (d_blobNumber (ds ! i)) < length bls" "bls ! unat (d_blobNumber (ds ! i)) \<noteq> []"
  shows "\<exists>e it b. getEntryByPath (s_junk s) fi path = Inr e \<and> getItem (s_junk s) fi follow e = Inr it \<and>
    i_getMimetype fi it = (if unat (d_mimeType (ds ! i)) \<ge> length mimes then Inl (ZimFileFormatError ''unknown mime type code'')
      else Inr (mimes ! unat (d_mimeType (ds ! i)))) \<and>
    i_getData s fi 0 it = Inr b \<and> blob_string b = bls ! unat (d_blobNumber (ds ! i))"
proof -
  let ?e = "nth_entry ds i" and ?it = "\<lparr>i_idx = of_nat i, i_dirent = ds ! i\<rparr>"
  have open_ok: "archive_open (s_junk s) fi ds" using assms(1) by (simp add: image_open_def)
  obtain j where j: "findx (s_junk s) fi 67 path = Inr (True, j)" "new_Entry (s_junk s) fi j = Inr ?e"
    using findx_entry [OF open_ok, of 67 path] entry_with_nth [OF assms(3,4)] assms(5) by auto
  then have e: "getEntryByPath (s_junk s) fi path = Inr ?e" using assms(2) by (simp add: getEntryByPath_def)
  have "unat (of_nat i :: u32) = i" using open_length [OF open_ok] assms(4) by (intro unat_of_nat_small) simp
  then have it: "getItem (s_junk s) fi follow ?e = Inr ?it"
    using assms(4,6) open_new_Item [OF open_ok, of "of_nat i"] by (simp add: getItem_def isArticle_def)
  obtain c where c: "getCluster s (zimReader fi) (header fi) (clusterOffsetReader fi) (d_clusterNumber (ds ! i)) = Inr c"
      "cluster_holds (s_run s) decodes c bls"
    using assms(1,7,8) by (fastforce simp: image_open_def)
  obtain b where "i_getData s fi 0 ?it = Inr b" "blob_string b = bls ! unat (d_blobNumber (ds ! i))"
    using spec [OF conjunct2 [OF item_data_is_content [OF assms(6) c assms(9), of "of_nat i"]], of 0] assms(10) by auto
  moreover have "mimeTypes fi = mimes" using assms(1) by (simp add: image_open_def)
  ultimately show ?thesis using e it by (auto simp: i_getMimetype_def fi_getMimeType_def)
qed

end
