(* ===== verification/Archive_Written.thy ===== *)
theory Archive_Written
  imports Archive_Image
begin

text \<open>
  From the creator to the reader: the file that the threads of a creator and \<^verbatim>\<open>Creator::write\<close> leave behind is a file of
  the format of \<open>Archive_Image\<close>, so that \<^verbatim>\<open>Archive\<close> opens it and hands out the contents that were added.
\<close>

section \<open>The data of a finished creator\<close>

text \<open>The contents \<open>bls c\<close> of a cluster are the ones its providers give; the place of an entry's content is its cluster and
  the number of the blob.\<close>

definition content_at :: "CreatorData \<Rightarrow> (nat \<Rightarrow> bytes list) \<Rightarrow> addr \<Rightarrow> nat \<Rightarrow> bytes \<Rightarrow> bool" where
  "content_at cd bls a c content \<longleftrightarrow> \<not> wd_isRedirect (store cd a) \<and> wd_cluster (store cd a) = Some c \<and> c \<in> set (clustersList cd) \<and>
     (\<exists>n b. wd_info (store cd a) = DirectInfo n b \<and> unat b < length (bls c) \<and> bls c ! unat b = content)"

definition clusters_filled :: "CreatorData \<Rightarrow> (nat \<Rightarrow> bytes list) \<Rightarrow> bool" where
  "clusters_filled cd bls \<longleftrightarrow> distinct (clustersList cd) \<and> clustersList cd \<noteq> [] \<and>
     (\<forall>c\<in>set (clustersList cd). c < length (clusters cd) \<and> wcluster_holds (clusters cd ! c) (bls c) \<and> cluster_fits False (bls c) \<and>
        length (cluster_plain False (bls c)) \<le> 2 ^ 30 \<and>
        w_compression (clusters cd ! c) \<in> {zimcompDefault, zimcompNone, zimcompLzma, zimcompZstd}) \<and>
     (\<forall>k<length (clustersList cd). w_index (clusters cd ! (clustersList cd ! k)) = of_nat k)"

definition entries_finished :: "CreatorData \<Rightarrow> bool" where
  "entries_finished cd \<longleftrightarrow> ready_to_write cd \<and> sorted_wrt (UrlCompare (store cd)) (dirents cd) \<and>
     (\<forall>d\<in>set (dirents cd). 0 < wd_ns (store cd d) \<and> wd_ns (store cd d) < 128 \<and>
        length (wd_path (store cd d)) + length (wd_title (store cd d)) < 200) \<and>
     (\<forall>m\<in>set (mimeTypesList cd). m \<noteq> [] \<and> 0 \<notin> set m) \<and> length (clustersList cd) \<le> length (dirents cd)"

definition listings_added :: "CreatorData \<Rightarrow> (nat \<Rightarrow> bytes list) \<Rightarrow> bytes \<Rightarrow> bool" where
  "listings_added cd bls listing \<longleftrightarrow>
     (\<exists>d c. tl_dirent (titleListing cd) = Some d \<and> wd_cluster (store cd d) = Some c \<and> c \<in> set (clustersList cd)) \<and>
     unat (m_titleListBlobOffset cd) \<le> max_transfer \<and>
     (\<exists>d\<in>set (dirents cd). \<exists>c. wd_ns (store cd d) = 88 \<and> wd_path (store cd d) = str listing_path \<and> content_at cd bls d c listing \<and>
        w_compression (clusters cd ! c) \<in> {zimcompDefault, zimcompNone}) \<and>
     listing \<noteq> [] \<and> length listing \<le> max_transfer"

definition cluster_list :: "CreatorData \<Rightarrow> (nat \<Rightarrow> CompressionType) \<Rightarrow> (nat \<Rightarrow> bytes list) \<Rightarrow> (bool \<times> CompressionType \<times> bytes list) list" where
  "cluster_list cd ct bls = map (\<lambda>c. (False, ct c, bls c)) (clustersList cd)"

section \<open>Order\<close>

lemma ns_sint_less: "a < 128 \<Longrightarrow> b < 128 \<Longrightarrow> sint (a :: byte) < sint b \<longleftrightarrow> a < b"
  by (simp add: ascii_sint word_less_def)

lemma url_key_less:
  assumes "wd_ns a < 128" "wd_ns b < 128" "url_key a < url_key b"
  shows "wd_ns a # wd_path a < wd_ns b # wd_path b"
  using assms ns_sint_less [OF assms(1,2)] by (auto simp: url_key_def less_prod_def' dest: signed_word_eqI)

lemma entry_bytes_long: "length (wd_path (st a)) + 2 \<le> length (entry_bytes st cls a)"
  using length_dirent_fixed [of "wd_dirent st cls (st a)"] by (simp add: entry_bytes_def dirent_bytes_def wd_dirent_kind)

lemma sum_le_concat: "(\<And>x. x \<in> set xs \<Longrightarrow> f x \<le> length (g x)) \<Longrightarrow> sum_list (map f xs) \<le> length (concat (map g xs))"
  by (induction xs) (auto simp: add_mono)

lemma archive_entries_sorted:
  assumes "entries_finished cd" "length (concat (map (entry_bytes (store cd) (\<lambda>n. clusters cd ! n)) (dirents cd))) < 2 ^ 31"
  shows "sorted_entries (archive_entries cd)" "distinct (map dirent_key (archive_entries cd))"
proof -
  let ?key = "\<lambda>a. wd_ns (store cd a) # wd_path (store cd a)"
  have f: "sorted_wrt (UrlCompare (store cd)) (dirents cd)"
      "\<forall>d\<in>set (dirents cd). 0 < wd_ns (store cd d) \<and> wd_ns (store cd d) < 128" "ready_to_write cd"
    using assms(1) by (simp_all add: entries_finished_def)
  have keys: "map dirent_key (archive_entries cd) = map ?key (dirents cd)"
    by (simp add: archive_entries_def dirent_key_def wd_dirent_kind)
  have "sorted_wrt (\<lambda>a b. ?key a < ?key b) (dirents cd)"
    using f(1)
  proof (rule sorted_wrt_mono_rel [rotated])
    fix a b assume "a \<in> set (dirents cd)" "b \<in> set (dirents cd)" "UrlCompare (store cd) a b"
    then show "?key a < ?key b" using f(2) by (intro url_key_less) (simp_all add: url.lt_key)
  qed
  then have strict: "sorted_wrt (<) (map ?key (dirents cd))" by (simp add: sorted_wrt_map)
  then show "distinct (map dirent_key (archive_entries cd))" unfolding keys strict_sorted_iff by simp
  have "sum_list (map (\<lambda>a. length (?key a) + 1) (dirents cd)) < 2 ^ 31"
    using sum_le_concat [of "dirents cd" "\<lambda>a. length (?key a) + 1" "entry_bytes (store cd) (\<lambda>n. clusters cd ! n)"]
      entry_bytes_long [of "store cd"] assms(2) by simp
  moreover have "map (\<lambda>d. length (dirent_key d) + 1) (archive_entries cd) = map (\<lambda>a. length (?key a) + 1) (dirents cd)"
    by (simp add: archive_entries_def dirent_key_def wd_dirent_kind)
  moreover have "\<forall>d\<in>set (archive_entries cd). 0 < d_ns d \<and> d_ns d < 128 \<and> 0 \<notin> set (d_url d)"
    using f(2,3) by (auto simp: archive_entries_def wd_dirent_kind ready_to_write_def wd_writable_def)
  ultimately show "sorted_entries (archive_entries cd)"
    unfolding sorted_entries_def keys using strict_sorted_imp_sorted [OF strict] by presburger
qed

section \<open>The file is an archive\<close>

lemma stored_cluster_in:
  assumes "drop p base = cluster_info ext ct # body" "\<And>post. cluster_body decodes (s_lzma s) (s_zstd s) ext ct bls (body @ post)"
    and "drop p bs = drop p base @ tail" "tail \<noteq> []" "unat off = p"
  shows "stored_cluster s decodes bs off (ext, ct, bls)"
  using assms by (auto simp: stored_cluster_def)

lemma file_layout:
  assumes "length (uuid h) = 16" "ready_to_write cd" "CLUSTER_BASE_OFFSET \<le> length base"
  defines "M \<equiv> mime_list (mimeTypesList cd)"
  defines "E \<equiv> concat (map (entry_bytes (store cd) (\<lambda>n. clusters cd ! n)) (dirents cd))"
  defines "coffs \<equiv> map (\<lambda>n. w_offset (clusters cd ! n)) (clustersList cd)"
  shows "\<exists>digest. archive_file cd base h = header_bytes h @ M @ drop (80 + length M) base @ E @
      concat (map toLittleEndian64 (archive_offsets cd base)) @ concat (map toLittleEndian64 coffs) @ digest \<and> length digest = 16"
    and "length (header_bytes h) = 80" "80 + length M < 1024" "length (header_bytes h @ M @ drop (80 + length M) base) = length base"
    and "entry_offset cd base (length (dirents cd)) = length base + length E"
    and "length (archive_file cd base h) = length base + length E + 8 * length (dirents cd) + 8 * length (clustersList cd) + 16"
proof -
  let ?digest = "rfc1321_md5 (archive_body cd base (archive_offsets cd base) h)"
  have md: "length ?digest = 16" by (simp add: rfc1321_md5_def split: prod.split)
  then show "\<exists>digest. archive_file cd base h = header_bytes h @ M @ drop (80 + length M) base @ E @
      concat (map toLittleEndian64 (archive_offsets cd base)) @ concat (map toLittleEndian64 coffs) @ digest \<and> length digest = 16"
    by (intro exI [of _ ?digest]) (simp add: archive_file_def archive_body_def M_def E_def coffs_def comp_def)
  show hl: "length (header_bytes h) = 80" using assms(1) by (simp add: header_bytes_def)
  show m: "80 + length M < 1024" using assms(2) by (simp add: ready_to_write_def M_def CLUSTER_BASE_OFFSET_def)
  then show "length (header_bytes h @ M @ drop (80 + length M) base) = length base" using hl assms(3) by (simp add: CLUSTER_BASE_OFFSET_def)
  show eo: "entry_offset cd base (length (dirents cd)) = length base + length E" by (simp add: entry_offset_def E_def)
  show "length (archive_file cd base h) = length base + length E + 8 * length (dirents cd) + 8 * length (clustersList cd) + 16"
    using archive_body_length [OF assms(1-3)] md by (simp add: archive_file_def eo)
qed

lemma table_in:
  assumes "bs = pre @ concat (map toLittleEndian64 offs) @ post" "pos = of_nat (length pre)" "length bs \<le> max_transfer"
  shows "table_at bs pos offs"
proof -
  have "unat pos = length pre" using assms by (simp add: unat_of_nat_small max_transfer_def)
  then show ?thesis using assms(1) length_concat_64 [of offs] by (simp add: table_at_def slice_at_def)
qed

lemma written_image:
  assumes fin: "entries_finished cd" "ready_to_write cd" and base: "CLUSTER_BASE_OFFSET \<le> length base"
    and h: "fillHeader c cd h0 = Inr h" "length (m_uuid c) = 16" "1024 \<le> unat (titleIdxPos h)"
    and size: "length (archive_file cd base (final_header cd base h)) \<le> max_transfer"
    and ne: "clustersList cd \<noteq> []"
    and cl: "\<forall>n\<in>set (clustersList cd). \<exists>p body. w_offset (clusters cd ! n) = of_nat p \<and> 1024 \<le> p \<and>
      drop p base = cluster_info False (ct n) # body \<and>
      (\<forall>post. cluster_body decodes (s_lzma s) (s_zstd s) False (ct n) (bls n) (body @ post))"
  shows "zim_image s decodes (archive_file cd base (final_header cd base h)) (final_header cd base h) (archive_entries cd)
    (cluster_list cd ct bls) (mimeTypesList cd)"
proof -
  let ?h = "final_header cd base h" and ?bs = "archive_file cd base (final_header cd base h)"
  let ?n = "length (dirents cd)" and ?k = "length (clustersList cd)"
  define M where "M = mime_list (mimeTypesList cd)"
  define E where "E = concat (map (entry_bytes (store cd) (\<lambda>n. clusters cd ! n)) (dirents cd))"
  define coffs where "coffs = map (\<lambda>n. w_offset (clusters cd ! n)) (clustersList cd)"
  define front where "front = header_bytes ?h @ M @ drop (80 + length M) base"
  have hf: "mimeListPos ?h = 80" "length (uuid ?h) = 16" "articleCount ?h = of_nat ?n" "clusterCount ?h = of_nat ?k"
      "minorVersion ?h = 1" "majorVersion ?h \<in> {5, 6}" "titleIdxPos ?h = titleIdxPos h"
    using h by (auto simp: final_header_def Let_def fillHeader_def rbind_Inr_iff header_consts split: option.splits)
  note fl = file_layout [OF hf(2) fin(2) base, folded M_def E_def coffs_def front_def]
  obtain digest where bs: "?bs = front @ E @ concat (map toLittleEndian64 (archive_offsets cd base)) @ concat (map toLittleEndian64 coffs) @ digest"
    "length digest = 16" using fl(1) by (auto simp: front_def)
  have len: "length ?bs = length base + length E + 8 * ?n + 8 * ?k + 16" by (rule fl(6))
  have le1: "length (archive_offsets cd base) = ?n" "length coffs = ?k" by (simp_all add: archive_offsets_def coffs_def)
  note l64 = length_concat_64 [of "archive_offsets cd base"] length_concat_64 [of coffs]
  have lf: "length front = length base" using fl(4) by (simp only: front_def)
  have "urlPtrPos ?h = of_nat (length base + length E)" "clusterPtrPos ?h = of_nat (length base + length E + 8 * ?n)"
      "checksumPos ?h = of_nat (length base + length E + 8 * ?n + 8 * ?k)"
    using fl(5) by (simp_all add: final_header_def Let_def)
  then have pos: "urlPtrPos ?h = of_nat (length (front @ E))"
    "clusterPtrPos ?h = of_nat (length (front @ E @ concat (map toLittleEndian64 (archive_offsets cd base))))"
    "checksumPos ?h = of_nat (length ?bs - 16)"
    using len unfolding length_append lf l64(1) le1(1) by (simp_all only: add.assoc [symmetric] add_diff_cancel_right')
  have small: "?n < 2 ^ 32" "?k < 2 ^ 32" using len size by (simp_all add: max_transfer_def)
  have count: "unat (articleCount ?h) = ?n" "unat (clusterCount ?h) = ?k"
    unfolding hf(3,4) using small by (simp_all add: unat_of_nat_small)
  have up: "unat (urlPtrPos ?h) = length base + length E" "unat (clusterPtrPos ?h) = length base + length E + 8 * ?n"
    unfolding pos(1,2) length_append lf l64(1) le1(1) using len size
    by (simp_all add: unat_of_nat_small max_transfer_def add.assoc del: of_nat_add)
  have dirs: "?n \<noteq> 0" using fin(1) ne by (auto simp: entries_finished_def)
  have "sanity_check ?h = Inr ()"
  proof -
    have "?k \<le> ?n" using fin(1) by (simp add: entries_finished_def)
    moreover have "unat (of_nat (length ?bs - 16) :: u64) = length ?bs - 16" using size by (intro unat_of_nat_small) (simp add: max_transfer_def)
    then have "80 \<le> unat (checksumPos ?h)" unfolding pos(3) using len base by (simp add: CLUSTER_BASE_OFFSET_def)
    ultimately show ?thesis
      unfolding sanity_check_ok_iff using hf(1,7) count up dirs ne h(3) base
      by (auto simp: word_le_nat_alt CLUSTER_BASE_OFFSET_def word_unat_eq_iff)
  qed
  then have valid: "valid_header ?h" using hf by (simp add: valid_header_def)
  have t80: "take 80 ?bs = raw_header zimMagic ?h" unfolding bs(1) using fl(2) header_bytes_raw [of ?h] hf(1) by (simp add: front_def)
  have d80: "drop 80 ?bs = mime_list (mimeTypesList cd) @ (drop (80 + length M) base @ E @ concat (map toLittleEndian64 (archive_offsets cd base)) @
      concat (map toLittleEndian64 coffs) @ digest)" unfolding bs(1) using fl(2) by (simp add: front_def M_def)
  have srt: "sorted_entries (archive_entries cd)" "distinct (map dirent_key (archive_entries cd))"
    using archive_entries_sorted [OF fin(1)] len size unfolding E_def by (simp_all add: max_transfer_def)
  have short: "\<forall>d\<in>set (dirents cd). length (wd_path (store cd d)) + length (wd_title (store cd d)) < 200"
    using fin(1) by (simp add: entries_finished_def)
  have ents: "list_all2 (dirent_at ?bs) (archive_offsets cd base) (archive_entries cd)"
    using archive_entry_at [OF hf(2) fin(2) base short size] by (simp add: list_all2_conv_all_nth archive_offsets_def archive_entries_def)
  have tail: "drop p ?bs = drop p base @ (E @ concat (map toLittleEndian64 (archive_offsets cd base)) @ concat (map toLittleEndian64 coffs) @ digest)"
    if "1024 \<le> p" "p \<le> length base" for p
  proof -
    have "drop p front = drop p base" using that fl(2,3) by (simp add: front_def)
    then show ?thesis unfolding bs(1) using that lf by simp
  qed
  have off: "stored_cluster s decodes ?bs (w_offset (clusters cd ! n)) (False, ct n, bls n) \<and>
      1024 \<le> unat (w_offset (clusters cd ! n))" if n: "n \<in> set (clustersList cd)" for n
  proof -
    obtain p body where p: "w_offset (clusters cd ! n) = of_nat p" "1024 \<le> p" "drop p base = cluster_info False (ct n) # body"
        "\<forall>post. cluster_body decodes (s_lzma s) (s_zstd s) False (ct n) (bls n) (body @ post)" using cl n by blast
    have "p < length base" using p(3) by (metis drop_all list.distinct(1) not_le)
    then have "unat (of_nat p :: u64) = p" using len size by (simp add: unat_of_nat_small max_transfer_def)
    moreover have "digest \<noteq> []" using bs(2) by auto
    ultimately show ?thesis using stored_cluster_in [OF p(3) _ tail, of decodes s "bls n"] p \<open>p < length base\<close> by simp
  qed
  have cls: "list_all2 (stored_cluster s decodes ?bs) coffs (cluster_list cd ct bls)"
    using off by (simp add: coffs_def cluster_list_def list_all2_map1 list_all2_map2 list_all2_same)
  have behind: "\<forall>pos\<in>{urlPtrPos ?h, titleIdxPos ?h, clusterPtrPos ?h} \<union> set (archive_offsets cd base) \<union> set coffs. 80 + length M \<le> unat pos"
  proof -
    have eo: "length base \<le> entry_offset cd base k \<and> entry_offset cd base k \<le> length base + length E" for k
    proof -
      have "E = concat (map (entry_bytes (store cd) (\<lambda>n. clusters cd ! n)) (take k (dirents cd))) @
          concat (map (entry_bytes (store cd) (\<lambda>n. clusters cd ! n)) (drop k (dirents cd)))"
        unfolding E_def by (metis append_take_drop_id concat_append map_append)
      then show ?thesis by (simp add: entry_offset_def)
    qed
    have "80 + length M \<le> unat (of_nat (entry_offset cd base k) :: u64)" for k
      using eo [of k] len size fl(3) base by (simp add: unat_of_nat_small max_transfer_def CLUSTER_BASE_OFFSET_def)
    then have "\<forall>pos\<in>set (archive_offsets cd base). 80 + length M \<le> unat pos" by (simp add: archive_offsets_def)
    moreover have "\<forall>pos\<in>set coffs. 80 + length M \<le> unat pos" using off fl(3) by (fastforce simp: coffs_def)
    ultimately show ?thesis using up hf(7) h(3) fl(3) base by (auto simp: CLUSTER_BASE_OFFSET_def)
  qed
  have tabs: "table_at ?bs (urlPtrPos ?h) (archive_offsets cd base)" "table_at ?bs (clusterPtrPos ?h) coffs"
    using table_in [of ?bs "front @ E" "archive_offsets cd base" _ "urlPtrPos ?h"]
      table_in [of ?bs "front @ E @ concat (map toLittleEndian64 (archive_offsets cd base))" coffs digest "clusterPtrPos ?h"]
      bs(1) pos(1,2) size by auto
  have mimes: "\<forall>m\<in>set (mimeTypesList cd). m \<noteq> [] \<and> 0 \<notin> set m" using fin(1) by (simp add: entries_finished_def)
  have lens: "length (archive_entries cd) = ?n" "length (cluster_list cd ct bls) = ?k" by (simp_all add: archive_entries_def cluster_list_def)
  show ?thesis
    unfolding zim_image_def lens
    using valid t80 len size pos(3) hf(1) count srt tabs ents cls behind d80 mimes base
    by (auto simp: M_def CLUSTER_BASE_OFFSET_def)
qed

section \<open>From the creator to the reader\<close>

lemma entry_place:
  assumes "content_at cd bls a c content" "\<forall>n\<in>set (clustersList cd). w_index (cls n) = w_index (clusters cd ! n)"
    and "\<forall>k<length (clustersList cd). w_index (clusters cd ! (clustersList cd ! k)) = of_nat k" "length (clustersList cd) < 2 ^ 32"
  defines "d \<equiv> wd_dirent (store cd) cls (store cd a)"
  shows "\<exists>k<length (clustersList cd). unat (d_clusterNumber d) = k \<and> clustersList cd ! k = c \<and> unat (d_blobNumber d) < length (bls c) \<and>
    bls c ! unat (d_blobNumber d) = content \<and> \<not> isRedirect d"
proof -
  obtain n b where a: "\<not> wd_isRedirect (store cd a)" "wd_cluster (store cd a) = Some c" "c \<in> set (clustersList cd)"
      "wd_info (store cd a) = DirectInfo n b" "unat b < length (bls c)" "bls c ! unat b = content"
    using assms(1) by (auto simp: content_at_def)
  obtain k where k: "k < length (clustersList cd)" "clustersList cd ! k = c" using a(3) by (auto simp: in_set_conv_nth)
  have "d_clusterNumber d = of_nat k" using a k assms(2,3) by (simp add: d_def wd_dirent_kind wd_getClusterNumber_def) metis
  then have "unat (d_clusterNumber d) = k" using k(1) assms(4) by (simp add: unat_of_nat_small)
  then show ?thesis using a k by (auto simp: d_def wd_dirent_kind wd_getBlobNumber_def)
qed

lemma written_article:
  assumes "ready_to_write cd" "a \<in> set (dirents cd)" "\<not> wd_isRedirect (store cd a)"
  shows "isArticle (wd_dirent st cls (store cd a))"
  using assms by (auto simp: isArticle_def isLinktarget_def isDeleted_def wd_dirent_kind ready_to_write_def wd_writable_def)

lemma written_listing:
  assumes "listings_added cd bls listing" "\<forall>n\<in>set (clustersList cd). w_index (cl ! n) = w_index (clusters cd ! n)"
    and "\<forall>k<length (clustersList cd). w_index (clusters cd ! (clustersList cd ! k)) = of_nat k" "length (clustersList cd) < 2 ^ 32"
  shows "title_listing (archive_entries (cd\<lparr>clusters := cl\<rparr>)) (cluster_list cd (\<lambda>n. w_compression (clusters cd ! n)) bls) listing"
proof -
  obtain d c where d: "d \<in> set (dirents cd)" "wd_ns (store cd d) = 88" "wd_path (store cd d) = str listing_path" "content_at cd bls d c listing"
      "w_compression (clusters cd ! c) \<in> {zimcompDefault, zimcompNone}" "listing \<noteq> []" "length listing \<le> max_transfer"
    using assms(1) by (auto simp: listings_added_def)
  let ?d = "wd_dirent (store cd) (\<lambda>n. cl ! n) (store cd d)"
  have "?d \<in> set (archive_entries (cd\<lparr>clusters := cl\<rparr>))" using d(1) by (auto simp: archive_entries_def)
  moreover have "dirent_key ?d = 88 # str listing_path" using d by (simp add: dirent_key_def wd_dirent_kind)
  ultimately show ?thesis
    using entry_place [OF d(4) assms(2-4)] d(5-7) by (auto simp: title_listing_def cluster_list_def intro!: bexI [of _ ?d])
qed

lemma title_position:
  assumes "fillHeader c cd h0 = Inr h" "tl_dirent (titleListing cd) = Some d" "wd_cluster (store cd d) = Some n"
    and "w_offset (clusters cd ! n) = of_nat p" "1024 \<le> p" "p \<le> max_transfer" "unat (m_titleListBlobOffset cd) \<le> max_transfer"
  shows "1024 \<le> unat (titleIdxPos h)"
proof -
  let ?cl = "clusters cd ! n"
  define w where "w = (ucast (w_count ?cl + 1) * (if w_isExtended ?cl then 8 else 4) :: u64)"
  have t: "titleIdxPos h = of_nat p + (1 + w) + m_titleListBlobOffset cd"
    using assms(1-4) by (auto simp: fillHeader_def Let_def rbind_Inr_iff getDataOffset_def ASSERT_def w_def split: if_splits)
  have "unat w \<le> 2 ^ 36"
  proof -
    have "unat (ucast (w_count ?cl + 1) :: u64) < 2 ^ 32"
      unfolding unat_ucast_mod using unat_bound [of "w_count ?cl + 1"] by (intro le_less_trans [OF mod_less_eq_dividend]) simp
    then show ?thesis by (auto simp: w_def unat_word_ariths)
  qed
  moreover have "unat (of_nat p :: u64) = p" using assms(6) by (simp add: unat_of_nat_small max_transfer_def)
  ultimately have "unat (titleIdxPos h) = p + (1 + unat w) + unat (m_titleListBlobOffset cd)"
    unfolding t using assms(6,7) by (simp add: unat_word_ariths max_transfer_def)
  then show ?thesis using assms(5) by simp
qed

lemma filled_header:
  assumes "tl_dirent (titleListing cd) = Some d" "wd_cluster (store cd d) = Some n" "w_closed (clusters cd ! n)"
  shows "\<exists>h. fillHeader c cd h0 = Inr h"
  using assms by (simp add: fillHeader_def Let_def getDataOffset_def ASSERT_def)

definition serves :: "'st surroundings \<Rightarrow> FileImpl \<Rightarrow> CreatorData \<Rightarrow> addr \<Rightarrow> bytes \<Rightarrow> bool" where
  "serves s fi cd a content \<longleftrightarrow>
     (\<exists>e it b. getEntryByPath (s_junk s) fi (wd_path (store cd a)) = Inr e \<and> getItem (s_junk s) fi False e = Inr it \<and>
        i_getMimetype fi it = (if unat (wd_mimeType (store cd a)) \<ge> length (mimeTypesList cd)
          then Inl (ZimFileFormatError ''unknown mime type code'') else Inr (mimeTypesList cd ! unat (wd_mimeType (store cd a)))) \<and>
        i_getData s fi 0 it = Inr b \<and> blob_string b = content)"

lemma entry_served:
  assumes io: "image_open s decodes fi (archive_entries (cd\<lparr>clusters := cl\<rparr>)) (cluster_list cd ct bls) (mimeTypesList cd) listing"
    and ns: "m_newNamespaceScheme fi" and dist: "distinct (map dirent_key (archive_entries (cd\<lparr>clusters := cl\<rparr>)))"
    and "ready_to_write cd" "a \<in> set (dirents cd)" "wd_ns (store cd a) = 67" "content_at cd bls a k content" "content \<noteq> []"
    and idx: "\<forall>n\<in>set (clustersList cd). w_index (cl ! n) = w_index (clusters cd ! n)"
      "\<forall>k<length (clustersList cd). w_index (clusters cd ! (clustersList cd ! k)) = of_nat k" "length (clustersList cd) < 2 ^ 32"
  shows "serves s fi cd a content"
proof -
  let ?ds = "archive_entries (cd\<lparr>clusters := cl\<rparr>)" and ?d = "wd_dirent (store cd) (\<lambda>n. cl ! n) (store cd a)"
  obtain i where i: "i < length (dirents cd)" "dirents cd ! i = a" using assms(5) by (auto simp: in_set_conv_nth)
  then have d: "i < length ?ds" "?ds ! i = ?d" by (simp_all add: archive_entries_def)
  obtain m where m: "m < length (clustersList cd)" "unat (d_clusterNumber ?d) = m" "clustersList cd ! m = k"
      "unat (d_blobNumber ?d) < length (bls k)" "bls k ! unat (d_blobNumber ?d) = content"
    using entry_place [OF assms(7) idx] by auto
  have art: "isArticle ?d" using written_article [OF assms(4,5)] assms(7) by (simp add: content_at_def)
  have key: "dirent_key ?d = 67 # wd_path (store cd a)" using assms(6) by (simp add: dirent_key_def wd_dirent_kind)
  have cl: "unat (d_clusterNumber ?d) < length (cluster_list cd ct bls)"
      "cluster_list cd ct bls ! unat (d_clusterNumber ?d) = (False, ct k, bls k)" using m by (simp_all add: cluster_list_def)
  have "bls k ! unat (d_blobNumber ?d) \<noteq> []" using m(5) assms(8) by simp
  from image_item_read [OF io ns dist d(1), unfolded d(2), OF key art cl m(4) this, of False] show ?thesis
    unfolding serves_def m(5) wd_dirent_kind(2) .
qed

lemma finished_clusters:
  assumes "entries_finished cd" shows "entries_finished (cd\<lparr>clusters := cl\<rparr>)"
  using assms by (simp add: entries_finished_def ready_to_write_def)

lemma base_long: "cs \<noteq> [] \<Longrightarrow> cs \<noteq> [] \<longrightarrow> (\<exists>rest. bs = replicate n 0 @ rest) \<Longrightarrow> n \<le> length (bs :: bytes)"
  by auto

lemma image_serves:
  assumes img: "zim_image s decodes bs h (archive_entries (cd\<lparr>clusters := cl\<rparr>)) (cluster_list cd (\<lambda>n. w_compression (clusters cd ! n)) bls)
      (mimeTypesList cd)"
    and "listings_added cd bls listing" "clustersList cd \<noteq> []" "ready_to_write cd" "1 \<le> minorVersion h"
    and idx: "\<forall>n\<in>set (clustersList cd). w_index (cl ! n) = w_index (clusters cd ! n)"
      "\<forall>k<length (clustersList cd). w_index (clusters cd ! (clustersList cd ! k)) = of_nat k" "length (clustersList cd) < 2 ^ 32"
    and mk: "makeFileReader zf start sz = Inr (Some r)" "reader_holds r bs" "decoder_ok (s_run s) decodes" "0 < s_lookup_cache s"
  shows "\<exists>fi. new_FileImpl s zf start sz = Inr fi \<and>
    (\<forall>a k content. a \<in> set (dirents cd) \<and> wd_ns (store cd a) = 67 \<and> content_at cd bls a k content \<and> content \<noteq> [] \<longrightarrow>
       serves s fi cd a content)"
proof -
  let ?ds = "archive_entries (cd\<lparr>clusters := cl\<rparr>)" and ?ct = "\<lambda>n. w_compression (clusters cd ! n)"
  have ne: "cluster_list cd ?ct bls \<noteq> []" using assms(3) by (simp add: cluster_list_def)
  obtain fi where fi: "new_FileImpl s zf start sz = Inr fi" "m_newNamespaceScheme fi"
      "image_open s decodes fi ?ds (cluster_list cd ?ct bls) (mimeTypesList cd) listing"
    using image_opens [OF img written_listing [OF assms(2) idx] ne mk] assms(5) by blast
  have dist: "distinct (map dirent_key ?ds)" using img by (simp add: zim_image_def)
  have "\<forall>a k content. a \<in> set (dirents cd) \<and> wd_ns (store cd a) = 67 \<and> content_at cd bls a k content \<and> content \<noteq> [] \<longrightarrow> serves s fi cd a content"
    using entry_served [OF fi(3,2) dist assms(4) _ _ _ _ idx] by blast
  then show ?thesis using fi(1) by blast
qed

text \<open>
  Let a creator have its entries in order and its contents in clusters, and let the threads of the creator run, in any
  interleaving, until the main thread is done. Then \<^verbatim>\<open>Creator::write\<close> succeeds, and every reader over the bytes of the file it
  leaves behind (of at most the size of one transfer) is accepted by the constructor of \<^verbatim>\<open>FileImpl\<close> and serves the
  contents.
\<close>

lemma written_archive_serves:
  assumes "entries_finished cd" "clusters_filled cd bls" "listings_added cd bls listing"
    and fit: "\<forall>ct. codecs_fit erun (codec_state ct elzma ezstd) (s_run s) (codec_state ct (s_lzma s) (s_zstd s)) decodes"
    and run: "(pipe_step (w_close erun elzma ezstd junk) junk)\<^sup>*\<^sup>* (pipe_start n (clustersList cd) (clusters cd) (snd (startZimCreation c))) t"
    and ended: "p_main t = MainDone"
    and "length (m_uuid c) = 16" "length (md5_buffer ctx) = 64" "0 < s_lookup_cache s"
  shows "\<exists>cd' h out'. creator_write c h0 ctx (cd\<lparr>clusters := p_clusters t\<rparr>) (out_fd t) = Inr (cd', h, out') \<and>
    (\<forall>zf start sz r. length (f_contents out') \<le> max_transfer \<longrightarrow> makeFileReader zf start sz = Inr (Some r) \<longrightarrow>
       reader_holds r (f_contents out') \<longrightarrow>
       (\<exists>fi. new_FileImpl s zf start sz = Inr fi \<and>
          (\<forall>a k content. a \<in> set (dirents cd) \<and> wd_ns (store cd a) = 67 \<and> content_at cd bls a k content \<and> content \<noteq> [] \<longrightarrow>
             serves s fi cd a content)))"
proof -
  let ?cd = "cd\<lparr>clusters := p_clusters t\<rparr>" and ?base = "f_contents (out_fd t)" and ?ct = "\<lambda>n. w_compression (clusters cd ! n)"
  have cs: "distinct (clustersList cd)" "clustersList cd \<noteq> []"
    and filled: "\<forall>c\<in>set (clustersList cd). c < length (clusters cd) \<and> wcluster_holds (clusters cd ! c) (bls c) \<and> cluster_fits False (bls c) \<and>
        length (cluster_plain False (bls c)) \<le> 2 ^ 30 \<and>
        w_compression (clusters cd ! c) \<in> {zimcompDefault, zimcompNone, zimcompLzma, zimcompZstd}"
    and idx: "\<forall>k<length (clustersList cd). w_index (clusters cd ! (clustersList cd ! k)) = of_nat k"
    using assms(2) by (auto simp: clusters_filled_def)
  have out: "file_padded (snd (startZimCreation c)) (replicate 1024 0)" by (simp add: startZimCreation_def file_padded_def CLUSTER_BASE_OFFSET_def)
  note lay = pipeline_layout [OF cs(1) filled fit out run]
  have base: "CLUSTER_BASE_OFFSET \<le> length ?base"
    using base_long [OF cs(2), of ?base 1024] lay(3) [OF ended] by (simp add: CLUSTER_BASE_OFFSET_def)
  have at: "\<exists>p body. cluster_done (clusters cd ! n) (of_nat p) (p_clusters t ! n) \<and> 1024 \<le> p \<and>
      drop p ?base = cluster_info False (?ct n) # body \<and>
      (\<forall>post. cluster_body decodes (s_lzma s) (s_zstd s) False (?ct n) (bls n) (body @ post))" if "n \<in> set (clustersList cd)" for n
    using lay(4) [OF ended that] by simp
  obtain d m where d: "tl_dirent (titleListing cd) = Some d" "wd_cluster (store cd d) = Some m" "m \<in> set (clustersList cd)"
      "unat (m_titleListBlobOffset cd) \<le> max_transfer"
    using assms(3) by (auto simp: listings_added_def)
  obtain p body where p: "cluster_done (clusters cd ! m) (of_nat p) (p_clusters t ! m)" "1024 \<le> p"
      "drop p ?base = cluster_info False (?ct m) # body" using at [OF d(3)] by blast
  obtain h where h: "fillHeader c ?cd h0 = Inr h"
    using filled_header [of ?cd d m c h0] d p(1) by (auto simp: cluster_done_def)
  have fin: "entries_finished ?cd" by (rule finished_clusters [OF assms(1)])
  then have ready: "ready_to_write ?cd" by (simp add: entries_finished_def)
  obtain cd' out' where w: "creator_write c h0 ctx ?cd (out_fd t) = Inr (cd', final_header ?cd ?base h, out')"
      "f_contents out' = archive_file ?cd ?base (final_header ?cd ?base h)"
    using creator_write_file [OF ready refl base h assms(7,8)] by blast
  show ?thesis
  proof (rule exI [of _ cd'], rule exI [of _ "final_header ?cd ?base h"], rule exI [of _ out'], intro conjI allI impI)
    show "creator_write c h0 ctx ?cd (out_fd t) = Inr (cd', final_header ?cd ?base h, out')" by (rule w(1))
    fix zf start sz r
    assume small: "length (f_contents out') \<le> max_transfer" and mk: "makeFileReader zf start sz = Inr (Some r)" and r: "reader_holds r (f_contents out')"
    have len: "length (f_contents out') = length ?base + length (concat (map (entry_bytes (store ?cd) (\<lambda>n. clusters ?cd ! n)) (dirents ?cd))) +
        8 * length (dirents ?cd) + 8 * length (clustersList ?cd) + 16"
      unfolding w(2) using fillHeader_fields(2) [OF h] assms(7)
      by (intro file_layout(6) ready base) (simp add: final_header_def Let_def)
    have "p \<le> length ?base" using p(3) by (cases "p \<le> length ?base") auto
    then have pl: "p \<le> max_transfer" using len small by linarith
    have title: "1024 \<le> unat (titleIdxPos h)"
      using title_position [OF h, of d m p] d p pl by (simp add: cluster_done_def)
    have img: "zim_image s decodes (f_contents out') (final_header ?cd ?base h) (archive_entries ?cd) (cluster_list ?cd ?ct bls) (mimeTypesList ?cd)"
      unfolding w(2)
    proof (rule written_image [OF fin ready base h assms(7) title small [unfolded w(2)]])
      show "clustersList ?cd \<noteq> []" using cs(2) by simp
      show "\<forall>n\<in>set (clustersList ?cd). \<exists>p body. w_offset (clusters ?cd ! n) = of_nat p \<and> 1024 \<le> p \<and>
          drop p ?base = cluster_info False (?ct n) # body \<and>
          (\<forall>post. cluster_body decodes (s_lzma s) (s_zstd s) False (?ct n) (bls n) (body @ post))"
        using at by (fastforce simp: cluster_done_def)
    qed
    have widx: "\<forall>n\<in>set (clustersList cd). w_index (p_clusters t ! n) = w_index (clusters cd ! n)" using at by (fastforce simp: cluster_done_def)
    have few: "length (clustersList cd) < 2 ^ 32" using len small by (simp add: max_transfer_def)
    have dec: "decoder_ok (s_run s) decodes" using fit by (simp add: codecs_fit_def)
    have cl: "cluster_list ?cd ?ct bls = cluster_list cd ?ct bls" "mimeTypesList ?cd = mimeTypesList cd" by (simp_all add: cluster_list_def)
    have minor: "1 \<le> minorVersion (final_header ?cd ?base h)"
      using h by (auto simp: final_header_def Let_def fillHeader_def rbind_Inr_iff header_consts split: option.splits)
    have "ready_to_write cd" using assms(1) by (simp add: entries_finished_def)
    then show "\<exists>fi. new_FileImpl s zf start sz = Inr fi \<and>
          (\<forall>a k content. a \<in> set (dirents cd) \<and> wd_ns (store cd a) = 67 \<and> content_at cd bls a k content \<and> content \<noteq> [] \<longrightarrow>
             serves s fi cd a content)"
      by (rule image_serves [OF img [unfolded cl] assms(3) cs(2) _ minor widx idx few mk r dec assms(9)])
  qed
qed

end
