(* ===== verification/Creator_Contents.thy ===== *)
theory Creator_Contents
  imports Creator_Finish
begin

text \<open>
  What a creator has been given, and what it holds of it. The calls of an application are values of a datatype; their
  meaning as a specification is a finite map from the place of an entry to its mime type and its content, in which the
  first call for a place wins. The invariant here ties the data of the creator to that map: every cluster holds
  exactly the contents placed in it, and every item names the cluster and the blob of its own content. It is kept by
  every call and by every part of \<^verbatim>\<open>finishZimCreation\<close>.
\<close>

section \<open>Calls and what they mean\<close>

datatype call =
    AddItem Item
  | AddMetadata bytes ContentProvider bytes
  | AddRedirection bytes bytes bytes "u64 option"

fun creator_call :: "CreatorData \<Rightarrow> call \<Rightarrow> CreatorData res" where
  "creator_call cd (AddItem it) = addItem it cd"
| "creator_call cd (AddMetadata name provider mimetype) = addMetadata name provider mimetype cd"
| "creator_call cd (AddRedirection path title target front) = Inr (addRedirection path title target front cd)"

type_synonym entry_spec = "byte \<times> bytes \<rightharpoonup> bytes \<times> bytes"

definition add_once :: "byte \<times> bytes \<Rightarrow> bytes \<times> bytes \<Rightarrow> entry_spec \<Rightarrow> entry_spec" where
  "add_once k v m = (case m k of None \<Rightarrow> m(k \<mapsto> v) | Some _ \<Rightarrow> m)"

definition item_mimetype :: "Item \<Rightarrow> bytes" where
  "item_mimetype it = (if it_mimetype it = [] then str ''application/octet-stream'' else it_mimetype it)"

text \<open>\<open>gives\<close> is the content that a provider hands out.\<close>

fun call_spec :: "(ContentProvider \<Rightarrow> bytes) \<Rightarrow> call \<Rightarrow> entry_spec \<Rightarrow> entry_spec" where
  "call_spec gives (AddItem it) = add_once (67, it_path it) (item_mimetype it, gives (it_provider it))"
| "call_spec gives (AddMetadata name provider mimetype) = add_once (77, name) (mimetype, gives provider)"
| "call_spec gives (AddRedirection path title target front) = id"

definition entries_of :: "(ContentProvider \<Rightarrow> bytes) \<Rightarrow> call list \<Rightarrow> entry_spec" where
  "entries_of gives calls = fold (call_spec gives) calls Map.empty"

text \<open>What the format asks of the strings of a call: no null byte inside, short enough for one read of the reader; and
  a provider that keeps its word.\<close>

definition strings_ok :: "bytes \<Rightarrow> bytes \<Rightarrow> bool" where
  "strings_ok path title \<longleftrightarrow> 0 \<notin> set path \<and> 0 \<notin> set title \<and> length path + length title < 200"

fun call_ok :: "(ContentProvider \<Rightarrow> bytes) \<Rightarrow> call \<Rightarrow> bool" where
  "call_ok gives (AddItem it) \<longleftrightarrow> strings_ok (it_path it) (it_title it) \<and> 0 \<notin> set (it_mimetype it) \<and>
     provider_gives (it_provider it) (gives (it_provider it))"
| "call_ok gives (AddMetadata name provider mimetype) \<longleftrightarrow> strings_ok name [] \<and> mimetype \<noteq> [] \<and> 0 \<notin> set mimetype \<and>
     provider_gives provider (gives provider)"
| "call_ok gives (AddRedirection path title target front) \<longleftrightarrow> strings_ok path title"

fun call_size :: "(ContentProvider \<Rightarrow> bytes) \<Rightarrow> call \<Rightarrow> nat" where
  "call_size gives (AddItem it) = length (gives (it_provider it)) + 16"
| "call_size gives (AddMetadata name provider mimetype) = length (gives provider) + 16"
| "call_size gives (AddRedirection path title target front) = 16"

fun call_front :: "call \<Rightarrow> bool" where
  "call_front (AddItem it) \<longleftrightarrow> (case it_hint_front it of None \<Rightarrow> False | Some v \<Rightarrow> v \<noteq> 0)"
| "call_front _ \<longleftrightarrow> False"

section \<open>Contents in clusters\<close>

definition held_at :: "CreatorData \<Rightarrow> (nat \<Rightarrow> bytes list) \<Rightarrow> addr \<Rightarrow> bytes \<Rightarrow> bool" where
  "held_at cd bls a content \<longleftrightarrow> \<not> wd_isRedirect (store cd a) \<and>
     (\<exists>c n b. wd_cluster (store cd a) = Some c \<and> c < length (clusters cd) \<and> wd_info (store cd a) = DirectInfo n b \<and>
        unat b < length (bls c) \<and> bls c ! unat b = content)"

definition blobs_weight :: "bytes list \<Rightarrow> nat" where
  "blobs_weight bs = sum_list (map (\<lambda>b. length b + 4) bs)"

definition weight :: "(nat \<Rightarrow> bytes list) \<Rightarrow> CreatorData \<Rightarrow> nat" where
  "weight bls cd = (\<Sum>c<length (clusters cd). blobs_weight (bls c))"

definition clusters_hold :: "CreatorData \<Rightarrow> (nat \<Rightarrow> bytes list) \<Rightarrow> bool" where
  "clusters_hold cd bls \<longleftrightarrow> clusters_ok cd \<and>
     (\<forall>c<length (clusters cd). wcluster_holds (clusters cd ! c) (bls c) \<and>
        w_compression (clusters cd ! c) \<in> {cd_compression cd, zimcompNone}) \<and>
     w_compression (clusters cd ! uncompCluster cd) = zimcompNone \<and>
     (\<forall>c\<ge>length (clusters cd). bls c = []) \<and>
     (\<forall>k<length (clustersList cd). w_index (clusters cd ! (clustersList cd ! k)) = of_nat k \<and> bls (clustersList cd ! k) \<noteq> []) \<and>
     {..<length (clusters cd)} \<subseteq> set (clustersList cd) \<union> {compCluster cd, uncompCluster cd}"

text \<open>Clusters only grow, and keep their compression.\<close>

definition grows :: "CreatorData \<Rightarrow> (nat \<Rightarrow> bytes list) \<Rightarrow> CreatorData \<Rightarrow> (nat \<Rightarrow> bytes list) \<Rightarrow> bool" where
  "grows cd bls cd' bls' \<longleftrightarrow> length (clusters cd) \<le> length (clusters cd') \<and> cd_compression cd' = cd_compression cd \<and>
     (\<forall>c. \<exists>new. bls' c = bls c @ new) \<and>
     (\<forall>c<length (clusters cd). w_compression (clusters cd' ! c) = w_compression (clusters cd ! c))"

lemma grows_refl: "grows cd bls cd bls"
  by (simp add: grows_def)

lemma grows_trans: "grows cd bls cd1 bls1 \<Longrightarrow> grows cd1 bls1 cd2 bls2 \<Longrightarrow> grows cd bls cd2 bls2"
  unfolding grows_def by (metis append.assoc order.strict_trans2 order.trans)

lemma held_grows:
  assumes "held_at cd bls a content" "grows cd bls cd' bls'" "store cd' a = store cd a"
  shows "held_at cd' bls' a content"
proof -
  obtain c n b where h: "\<not> wd_isRedirect (store cd a)" "wd_cluster (store cd a) = Some c" "c < length (clusters cd)"
      "wd_info (store cd a) = DirectInfo n b" "unat b < length (bls c)" "bls c ! unat b = content"
    using assms(1) by (auto simp: held_at_def)
  obtain new where "bls' c = bls c @ new" using assms(2) by (auto simp: grows_def)
  then show ?thesis using h assms(2,3) by (auto simp: held_at_def grows_def nth_append)
qed

lemma length_le_weight: "length bs \<le> blobs_weight bs" "length (concat bs) + 4 * length bs = blobs_weight bs"
  by (induction bs) (auto simp: blobs_weight_def)

lemma blobs_le_weight:
  assumes "clusters_hold cd bls" shows "blobs_weight (bls c) \<le> weight bls cd"
proof (cases "c < length (clusters cd)")
  case True
  then show ?thesis unfolding weight_def by (intro member_le_sum) auto
next
  case False
  then show ?thesis using assms by (simp add: clusters_hold_def blobs_weight_def)
qed

lemma current_cluster_less: "clusters_ok cd \<Longrightarrow> current_cluster b cd < length (clusters cd)"
  by (simp add: clusters_ok_def current_cluster_def)

lemma wcluster_holds_index: "wcluster_holds (c\<lparr>w_index := i\<rparr>) bs = wcluster_holds c bs"
  by (simp add: wcluster_holds_def)

lemma closeCluster_holds:
  assumes h: "clusters_hold cd bls" and ne: "bls (current_cluster b cd) \<noteq> []"
  shows "clusters_hold (closeCluster b cd) bls" "grows cd bls (closeCluster b cd) bls" "weight bls (closeCluster b cd) = weight bls cd"
proof -
  let ?cd = "closeCluster b cd" and ?c = "current_cluster b cd" and ?n = "length (clusters cd)"
  have ok: "clusters_ok cd" using h by (simp add: clusters_hold_def)
  have c: "?c < ?n" "?c \<notin> set (clustersList cd)" using ok by (auto simp: clusters_ok_def current_cluster_def)
  have comp: "cd_compression ?cd = cd_compression cd" by (simp add: closeCluster_def Let_def)
  have nth: "clusters ?cd ! k = (if k = ?c then (clusters cd ! ?c)\<lparr>w_index := of_nat (length (clustersList cd))\<rparr>
      else if k < ?n then clusters cd ! k else new_WCluster (if b then cd_compression cd else zimcompNone))" if "k < Suc ?n" for k
    using that c(1) by (auto simp: closeCluster_fields nth_append)
  have len: "length (clusters ?cd) = Suc ?n" by (simp add: closeCluster_fields)
  have empty: "bls ?n = []" using h by (simp add: clusters_hold_def)
  have 1: "wcluster_holds (clusters ?cd ! k) (bls k) \<and> w_compression (clusters ?cd ! k) \<in> {cd_compression cd, zimcompNone}"
    if "k < Suc ?n" for k
    using that h c(1) empty new_WCluster_holds by (cases "k < ?n") (auto simp: nth wcluster_holds_index clusters_hold_def new_WCluster_def)
  have 2: "w_index (clusters ?cd ! (clustersList ?cd ! k)) = of_nat k \<and> bls (clustersList ?cd ! k) \<noteq> []"
    if "k < length (clustersList ?cd)" for k
  proof (cases "k = length (clustersList cd)")
    case True
    then show ?thesis using c ne by (simp add: closeCluster_fields nth [unfolded closeCluster_fields])
  next
    case False
    then have k: "k < length (clustersList cd)" using that by (simp add: closeCluster_fields)
    have "clustersList cd ! k \<in> {..<?n}" using ok nth_mem [OF k] unfolding clusters_ok_def by blast
    moreover have "clustersList cd ! k \<noteq> ?c" using c(2) nth_mem [OF k] by metis
    ultimately show ?thesis using h k by (simp add: nth closeCluster_fields(2) nth_append clusters_hold_def)
  qed
  have 3: "w_compression (clusters ?cd ! uncompCluster ?cd) = zimcompNone"
    using h ok nth [of "uncompCluster ?cd"] by (auto simp: closeCluster_fields clusters_hold_def clusters_ok_def current_cluster_def new_WCluster_def)
  have 4: "{..<Suc ?n} \<subseteq> set (clustersList ?cd) \<union> {compCluster ?cd, uncompCluster ?cd}"
    using h unfolding clusters_hold_def lessThan_Suc closeCluster_fields current_cluster_def by (cases b) (simp, blast)+
  show "clusters_hold ?cd bls"
    unfolding clusters_hold_def len comp using closeCluster_ok [OF ok, of b] 1 2 3 4 h by (auto simp: clusters_hold_def)
  show "grows cd bls ?cd bls" using c(1) by (auto simp: grows_def len comp nth)
  show "weight bls ?cd = weight bls cd" using empty by (simp add: weight_def len blobs_weight_def)
qed

lemma make_room_holds:
  assumes h: "clusters_hold cd bls" and small: "weight bls cd < 2 ^ 32" and m: "make_room n b cd = Inr cd'"
  shows "clusters_hold cd' bls" "grows cd bls cd' bls" "weight bls cd' = weight bls cd" "store cd' = store cd"
proof -
  let ?c = "current_cluster b cd"
  have "wcluster_holds (clusters cd ! ?c) (bls ?c)" using h current_cluster_less by (simp add: clusters_hold_def)
  then have cnt: "w_count (clusters cd ! ?c) = of_nat (length (bls ?c))" by (simp add: wcluster_holds_def)
  consider "cd' = cd" | "cd' = closeCluster b cd" "w_count (clusters cd ! ?c) \<noteq> 0"
    using m by (auto simp: make_room_def rbind_Inr_iff Let_def split: if_splits)
  then have "clusters_hold cd' bls \<and> grows cd bls cd' bls \<and> weight bls cd' = weight bls cd \<and> store cd' = store cd"
  proof cases
    case 1
    then show ?thesis using h grows_refl by blast
  next
    case 2
    then have "bls ?c \<noteq> []" using cnt by auto
    from closeCluster_holds [OF h this] show ?thesis using 2(1) by (simp add: closeCluster_fields)
  qed
  then show "clusters_hold cd' bls" "grows cd bls cd' bls" "weight bls cd' = weight bls cd" "store cd' = store cd" by simp_all
qed

lemma place_content_holds:
  assumes h: "clusters_hold cd bls" and small: "weight bls cd < 2 ^ 32" and p: "provider_gives p bl"
    and d: "wd_isItem (store cd d)" and m: "place_content d p b cd = Inr cd'"
  shows "\<exists>bls'. clusters_hold cd' bls' \<and> grows cd bls cd' bls' \<and> weight bls' cd' = weight bls cd + length bl + 4 \<and>
    held_at cd' bls' d bl \<and> wd_cluster (store cd' d) = Some (current_cluster b cd') \<and>
    (\<exists>n k. wd_info (store cd d) = DirectInfo n k \<and>
      store cd' = (store cd)(d := (store cd d)\<lparr>wd_cluster := Some (current_cluster b cd), wd_info := DirectInfo n (of_nat (length (bls (current_cluster b cd))))\<rparr>))"
proof -
  let ?c = "current_cluster b cd" and ?n = "length (clusters cd)"
  define bls' where "bls' = bls(?c := bls ?c @ [bl])"
  have ok: "clusters_ok cd" using h by (simp add: clusters_hold_def)
  have c: "?c < ?n" by (rule current_cluster_less [OF ok])
  have w: "wcluster_holds (clusters cd ! ?c) (bls ?c)" using h c by (simp add: clusters_hold_def)
  then have cnt: "w_count (clusters cd ! ?c) = of_nat (length (bls ?c))" by (simp add: wcluster_holds_def)
  have "length (bls ?c) < 2 ^ 32" using small blobs_le_weight [OF h, of ?c] length_le_weight(1) [of "bls ?c"] by linarith
  then have len: "unat (of_nat (length (bls ?c)) :: u32) = length (bls ?c)" by (simp add: unat_of_nat_small)
  obtain n k where inf: "wd_info (store cd d) = DirectInfo n k"
    and st: "store cd' = (store cd)(d := (store cd d)\<lparr>wd_cluster := Some ?c, wd_info := DirectInfo n (of_nat (length (bls ?c)))\<rparr>)"
    and cl: "clusters cd' = (clusters cd)[?c := addContent p (clusters cd ! ?c)]"
    and fr: "clustersList cd' = clustersList cd" "compCluster cd' = compCluster cd" "uncompCluster cd' = uncompCluster cd"
      "cd_compression cd' = cd_compression cd"
    using m cnt by (auto simp: place_content_def rbind_Inr_iff wd_setCluster_def ASSERT_def Let_def split: if_splits DirentInfo.splits)
  have nth: "clusters cd' ! k = (if k = ?c then addContent p (clusters cd ! ?c) else clusters cd ! k)" for k
    using c by (simp add: cl)
  have n': "length (clusters cd') = ?n" by (simp add: cl)
  have frame: "w_compression (addContent p x) = w_compression x" "w_index (addContent p x) = w_index x" for x
    by (simp_all add: addContent_def Let_def)
  have same: "w_compression (clusters cd' ! k) = w_compression (clusters cd ! k)" "w_index (clusters cd' ! k) = w_index (clusters cd ! k)" for k
    by (simp_all add: nth frame)
  have "clusters_ok cd'" using ok c set_update_subset_insert [of "clusters cd" ?c "addContent p (clusters cd ! ?c)"]
    by (auto simp: clusters_ok_def cl fr w_closed_addContent)
  moreover have "wcluster_holds (clusters cd' ! k) (bls' k) \<and> w_compression (clusters cd' ! k) \<in> {cd_compression cd, zimcompNone}"
    if "k < ?n" for k using that h c addContent_holds [OF w p] by (auto simp: nth bls'_def frame clusters_hold_def)
  ultimately have 1: "clusters_hold cd' bls'"
    using h c unfolding clusters_hold_def fr n' same by (simp add: bls'_def)
  have 2: "grows cd bls cd' bls'" by (auto simp: grows_def n' fr same bls'_def)
  have "weight bls' cd' = blobs_weight (bls' ?c) + (\<Sum>k\<in>{..<?n} - {?c}. blobs_weight (bls' k))"
    unfolding weight_def cl length_list_update using c by (intro sum.remove) auto
  moreover have "weight bls cd = blobs_weight (bls ?c) + (\<Sum>k\<in>{..<?n} - {?c}. blobs_weight (bls k))"
    unfolding weight_def using c by (intro sum.remove) auto
  moreover have "(\<Sum>k\<in>{..<?n} - {?c}. blobs_weight (bls' k)) = (\<Sum>k\<in>{..<?n} - {?c}. blobs_weight (bls k))"
    by (intro sum.cong) (auto simp: bls'_def)
  ultimately have 3: "weight bls' cd' = weight bls cd + length bl + 4" by (simp add: bls'_def blobs_weight_def)
  have 4: "held_at cd' bls' d bl" using d c len by (auto simp: held_at_def st cl bls'_def wd_isItem_def wd_isRedirect_def)
  have "wd_cluster (store cd' d) = Some (current_cluster b cd')" by (simp add: st current_cluster_def fr)
  then show ?thesis using 1 2 3 4 inf st by (intro exI [of _ bls']) simp
qed

lemma addItemData_holds:
  assumes h: "clusters_hold cd bls" and small: "weight bls cd < 2 ^ 32" and p: "provider_gives p bl"
    and d: "wd_isItem (store cd d)" and m: "addItemData d p b cd = Inr cd'"
  shows "\<exists>bls' c i. clusters_hold cd' bls' \<and> grows cd bls cd' bls' \<and> weight bls' cd' = weight bls cd + length bl + 4 \<and>
    held_at cd' bls' d bl \<and> c = current_cluster b cd' \<and>
    store cd' = (store cd)(d := (store cd d)\<lparr>wd_cluster := Some c, wd_info := i\<rparr>)"
proof -
  let ?cd0 = "if provider_getSize p > 0 then cd\<lparr>cd_isEmpty := False\<rparr> else cd"
  have 0: "clusters_hold ?cd0 bls" "grows cd bls ?cd0 bls" "weight bls ?cd0 = weight bls cd" "store ?cd0 = store cd"
    using h by (simp_all add: clusters_hold_def clusters_ok_def grows_def weight_def)
  obtain cd1 where 1: "make_room (provider_getSize p) b ?cd0 = Inr cd1" "place_content d p b cd1 = Inr cd'"
    using m by (auto simp: addItemData_def rbind_Inr_iff Let_def)
  note room = make_room_holds [OF 0(1) _ 1(1)]
  have st1: "store cd1 = store cd" "weight bls cd1 = weight bls cd" using room small 0 by simp_all
  obtain bls' where 2: "clusters_hold cd' bls'" "grows cd1 bls cd' bls'" "weight bls' cd' = weight bls cd1 + length bl + 4"
      "held_at cd' bls' d bl" "wd_cluster (store cd' d) = Some (current_cluster b cd')"
      "\<exists>n k. wd_info (store cd1 d) = DirectInfo n k \<and> store cd' = (store cd1)(d := (store cd1 d)\<lparr>wd_cluster := Some (current_cluster b cd1),
         wd_info := DirectInfo n (of_nat (length (bls (current_cluster b cd1))))\<rparr>)"
    using place_content_holds [OF room(1) _ p _ 1(2)] small 0 d st1 by auto
  have "grows cd bls cd' bls'" using grows_trans [OF 0(2) grows_trans [OF room(2) 2(2)]] small 0 by simp
  moreover obtain n where st: "store cd' = (store cd)(d := (store cd d)\<lparr>wd_cluster := Some (current_cluster b cd1),
      wd_info := DirectInfo n (of_nat (length (bls (current_cluster b cd1))))\<rparr>)" using 2(6) st1 by auto
  moreover have "current_cluster b cd1 = current_cluster b cd'" using 2(5) st by simp
  ultimately show ?thesis using 2 st1 by (intro exI [of _ bls']) auto
qed

section \<open>Entries\<close>

definition entry_key :: "WDirent \<Rightarrow> byte \<times> bytes" where
  "entry_key d = (wd_ns d, wd_path d)"

lemma entry_key_url: "url_key a = url_key b \<longleftrightarrow> entry_key a = entry_key b"
  by (simp add: url_key_eq entry_key_def)

text \<open>Every item but the listings is in the specification, with its mime type and its content, and everything in the
  specification is an item.\<close>

definition items_match :: "CreatorData \<Rightarrow> (nat \<Rightarrow> bytes list) \<Rightarrow> entry_spec \<Rightarrow> bool" where
  "items_match cd bls spec \<longleftrightarrow>
     (\<forall>a\<in>set (dirents cd). \<not> wd_isRedirect (store cd a) \<longrightarrow> wd_ns (store cd a) \<noteq> 88 \<longrightarrow>
        (\<exists>m content. spec (entry_key (store cd a)) = Some (m, content) \<and> (wd_mimeType (store cd a), m) \<in> set (rmimeTypesMap cd) \<and>
           held_at cd bls a content)) \<and>
     (\<forall>k\<in>dom spec. \<exists>a\<in>set (dirents cd). entry_key (store cd a) = k \<and> \<not> wd_isRedirect (store cd a))"

definition strings_fit :: "byte set \<Rightarrow> CreatorData \<Rightarrow> bool" where
  "strings_fit N cd \<longleftrightarrow>
     (\<forall>a\<in>set (dirents cd). wd_ns (store cd a) \<in> N \<and> strings_ok (wd_path (store cd a)) (wd_title (store cd a))) \<and>
     (\<forall>m\<in>snd ` set (rmimeTypesMap cd). m \<noteq> [] \<and> 0 \<notin> set m)"

lemma createDirent_parts:
  assumes "createDirent ns path m title cd = Inr (d, cd1)"
  obtains mime cd0 cd2 where "getMimeTypeIdx m cd = Inr (mime, cd0)" "cd1 = addDirent d cd2"
    "with_dirent (\<lambda>d. d\<lparr>wd_ns := ns, wd_path := path, wd_mimeType := mime, wd_title := title\<rparr>) cd0 = (d, cd2)"
proof -
  obtain r where r: "getMimeTypeIdx m cd = Inr r" "(case r of (mime, cd) \<Rightarrow>
      case with_dirent (\<lambda>d. d\<lparr>wd_ns := ns, wd_path := path, wd_mimeType := mime, wd_title := title\<rparr>) cd of (a, cd) \<Rightarrow> Inr (a, addDirent a cd)) = (Inr (d, cd1) :: (addr \<times> CreatorData) res)"
    using assms unfolding createDirent_def rbind_Inr_iff by (elim exE conjE) (rule that)
  obtain mime cd0 where "r = (mime, cd0)" by fastforce
  moreover obtain e cd2 where w: "with_dirent (\<lambda>d. d\<lparr>wd_ns := ns, wd_path := path, wd_mimeType := mime, wd_title := title\<rparr>) cd0 = (e, cd2)"
    by fastforce
  ultimately have "getMimeTypeIdx m cd = Inr (mime, cd0)" "e = d" "cd1 = addDirent d cd2" using r by auto
  with w show thesis by (intro that) simp_all
qed

text \<open>What creating an entry leaves alone.\<close>

definition same_contents :: "CreatorData \<Rightarrow> CreatorData \<Rightarrow> bool" where
  "same_contents cd cd' \<longleftrightarrow> clusters cd' = clusters cd \<and> clustersList cd' = clustersList cd \<and> compCluster cd' = compCluster cd \<and>
     uncompCluster cd' = uncompCluster cd \<and> cd_compression cd' = cd_compression cd"

definition same_listings :: "CreatorData \<Rightarrow> CreatorData \<Rightarrow> bool" where
  "same_listings cd cd' \<longleftrightarrow> titleListing cd' = titleListing cd \<and> titleListingV1 cd' = titleListingV1 cd \<and> mimeTypesList cd' = mimeTypesList cd"

lemma addDirent_same:
  "same_contents cd (addDirent d cd)" "same_listings cd (addDirent d cd)" "rmimeTypesMap (addDirent d cd) = rmimeTypesMap cd"
  by (auto simp: addDirent_def Let_def same_contents_def same_listings_def split: prod.split option.split)

lemma with_dirent_same:
  assumes "with_dirent fill cd = (d, cd1)"
  shows "same_contents cd cd1" "same_listings cd cd1" "rmimeTypesMap cd1 = rmimeTypesMap cd" "store cd1 = (store cd)(d := fill (store cd d))"
  using assms by (auto simp: with_dirent_def same_contents_def same_listings_def split: prod.splits)

lemma getMimeTypeIdx_same:
  assumes "getMimeTypeIdx m cd = Inr (i, cd1)"
  shows "same_contents cd cd1" "same_listings cd cd1"
  using assms by (auto simp: getMimeTypeIdx_def same_contents_def same_listings_def split: option.splits if_splits)

lemma same_trans:
  "same_contents a b \<Longrightarrow> same_contents b c \<Longrightarrow> same_contents a c" "same_listings a b \<Longrightarrow> same_listings b c \<Longrightarrow> same_listings a c"
  by (simp_all add: same_contents_def same_listings_def)

lemma createDirent_same:
  assumes "createDirent ns path m title cd = Inr (d, cd1)"
  shows "same_contents cd cd1" "same_listings cd cd1"
proof -
  obtain mime cd0 cd2 where g: "getMimeTypeIdx m cd = Inr (mime, cd0)" "cd1 = addDirent d cd2"
      "with_dirent (\<lambda>d. d\<lparr>wd_ns := ns, wd_path := path, wd_mimeType := mime, wd_title := title\<rparr>) cd0 = (d, cd2)"
    using createDirent_parts [OF assms] .
  note steps = getMimeTypeIdx_same [OF g(1)] with_dirent_same(1,2) [OF g(3)]
  show "same_contents cd cd1" unfolding g(2) by (rule same_trans(1) [OF same_trans(1) [OF steps(1,3)] addDirent_same(1)])
  show "same_listings cd cd1" unfolding g(2) by (rule same_trans(2) [OF same_trans(2) [OF steps(2,4)] addDirent_same(2)])
qed

lemma createRedirectDirent_same:
  assumes "createRedirectDirent ns path title tns tpath cd = (d, cd1)"
  shows "same_contents cd cd1" "same_listings cd cd1" "rmimeTypesMap cd1 = rmimeTypesMap cd"
proof -
  obtain cd0 where w: "with_dirent (\<lambda>d. wd_setRedirect None (d\<lparr>wd_ns := ns, wd_path := path, wd_title := title,
         wd_redirectNs := tns, wd_redirectPath := tpath\<rparr>)) cd = (d, cd0)" and cd1: "cd1 = addDirent d cd0"
    using assms unfolding createRedirectDirent_def by (auto split: prod.splits)
  show "same_contents cd cd1" unfolding cd1 by (rule same_trans(1) [OF with_dirent_same(1) [OF w] addDirent_same(1)])
  show "same_listings cd cd1" unfolding cd1 by (rule same_trans(2) [OF with_dirent_same(2) [OF w] addDirent_same(2)])
  show "rmimeTypesMap cd1 = rmimeTypesMap cd" unfolding cd1 by (simp add: addDirent_same with_dirent_same(3) [OF w])
qed

lemma createDirent_mime:
  assumes "mimes_ok cd" "createDirent ns path m title cd = Inr (d, cd1)"
  shows "set (rmimeTypesMap cd1) = insert (wd_mimeType (store cd1 d), m) (set (rmimeTypesMap cd))"
proof -
  obtain mime cd0 cd2 where g: "getMimeTypeIdx m cd = Inr (mime, cd0)" "cd1 = addDirent d cd2"
      "with_dirent (\<lambda>d. d\<lparr>wd_ns := ns, wd_path := path, wd_mimeType := mime, wd_title := title\<rparr>) cd0 = (d, cd2)"
    using createDirent_parts [OF assms(2)] .
  have "rmimeTypesMap cd1 = rmimeTypesMap cd0" "wd_mimeType (store cd1 d) = mime"
    using g(2) with_dirent_same [OF g(3)] by (simp_all add: addDirent_same addDirent_frame)
  moreover have "set (rmimeTypesMap cd0) = insert (mime, m) (set (rmimeTypesMap cd))"
    using g(1) assms(1) by (auto simp: getMimeTypeIdx_def set_insort_key mimes_ok_def split: option.splits if_splits)
  ultimately show ?thesis by simp
qed

text \<open>A new item: it is listed unless its place has an item already.\<close>

lemma createDirent_entry:
  assumes ok: "creator_ok cd" "mimes_ok cd" and c: "createDirent ns path m title cd = Inr (d, cd1)"
  shows "d \<notin> set (dirents cd)" "\<exists>mime. store cd1 = (store cd)(d := new_WDirent\<lparr>wd_ns := ns, wd_path := path, wd_mimeType := mime, wd_title := title\<rparr>)"
    and "\<not> wd_isRedirect (store cd1 d)" "creator_ok cd1" "mimes_ok cd1" "\<exists>m n. pool cd1 = pool_after n \<and> m < n \<and> d = pool_addr m"
    and "if \<exists>e\<in>set (dirents cd). entry_key (store cd e) = (ns, path) \<and> \<not> wd_isRedirect (store cd e) then dirents cd1 = dirents cd
      else set (dirents cd1) = insert d {a \<in> set (dirents cd). entry_key (store cd a) \<noteq> (ns, path)}"
proof -
  obtain cd0 mime where c0: "cd1 = addDirent d cd0" "entries_ok cd0" "d \<notin> set (dirents cd)" "dirents cd0 = dirents cd"
      "store cd0 = (store cd)(d := new_WDirent\<lparr>wd_ns := ns, wd_path := path, wd_mimeType := mime, wd_title := title\<rparr>)"
      "mime \<noteq> redirectMimeType" "creator_ok cd1" "mimes_ok cd1" "\<exists>m n. pool cd1 = pool_after n \<and> m < n \<and> d = pool_addr m"
    using createDirent_ok [OF ok c] by blast
  show "d \<notin> set (dirents cd)" "creator_ok cd1" "mimes_ok cd1" "\<exists>m n. pool cd1 = pool_after n \<and> m < n \<and> d = pool_addr m"
    using c0 by blast+
  show st: "\<exists>mime. store cd1 = (store cd)(d := new_WDirent\<lparr>wd_ns := ns, wd_path := path, wd_mimeType := mime, wd_title := title\<rparr>)"
    using c0(1,5) by (auto simp: addDirent_frame)
  have item: "\<not> wd_isRedirect (store cd0 d)" using c0(5,6) by (simp add: wd_isRedirect_def)
  then show "\<not> wd_isRedirect (store cd1 d)" using c0(1) by (simp add: addDirent_frame)
  have key: "url_key (store cd0 a) = url_key (store cd0 d) \<longleftrightarrow> entry_key (store cd a) = (ns, path)"
      "store cd0 a = store cd a" if "a \<in> set (dirents cd)" for a
    using that c0(3,5) by (auto simp: entry_key_url entry_key_def)
  show "if \<exists>e\<in>set (dirents cd). entry_key (store cd e) = (ns, path) \<and> \<not> wd_isRedirect (store cd e) then dirents cd1 = dirents cd
      else set (dirents cd1) = insert d {a \<in> set (dirents cd). entry_key (store cd a) \<noteq> (ns, path)}"
    using addDirent_cases [OF c0(2), of d] c0(3) item key unfolding c0(1,4) by (auto simp: c0(4) split: if_splits)
qed

lemma createRedirectDirent_entry:
  assumes ok: "creator_ok cd" "mimes_ok cd" and c: "createRedirectDirent ns path title tns tpath cd = (d, cd1)"
  shows "d \<notin> set (dirents cd)" "wd_isRedirect (store cd1 d)" "wd_ns (store cd1 d) = ns" "wd_path (store cd1 d) = path"
    "wd_title (store cd1 d) = title" "\<And>a. a \<noteq> d \<Longrightarrow> store cd1 a = store cd a" "creator_ok cd1" "mimes_ok cd1"
    and "dirents cd1 = dirents cd \<or> set (dirents cd1) = insert d (set (dirents cd))"
proof -
  let ?fill = "\<lambda>d. wd_setRedirect None (d\<lparr>wd_ns := ns, wd_path := path, wd_title := title, wd_redirectNs := tns, wd_redirectPath := tpath\<rparr>)"
  obtain cd0 where w: "with_dirent ?fill cd = (d, cd0)" and cd1: "cd1 = addDirent d cd0"
    using c unfolding createRedirectDirent_def by (auto split: prod.splits)
  have "dirent_open (?fill new_WDirent)" by (simp add: dirent_open_def wd_isRedirect_def wd_setRedirect_def)
  then have cr: "d \<notin> set (dirents cd)" "store cd0 = (store cd)(d := ?fill new_WDirent)" "entries_ok cd0" "dirents cd0 = dirents cd"
    using create_ok [OF ok(1) w] by auto
  show "d \<notin> set (dirents cd)" by (rule cr(1))
  show "wd_isRedirect (store cd1 d)" "wd_ns (store cd1 d) = ns" "wd_path (store cd1 d) = path" "wd_title (store cd1 d) = title"
    "\<And>a. a \<noteq> d \<Longrightarrow> store cd1 a = store cd a"
    using cr(2) by (simp_all add: cd1 addDirent_frame wd_isRedirect_def wd_setRedirect_def)
  show "creator_ok cd1" "mimes_ok cd1" using createRedirectDirent_ok [OF ok c] by auto
  have red: "wd_isRedirect (store cd0 d)" using cr(2) by (simp add: wd_isRedirect_def wd_setRedirect_def)
  have "addDirent d cd0 = cd0 \<or> set (dirents cd1) = insert d {a \<in> set (dirents cd0). url_key (store cd0 a) \<noteq> url_key (store cd0 d)} \<and>
      (\<forall>a\<in>set (dirents cd0). url_key (store cd0 a) \<noteq> url_key (store cd0 d))"
    using addDirent_cases [OF cr(3), of d] cr(1,4) red unfolding cd1 by (auto split: if_splits)
  then show "dirents cd1 = dirents cd \<or> set (dirents cd1) = insert d (set (dirents cd))" using cr(4) cd1 by auto
qed

section \<open>The invariant of the calls\<close>

definition created :: "byte set \<Rightarrow> CreatorData \<Rightarrow> (nat \<Rightarrow> bytes list) \<Rightarrow> entry_spec \<Rightarrow> bool" where
  "created N cd bls spec \<longleftrightarrow> creator_ok cd \<and> mimes_ok cd \<and> clusters_hold cd bls \<and> items_match cd bls spec \<and> strings_fit N cd"

lemma clusters_hold_same: "same_contents cd cd1 \<Longrightarrow> clusters_hold cd bls \<Longrightarrow> clusters_hold cd1 bls"
  by (simp add: clusters_hold_def clusters_ok_def same_contents_def)

lemma grows_same: "same_contents cd cd1 \<Longrightarrow> grows cd bls cd1 bls"
  by (simp add: grows_def same_contents_def)

lemma weight_same: "same_contents cd cd1 \<Longrightarrow> weight bls cd1 = weight bls cd"
  by (simp add: weight_def same_contents_def)

lemma closeCluster_same_listings: "same_listings cd (closeCluster b cd)"
  by (simp add: closeCluster_def Let_def same_listings_def)

lemma addItemData_same_listings:
  assumes "addItemData d p b cd = Inr cd'"
  shows "same_listings cd cd'"
proof -
  let ?cd0 = "if provider_getSize p > 0 then cd\<lparr>cd_isEmpty := False\<rparr> else cd"
  obtain cd1 where 1: "make_room (provider_getSize p) b ?cd0 = Inr cd1" "place_content d p b cd1 = Inr cd'"
    using assms by (auto simp: addItemData_def rbind_Inr_iff Let_def)
  have "same_listings cd ?cd0" by (simp add: same_listings_def)
  moreover have "cd1 = ?cd0 \<or> cd1 = closeCluster b ?cd0" using 1(1) by (auto simp: make_room_def rbind_Inr_iff Let_def split: if_splits)
  then have "same_listings ?cd0 cd1" using closeCluster_same_listings by (auto simp: same_listings_def)
  moreover have "same_listings cd1 cd'" using 1(2) by (auto simp: place_content_def rbind_Inr_iff Let_def same_listings_def)
  ultimately show ?thesis using same_trans(2) by blast
qed

lemma items_match_cong:
  assumes m: "items_match cd bls spec" and g: "grows cd bls cd' bls'" and mimes: "set (rmimeTypesMap cd) \<subseteq> set (rmimeTypesMap cd')"
    and same: "\<And>a. a \<in> set (dirents cd) \<Longrightarrow> \<not> wd_isRedirect (store cd a) \<Longrightarrow> wd_ns (store cd a) \<noteq> 88 \<Longrightarrow> store cd' a = store cd a"
    and new: "\<And>a. a \<in> set (dirents cd') \<Longrightarrow> \<not> wd_isRedirect (store cd' a) \<Longrightarrow> wd_ns (store cd' a) \<noteq> 88 \<Longrightarrow>
        a \<in> set (dirents cd) \<and> \<not> wd_isRedirect (store cd a) \<and> wd_ns (store cd a) \<noteq> 88"
    and old: "\<And>a. a \<in> set (dirents cd) \<Longrightarrow> \<not> wd_isRedirect (store cd a) \<Longrightarrow> a \<in> set (dirents cd') \<and>
        entry_key (store cd' a) = entry_key (store cd a) \<and> \<not> wd_isRedirect (store cd' a)"
  shows "items_match cd' bls' spec"
proof -
  have "\<exists>m content. spec (entry_key (store cd' a)) = Some (m, content) \<and> (wd_mimeType (store cd' a), m) \<in> set (rmimeTypesMap cd') \<and>
      held_at cd' bls' a content" if a: "a \<in> set (dirents cd')" "\<not> wd_isRedirect (store cd' a)" "wd_ns (store cd' a) \<noteq> 88" for a
  proof -
    have o: "a \<in> set (dirents cd)" "\<not> wd_isRedirect (store cd a)" "wd_ns (store cd a) \<noteq> 88" using new [OF a] by auto
    have st: "store cd' a = store cd a" by (rule same [OF o])
    obtain m content where "spec (entry_key (store cd a)) = Some (m, content)" "(wd_mimeType (store cd a), m) \<in> set (rmimeTypesMap cd)"
        "held_at cd bls a content" using m o unfolding items_match_def by blast
    then show ?thesis using held_grows [OF _ g st] mimes unfolding st by blast
  qed
  moreover have "\<exists>a\<in>set (dirents cd'). entry_key (store cd' a) = k \<and> \<not> wd_isRedirect (store cd' a)" if "k \<in> dom spec" for k
    using m that old unfolding items_match_def by metis
  ultimately show ?thesis by (simp add: items_match_def)
qed

lemma items_match_insert:
  assumes m: "items_match (cd\<lparr>dirents := ds\<rparr>) bls spec" and ds: "set (dirents cd) = insert d (set ds)"
    and new: "held_at cd bls d content" "entry_key (store cd d) = k" "(wd_mimeType (store cd d), mt) \<in> set (rmimeTypesMap cd)"
    and other: "\<And>a. a \<in> set ds \<Longrightarrow> entry_key (store cd a) \<noteq> k"
  shows "items_match cd bls (spec(k \<mapsto> (mt, content)))"
proof -
  let ?good = "\<lambda>spec a. \<exists>m content. spec (entry_key (store cd a)) = Some (m, content) \<and> (wd_mimeType (store cd a), m) \<in> set (rmimeTypesMap cd) \<and>
      held_at cd bls a content"
  have held: "held_at (cd\<lparr>dirents := ds\<rparr>) bls = held_at cd bls" by (intro ext) (simp add: held_at_def)
  have m1: "?good spec a" if "a \<in> set ds" "\<not> wd_isRedirect (store cd a)" "wd_ns (store cd a) \<noteq> 88" for a
    using m that unfolding items_match_def held by simp
  have m2: "\<exists>a\<in>set ds. entry_key (store cd a) = j \<and> \<not> wd_isRedirect (store cd a)" if "j \<in> dom spec" for j
    using m that unfolding items_match_def by simp
  have item: "\<not> wd_isRedirect (store cd d)" using new(1) by (simp add: held_at_def)
  have "?good (spec(k \<mapsto> (mt, content))) a" if "a \<in> set (dirents cd)" "\<not> wd_isRedirect (store cd a)" "wd_ns (store cd a) \<noteq> 88" for a
  proof (cases "a = d")
    case True
    then show ?thesis using new by simp
  next
    case False
    then have "a \<in> set ds" using that ds by simp
    then show ?thesis using m1 [OF _ that(2,3)] other by simp
  qed
  moreover have "\<exists>a\<in>set (dirents cd). entry_key (store cd a) = j \<and> \<not> wd_isRedirect (store cd a)" if "j \<in> dom (spec(k \<mapsto> (mt, content)))" for j
    using that m2 [of j] ds new(2) item by (cases "j = k") auto
  ultimately show ?thesis by (simp add: items_match_def)
qed

lemma strings_fit_create:
  assumes "strings_fit N cd" "set (dirents cd') \<subseteq> insert d (set (dirents cd))"
    and "\<And>a. a \<noteq> d \<Longrightarrow> entry_key (store cd' a) = entry_key (store cd a) \<and> wd_title (store cd' a) = wd_title (store cd a)"
    and "wd_ns (store cd' d) \<in> N'" "N \<subseteq> N'" "strings_ok (wd_path (store cd' d)) (wd_title (store cd' d))"
    and "\<forall>m\<in>snd ` set (rmimeTypesMap cd') - snd ` set (rmimeTypesMap cd). m \<noteq> [] \<and> 0 \<notin> set m"
  shows "strings_fit N' cd'"
proof -
  have "wd_ns (store cd' a) \<in> N' \<and> strings_ok (wd_path (store cd' a)) (wd_title (store cd' a))" if "a \<in> set (dirents cd')" for a
    using that assms(1,2,4-6) assms(3) [of a] unfolding strings_fit_def entry_key_def by (cases "a = d") auto
  moreover have "m \<noteq> [] \<and> 0 \<notin> set m" if "m \<in> snd ` set (rmimeTypesMap cd')" for m
    using that assms(1,7) by (cases "m \<in> snd ` set (rmimeTypesMap cd)") (auto simp: strings_fit_def)
  ultimately show ?thesis by (simp add: strings_fit_def)
qed

text \<open>An entry that is created and not yet filled.\<close>

lemma create_item:
  assumes cr: "created N cd bls spec" and c: "createDirent ns path m title cd = Inr (d, cd1)"
    and s: "strings_ok path title" "m \<noteq> []" "0 \<notin> set m"
  shows "creator_ok cd1" "mimes_ok cd1" "clusters_hold cd1 bls" "strings_fit (insert ns N) cd1" "weight bls cd1 = weight bls cd"
    "grows cd bls cd1 bls" "\<And>a. a \<noteq> d \<Longrightarrow> store cd1 a = store cd a" "entry_key (store cd1 d) = (ns, path)" "\<not> wd_removed (store cd1 d)"
proof -
  have ok: "creator_ok cd" "mimes_ok cd" "clusters_hold cd bls" "strings_fit N cd" using cr by (simp_all add: created_def)
  note e = createDirent_entry [OF ok(1,2) c]
  show "creator_ok cd1" "mimes_ok cd1" using e(4,5) .
  show "clusters_hold cd1 bls" "weight bls cd1 = weight bls cd" "grows cd bls cd1 bls"
    using clusters_hold_same weight_same grows_same createDirent_same(1) [OF c] ok(3) by blast+
  obtain mime where st: "store cd1 = (store cd)(d := new_WDirent\<lparr>wd_ns := ns, wd_path := path, wd_mimeType := mime, wd_title := title\<rparr>)"
    using e(2) by blast
  then show "\<And>a. a \<noteq> d \<Longrightarrow> store cd1 a = store cd a" "entry_key (store cd1 d) = (ns, path)" "\<not> wd_removed (store cd1 d)"
    by (simp_all add: entry_key_def new_WDirent_def)
  have "set (dirents cd1) \<subseteq> insert d (set (dirents cd))" using e(7) by (auto split: if_splits)
  then show "strings_fit (insert ns N) cd1"
    using createDirent_mime [OF ok(2) c] s by (intro strings_fit_create [OF ok(4)]) (auto simp: st)
qed

lemma add_direct:
  assumes cr: "created N cd bls spec" and c: "createDirent ns path m title cd = Inr (d, cd1)"
    and a: "addItemData d p b cd1 = Inr cd2" and p: "provider_gives p bl" and small: "weight bls cd < 2 ^ 32"
    and s: "strings_ok path title" "m \<noteq> []" "0 \<notin> set m" "ns \<in> N" "ns \<noteq> 88"
  shows "\<exists>bls'. created N cd2 bls' (add_once (ns, path) (m, bl) spec) \<and> weight bls' cd2 = weight bls cd + length bl + 4 \<and>
    \<not> wd_isRedirect (store cd2 d) \<and> \<not> wd_removed (store cd2 d) \<and> (\<forall>a. a \<noteq> d \<longrightarrow> store cd2 a = store cd a)"
proof -
  have ok: "creator_ok cd" "mimes_ok cd" "items_match cd bls spec" using cr by (simp_all add: created_def)
  note n = create_item [OF cr c s(1-3), unfolded insert_absorb [OF s(4)]] and e = createDirent_entry [OF ok(1,2) c]
  obtain cd2' where ok2: "addItemData d p b cd1 = Inr cd2'" "creator_ok cd2'" "mimes_ok cd2'" "same_entries cd1 cd2'"
    using create_and_add_ok [OF ok(1,2) c, of p b] by blast
  then have ok2: "creator_ok cd2" "mimes_ok cd2" "same_entries cd1 cd2" using a by simp_all
  obtain bls' i k where h: "clusters_hold cd2 bls'" "grows cd1 bls cd2 bls'" "weight bls' cd2 = weight bls cd1 + length bl + 4"
      "held_at cd2 bls' d bl" "store cd2 = (store cd1)(d := (store cd1 d)\<lparr>wd_cluster := Some k, wd_info := i\<rparr>)"
    using addItemData_holds [OF n(3) _ p _ a] small n(5) e(3) unfolding wd_isItem_def by auto
  have fr: "dirents cd2 = dirents cd1" "rmimeTypesMap cd2 = rmimeTypesMap cd1" using ok2(3) by (simp_all add: same_entries_def)
  have st: "\<And>a. a \<noteq> d \<Longrightarrow> store cd2 a = store cd a" "entry_key (store cd2 d) = (ns, path)" "wd_mimeType (store cd2 d) = wd_mimeType (store cd1 d)"
      "\<not> wd_isRedirect (store cd2 d)" "wd_title (store cd2 d) = wd_title (store cd1 d)" "\<not> wd_removed (store cd2 d)"
    using n(7,8,9) e(3) by (simp_all add: h(5) entry_key_def wd_isRedirect_def)
  have mimes: "set (rmimeTypesMap cd2) = insert (wd_mimeType (store cd2 d), m) (set (rmimeTypesMap cd))"
    using createDirent_mime [OF ok(2) c] fr st(3) by simp
  have g: "grows cd bls cd2 bls'" by (rule grows_trans [OF n(6) h(2)])
  have "strings_fit N cd2" using n(4) fr by (auto simp: strings_fit_def h(5))
  moreover have "items_match cd2 bls' (add_once (ns, path) (m, bl) spec)"
  proof (cases "\<exists>e\<in>set (dirents cd). entry_key (store cd e) = (ns, path) \<and> \<not> wd_isRedirect (store cd e)")
    case True
    then have "\<exists>v. spec (ns, path) = Some v" using ok(3) s(5) unfolding items_match_def by (fastforce simp: entry_key_def)
    then have spec: "add_once (ns, path) (m, bl) spec = spec" by (auto simp: add_once_def)
    have ds: "dirents cd2 = dirents cd" using e(7) fr True by simp
    then have "store cd2 a = store cd a" if "a \<in> set (dirents cd)" for a using that e(1) st(1) by metis
    then show ?thesis unfolding spec using mimes ds by (intro items_match_cong [OF ok(3) g]) auto
  next
    case False
    then have "spec (ns, path) = None" using ok(3) unfolding items_match_def by (metis domIff)
    then have spec: "add_once (ns, path) (m, bl) spec = spec((ns, path) \<mapsto> (m, bl))" by (simp add: add_once_def)
    have ds: "set (dirents cd2) = insert d {a \<in> set (dirents cd). entry_key (store cd a) \<noteq> (ns, path)}" using e(7) fr False by simp
    have old: "store cd2 a = store cd a" if "a \<in> set (dirents cd)" for a using that e(1) st(1) by metis
    let ?rest = "cd2\<lparr>dirents := filter (\<lambda>a. a \<noteq> d) (dirents cd2)\<rparr>"
    have "items_match ?rest bls' spec"
    proof (rule items_match_cong [OF ok(3)])
      show "grows cd bls ?rest bls'" using g by (simp add: grows_def)
    qed (use mimes ds old e(1) False in auto)
    then show ?thesis
      unfolding spec using ds e(1) old mimes by (intro items_match_insert [OF _ _ h(4) st(2)]) auto
  qed
  ultimately have "created N cd2 bls' (add_once (ns, path) (m, bl) spec)" using ok2 h(1) by (simp add: created_def)
  then show ?thesis using h(3) n(5) st by (intro exI [of _ bls']) simp
qed

lemma add_redirect:
  assumes cr: "created N cd bls spec" and c: "createRedirectDirent ns path title tns tpath cd = (d, cd1)"
    and s: "strings_ok path title" "ns \<in> N"
  shows "created N cd1 bls spec" "weight bls cd1 = weight bls cd" "\<And>a. a \<noteq> d \<Longrightarrow> store cd1 a = store cd a"
proof -
  have ok: "creator_ok cd" "mimes_ok cd" "items_match cd bls spec" "clusters_hold cd bls" "strings_fit N cd"
    using cr by (simp_all add: created_def)
  note e = createRedirectDirent_entry [OF ok(1,2) c] and same = createRedirectDirent_same [OF c]
  show "weight bls cd1 = weight bls cd" by (rule weight_same [OF same(1)])
  show "\<And>a. a \<noteq> d \<Longrightarrow> store cd1 a = store cd a" by (rule e(6))
  have ds: "set (dirents cd) \<subseteq> set (dirents cd1)" "set (dirents cd1) \<subseteq> insert d (set (dirents cd))" using e(9) by auto
  have old: "store cd1 a = store cd a" if "a \<in> set (dirents cd)" for a using that e(1,6) by metis
  have "items_match cd1 bls spec"
  proof (rule items_match_cong [OF ok(3) grows_same [OF same(1)]])
    show "set (rmimeTypesMap cd) \<subseteq> set (rmimeTypesMap cd1)" using same(3) by simp
    fix a assume a: "a \<in> set (dirents cd1)" "\<not> wd_isRedirect (store cd1 a)" "wd_ns (store cd1 a) \<noteq> 88"
    then have "a \<in> set (dirents cd)" using ds(2) e(2) by auto
    then show "a \<in> set (dirents cd) \<and> \<not> wd_isRedirect (store cd a) \<and> wd_ns (store cd a) \<noteq> 88" using a old by simp
  qed (use ds(1) old in auto)
  moreover have "strings_fit N cd1"
    using s ds(2) e(3-6) same(3) by (intro strings_fit_create [OF ok(5)]) auto
  ultimately show "created N cd1 bls spec" using e(7,8) clusters_hold_same [OF same(1) ok(4)] by (simp add: created_def)
qed

section \<open>The title listings\<close>

text \<open>The listings are short, have no entry yet, and an item among the front articles stays there.\<close>

definition front_item :: "CreatorData \<Rightarrow> bool" where
  "front_item cd \<longleftrightarrow> (\<exists>a\<in>set (tl_dirents (titleListingV1 cd)). a \<in> allocated cd \<and> \<not> wd_isRedirect (store cd a) \<and> \<not> wd_removed (store cd a))"

definition listings_open :: "nat \<Rightarrow> CreatorData \<Rightarrow> bool" where
  "listings_open n cd \<longleftrightarrow> length (tl_dirents (titleListing cd)) \<le> n \<and> length (tl_dirents (titleListingV1 cd)) \<le> n \<and>
     tl_dirent (titleListing cd) = None \<and> tl_dirent (titleListingV1 cd) = None \<and> mimeTypesList cd = []"

lemma with_dirent_fresh:
  assumes "creator_ok cd" "with_dirent fill cd = (d, cd1)"
  shows "d \<notin> allocated cd" "allocated cd \<subseteq> allocated cd1" "d \<in> allocated cd1"
proof -
  obtain n where n: "pool cd = pool_after n" using assms(1) by (auto simp: creator_ok_def store_ok_def)
  have d: "d = pool_addr n" "pool cd1 = pool_after (Suc n)"
    using assms(2) n by (auto simp: with_dirent_def pool_addr_def pool_after_Suc split: prod.splits)
  have al: "allocated cd = pool_addr ` {..<n}" unfolding allocated_def n using pool_after_inj by (auto dest: pool_after_inj)
  have "allocated cd1 = pool_addr ` {..<Suc n}" unfolding allocated_def d(2) using pool_after_inj by (auto dest!: pool_after_inj)
  then show "d \<notin> allocated cd" "allocated cd \<subseteq> allocated cd1" "d \<in> allocated cd1" using al d(1) by (auto simp: pool_addr_inj)
qed

end
