(* ===== verification/Creator_Calls.thy ===== *)
theory Creator_Calls
  imports Creator_Contents
begin

text \<open>
  The invariant of \<open>Creator_Contents\<close> along a history of calls and through \<^verbatim>\<open>finishZimCreation\<close>: redirections,
  numbering and mime types leave the contents alone, and the two title listings are added to them.
\<close>

section \<open>Along the calls\<close>

definition run_calls :: "call list \<Rightarrow> CreatorData \<Rightarrow> CreatorData res" where
  "run_calls calls cd = rfoldl creator_call cd calls"

lemma addItemData_frame:
  assumes "addItemData d p b cd = Inr cd'"
  shows "cd_compression cd' = cd_compression cd" "pool cd' = pool cd" "dirents cd' = dirents cd"
proof -
  let ?cd0 = "if provider_getSize p > 0 then cd\<lparr>cd_isEmpty := False\<rparr> else cd"
  obtain cd1 where 1: "make_room (provider_getSize p) b ?cd0 = Inr cd1" "place_content d p b cd1 = Inr cd'"
    using assms by (auto simp: addItemData_def rbind_Inr_iff Let_def)
  have "cd1 = ?cd0 \<or> cd1 = closeCluster b ?cd0" using 1(1) by (auto simp: make_room_def rbind_Inr_iff Let_def split: if_splits)
  moreover have "cd_compression (closeCluster b ?cd0) = cd_compression ?cd0" by (simp add: closeCluster_def Let_def)
  ultimately have "cd_compression cd1 = cd_compression cd" "pool cd1 = pool cd" "dirents cd1 = dirents cd" by (auto simp: closeCluster_fields)
  then show "cd_compression cd' = cd_compression cd" "pool cd' = pool cd" "dirents cd' = dirents cd"
    using 1(2) by (auto simp: place_content_def rbind_Inr_iff Let_def)
qed

lemma allocated_pool: "pool cd' = pool cd \<Longrightarrow> allocated cd' = allocated cd"
  by (simp add: allocated_def)

lemma addDirent_pool: "allocated (addDirent d cd) = allocated cd"
  by (rule allocated_pool) (rule addDirent_frame)

lemma createDirent_fresh:
  assumes "creator_ok cd" "createDirent ns path m title cd = Inr (d, cd1)"
  shows "d \<notin> allocated cd" "allocated cd \<subseteq> allocated cd1" "d \<in> allocated cd1"
proof -
  obtain mime cd0 cd2 where g: "getMimeTypeIdx m cd = Inr (mime, cd0)" "cd1 = addDirent d cd2"
      "with_dirent (\<lambda>d. d\<lparr>wd_ns := ns, wd_path := path, wd_mimeType := mime, wd_title := title\<rparr>) cd0 = (d, cd2)"
    using createDirent_parts [OF assms(2)] .
  have "allocated cd0 = allocated cd" by (rule allocated_pool) (rule getMimeTypeIdx_frame(2) [OF g(1)])
  then show "d \<notin> allocated cd" "allocated cd \<subseteq> allocated cd1" "d \<in> allocated cd1"
    using with_dirent_fresh [OF getMimeTypeIdx_ok [OF assms(1) g(1)] g(3)] by (simp_all add: g(2) addDirent_pool)
qed

lemma createRedirectDirent_fresh:
  assumes "creator_ok cd" "createRedirectDirent ns path title tns tpath cd = (d, cd1)"
  shows "d \<notin> allocated cd" "allocated cd \<subseteq> allocated cd1"
proof -
  obtain cd0 where w: "with_dirent (\<lambda>d. wd_setRedirect None (d\<lparr>wd_ns := ns, wd_path := path, wd_title := title,
         wd_redirectNs := tns, wd_redirectPath := tpath\<rparr>)) cd = (d, cd0)" and cd1: "cd1 = addDirent d cd0"
    using assms unfolding createRedirectDirent_def by (auto split: prod.splits)
  show "d \<notin> allocated cd" "allocated cd \<subseteq> allocated cd1"
    using with_dirent_fresh [OF assms(1) w] by (simp_all add: cd1 addDirent_pool)
qed

lemma cd_handle_created: "created N (cd_handle d f cd) bls spec = created N cd bls spec" "weight bls (cd_handle d f cd) = weight bls cd"
    "cd_compression (cd_handle d f cd) = cd_compression cd" "allocated (cd_handle d f cd) = allocated cd"
    "store (cd_handle d f cd) = store cd"
proof -
  have c: "clusters (cd_handle d f cd) = clusters cd" "clustersList (cd_handle d f cd) = clustersList cd"
      "compCluster (cd_handle d f cd) = compCluster cd" "uncompCluster (cd_handle d f cd) = uncompCluster cd"
      "rmimeTypesMap (cd_handle d f cd) = rmimeTypesMap cd" "pool (cd_handle d f cd) = pool cd"
    and comp: "cd_compression (cd_handle d f cd) = cd_compression cd"
    by (simp_all add: cd_handle_def handle_v0_def handle_v1_def Let_def split: option.split)
  show "cd_compression (cd_handle d f cd) = cd_compression cd" by (rule comp)
  show "allocated (cd_handle d f cd) = allocated cd" by (rule allocated_pool) (rule c(6))
  show "weight bls (cd_handle d f cd) = weight bls cd" by (simp add: weight_def c)
  show "store (cd_handle d f cd) = store cd" by (rule cd_handle_frame)
  have "held_at (cd_handle d f cd) = held_at cd" by (intro ext) (simp add: held_at_def c cd_handle_frame)
  then show "created N (cd_handle d f cd) bls spec = created N cd bls spec"
    by (simp add: created_def clusters_hold_def clusters_ok_def items_match_def strings_fit_def cd_handle_frame c comp)
qed

lemma cd_handle_listings:
  assumes "listings_open n cd" shows "listings_open (Suc n) (cd_handle d f cd)"
  using assms by (auto simp: listings_open_def cd_handle_def handle_v0_def handle_v1_def Let_def split: option.splits)

lemma cd_handle_front:
  "(case f of None \<Rightarrow> False | Some v \<Rightarrow> v \<noteq> 0) \<Longrightarrow> d \<in> allocated cd \<Longrightarrow> \<not> wd_isRedirect (store cd d) \<Longrightarrow> \<not> wd_removed (store cd d) \<Longrightarrow>
     front_item (cd_handle d f cd)"
  "front_item cd \<Longrightarrow> front_item (cd_handle d f cd)"
proof -
  have v1: "titleListingV1 (cd_handle d f cd) = (if case f of None \<Rightarrow> False | Some v \<Rightarrow> v \<noteq> 0
      then (titleListingV1 cd)\<lparr>tl_dirents := tl_dirents (titleListingV1 cd) @ [d]\<rparr> else titleListingV1 cd)"
    by (simp add: cd_handle_def handle_v0_def handle_v1_def Let_def)
  show "(case f of None \<Rightarrow> False | Some v \<Rightarrow> v \<noteq> 0) \<Longrightarrow> d \<in> allocated cd \<Longrightarrow> \<not> wd_isRedirect (store cd d) \<Longrightarrow> \<not> wd_removed (store cd d) \<Longrightarrow>
     front_item (cd_handle d f cd)"
    unfolding front_item_def v1 cd_handle_created by simp
  show "front_item cd \<Longrightarrow> front_item (cd_handle d f cd)"
    unfolding front_item_def v1 cd_handle_created by auto
qed

lemma front_item_kept:
  assumes "front_item cd" "same_listings cd cd'" "allocated cd \<subseteq> allocated cd'" "d \<notin> allocated cd"
    and "\<And>a. a \<noteq> d \<Longrightarrow> store cd' a = store cd a"
  shows "front_item cd'"
proof -
  obtain a where a: "a \<in> set (tl_dirents (titleListingV1 cd))" "a \<in> allocated cd" "\<not> wd_isRedirect (store cd a)" "\<not> wd_removed (store cd a)"
    using assms(1) unfolding front_item_def by blast
  then have "store cd' a = store cd a" using assms(4,5) by metis
  then show ?thesis using a assms(2,3) unfolding front_item_def same_listings_def by (intro bexI [of _ a]) auto
qed

definition call_step_ok ::
    "byte set \<Rightarrow> CreatorData \<Rightarrow> (nat \<Rightarrow> bytes list) \<Rightarrow> nat \<Rightarrow> CreatorData \<Rightarrow> entry_spec \<Rightarrow> nat \<Rightarrow> bool \<Rightarrow> bool" where
  "call_step_ok N cd bls n cd' spec' sz front \<longleftrightarrow>
     (\<exists>bls'. created N cd' bls' spec' \<and> weight bls' cd' + 12 \<le> weight bls cd + sz) \<and> listings_open (Suc n) cd' \<and>
     cd_compression cd' = cd_compression cd \<and> (front_item cd \<or> front \<longrightarrow> front_item cd')"

lemma direct_step:
  assumes cr: "created N cd bls spec" "listings_open n cd" and c: "createDirent ns path m title cd = Inr (d, cd1)"
    and a: "addItemData d p b cd1 = Inr cd2" and p: "provider_gives p bl" and small: "weight bls cd < 2 ^ 32"
    and s: "strings_ok path title" "m \<noteq> []" "0 \<notin> set m" "ns \<in> N" "ns \<noteq> 88"
  shows "call_step_ok N cd bls n (cd_handle d f cd2) (add_once (ns, path) (m, bl) spec) (length bl + 16)
    (case f of None \<Rightarrow> False | Some v \<Rightarrow> v \<noteq> 0)"
proof -
  have ok: "creator_ok cd" using cr(1) by (simp add: created_def)
  obtain bls' where h: "created N cd2 bls' (add_once (ns, path) (m, bl) spec)" "weight bls' cd2 = weight bls cd + length bl + 4"
      "\<not> wd_isRedirect (store cd2 d)" "\<not> wd_removed (store cd2 d)" "\<forall>a. a \<noteq> d \<longrightarrow> store cd2 a = store cd a"
    using add_direct [OF cr(1) c a p small s] by blast
  have same: "same_listings cd cd2" by (rule same_trans(2) [OF createDirent_same(2) [OF c] addItemData_same_listings [OF a]])
  have al: "allocated cd2 = allocated cd1" by (rule allocated_pool) (rule addItemData_frame(2) [OF a])
  note fresh = createDirent_fresh [OF ok c]
  have "\<And>a. a \<noteq> d \<Longrightarrow> store cd2 a = store cd a" using h(5) by blast
  then have "front_item cd \<Longrightarrow> front_item cd2"
    using front_item_kept [OF _ same _ fresh(1)] fresh(2) unfolding al by blast
  moreover have "cd_compression cd2 = cd_compression cd"
    using addItemData_frame(1) [OF a] createDirent_same(1) [OF c] by (simp add: same_contents_def)
  moreover have "listings_open n cd2" using cr(2) same by (simp add: listings_open_def same_listings_def)
  ultimately show ?thesis
    unfolding call_step_ok_def cd_handle_created
    using h cd_handle_listings cd_handle_front fresh(3) al by auto
qed

lemma redirect_step:
  assumes cr: "created N cd bls spec" "listings_open n cd" and c: "createRedirectDirent ns path title tns tpath cd = (d, cd1)"
    and s: "strings_ok path title" "ns \<in> N"
  shows "call_step_ok N cd bls n (cd_handle d f cd1) spec 16 False"
proof -
  have ok: "creator_ok cd" using cr(1) by (simp add: created_def)
  note h = add_redirect [OF cr(1) c s] and same = createRedirectDirent_same [OF c] and fresh = createRedirectDirent_fresh [OF ok c]
  have "front_item cd \<Longrightarrow> front_item cd1" by (rule front_item_kept [OF _ same(2) fresh(2,1) h(3)])
  moreover have "listings_open n cd1" using cr(2) same(2) by (simp add: listings_open_def same_listings_def)
  moreover have "cd_compression cd1 = cd_compression cd" using same(1) by (simp add: same_contents_def)
  ultimately show ?thesis
    unfolding call_step_ok_def cd_handle_created
    using h(1,2) cd_handle_listings cd_handle_front(2) by auto
qed

lemma octet_stream: "str ''application/octet-stream'' \<noteq> []" "0 \<notin> set (str ''application/octet-stream'')"
  by code_simp+

lemma creator_call_ok:
  assumes cr: "created N cd bls spec" "listings_open n cd" and c: "creator_call cd call = Inr cd'" and ok: "call_ok gives call"
    and small: "weight bls cd < 2 ^ 32" and N: "67 \<in> N" "77 \<in> N"
  shows "call_step_ok N cd bls n cd' (call_spec gives call spec) (call_size gives call) (call_front call)"
proof (cases call)
  case (AddItem it)
  then obtain d cd1 cd2 b where a: "createDirent 67 (it_path it) (item_mimetype it) (it_title it) cd = Inr (d, cd1)"
      "addItemData d (it_provider it) b cd1 = Inr cd2" "cd' = cd_handle d (it_hint_front it) cd2"
    using c by (auto simp: addItem_def createItemDirent_def item_mimetype_def rbind_Inr_iff Let_def)
  have "item_mimetype it \<noteq> []" "0 \<notin> set (item_mimetype it)"
    using ok AddItem octet_stream by (auto simp: item_mimetype_def)
  then show ?thesis
    using direct_step [OF cr a(1,2) _ small, of "gives (it_provider it)" "it_hint_front it"] ok AddItem a(3) N by simp
next
  case (AddMetadata name provider mimetype)
  then obtain d cd1 cd2 b where a: "createDirent 77 name mimetype [] cd = Inr (d, cd1)"
      "addItemData d provider b cd1 = Inr cd2" "cd' = cd_handle d None cd2"
    using c by (auto simp: addMetadata_def rbind_Inr_iff)
  then show ?thesis using direct_step [OF cr a(1,2) _ small, of "gives provider" None] ok AddMetadata N by simp
next
  case (AddRedirection path title target front)
  obtain d cd1 where a: "createRedirectDirent 67 path title 67 target cd = (d, cd1)" by fastforce
  then have "cd' = cd_handle d front cd1" using c AddRedirection by (simp add: addRedirection_def)
  then show ?thesis using redirect_step [OF cr a, of front] ok AddRedirection N by simp
qed

lemma run_calls_ok:
  assumes "created N cd bls spec" "listings_open n cd" "run_calls calls cd = Inr cd'" "\<forall>c\<in>set calls. call_ok gives c"
    and "weight bls cd + sum_list (map (call_size gives) calls) < 2 ^ 32" "67 \<in> N" "77 \<in> N"
  shows "(\<exists>bls'. created N cd' bls' (fold (call_spec gives) calls spec) \<and>
      weight bls' cd' + 12 * length calls \<le> weight bls cd + sum_list (map (call_size gives) calls)) \<and>
    listings_open (n + length calls) cd' \<and> cd_compression cd' = cd_compression cd \<and>
    (front_item cd \<or> (\<exists>c\<in>set calls. call_front c) \<longrightarrow> front_item cd')"
  using assms
proof (induction calls arbitrary: cd bls spec n)
  case Nil
  then show ?case by (auto simp: run_calls_def)
next
  case (Cons c calls)
  obtain cd1 where 1: "creator_call cd c = Inr cd1" "run_calls calls cd1 = Inr cd'"
    using Cons.prems(3) by (auto simp: run_calls_def rbind_Inr_iff)
  have step: "call_step_ok N cd bls n cd1 (call_spec gives c spec) (call_size gives c) (call_front c)"
    using Cons.prems by (intro creator_call_ok [OF _ _ 1(1)]) auto
  then obtain bls1 where b: "created N cd1 bls1 (call_spec gives c spec)" "weight bls1 cd1 + 12 \<le> weight bls cd + call_size gives c"
    by (auto simp: call_step_ok_def)
  have "listings_open (Suc n) cd1" using step by (simp add: call_step_ok_def)
  note ih = Cons.IH [OF b(1) this 1(2)]
  have "weight bls1 cd1 + sum_list (map (call_size gives) calls) < 2 ^ 32" using b(2) Cons.prems(5) by simp
  with ih Cons.prems(4,6,7) obtain bls' where
      i: "created N cd' bls' (fold (call_spec gives) calls (call_spec gives c spec))"
        "weight bls' cd' + 12 * length calls \<le> weight bls1 cd1 + sum_list (map (call_size gives) calls)"
        "listings_open (Suc n + length calls) cd'" "cd_compression cd' = cd_compression cd1"
        "front_item cd1 \<or> (\<exists>c\<in>set calls. call_front c) \<longrightarrow> front_item cd'"
    by auto
  then show ?case using b(2) step by (auto simp: call_step_ok_def intro!: exI [of _ bls'])
qed

lemma start_created:
  "created N (new_CreatorData ct m) (\<lambda>_. []) Map.empty" "listings_open 0 (new_CreatorData ct m)" "weight (\<lambda>_. []) (new_CreatorData ct m) = 0"
proof -
  have "clusters_hold (new_CreatorData ct m) (\<lambda>_. [])"
    using new_CreatorData_ok(1) [of ct m] new_WCluster_holds
    by (auto simp: clusters_hold_def creator_ok_def new_CreatorData_def less_Suc_eq new_WCluster_def)
  then show "created N (new_CreatorData ct m) (\<lambda>_. []) Map.empty"
    using new_CreatorData_ok by (simp add: created_def items_match_def strings_fit_def new_CreatorData_def)
qed (simp_all add: listings_open_def weight_def blobs_weight_def new_CreatorData_def)

end
