(* ===== verification/Creator_Finished.thy ===== *)
theory Creator_Finished
  imports Creator_Calls
begin

text \<open>
  \<^verbatim>\<open>finishZimCreation\<close> and the contents: after the last entries, the resolution of redirections and mime types and the
  two title listings, the data of the creator is ready to be written, and every item of the specification is an
  entry with its mime type and its content.
\<close>

section \<open>The last entries\<close>

lemma mainPageDirent_irrelevant:
  "created N (cd\<lparr>mainPageDirent := x\<rparr>) bls spec = created N cd bls spec" "weight bls (cd\<lparr>mainPageDirent := x\<rparr>) = weight bls cd"
  "listings_open n (cd\<lparr>mainPageDirent := x\<rparr>) = listings_open n cd" "front_item (cd\<lparr>mainPageDirent := x\<rparr>) = front_item cd"
  "cd_handle d f (cd\<lparr>mainPageDirent := x\<rparr>) = (cd_handle d f cd)\<lparr>mainPageDirent := x\<rparr>"
proof -
  have "held_at (cd\<lparr>mainPageDirent := x\<rparr>) = held_at cd" by (intro ext) (simp add: held_at_def)
  then show "created N (cd\<lparr>mainPageDirent := x\<rparr>) bls spec = created N cd bls spec"
    by (simp add: created_def creator_ok_def entries_ok_def store_ok_def clusters_ok_def mimes_ok_def clusters_hold_def items_match_def
        strings_fit_def)
  show "cd_handle d f (cd\<lparr>mainPageDirent := x\<rparr>) = (cd_handle d f cd)\<lparr>mainPageDirent := x\<rparr>"
    by (simp add: cd_handle_def handle_v0_def handle_v1_def Let_def)
qed (simp_all add: weight_def listings_open_def front_item_def allocated_def)

lemma short_names: "strings_ok (str ''favicon'') []" "strings_ok (str ''mainPage'') []"
    "strings_ok (str ''listing/titleOrdered/v0'') []" "strings_ok (str ''listing/titleOrdered/v1'') []"
    "listing_mimetype \<noteq> []" "0 \<notin> set listing_mimetype" "str ''listing/titleOrdered/v0'' \<noteq> str ''listing/titleOrdered/v1''"
  by code_simp+

text \<open>Each of the two is a step like a redirection, or nothing.\<close>

lemma last_redirect:
  assumes "created N cd bls spec" "listings_open n cd" "87 \<in> N" "strings_ok path []"
    and "cd' = (case createRedirectDirent 87 path [] tns tpath cd of (d, cd) \<Rightarrow> cd_handle d None cd) \<or>
      cd' = (case createRedirectDirent 87 path [] tns tpath cd of (d, cd) \<Rightarrow> cd_handle d None (cd\<lparr>mainPageDirent := Some d\<rparr>)) \<or> cd' = cd"
  shows "call_step_ok N cd bls n cd' spec 16 False"
proof -
  obtain d cd1 where c: "createRedirectDirent 87 path [] tns tpath cd = (d, cd1)" by fastforce
  have r: "call_step_ok N cd bls n (cd_handle d None cd1) spec 16 False" by (rule redirect_step [OF assms(1,2) c assms(4,3)])
  from assms(5) consider "cd' = cd_handle d None cd1" | "cd' = (cd_handle d None cd1)\<lparr>mainPageDirent := Some d\<rparr>" | "cd' = cd"
    unfolding c prod.case mainPageDirent_irrelevant by blast
  then show ?thesis
  proof cases
    case 3
    then show ?thesis using assms(1,2) by (auto simp: call_step_ok_def listings_open_def intro!: exI [of _ bls])
  qed (use r in \<open>simp_all add: call_step_ok_def mainPageDirent_irrelevant\<close>)
qed

lemma favicon_and_mainPage:
  assumes "created N cd bls spec" "listings_open n cd" "87 \<in> N"
  shows "\<exists>bls'. created N (add_mainPage c (add_favicon c cd)) bls' spec \<and> weight bls' (add_mainPage c (add_favicon c cd)) \<le> weight bls cd + 8 \<and>
    listings_open (n + 2) (add_mainPage c (add_favicon c cd)) \<and> cd_compression (add_mainPage c (add_favicon c cd)) = cd_compression cd \<and>
    (front_item cd \<longrightarrow> front_item (add_mainPage c (add_favicon c cd)))"
proof -
  let ?cd1 = "add_favicon c cd"
  have "call_step_ok N cd bls n ?cd1 spec 16 False"
    by (rule last_redirect [OF assms short_names(1), of _ 67 "m_faviconPath c"]) (simp add: add_favicon_def)
  then obtain bls1 where 1: "created N ?cd1 bls1 spec" "weight bls1 ?cd1 + 12 \<le> weight bls cd + 16" "listings_open (Suc n) ?cd1"
      "cd_compression ?cd1 = cd_compression cd" "front_item cd \<longrightarrow> front_item ?cd1" by (auto simp: call_step_ok_def)
  have "call_step_ok N ?cd1 bls1 (Suc n) (add_mainPage c ?cd1) spec 16 False"
    by (rule last_redirect [OF 1(1,3) assms(3) short_names(2), of _ 67 "m_mainPath c"]) (simp add: add_mainPage_def)
  then show ?thesis using 1 by (auto simp: call_step_ok_def)
qed

lemma create_listing:
  assumes cr: "created N cd bls spec" and c: "createDirent 88 path listing_mimetype [] cd = Inr (d, cd1)" and s: "strings_ok path []"
    and new: "\<forall>a\<in>set (dirents cd). entry_key (store cd a) \<noteq> (88, path)"
  shows "created (insert 88 N) cd1 bls spec" "weight bls cd1 = weight bls cd" "set (dirents cd1) = insert d (set (dirents cd))"
    "d \<notin> set (dirents cd)" "entry_key (store cd1 d) = (88, path)" "\<not> wd_isRedirect (store cd1 d)" "\<And>a. a \<noteq> d \<Longrightarrow> store cd1 a = store cd a"
proof -
  have ok: "creator_ok cd" "mimes_ok cd" "items_match cd bls spec" using cr by (simp_all add: created_def)
  note n = create_item [OF cr c s short_names(5,6)] and e = createDirent_entry [OF ok(1,2) c]
  show "weight bls cd1 = weight bls cd" "d \<notin> set (dirents cd)" "entry_key (store cd1 d) = (88, path)" "\<not> wd_isRedirect (store cd1 d)"
    "\<And>a. a \<noteq> d \<Longrightarrow> store cd1 a = store cd a" using n(5,7,8) e(1,3) by blast+
  show ds: "set (dirents cd1) = insert d (set (dirents cd))" using e(7) new by (auto split: if_splits)
  have old: "store cd1 a = store cd a" if "a \<in> set (dirents cd)" for a using that e(1) n(7) by metis
  have "items_match cd1 bls spec"
  proof (rule items_match_cong [OF ok(3) n(6)])
    show "set (rmimeTypesMap cd) \<subseteq> set (rmimeTypesMap cd1)" using createDirent_mime [OF ok(2) c] by auto
    fix a assume a: "a \<in> set (dirents cd1)" "\<not> wd_isRedirect (store cd1 a)" "wd_ns (store cd1 a) \<noteq> 88"
    then have "a \<in> set (dirents cd)" using ds n(8) by (auto simp: entry_key_def)
    then show "a \<in> set (dirents cd) \<and> \<not> wd_isRedirect (store cd a) \<and> wd_ns (store cd a) \<noteq> 88" using a old by simp
  qed (use ds old in auto)
  then show "created (insert 88 N) cd1 bls spec" using n by (simp add: created_def)
qed

lemma listings_irrelevant:
  "created N (cd\<lparr>titleListing := x\<rparr>) bls spec = created N cd bls spec" "created N (cd\<lparr>titleListingV1 := x\<rparr>) bls spec = created N cd bls spec"
  "weight bls (cd\<lparr>titleListing := x\<rparr>) = weight bls cd" "weight bls (cd\<lparr>titleListingV1 := x\<rparr>) = weight bls cd"
proof -
  have "held_at (cd\<lparr>titleListing := x\<rparr>) = held_at cd" "held_at (cd\<lparr>titleListingV1 := x\<rparr>) = held_at cd" by (intro ext, simp add: held_at_def)+
  then show "created N (cd\<lparr>titleListing := x\<rparr>) bls spec = created N cd bls spec" "created N (cd\<lparr>titleListingV1 := x\<rparr>) bls spec = created N cd bls spec"
    by (simp_all add: created_def creator_ok_def entries_ok_def store_ok_def clusters_ok_def mimes_ok_def clusters_hold_def items_match_def
        strings_fit_def)
qed (simp_all add: weight_def)

definition has_listings :: "addr \<Rightarrow> addr \<Rightarrow> nat \<Rightarrow> CreatorData \<Rightarrow> bool" where
  "has_listings d0 d1 n cd \<longleftrightarrow> d0 \<noteq> d1 \<and> d0 \<in> set (dirents cd) \<and> d1 \<in> set (dirents cd) \<and>
     entry_key (store cd d0) = (88, str ''listing/titleOrdered/v0'') \<and> entry_key (store cd d1) = (88, str ''listing/titleOrdered/v1'') \<and>
     \<not> wd_isRedirect (store cd d0) \<and> \<not> wd_isRedirect (store cd d1) \<and>
     tl_dirent (titleListing cd) = Some d0 \<and> tl_dirent (titleListingV1 cd) = Some d1 \<and>
     length (tl_dirents (titleListing cd)) \<le> n \<and> length (tl_dirents (titleListingV1 cd)) \<le> n"

lemma create_listing_entries_ok:
  assumes cr: "created N cd bls spec" "88 \<notin> N" "listings_open n cd" and c: "create_listing_entries cd = Inr cd'"
  shows "\<exists>d0 d1. has_listings d0 d1 (n + 2) cd'" "created (insert 88 N) cd' bls spec" "weight bls cd' = weight bls cd"
    "cd_compression cd' = cd_compression cd" "mimeTypesList cd' = []" "front_item cd \<Longrightarrow> front_item cd'" "\<forall>k\<in>dom spec. fst k \<noteq> 88"
proof -
  let ?v0 = "str ''listing/titleOrdered/v0''" and ?v1 = "str ''listing/titleOrdered/v1''"
  have lo: "length (tl_dirents (titleListing cd)) \<le> n" "length (tl_dirents (titleListingV1 cd)) \<le> n"
      "tl_dirent (titleListing cd) = None" "tl_dirent (titleListingV1 cd) = None" "mimeTypesList cd = []"
    using cr(3) by (simp_all add: listings_open_def)
  obtain d0 cd0 where c0: "createDirent 88 ?v0 listing_mimetype [] cd = Inr (d0, cd0)"
      and c1': "rbind (getDirent_v1 (handle_v0 d0 (cd0\<lparr>titleListing := (titleListing cd0)\<lparr>tl_dirent := Some d0\<rparr>\<rparr>))) (\<lambda>(d, cd). Inr (handle_v0 d cd)) = Inr cd'"
    using c lo(3) by (auto simp: create_listing_entries_def getDirent_v0_def rbind_Inr_iff)
  let ?cd0 = "cd0\<lparr>titleListing := (titleListing cd0)\<lparr>tl_dirents := tl_dirents (titleListing cd0) @ [d0], tl_dirent := Some d0\<rparr>\<rparr>"
  have h0: "handle_v0 d0 (cd0\<lparr>titleListing := (titleListing cd0)\<lparr>tl_dirent := Some d0\<rparr>\<rparr>) = ?cd0" by (simp add: handle_v0_def)
  have ns: "\<forall>a\<in>set (dirents cd). wd_ns (store cd a) \<noteq> 88" using cr(1,2) by (auto simp: created_def strings_fit_def)
  then show "\<forall>k\<in>dom spec. fst k \<noteq> 88" using cr(1) unfolding created_def items_match_def entry_key_def by (metis fst_conv)
  note l0 = create_listing [OF cr(1) c0 short_names(3)] and same0 = createDirent_same [OF c0]
  have new0: "\<forall>a\<in>set (dirents cd). entry_key (store cd a) \<noteq> (88, p)" for p using ns by (simp add: entry_key_def)
  note l0 = l0 [OF new0]
  have v1: "tl_dirent (titleListingV1 ?cd0) = None" using lo(4) same0(2) by (simp add: same_listings_def)
  obtain d1 cd1 where c1: "createDirent 88 ?v1 listing_mimetype [] ?cd0 = Inr (d1, cd1)"
      and cd': "cd' = handle_v0 d1 (cd1\<lparr>titleListingV1 := (titleListingV1 cd1)\<lparr>tl_dirent := Some d1\<rparr>\<rparr>)"
    using c1' v1 unfolding h0 by (auto simp: getDirent_v1_def rbind_Inr_iff)
  have cr0: "created (insert 88 N) ?cd0 bls spec" using l0(1) by (simp add: listings_irrelevant)
  have new1: "\<forall>a\<in>set (dirents ?cd0). entry_key (store ?cd0 a) \<noteq> (88, ?v1)"
  proof
    fix a assume "a \<in> set (dirents ?cd0)"
    then show "entry_key (store ?cd0 a) \<noteq> (88, ?v1)"
      using l0(3,5) l0(7) [of a] new0 [of ?v1] short_names(7) by (cases "a = d0") auto
  qed
  note l1 = create_listing [OF cr0 c1 short_names(4) new1] and same1 = createDirent_same [OF c1]
  show "created (insert 88 N) cd' bls spec" using l1(1) by (simp add: cd' handle_v0_def listings_irrelevant)
  show "weight bls cd' = weight bls cd" using l1(2) l0(2) by (simp add: cd' handle_v0_def listings_irrelevant)
  show "cd_compression cd' = cd_compression cd" "mimeTypesList cd' = []"
    using same0 same1 lo(5) by (simp_all add: cd' handle_v0_def same_contents_def same_listings_def)
  have d: "d1 \<noteq> d0" "store cd1 d0 = store cd0 d0" using l1(4) l0(3) l1(7) [of d0] by auto
  have tl: "titleListing cd' = \<lparr>tl_dirents = tl_dirents (titleListing cd) @ [d0, d1], tl_dirent = Some d0\<rparr>"
      "titleListingV1 cd' = (titleListingV1 cd)\<lparr>tl_dirent := Some d1\<rparr>" "store cd' = store cd1" "dirents cd' = dirents cd1" "pool cd' = pool cd1"
    using same0(2) same1(2) by (simp_all add: cd' handle_v0_def same_listings_def)
  show "\<exists>d0 d1. has_listings d0 d1 (n + 2) cd'"
    unfolding has_listings_def tl using l0 l1 d lo by (intro exI [of _ d0] exI [of _ d1]) auto
  have ok0: "creator_ok cd" "creator_ok ?cd0" using cr(1) cr0 by (simp_all add: created_def)
  show "front_item cd'" if "front_item cd"
  proof -
    have "front_item cd0"
      by (rule front_item_kept [OF that same0(2) createDirent_fresh(2,1) [OF ok0(1) c0] l0(7)])
    then have "front_item ?cd0" by (simp add: front_item_def allocated_def)
    from front_item_kept [OF this same1(2) createDirent_fresh(2,1) [OF ok0(2) c1] l1(7)] have "front_item cd1" .
    then show ?thesis by (simp add: front_item_def tl allocated_def) (use same0(2) same1(2) in \<open>simp add: same_listings_def\<close>)
  qed
qed

section \<open>Redirections, numbers and mime types\<close>

definition finished :: "CreatorData \<Rightarrow> (nat \<Rightarrow> bytes list) \<Rightarrow> entry_spec \<Rightarrow> bool" where
  "finished cd bls spec \<longleftrightarrow>
     sorted_wrt (UrlCompare (store cd)) (dirents cd) \<and> clusters_hold cd bls \<and>
     (\<forall>a\<in>set (dirents cd). wd_ns (store cd a) \<in> {67, 77, 87, 88} \<and> strings_ok (wd_path (store cd a)) (wd_title (store cd a)) \<and>
        (if wd_isRedirect (store cd a) then \<exists>t. wd_info (store cd a) = RedirectInfo (Some t)
         else (\<exists>n b. wd_info (store cd a) = DirectInfo n b) \<and> unat (wd_mimeType (store cd a)) < length (mimeTypesList cd))) \<and>
     (\<forall>m\<in>set (mimeTypesList cd). m \<noteq> [] \<and> 0 \<notin> set m) \<and>
     (\<forall>k m content. spec k = Some (m, content) \<longrightarrow> fst k \<noteq> 88 \<and> (\<exists>a\<in>set (dirents cd). entry_key (store cd a) = k \<and>
        held_at cd bls a content \<and> mimeTypesList cd ! unat (wd_mimeType (store cd a)) = m))"

lemma fold_resolve_frame:
  "same_contents cd (fold resolve_one us cd)" "same_listings cd (fold resolve_one us cd)" "rmimeTypesMap (fold resolve_one us cd) = rmimeTypesMap cd"
  "nextMimeIdx (fold resolve_one us cd) = nextMimeIdx cd \<and> mimeTypesMap (fold resolve_one us cd) = mimeTypesMap cd" "wd_title (store (fold resolve_one us cd) a) = wd_title (store cd a)"
  "a \<notin> set us \<Longrightarrow> store (fold resolve_one us cd) a = store cd a"
proof (induction us arbitrary: cd)
  case (Cons u us)
  have one: "same_contents cd (resolve_one u cd)" "same_listings cd (resolve_one u cd)" "rmimeTypesMap (resolve_one u cd) = rmimeTypesMap cd"
    "nextMimeIdx (resolve_one u cd) = nextMimeIdx cd \<and> mimeTypesMap (resolve_one u cd) = mimeTypesMap cd" "wd_title (store (resolve_one u cd) a) = wd_title (store cd a)"
    "a \<noteq> u \<Longrightarrow> store (resolve_one u cd) a = store cd a" for cd a
    by (auto simp: resolve_one_def Let_def same_contents_def same_listings_def wd_setRedirect_def markRemoved_def split: option.split)
  {
    case 1 show ?case using same_trans(1) [OF one(1) Cons.IH(1)] by simp
  next
    case 2 show ?case using same_trans(2) [OF one(2) Cons.IH(2)] by simp
  next
    case 3 show ?case using Cons.IH(3) one(3) by simp
  next
    case 4 show ?case using Cons.IH(4) one(4) by simp
  next
    case 5 show ?case using Cons.IH(5) one(5) by simp
  next
    case 6 then show ?case using Cons.IH(6) one(6) by simp
  }
qed (simp_all add: same_contents_def same_listings_def)

lemma set_indexes_frame: "\<exists>j. set_indexes i ds st a = (st a)\<lparr>wd_idx := j\<rparr>"
proof (induction ds arbitrary: i st)
  case Nil
  then show ?case by (intro exI [of _ "wd_idx (st a)"]) simp
next
  case (Cons d ds)
  obtain j where "set_indexes (i + 1) ds (st(d := (st d)\<lparr>wd_idx := i\<rparr>)) a = ((st(d := (st d)\<lparr>wd_idx := i\<rparr>)) a)\<lparr>wd_idx := j\<rparr>"
    using Cons.IH by blast
  then show ?case by (intro exI [of _ j]) simp
qed

text \<open>An item of the directory keeps everything but its number and the index of its mime type, and that names the same
  string in the list of the mime types.\<close>

lemma resolveMimeTypes_items:
  assumes m: "resolveMimeTypes cd = Inr cd'" "mimeTypesList cd = []" "mimes_ok cd" "distinct (dirents cd)"
  shows "cd' = cd\<lparr>store := store cd', mimeTypesList := sort (map snd (rmimeTypesMap cd))\<rparr>"
    and "a \<notin> set (dirents cd) \<or> wd_isRedirect (store cd a) \<Longrightarrow> store cd' a = store cd a"
    and "a \<in> set (dirents cd) \<Longrightarrow> \<not> wd_isRedirect (store cd a) \<Longrightarrow> \<exists>i. store cd' a = (store cd a)\<lparr>wd_mimeType := i\<rparr> \<and>
      unat i < length (mimeTypesList cd') \<and> i \<noteq> redirectMimeType \<and> (wd_mimeType (store cd a), mimeTypesList cd' ! unat i) \<in> set (rmimeTypesMap cd)"
proof -
  let ?r = "rmimeTypesMap cd" and ?new = "sort (map snd (rmimeTypesMap cd))"
  let ?map = "map (mime_mapping ?new) (map snd ?r)"
  have fsts: "map fst ?r = map of_nat [0..<unat (nextMimeIdx cd)]" using m(3) by (simp add: mimes_ok_def)
  have len: "length ?r = unat (nextMimeIdx cd)" using arg_cong [OF fsts, of length] by simp
  have small: "length ?new < 65536" "length ?new \<le> 65535" using len unat_bound [of "nextMimeIdx cd"] by simp_all
  have idx: "\<forall>a\<in>set (dirents cd). wd_isItem (store cd a) \<longrightarrow> unat (wd_mimeType (store cd a)) < length ?map"
    using m(3) len by (simp add: mimes_ok_def)
  obtain st where st: "map_mimes ?map (dirents cd) (store cd) = Inr st"
    "\<forall>a. st a = (if a \<in> set (dirents cd) \<and> wd_isItem (store cd a)
       then (store cd a)\<lparr>wd_mimeType := ?map ! unat (wd_mimeType (store cd a))\<rparr> else store cd a)"
    using map_mimes_ok [OF m(4) idx] by blast
  have cd': "cd' = cd\<lparr>mimeTypesList := ?new, store := st\<rparr>" using m(1,2) st(1) by (simp add: resolveMimeTypes_def Let_def)
  then show "cd' = cd\<lparr>store := store cd', mimeTypesList := ?new\<rparr>" by simp
  have sta: "st a = (if a \<in> set (dirents cd) \<and> wd_isItem (store cd a)
       then (store cd a)\<lparr>wd_mimeType := ?map ! unat (wd_mimeType (store cd a))\<rparr> else store cd a)" using st(2) by blast
  show "a \<notin> set (dirents cd) \<or> wd_isRedirect (store cd a) \<Longrightarrow> store cd' a = store cd a"
    using sta by (auto simp: cd' wd_isItem_def)
  assume a: "a \<in> set (dirents cd)" "\<not> wd_isRedirect (store cd a)"
  let ?k = "unat (wd_mimeType (store cd a))"
  have k: "?k < length ?r" using idx a by (simp add: wd_isItem_def)
  have "fst (?r ! ?k) = wd_mimeType (store cd a)" using k len arg_cong [OF fsts, of "\<lambda>l. l ! ?k"] by simp
  then have pair: "(wd_mimeType (store cd a), snd (?r ! ?k)) \<in> set ?r" using k by (metis nth_mem prod.collapse)
  let ?i = "mime_mapping ?new (snd (?r ! ?k))"
  have "snd (?r ! ?k) \<in> set ?new" using k by simp
  from mime_mapping_nth [OF small(1) this] have i: "unat ?i < length ?new" "?new ! unat ?i = snd (?r ! ?k)" by blast+
  then have "?i \<noteq> redirectMimeType" using small(2) by (auto simp: redirectMimeType_def)
  moreover have "store cd' a = (store cd a)\<lparr>wd_mimeType := ?i\<rparr>" using sta a k by (simp add: cd' wd_isItem_def)
  ultimately show "\<exists>i. store cd' a = (store cd a)\<lparr>wd_mimeType := i\<rparr> \<and> unat i < length (mimeTypesList cd') \<and> i \<noteq> redirectMimeType \<and>
      (wd_mimeType (store cd a), mimeTypesList cd' ! unat i) \<in> set ?r"
    using i pair by (intro exI [of _ ?i]) (simp add: cd')
qed

lemma numbered:
  assumes cr: "created N cd bls spec"
  defines "cd1 \<equiv> setEntryIndexes (resolveRedirectIndexes cd)"
  shows "sorted_wrt (UrlCompare (store cd1)) (dirents cd1)" "set (dirents cd1) \<subseteq> set (dirents cd)" "mimes_ok cd1"
    "same_contents cd cd1" "same_listings cd cd1" "rmimeTypesMap cd1 = rmimeTypesMap cd"
    "\<And>a. entry_key (store cd1 a) = entry_key (store cd a) \<and> wd_title (store cd1 a) = wd_title (store cd a) \<and> wd_isRedirect (store cd1 a) = wd_isRedirect (store cd a)"
    "\<And>a. \<not> wd_isRedirect (store cd a) \<Longrightarrow> \<exists>i. store cd1 a = (store cd a)\<lparr>wd_idx := i\<rparr>"
    "\<And>a. a \<in> set (dirents cd) \<Longrightarrow> \<not> wd_isRedirect (store cd a) \<Longrightarrow> a \<in> set (dirents cd1)"
    "\<And>a. a \<in> set (dirents cd1) \<Longrightarrow> wd_isRedirect (store cd a) \<Longrightarrow> \<exists>t. wd_info (store cd1 a) = RedirectInfo (Some t)"
proof -
  let ?r = "resolveRedirectIndexes cd" and ?U = "unresolvedRedirectDirents cd"
  have ok: "entries_ok cd" "mimes_ok cd" using cr by (simp_all add: created_def creator_ok_def)
  have U: "set ?U = {a \<in> set (dirents cd). wd_isRedirect (store cd a)}" using ok(1) by (simp add: entries_ok_def)
  note r = resolveRedirectIndexes_resolved [OF ok(1), unfolded resolved_def]
  note fr = fold_resolve_frame [where cd = cd and us = ?U, folded resolveRedirectIndexes_def]
  have ds: "dirents cd1 = dirents ?r" "same_contents ?r cd1" "same_listings ?r cd1" "rmimeTypesMap cd1 = rmimeTypesMap ?r"
      "nextMimeIdx cd1 = nextMimeIdx ?r" "mimeTypesMap cd1 = mimeTypesMap ?r"
    by (simp_all add: cd1_def setEntryIndexes_def same_contents_def same_listings_def)
  have st: "\<exists>i. store cd1 a = (store ?r a)\<lparr>wd_idx := i\<rparr>" for a
    unfolding cd1_def setEntryIndexes_def using set_indexes_frame by simp
  have keys: "url_key (store ?r a) = url_key (store cd a) \<and> wd_isRedirect (store ?r a) = wd_isRedirect (store cd a)" for a
    using r by blast
  show k: "entry_key (store cd1 a) = entry_key (store cd a) \<and> wd_title (store cd1 a) = wd_title (store cd a) \<and>
      wd_isRedirect (store cd1 a) = wd_isRedirect (store cd a)" for a
  proof -
    obtain i where i: "store cd1 a = (store ?r a)\<lparr>wd_idx := i\<rparr>" using st by blast
    show ?thesis unfolding i using keys [of a] fr(5) [of a] entry_key_url by (simp add: entry_key_def wd_isRedirect_def)
  qed
  have "url_key (store cd1 a) = url_key (store ?r a)" for a using k [of a] keys [of a] entry_key_url by metis
  then show "sorted_wrt (UrlCompare (store cd1)) (dirents cd1)"
    using r sorted_url_cong [of "dirents ?r" "store cd1" "store ?r"] unfolding ds(1) by blast
  show sub: "set (dirents cd1) \<subseteq> set (dirents cd)" using r unfolding ds(1) by blast
  show "same_contents cd cd1" "same_listings cd cd1" "rmimeTypesMap cd1 = rmimeTypesMap cd"
    using same_trans(1) [OF fr(1) ds(2)] same_trans(2) [OF fr(2) ds(3)] fr(3) ds(4) by simp_all
  show item: "\<exists>i. store cd1 a = (store cd a)\<lparr>wd_idx := i\<rparr>" if "\<not> wd_isRedirect (store cd a)" for a
  proof -
    have "a \<notin> set ?U" using that U by simp
    then show ?thesis using st [of a] fr(6) [of a] by simp
  qed
  show "a \<in> set (dirents cd1)" if "a \<in> set (dirents cd)" "\<not> wd_isRedirect (store cd a)" for a
    using r that U unfolding ds(1) by blast
  show "\<exists>t. wd_info (store cd1 a) = RedirectInfo (Some t)" if a: "a \<in> set (dirents cd1)" "wd_isRedirect (store cd a)" for a
  proof -
    have "a \<in> set ?U" using a sub U by blast
    then have "\<exists>t. wd_info (store ?r a) = RedirectInfo (Some t)" using r a(1) unfolding ds(1) by (meson)
    then show ?thesis using st [of a] by auto
  qed
  have "unat (wd_mimeType (store cd1 a)) < unat (nextMimeIdx cd)" if a: "a \<in> set (dirents cd1)" "wd_isItem (store cd1 a)" for a
  proof -
    have n: "\<not> wd_isRedirect (store cd a)" using a(2) k [of a] by (simp add: wd_isItem_def)
    obtain i where i: "store cd1 a = (store cd a)\<lparr>wd_idx := i\<rparr>" using item [OF n] by blast
    have "a \<in> set (dirents cd)" using a(1) sub by blast
    then show ?thesis using ok(2) n unfolding i mimes_ok_def by (simp add: wd_isItem_def)
  qed
  then show "mimes_ok cd1" using ok(2) fr(3,4) ds(4-6) unfolding mimes_ok_def by simp
qed

lemma mime_names_unique:
  assumes "map fst r = map of_nat [0..<unat (n :: u16)]" "(i :: u16, m) \<in> set r" "(i, m') \<in> set r"
  shows "m = m'"
proof -
  have "distinct (map fst r)" unfolding assms(1) using unat_bound [of n]
    by (auto simp: distinct_map inj_on_def of_nat_inverse dest: arg_cong [where f = unat])
  then show ?thesis using assms(2,3) by (metis eq_key_imp_eq_value)
qed

lemma resolution_ok:
  assumes cr: "created N cd bls spec" "N \<subseteq> {67, 77, 87, 88}" "\<forall>k\<in>dom spec. fst k \<noteq> 88" "mimeTypesList cd = []"
    and m: "resolveMimeTypes (setEntryIndexes (resolveRedirectIndexes cd)) = Inr cd'"
  shows "finished cd' bls spec" "same_contents cd cd'" "titleListing cd' = titleListing cd" "titleListingV1 cd' = titleListingV1 cd"
    "set (dirents cd') \<subseteq> set (dirents cd)"
    "\<And>a. \<not> wd_isRedirect (store cd a) \<Longrightarrow> entry_key (store cd' a) = entry_key (store cd a) \<and> \<not> wd_isRedirect (store cd' a) \<and>
      wd_removed (store cd' a) = wd_removed (store cd a) \<and> (a \<in> set (dirents cd) \<longrightarrow> a \<in> set (dirents cd'))"
proof -
  let ?cd1 = "setEntryIndexes (resolveRedirectIndexes cd)"
  note n = numbered [OF cr(1)]
  have dist: "distinct (dirents ?cd1)" by (rule distinct_dirents [of "?cd1\<lparr>unresolvedRedirectDirents := filter (\<lambda>a. wd_isRedirect (store ?cd1 a)) (dirents ?cd1)\<rparr>", simplified])
      (use n(1) in \<open>simp add: entries_ok_def sorted_wrt_filter\<close>)
  have ml: "mimeTypesList ?cd1 = []" using n(5) cr(4) by (simp add: same_listings_def)
  note r = resolveMimeTypes_items [OF m ml n(3) dist]
  have cd': "dirents cd' = dirents ?cd1" "mimeTypesList cd' = sort (map snd (rmimeTypesMap cd))" "same_contents ?cd1 cd'"
      "titleListing cd' = titleListing cd" "titleListingV1 cd' = titleListingV1 cd"
    using n(5,6) by (subst r(1), simp add: same_contents_def same_listings_def)+
  show same: "same_contents cd cd'" by (rule same_trans(1) [OF n(4) cd'(3)])
  show "titleListing cd' = titleListing cd" "titleListingV1 cd' = titleListingV1 cd" by (rule cd'(4,5))+
  show sub: "set (dirents cd') \<subseteq> set (dirents cd)" using n(2) cd'(1) by simp
  have red: "store cd' a = store ?cd1 a" if "wd_isRedirect (store cd a)" for a using r(2) [of a] n(7) [of a] that by blast
  have item: "\<exists>i j. store cd' a = (store cd a)\<lparr>wd_idx := j, wd_mimeType := i\<rparr> \<and> i \<noteq> redirectMimeType \<and> (a \<in> set (dirents cd') \<longrightarrow>
      unat i < length (mimeTypesList cd') \<and> (wd_mimeType (store cd a), mimeTypesList cd' ! unat i) \<in> set (rmimeTypesMap cd))"
    if a: "\<not> wd_isRedirect (store cd a)" for a
  proof -
    obtain j where j: "store ?cd1 a = (store cd a)\<lparr>wd_idx := j\<rparr>" using n(8) [OF a] by blast
    show ?thesis
    proof (cases "a \<in> set (dirents ?cd1)")
      case True
      have "\<not> wd_isRedirect (store ?cd1 a)" using n(7) [of a] a by blast
      from r(3) [OF True this] show ?thesis unfolding cd'(1) n(6) j by (auto intro!: exI [of _ j])
    next
      case False
      then have "store cd' a = (store cd a)\<lparr>wd_idx := j, wd_mimeType := wd_mimeType (store cd a)\<rparr>" using r(2) [of a] j by simp
      then show ?thesis using False a cd'(1) by (intro exI [of _ "wd_mimeType (store cd a)"] exI [of _ j]) (simp add: wd_isRedirect_def)
    qed
  qed
  show keep: "entry_key (store cd' a) = entry_key (store cd a) \<and> \<not> wd_isRedirect (store cd' a) \<and>
      wd_removed (store cd' a) = wd_removed (store cd a) \<and> (a \<in> set (dirents cd) \<longrightarrow> a \<in> set (dirents cd'))"
    if a: "\<not> wd_isRedirect (store cd a)" for a
    using item [OF a] n(9) [of a] a cd'(1) by (auto simp: entry_key_def wd_isRedirect_def)
  have open': "dirent_open (store cd a)" if "a \<in> set (dirents cd)" for a
    using cr(1) that by (auto simp: created_def creator_ok_def store_ok_def)
  have fit: "wd_ns (store cd a) \<in> N" "strings_ok (wd_path (store cd a)) (wd_title (store cd a))" if "a \<in> set (dirents cd)" for a
    using cr(1) that by (auto simp: created_def strings_fit_def)
  have entry: "wd_ns (store cd' a) \<in> {67, 77, 87, 88} \<and> strings_ok (wd_path (store cd' a)) (wd_title (store cd' a)) \<and>
      (if wd_isRedirect (store cd' a) then \<exists>t. wd_info (store cd' a) = RedirectInfo (Some t)
       else (\<exists>n b. wd_info (store cd' a) = DirectInfo n b) \<and> unat (wd_mimeType (store cd' a)) < length (mimeTypesList cd'))"
    if a: "a \<in> set (dirents cd')" for a
  proof (cases "wd_isRedirect (store cd a)")
    case True
    have "a \<in> set (dirents cd)" "a \<in> set (dirents ?cd1)" using a sub cd'(1) by auto
    then show ?thesis unfolding red [OF True] using n(7) [of a] n(10) [of a] fit [of a] cr(2) True by (auto simp: entry_key_def)
  next
    case False
    have d: "a \<in> set (dirents cd)" using a sub by auto
    obtain nn b where "wd_info (store cd a) = DirectInfo nn b" using open' [OF d] False by (auto simp: dirent_open_def)
    then show ?thesis using item [OF False] a fit [OF d] cr(2) by (auto simp: wd_isRedirect_def)
  qed
  have "url_key (store cd' a) = url_key (store ?cd1 a)" for a
    using keep [of a] n(7) [of a] red [of a] entry_key_url by (cases "wd_isRedirect (store cd a)") auto
  then have sorted: "sorted_wrt (UrlCompare (store cd')) (dirents cd')"
    using n(1) sorted_url_cong [of "dirents ?cd1" "store cd'" "store ?cd1"] unfolding cd'(1) by blast
  have "clusters_hold cd bls" "items_match cd bls spec" and mm: "\<forall>m\<in>set (mimeTypesList cd'). m \<noteq> [] \<and> 0 \<notin> set m"
    using cr(1) by (auto simp: created_def strings_fit_def cd'(2))
  then have h: "clusters_hold cd' bls" "items_match cd bls spec" using clusters_hold_same [OF same] by blast+
  have "fst k \<noteq> 88 \<and> (\<exists>a\<in>set (dirents cd'). entry_key (store cd' a) = k \<and> held_at cd' bls a content \<and>
      mimeTypesList cd' ! unat (wd_mimeType (store cd' a)) = m')" if k: "spec k = Some (m', content)" for k m' content
  proof -
    have k88: "fst k \<noteq> 88" using cr(3) k by (metis domIff option.distinct(1))
    obtain a where a: "a \<in> set (dirents cd)" "entry_key (store cd a) = k" "\<not> wd_isRedirect (store cd a)"
      using h(2) k unfolding items_match_def by (metis domIff option.distinct(1))
    have "wd_ns (store cd a) \<noteq> 88" using a(2) k88 by (auto simp: entry_key_def)
    then obtain m2 c2 where m2: "spec (entry_key (store cd a)) = Some (m2, c2)" "(wd_mimeType (store cd a), m2) \<in> set (rmimeTypesMap cd)" "held_at cd bls a c2"
      using h(2) a unfolding items_match_def by blast
    then have c: "m2 = m'" "c2 = content" using k a(2) by auto
    note kp = keep [OF a(3)]
    obtain i j where ij: "store cd' a = (store cd a)\<lparr>wd_idx := j, wd_mimeType := i\<rparr>"
        "(wd_mimeType (store cd a), mimeTypesList cd' ! unat i) \<in> set (rmimeTypesMap cd)" using item [OF a(3)] kp a(1) by auto
    have "mimeTypesList cd' ! unat i = m'"
      using ij(2) m2(2) cr(1) unfolding created_def mimes_ok_def c(1) by (metis mime_names_unique)
    moreover have "held_at cd' bls a content"
      using m2(3) kp same unfolding held_at_def c(2) by (auto simp: ij(1) same_contents_def)
    ultimately show ?thesis using kp a k88 by (intro conjI bexI [of _ a]) (simp_all add: ij(1))
  qed
  then show "finished cd' bls spec" using sorted h(1) entry mm unfolding finished_def by blast
qed

section \<open>The contents of the listings\<close>

definition listing_bytes :: "dirent_store \<Rightarrow> TitleListing \<Rightarrow> bytes" where
  "listing_bytes st lst = concat (map (\<lambda>d. toLittleEndian32 (wd_idx (st d))) (tl_dirents lst))"

lemma length_listing_bytes: "length (listing_bytes st lst) = 4 * length (tl_dirents lst)"
  by (simp add: listing_bytes_def length_concat comp_def sum_list_triv)

lemma ListingProvider_gives:
  assumes "4 * length (tl_dirents lst) < 2 ^ 64"
  shows "provider_gives (ListingProvider st lst) (listing_bytes st lst)"
proof -
  have "of_nat (length (tl_dirents lst)) * 4 = (of_nat (4 * length (tl_dirents lst)) :: u64)" by (simp add: mult.commute)
  then have "unat (of_nat (length (tl_dirents lst)) * 4 :: u64) = 4 * length (tl_dirents lst)" using assms
    by (simp add: unat_of_nat_small del: of_nat_mult of_nat_numeral)
  moreover have "[] \<noteq> toLittleEndian32 x" for x by (simp add: toLittleEndian32_def)
  ultimately show ?thesis
    using length_listing_bytes [of st lst] by (auto simp: provider_gives_def ListingProvider_def listing_bytes_def)
qed

lemma finished_frame:
  assumes f: "finished cd bls spec" and g: "grows cd bls cd' bls'" "clusters_hold cd' bls'"
    and ds: "dirents cd' = dirents cd" "mimeTypesList cd' = mimeTypesList cd"
    and st: "\<And>a. a \<in> set (dirents cd) \<Longrightarrow> wd_ns (store cd a) \<noteq> 88 \<Longrightarrow> store cd' a = store cd a"
      "\<And>a. a \<in> set (dirents cd) \<Longrightarrow> wd_ns (store cd a) = 88 \<Longrightarrow> \<not> wd_isRedirect (store cd a) \<Longrightarrow>
        (\<exists>c n b. store cd' a = (store cd a)\<lparr>wd_cluster := c, wd_info := DirectInfo n b\<rparr>) \<or> store cd' a = store cd a"
      "\<And>a. a \<in> set (dirents cd) \<Longrightarrow> wd_isRedirect (store cd a) \<Longrightarrow> store cd' a = store cd a"
  shows "finished cd' bls' spec"
proof -
  have same: "(\<exists>c n b. store cd' a = (store cd a)\<lparr>wd_cluster := c, wd_info := DirectInfo n b\<rparr>) \<or> store cd' a = store cd a"
    if "a \<in> set (dirents cd)" for a using st that by blast
  have "url_key (store cd' a) = url_key (store cd a)" if "a \<in> set (dirents cd)" for a
    using same [OF that] by (auto simp: url_key_def)
  then have 1: "sorted_wrt (UrlCompare (store cd')) (dirents cd)"
    using f sorted_url_cong [of "dirents cd" "store cd'" "store cd"] unfolding finished_def by blast
  have 2: "wd_ns (store cd' a) \<in> {67, 77, 87, 88} \<and> strings_ok (wd_path (store cd' a)) (wd_title (store cd' a)) \<and>
        (if wd_isRedirect (store cd' a) then \<exists>t. wd_info (store cd' a) = RedirectInfo (Some t)
         else (\<exists>n b. wd_info (store cd' a) = DirectInfo n b) \<and> unat (wd_mimeType (store cd' a)) < length (mimeTypesList cd))"
    if a: "a \<in> set (dirents cd)" for a
  proof -
    have o: "wd_ns (store cd a) \<in> {67, 77, 87, 88} \<and> strings_ok (wd_path (store cd a)) (wd_title (store cd a)) \<and>
        (if wd_isRedirect (store cd a) then \<exists>t. wd_info (store cd a) = RedirectInfo (Some t)
         else (\<exists>n b. wd_info (store cd a) = DirectInfo n b) \<and> unat (wd_mimeType (store cd a)) < length (mimeTypesList cd))"
      using f a unfolding finished_def by blast
    show ?thesis
    proof (cases "store cd' a = store cd a")
      case False
      then have n: "\<not> wd_isRedirect (store cd a)" using st(3) a by blast
      from False same [OF a] obtain c n b where "store cd' a = (store cd a)\<lparr>wd_cluster := c, wd_info := DirectInfo n b\<rparr>" by blast
      then show ?thesis using o n by (simp add: wd_isRedirect_def)
    next
      case True
      show ?thesis unfolding True by (rule o)
    qed
  qed
  have 3: "fst k \<noteq> 88 \<and> (\<exists>a\<in>set (dirents cd). entry_key (store cd' a) = k \<and> held_at cd' bls' a content \<and>
      mimeTypesList cd ! unat (wd_mimeType (store cd' a)) = m)" if k: "spec k = Some (m, content)" for k m content
  proof -
    obtain a where a: "fst k \<noteq> 88" "a \<in> set (dirents cd)" "entry_key (store cd a) = k" "held_at cd bls a content"
        "mimeTypesList cd ! unat (wd_mimeType (store cd a)) = m" using f k unfolding finished_def by blast
    have "store cd' a = store cd a" using a by (intro st(1)) (auto simp: entry_key_def)
    then show ?thesis using a held_grows [OF a(4) g(1)] by (intro conjI bexI [of _ a]) auto
  qed
  have mm: "\<forall>m\<in>set (mimeTypesList cd). m \<noteq> [] \<and> 0 \<notin> set m" using f by (simp add: finished_def)
  show ?thesis unfolding finished_def ds using 1 2 3 mm g(2) by blast
qed

lemma finished_add:
  assumes f: "finished cd bls spec" and d: "d \<in> set (dirents cd)" "wd_ns (store cd d) = 88" "\<not> wd_isRedirect (store cd d)"
    and p: "provider_gives p bl" and small: "weight bls cd < 2 ^ 32" and a: "addItemData d p b cd = Inr cd'"
  shows "\<exists>bls' c i. finished cd' bls' spec \<and> grows cd bls cd' bls' \<and> weight bls' cd' = weight bls cd + length bl + 4 \<and>
    held_at cd' bls' d bl \<and> c = current_cluster b cd' \<and> store cd' = (store cd)(d := (store cd d)\<lparr>wd_cluster := Some c, wd_info := i\<rparr>)"
proof -
  have "clusters_hold cd bls" using f by (simp add: finished_def)
  then obtain bls' c i where h: "clusters_hold cd' bls'" "grows cd bls cd' bls'" "weight bls' cd' = weight bls cd + length bl + 4"
      "held_at cd' bls' d bl" "c = current_cluster b cd'" "store cd' = (store cd)(d := (store cd d)\<lparr>wd_cluster := Some c, wd_info := i\<rparr>)"
    using addItemData_holds [OF _ small p _ a] d(3) by (auto simp: wd_isItem_def)
  obtain n k where i: "i = DirectInfo n k" using h(4,6) by (auto simp: held_at_def)
  have "mimeTypesList cd' = mimeTypesList cd" using addItemData_same_listings [OF a] by (simp add: same_listings_def)
  then have "finished cd' bls' spec"
    using d by (intro finished_frame [OF f h(2,1) addItemData_frame(3) [OF a]]) (auto simp: h(6) i)
  then show ?thesis using h by blast
qed

lemma finished_irrelevant:
  "finished (cd\<lparr>titleListing := x\<rparr>) bls spec = finished cd bls spec"
  "finished (cd\<lparr>m_titleListBlobOffset := off, titleListingV1 := x\<rparr>) bls spec = finished cd bls spec"
  "weight bls (cd\<lparr>titleListing := x\<rparr>) = weight bls cd" "weight bls (cd\<lparr>m_titleListBlobOffset := off, titleListingV1 := x\<rparr>) = weight bls cd"
  "grows (cd\<lparr>titleListing := x\<rparr>) bls cd' bls' = grows cd bls cd' bls'"
  "grows (cd\<lparr>m_titleListBlobOffset := off, titleListingV1 := x\<rparr>) bls cd' bls' = grows cd bls cd' bls'"
proof -
  have "held_at (cd\<lparr>titleListing := x\<rparr>) = held_at cd" "held_at (cd\<lparr>m_titleListBlobOffset := off, titleListingV1 := x\<rparr>) = held_at cd"
    by (intro ext, simp add: held_at_def)+
  then show "finished (cd\<lparr>titleListing := x\<rparr>) bls spec = finished cd bls spec"
      "finished (cd\<lparr>m_titleListBlobOffset := off, titleListingV1 := x\<rparr>) bls spec = finished cd bls spec"
    by (simp_all add: finished_def clusters_hold_def clusters_ok_def)
qed (simp_all add: weight_def grows_def)

lemma blob_offset_small:
  assumes h: "clusters_hold cd bls" "held_at cd bls d bl" "wd_cluster (store cd d) = Some c" "weight bls cd \<le> max_transfer"
    and off: "rbind (wd_getBlobNumber (store cd d)) (\<lambda>blob. w_getBlobOffset blob (clusters cd ! c)) = Inr off"
  shows "unat off \<le> max_transfer"
proof -
  obtain n b where d: "wd_info (store cd d) = DirectInfo n b" "c < length (clusters cd)" "unat b < length (bls c)" "\<not> wd_isRedirect (store cd d)"
    using h(2,3) by (auto simp: held_at_def)
  have "w_blobOffsets (clusters cd ! c) = map of_nat (blob_starts 0 (bls c))"
    using h(1) d(2) by (simp add: clusters_hold_def wcluster_holds_def)
  then have o: "off = of_nat (blob_starts 0 (bls c) ! unat b)"
    using off d by (auto simp: wd_getBlobNumber_def w_getBlobOffset_def rbind_Inr_iff split: if_splits)
  have "blob_starts 0 (bls c) ! unat b \<le> length (concat (bls c))"
    using d(3) blob_starts_le [of "blob_starts 0 (bls c) ! unat b" 0 "bls c"] by simp
  also have "\<dots> \<le> max_transfer" using length_le_weight(2) [of "bls c"] blobs_le_weight [OF h(1), of c] h(4) by linarith
  finally show ?thesis unfolding o by (simp add: unat_of_nat_small max_transfer_def)
qed

text \<open>What the two listings are once they are filled.\<close>

definition listings_filled :: "addr \<Rightarrow> addr \<Rightarrow> CreatorData \<Rightarrow> (nat \<Rightarrow> bytes list) \<Rightarrow> bytes \<Rightarrow> bool" where
  "listings_filled d0 d1 cd bls listing \<longleftrightarrow> tl_dirent (titleListing cd) = Some d0 \<and> (\<exists>l0. held_at cd bls d0 l0) \<and>
     unat (m_titleListBlobOffset cd) \<le> max_transfer \<and> d1 \<in> set (dirents cd) \<and>
     entry_key (store cd d1) = (88, str ''listing/titleOrdered/v1'') \<and> held_at cd bls d1 listing \<and>
     (\<exists>c. wd_cluster (store cd d1) = Some c \<and> w_compression (clusters cd ! c) = zimcompNone)"

lemma listing_stop_length:
  assumes "\<And>lt xs. mset (std_sort lt xs) = mset xs"
  shows "length (tl_dirents (listing_stop std_sort st lst)) \<le> length (tl_dirents lst)"
    "set (tl_dirents (listing_stop std_sort st lst)) = {d \<in> set (tl_dirents lst). \<not> wd_removed (st d)}"
    "tl_dirent (listing_stop std_sort st lst) = tl_dirent lst"
proof -
  let ?xs = "filter (\<lambda>d. \<not> wd_removed (st d)) (tl_dirents lst)"
  have m: "mset (std_sort (TitleCompare st) ?xs) = mset ?xs" by (rule assms)
  show "length (tl_dirents (listing_stop std_sort st lst)) \<le> length (tl_dirents lst)"
    using mset_eq_length [OF m] length_filter_le [of _ "tl_dirents lst"] by (simp add: listing_stop_def)
  show "set (tl_dirents (listing_stop std_sort st lst)) = {d \<in> set (tl_dirents lst). \<not> wd_removed (st d)}"
    using mset_eq_setD [OF m] by (simp add: listing_stop_def)
  show "tl_dirent (listing_stop std_sort st lst) = tl_dirent lst" by (simp add: listing_stop_def)
qed

lemma addItemData_offset:
  assumes "addItemData d p b cd = Inr cd'" shows "m_titleListBlobOffset cd' = m_titleListBlobOffset cd"
proof -
  let ?cd0 = "if provider_getSize p > 0 then cd\<lparr>cd_isEmpty := False\<rparr> else cd"
  obtain cd1 where 1: "make_room (provider_getSize p) b ?cd0 = Inr cd1" "place_content d p b cd1 = Inr cd'"
    using assms by (auto simp: addItemData_def rbind_Inr_iff Let_def)
  have "cd1 = ?cd0 \<or> cd1 = closeCluster b ?cd0" using 1(1) by (auto simp: make_room_def rbind_Inr_iff Let_def split: if_splits)
  moreover have "m_titleListBlobOffset (closeCluster b ?cd0) = m_titleListBlobOffset ?cd0" by (simp add: closeCluster_def Let_def)
  ultimately have "m_titleListBlobOffset cd1 = m_titleListBlobOffset cd" by auto
  then show ?thesis using 1(2) by (auto simp: place_content_def rbind_Inr_iff Let_def)
qed

lemma add_listing_contents_ok:
  assumes f: "finished cd bls spec" and l: "has_listings d0 d1 n cd" and srt: "\<And>lt xs. mset (std_sort lt xs) = mset xs"
    and small: "weight bls cd + 8 * n + 8 \<le> 2 ^ 30 - 8" and a: "add_listing_contents std_sort cd = Inr cd'"
    and front: "\<exists>x\<in>set (tl_dirents (titleListingV1 cd)). \<not> wd_removed (store cd x)"
  shows "\<exists>bls' listing. finished cd' bls' spec \<and> listings_filled d0 d1 cd' bls' listing \<and> listing \<noteq> [] \<and> length listing \<le> max_transfer \<and>
    weight bls' cd' \<le> weight bls cd + 8 * n + 8 \<and> cd_compression cd' = cd_compression cd"
proof -
  have has: "d0 \<noteq> d1" "d0 \<in> set (dirents cd)" "d1 \<in> set (dirents cd)" "entry_key (store cd d0) = (88, str ''listing/titleOrdered/v0'')"
      "entry_key (store cd d1) = (88, str ''listing/titleOrdered/v1'')" "\<not> wd_isRedirect (store cd d0)" "\<not> wd_isRedirect (store cd d1)"
      "tl_dirent (titleListing cd) = Some d0" "tl_dirent (titleListingV1 cd) = Some d1"
      "length (tl_dirents (titleListing cd)) \<le> n" "length (tl_dirents (titleListingV1 cd)) \<le> n"
    using l by (simp_all add: has_listings_def)
  note stop = listing_stop_length [of std_sort, OF srt]
  let ?lA = "listing_stop std_sort (store cd) (titleListing cd)"
  let ?A = "cd\<lparr>titleListing := ?lA\<rparr>"
  have vA: "getDirent_v0 ?A = Inr (d0, ?A)" using has(8) stop(3) by (simp add: getDirent_v0_def)
  let ?last = "\<lambda>B off. rbind (getDirent_v1 (B\<lparr>m_titleListBlobOffset := off, titleListingV1 := listing_stop std_sort (store B) (titleListingV1 B)\<rparr>))
        (\<lambda>(d, cd). addItemData d (ListingProvider (store cd) (titleListingV1 cd)) False cd)"
  have a1: "rbind (addItemData d0 (ListingProvider (store ?A) (titleListing ?A)) False ?A) (\<lambda>B.
      rbind (rbind (wd_getBlobNumber (store B d0)) (\<lambda>blob. w_getBlobOffset blob (clusters B ! uncompCluster B))) (?last B)) = Inr cd'"
    using a by (simp add: add_listing_contents_def vA)
  obtain B where B: "addItemData d0 (ListingProvider (store ?A) (titleListing ?A)) False ?A = Inr B"
      and a2: "rbind (rbind (wd_getBlobNumber (store B d0)) (\<lambda>blob. w_getBlobOffset blob (clusters B ! uncompCluster B))) (?last B) = Inr cd'"
    using a1 by (cases "addItemData d0 (ListingProvider (store ?A) (titleListing ?A)) False ?A") simp_all
  obtain off where off: "rbind (wd_getBlobNumber (store B d0)) (\<lambda>blob. w_getBlobOffset blob (clusters B ! uncompCluster B)) = Inr off"
      and a2: "?last B off = Inr cd'"
    using a2 by (cases "rbind (wd_getBlobNumber (store B d0)) (\<lambda>blob. w_getBlobOffset blob (clusters B ! uncompCluster B))") simp_all
  let ?l0 = "listing_bytes (store ?A) (titleListing ?A)"
  have n0: "length (tl_dirents (titleListing ?A)) \<le> n" using stop(1) [of "store cd" "titleListing cd"] has(10) by simp
  have "provider_gives (ListingProvider (store ?A) (titleListing ?A)) ?l0" using n0 small by (intro ListingProvider_gives) simp
  moreover have "wd_ns (store ?A d0) = 88" "wd_ns (store ?A d1) = 88" using has(4,5) by (auto simp: entry_key_def)
  ultimately obtain blsB c i where fB: "finished B blsB spec" "grows cd bls B blsB" "weight blsB B = weight bls cd + length ?l0 + 4"
      "held_at B blsB d0 ?l0" "c = current_cluster False B" "store B = (store cd)(d0 := (store cd d0)\<lparr>wd_cluster := Some c, wd_info := i\<rparr>)"
    using finished_add [of ?A bls spec d0 "ListingProvider (store ?A) (titleListing ?A)" ?l0 False B] f has small B
    by (auto simp: finished_irrelevant)
  have l0: "length ?l0 \<le> 4 * n" using length_listing_bytes [of "store ?A" "titleListing ?A"] n0 by simp
  have "clusters_hold B blsB" using fB(1) by (simp add: finished_def)
  then have offs: "unat off \<le> max_transfer"
    using blob_offset_small [OF _ fB(4) _ _ off [folded current_cluster_def [of False B, simplified]]] fB(3,5,6) l0 small by (simp add: max_transfer_def)
  let ?lC = "listing_stop std_sort (store B) (titleListingV1 B)"
  let ?C = "B\<lparr>m_titleListBlobOffset := off, titleListingV1 := ?lC\<rparr>"
  have sameB: "same_listings ?A B" by (rule addItemData_same_listings [OF B])
  have v1: "titleListingV1 B = titleListingV1 cd" "titleListing B = ?lA" "dirents B = dirents cd"
    using sameB addItemData_frame(3) [OF B] by (simp_all add: same_listings_def)
  have "getDirent_v1 ?C = Inr (d1, ?C)" using has(9) v1(1) stop(3) by (simp add: getDirent_v1_def)
  then have D: "addItemData d1 (ListingProvider (store ?C) (titleListingV1 ?C)) False ?C = Inr cd'" using a2 by simp
  let ?l1 = "listing_bytes (store ?C) (titleListingV1 ?C)"
  have n1: "length (tl_dirents (titleListingV1 ?C)) \<le> n" using stop(1) [of "store B" "titleListingV1 B"] has(11) v1(1) by simp
  have "provider_gives (ListingProvider (store ?C) (titleListingV1 ?C)) ?l1" using n1 small by (intro ListingProvider_gives) simp
  moreover have d1: "store B d1 = store cd d1" using fB(6) has(1) by simp
  ultimately obtain bls' c' i' where fD: "finished cd' bls' spec" "grows B blsB cd' bls'" "weight bls' cd' = weight blsB B + length ?l1 + 4"
      "held_at cd' bls' d1 ?l1" "c' = current_cluster False cd'" "store cd' = (store B)(d1 := (store B d1)\<lparr>wd_cluster := Some c', wd_info := i'\<rparr>)"
    using finished_add [of ?C blsB spec d1 "ListingProvider (store ?C) (titleListingV1 ?C)" ?l1 False cd'] fB has v1 small l0 D \<open>wd_ns (store ?A d1) = 88\<close>
    by (auto simp: finished_irrelevant)
  have l1: "length ?l1 \<le> 4 * n" using length_listing_bytes [of "store ?C" "titleListingV1 ?C"] n1 by simp
  have sameD: "same_listings ?C cd'" by (rule addItemData_same_listings [OF D])
  have fr: "titleListing cd' = ?lA" "dirents cd' = dirents cd" using sameD addItemData_frame(3) [OF D] v1 by (simp_all add: same_listings_def)
  have offD: "m_titleListBlobOffset cd' = off" by (rule addItemData_offset [OF D, simplified])
  have ne: "?l1 \<noteq> []"
  proof -
    obtain x where x: "x \<in> set (tl_dirents (titleListingV1 cd))" "\<not> wd_removed (store cd x)" using front by blast
    have "wd_removed (store B x) = wd_removed (store cd x)" by (simp add: fB(6))
    then have "x \<in> set (tl_dirents ?lC)" using x stop(2) [of "store B" "titleListingV1 B"] v1(1) by simp
    then show ?thesis using length_listing_bytes [of "store ?C" "titleListingV1 ?C"] by (cases "tl_dirents ?lC") auto
  qed
  have comp: "w_compression (clusters cd' ! c') = zimcompNone" using fD(1,5) by (simp add: finished_def clusters_hold_def current_cluster_def)
  have "held_at cd' bls' d0 ?l0" by (rule held_grows [OF fB(4) fD(2)]) (use fD(6) has(1) in simp)
  moreover have "tl_dirent (titleListing cd') = Some d0" using fr(1) has(8) stop(3) by simp
  moreover have "entry_key (store cd' d1) = (88, str ''listing/titleOrdered/v1'')" "wd_cluster (store cd' d1) = Some c'"
    using fD(6) has(5) d1 by (simp_all add: entry_key_def)
  ultimately have "listings_filled d0 d1 cd' bls' ?l1" using fD(4) offs offD has(3) fr(2) comp by (auto simp: listings_filled_def)
  moreover have "cd_compression cd' = cd_compression cd" using fB(2) fD(2) by (simp add: grows_def)
  ultimately show ?thesis using fD(1,3) fB(3) l0 l1 ne small by (intro exI [of _ bls'] exI [of _ ?l1]) (simp add: max_transfer_def)
qed

section \<open>Closing the clusters\<close>

lemma closeCluster_frame:
  "store (closeCluster b cd) = store cd" "dirents (closeCluster b cd) = dirents cd" "mimeTypesList (closeCluster b cd) = mimeTypesList cd"
  "titleListing (closeCluster b cd) = titleListing cd" "m_titleListBlobOffset (closeCluster b cd) = m_titleListBlobOffset cd"
  "cd_compression (closeCluster b cd) = cd_compression cd"
  by (simp_all add: closeCluster_def Let_def)

lemma close_if_filled:
  fixes b :: bool
  assumes f: "finished cd bls spec" and l: "listings_filled d0 d1 cd bls listing" and small: "weight bls cd < 2 ^ 32"
  defines "cd' \<equiv> if w_count (clusters cd ! current_cluster b cd) \<noteq> 0 then closeCluster b cd else cd"
  shows "finished cd' bls spec" "listings_filled d0 d1 cd' bls listing" "weight bls cd' = weight bls cd" "bls (current_cluster b cd') = []"
    "cd_compression cd' = cd_compression cd" "bls (current_cluster (\<not> b) cd) = [] \<Longrightarrow> bls (current_cluster (\<not> b) cd') = []"
proof -
  let ?c = "current_cluster b cd"
  have h: "clusters_hold cd bls" using f by (simp add: finished_def)
  have "wcluster_holds (clusters cd ! ?c) (bls ?c)" using h current_cluster_less by (simp add: clusters_hold_def)
  then have cnt: "w_count (clusters cd ! ?c) = of_nat (length (bls ?c))" by (simp add: wcluster_holds_def)
  have "length (bls ?c) < 2 ^ 32" using small blobs_le_weight [OF h, of ?c] length_le_weight(1) [of "bls ?c"] by linarith
  then have "unat (w_count (clusters cd ! ?c)) = length (bls ?c)" unfolding cnt by (simp add: unat_of_nat_small)
  then have "w_count (clusters cd ! ?c) = 0 \<longleftrightarrow> bls ?c = []" by (metis length_0_conv unat_eq_0)
  then have cd': "cd' = (if bls ?c \<noteq> [] then closeCluster b cd else cd)" by (simp add: cd'_def)
  have "finished cd' bls spec \<and> grows cd bls cd' bls \<and> weight bls cd' = weight bls cd"
  proof (cases "bls ?c \<noteq> []")
    case True
    note c = closeCluster_holds [OF h True]
    have "finished (closeCluster b cd) bls spec" by (rule finished_frame [OF f c(2,1)]) (simp_all add: closeCluster_frame)
    then show ?thesis using c True by (simp add: cd')
  next
    case False
    then show ?thesis using f grows_refl by (simp add: cd')
  qed
  then show "finished cd' bls spec" "weight bls cd' = weight bls cd" and g: "cd_compression cd' = cd_compression cd" by (auto simp: grows_def)
  have gr: "grows cd bls cd' bls" using \<open>finished cd' bls spec \<and> grows cd bls cd' bls \<and> weight bls cd' = weight bls cd\<close> by blast
  have fr: "store cd' = store cd" "dirents cd' = dirents cd" "titleListing cd' = titleListing cd" "m_titleListBlobOffset cd' = m_titleListBlobOffset cd"
    by (simp_all add: cd'_def closeCluster_frame)
  have "held_at cd' bls a x" if "held_at cd bls a x" for a x by (rule held_grows [OF that gr]) (simp add: fr)
  moreover obtain c where c: "wd_cluster (store cd d1) = Some c" "w_compression (clusters cd ! c) = zimcompNone" "c < length (clusters cd)"
    using l by (auto simp: listings_filled_def held_at_def)
  moreover have "w_compression (clusters cd' ! c) = zimcompNone" using gr c(2,3) by (simp add: grows_def)
  ultimately show "listings_filled d0 d1 cd' bls listing" using l unfolding listings_filled_def fr by blast
  have empty: "bls (length (clusters cd)) = []" using h by (simp add: clusters_hold_def)
  then show "bls (current_cluster b cd') = []" by (auto simp: cd' current_cluster_def closeCluster_fields)
  show "bls (current_cluster (\<not> b) cd') = []" if "bls (current_cluster (\<not> b) cd) = []"
    using that by (auto simp: cd' current_cluster_def closeCluster_fields split: if_splits)
qed

lemma close_last_clusters_ok:
  assumes "finished cd bls spec" "listings_filled d0 d1 cd bls listing" "weight bls cd < 2 ^ 32"
  defines "cd' \<equiv> close_last_clusters cd"
  shows "finished cd' bls spec" "listings_filled d0 d1 cd' bls listing" "weight bls cd' = weight bls cd" "cd_compression cd' = cd_compression cd"
    "\<And>c. c < length (clusters cd') \<Longrightarrow> bls c \<noteq> [] \<Longrightarrow> c \<in> set (clustersList cd')"
proof -
  define cd1 where "cd1 = (if w_count (clusters cd ! current_cluster True cd) \<noteq> 0 then closeCluster True cd else cd)"
  note c1 = close_if_filled [OF assms(1-3), where b = True, folded cd1_def]
  have "cd' = (if w_count (clusters cd1 ! current_cluster False cd1) \<noteq> 0 then closeCluster False cd1 else cd1)"
    by (simp add: cd'_def close_last_clusters_def cd1_def current_cluster_def Let_def)
  note c2 = close_if_filled [OF c1(1,2), where b = False, folded this]
  have w: "weight bls cd1 < 2 ^ 32" using c1(3) assms(3) by simp
  show "finished cd' bls spec" "listings_filled d0 d1 cd' bls listing" "weight bls cd' = weight bls cd" "cd_compression cd' = cd_compression cd"
    using c1 c2 [OF w] by simp_all
  have "bls (compCluster cd') = []" "bls (uncompCluster cd') = []" using c1(4) c2 [OF w] by (simp_all add: current_cluster_def)
  moreover have "{..<length (clusters cd')} \<subseteq> set (clustersList cd') \<union> {compCluster cd', uncompCluster cd'}"
    using c2(1) [OF w] by (simp add: finished_def clusters_hold_def)
  ultimately show "\<And>c. c < length (clusters cd') \<Longrightarrow> bls c \<noteq> [] \<Longrightarrow> c \<in> set (clustersList cd')" by auto
qed

section \<open>The whole of it\<close>

lemma front_survives:
  assumes "front_item cd" "titleListingV1 cd' = titleListingV1 cd"
    and "\<And>a. \<not> wd_isRedirect (store cd a) \<Longrightarrow> wd_removed (store cd' a) = wd_removed (store cd a)"
  shows "\<exists>x\<in>set (tl_dirents (titleListingV1 cd')). \<not> wd_removed (store cd' x)"
  using assms unfolding front_item_def by metis

lemma finish_entries_ok:
  assumes calls: "run_calls calls (fst (startZimCreation c)) = Inr cd0" "\<forall>x\<in>set calls. call_ok gives x" "\<exists>x\<in>set calls. call_front x"
    and size: "sum_list (map (call_size gives) calls) \<le> 2 ^ 29"
    and srt: "\<And>lt xs. mset (std_sort lt xs) = mset xs" and fin: "finish_entries std_sort c cd0 = Inr cd"
  shows "\<exists>d0 d1 bls listing. finished cd bls (entries_of gives calls) \<and> listings_filled d0 d1 cd bls listing \<and> listing \<noteq> [] \<and>
    length listing \<le> max_transfer \<and> weight bls cd \<le> 2 ^ 30 - 8 \<and> cd_compression cd = m_compression c \<and>
    (\<forall>k<length (clusters cd). bls k \<noteq> [] \<longrightarrow> k \<in> set (clustersList cd))"
proof -
  let ?N = "{67, 77, 87 :: byte}" and ?spec = "entries_of gives calls"
  have st: "fst (startZimCreation c) = new_CreatorData (m_compression c) (m_minClusterSize c)" by (simp add: startZimCreation_def)
  let ?start = "new_CreatorData (m_compression c) (m_minClusterSize c)"
  have w0: "weight (\<lambda>_. []) ?start + sum_list (map (call_size gives) calls) < 2 ^ 32" using size by (simp add: start_created(3))
  have "67 \<in> ?N" "77 \<in> ?N" "cd_compression ?start = m_compression c" by (simp_all add: new_CreatorData_def)
  then obtain bls0 where 0: "created ?N cd0 bls0 ?spec" "weight bls0 cd0 + 12 * length calls \<le> 2 ^ 29" "listings_open (length calls) cd0"
      "cd_compression cd0 = m_compression c" "front_item cd0"
    using run_calls_ok [OF start_created(1,2) calls(1) [unfolded st] calls(2) w0, of ?N] calls(3) size
    by (auto simp: start_created(3) entries_of_def)
  let ?cd1 = "add_mainPage c (add_favicon c cd0)"
  obtain bls1 where 1: "created ?N ?cd1 bls1 ?spec" "weight bls1 ?cd1 \<le> weight bls0 cd0 + 8" "listings_open (length calls + 2) ?cd1"
      "cd_compression ?cd1 = m_compression c" "front_item ?cd1"
    using favicon_and_mainPage [OF 0(1,3), of c] 0(4,5) by auto
  obtain cd2 cd3 cd4 where p: "create_listing_entries ?cd1 = Inr cd2" "resolveMimeTypes (setEntryIndexes (resolveRedirectIndexes cd2)) = Inr cd3"
      "add_listing_contents std_sort cd3 = Inr cd4" "cd = close_last_clusters cd4"
    using fin by (auto simp: finish_entries_def rbind_Inr_iff)
  have "88 \<notin> ?N" by simp
  note 2 = create_listing_entries_ok [OF 1(1) this 1(3) p(1)]
  obtain d0 d1 where l: "has_listings d0 d1 (length calls + 2 + 2) cd2" using 2(1) by blast
  have "insert 88 ?N \<subseteq> {67, 77, 87, 88}" by auto
  note 3 = resolution_ok [OF 2(2) this 2(7,5) p(2)]
  have l3: "has_listings d0 d1 (length calls + 4) cd3"
    using l 3(6) [of d0] 3(6) [of d1] unfolding has_listings_def 3(3,4) by auto
  have w3: "weight bls1 cd3 \<le> weight bls0 cd0 + 8" using weight_same [OF 3(2)] 2(3) 1(2) by simp
  then have small: "weight bls1 cd3 + 8 * (length calls + 4) + 8 \<le> 2 ^ 30 - 8" using 0(2) by simp
  have front: "\<exists>x\<in>set (tl_dirents (titleListingV1 cd3)). \<not> wd_removed (store cd3 x)"
    by (rule front_survives [OF 2(6) [OF 1(5)] 3(4)]) (use 3(6) in blast)
  obtain bls listing where 4: "finished cd4 bls ?spec" "listings_filled d0 d1 cd4 bls listing" "listing \<noteq> []" "length listing \<le> max_transfer"
      "weight bls cd4 \<le> weight bls1 cd3 + 8 * (length calls + 4) + 8" "cd_compression cd4 = cd_compression cd3"
    using add_listing_contents_ok [OF 3(1) l3 srt small p(3) front] by blast
  have w4: "weight bls cd4 < 2 ^ 32" "weight bls cd4 \<le> 2 ^ 30 - 8" using 4(5) small by simp_all
  note 5 = close_last_clusters_ok [OF 4(1,2) w4(1), folded p(4)]
  have "cd_compression cd = m_compression c" using 5(4) 4(6) 3(2) 2(4) 1(4) by (simp add: same_contents_def)
  then show ?thesis using 5 4(3,4) w4(2) by (intro exI [of _ d0] exI [of _ d1] exI [of _ bls] exI [of _ listing]) simp
qed

end
