(* ===== verification/Archive_Built.thy ===== *)
theory Archive_Built
  imports Archive_Written Creator_Finished
begin

text \<open>
  The whole way of a content: an application adds items, metadata and redirections to a creator, finishes the creation, the
  threads compress and write the clusters, the file is completed, and a reader opens it. What the reader is then told about
  a path is what the specification \<open>entries_of\<close> says of the calls.
\<close>

section \<open>The data of a finished creator\<close>

lemma length_mimes_le: "length ms \<le> length (mime_list ms)"
  by (induction ms) (simp_all add: mime_list_def)

lemma finished_entries:
  assumes f: "finished cd bls spec" and m: "80 + length (mime_list (mimeTypesList cd)) < CLUSTER_BASE_OFFSET"
    and n: "length (clustersList cd) \<le> length (dirents cd)"
  shows "entries_finished cd"
proof -
  have few: "length (mimeTypesList cd) < 1024" using m length_mimes_le [of "mimeTypesList cd"] by (simp add: CLUSTER_BASE_OFFSET_def)
  have e: "wd_ns (store cd a) \<in> {67, 77, 87, 88}" "strings_ok (wd_path (store cd a)) (wd_title (store cd a))" "wd_writable (store cd a)"
    if a: "a \<in> set (dirents cd)" for a
  proof -
    have o: "wd_ns (store cd a) \<in> {67, 77, 87, 88} \<and> strings_ok (wd_path (store cd a)) (wd_title (store cd a)) \<and>
        (if wd_isRedirect (store cd a) then \<exists>t. wd_info (store cd a) = RedirectInfo (Some t)
         else (\<exists>n b. wd_info (store cd a) = DirectInfo n b) \<and> unat (wd_mimeType (store cd a)) < length (mimeTypesList cd))"
      using f a unfolding finished_def by blast
    then show "wd_ns (store cd a) \<in> {67, 77, 87, 88}" "strings_ok (wd_path (store cd a)) (wd_title (store cd a))" by blast+
    have "wd_mimeType (store cd a) \<notin> {linktargetMimeType, deletedMimeType}"
      using o few by (cases "wd_isRedirect (store cd a)") (auto simp: wd_isRedirect_def mime_consts)
    then show "wd_writable (store cd a)" using o by (auto simp: wd_writable_def strings_ok_def)
  qed
  have sorted: "sorted_wrt (UrlCompare (store cd)) (dirents cd)" using f by (simp add: finished_def)
  then have dist: "distinct (dirents cd)"
    using distinct_dirents [of "cd\<lparr>unresolvedRedirectDirents := filter (\<lambda>a. wd_isRedirect (store cd a)) (dirents cd)\<rparr>"]
    by (simp add: entries_ok_def sorted_wrt_filter)
  have short: "length (wd_path (store cd a)) + length (wd_title (store cd a)) < 200" if "a \<in> set (dirents cd)" for a
    using e(2) [OF that] by (simp add: strings_ok_def)
  then have "ready_to_write cd" using e(3) dist m by (fastforce simp: ready_to_write_def max_transfer_def)
  moreover have "0 < wd_ns (store cd a) \<and> wd_ns (store cd a) < 128" if "a \<in> set (dirents cd)" for a using e(1) [OF that] by auto
  moreover have "\<forall>x\<in>set (mimeTypesList cd). x \<noteq> [] \<and> 0 \<notin> set x" using f by (simp add: finished_def)
  ultimately show ?thesis using sorted short n by (simp add: entries_finished_def)
qed

lemma finished_clusters_filled:
  assumes f: "finished cd bls spec" and w: "weight bls cd \<le> 2 ^ 30 - 8" and ne: "clustersList cd \<noteq> []"
    and c: "cd_compression cd \<in> {zimcompDefault, zimcompNone, zimcompLzma, zimcompZstd}"
  shows "clusters_filled cd bls"
proof -
  have h: "clusters_hold cd bls" "clusters_ok cd" using f by (simp_all add: finished_def clusters_hold_def)
  have "k < length (clusters cd) \<and> wcluster_holds (clusters cd ! k) (bls k) \<and> cluster_fits False (bls k) \<and>
      length (cluster_plain False (bls k)) \<le> 2 ^ 30 \<and> w_compression (clusters cd ! k) \<in> {zimcompDefault, zimcompNone, zimcompLzma, zimcompZstd}"
    if k: "k \<in> set (clustersList cd)" for k
  proof -
    have kl: "k < length (clusters cd)" using h(2) k by (auto simp: clusters_ok_def)
    have nek: "bls k \<noteq> []" using h(1) k unfolding clusters_hold_def by (metis in_set_conv_nth)
    have wk: "length (concat (bls k)) + 4 * length (bls k) \<le> 2 ^ 30 - 8" using length_le_weight(2) [of "bls k"] blobs_le_weight [OF h(1), of k] w by simp
    have "length bl \<le> length (concat (bls k))" if "bl \<in> set (bls k)" for bl using that by (auto simp: length_concat intro: member_le_sum_list)
    then have "cluster_fits False (bls k)" using nek wk by (fastforce simp: cluster_fits_def offset_width_def max_transfer_def)
    moreover have "length (cluster_plain False (bls k)) = 4 * Suc (length (bls k)) + length (concat (bls k))"
      by (simp add: cluster_plain_def cluster_table_def length_concat_32 cluster_starts_def del: map_map)
    ultimately show ?thesis using h(1) kl wk c by (auto simp: clusters_hold_def)
  qed
  then show ?thesis using h ne by (simp add: clusters_filled_def clusters_hold_def clusters_ok_def)
qed

lemma held_content:
  assumes "held_at cd bls a content" "\<forall>k<length (clusters cd). bls k \<noteq> [] \<longrightarrow> k \<in> set (clustersList cd)"
  shows "\<exists>k. content_at cd bls a k content"
  using assms unfolding held_at_def content_at_def by fastforce

lemma finished_listings:
  assumes l: "listings_filled d0 d1 cd bls listing" "listing \<noteq> []" "length listing \<le> max_transfer"
    and c: "\<forall>k<length (clusters cd). bls k \<noteq> [] \<longrightarrow> k \<in> set (clustersList cd)"
  shows "listings_added cd bls listing" "clustersList cd \<noteq> []"
proof -
  obtain l0 k where 0: "tl_dirent (titleListing cd) = Some d0" "content_at cd bls d0 k l0"
    using l(1) held_content [OF _ c, of d0] unfolding listings_filled_def by blast
  then show "clustersList cd \<noteq> []" by (auto simp: content_at_def)
  obtain k1 where 1: "content_at cd bls d1 k1 listing" "w_compression (clusters cd ! k1) = zimcompNone"
    using l(1) held_content [OF _ c, of d1 listing] by (auto simp: listings_filled_def content_at_def)
  have "d1 \<in> set (dirents cd)" "wd_ns (store cd d1) = 88" "wd_path (store cd d1) = str listing_path"
      "unat (m_titleListBlobOffset cd) \<le> max_transfer"
    using l(1) by (auto simp: listings_filled_def entry_key_def listing_path_def)
  then show "listings_added cd bls listing" using 0 1 l(2,3) by (auto simp: listings_added_def content_at_def)
qed

section \<open>The round trip\<close>

text \<open>What a reader is told about a path of the namespace \<^verbatim>\<open>C\<close>.\<close>

definition archive_gives :: "'st surroundings \<Rightarrow> FileImpl \<Rightarrow> bytes \<Rightarrow> bytes \<Rightarrow> bytes \<Rightarrow> bool" where
  "archive_gives s fi path mimetype content \<longleftrightarrow>
     (\<exists>e it b. getEntryByPath (s_junk s) fi path = Inr e \<and> getItem (s_junk s) fi False e = Inr it \<and>
        i_getMimetype fi it = Inr mimetype \<and> i_getData s fi 0 it = Inr b \<and> blob_string b = content)"

lemma serves_gives:
  assumes "serves s fi cd a content" "unat (wd_mimeType (store cd a)) < length (mimeTypesList cd)"
  shows "archive_gives s fi (wd_path (store cd a)) (mimeTypesList cd ! unat (wd_mimeType (store cd a))) content"
  using assms by (auto simp: serves_def archive_gives_def)


text \<open>The bound on the number of clusters is needed: the contents of an item that is refused because its path is taken stay in the
  clusters, so that clusters can outnumber entries, and then the reader refuses the header that was written.\<close>

lemma more_clusters_than_entries:
  assumes w: "creator_write c h0 ctx cd out = Inr (cd', h, out')"
    and more: "length (dirents cd) < length (clustersList cd)" "length (clustersList cd) < 2 ^ 32"
  shows "sanity_check h \<noteq> Inr ()"
proof -
  obtain h1 where h1: "fillHeader c cd h0 = Inr h1" "articleCount h = articleCount h1" "clusterCount h = clusterCount h1"
    using w by (auto simp: creator_write_def rbind_Inr_iff ASSERT_def Let_def split: if_splits)
  have "articleCount h1 = of_nat (length (dirents cd))" "clusterCount h1 = of_nat (length (clustersList cd))"
    using h1(1) by (auto simp: fillHeader_def Let_def rbind_Inr_iff split: option.splits)
  then have "articleCount h < clusterCount h" using more by (simp add: h1(2,3) word_less_nat_alt unat_of_nat_small)
  then show ?thesis unfolding sanity_check_ok_iff by (simp add: not_le [symmetric])
qed

section \<open>An example\<close>

text \<open>Two items at one path and a redirection, in a creator that does not compress.\<close>

definition example_page :: "bytes \<Rightarrow> Creator_Data.Item" where
  "example_page content = \<lparr>it_path = str ''a'', it_title = [], it_mimetype = str ''text/html'', it_hint_compress = None,
     it_hint_front = Some 1, it_provider = new_StringProvider content\<rparr>"

definition example_calls :: "call list" where
  "example_calls = [AddItem (example_page [10, 11])]"

fun example_gives :: "ContentProvider \<Rightarrow> bytes" where
  "example_gives (StringProvider content feeded) = content"
| "example_gives _ = []"

fun insert_by :: "('a \<Rightarrow> 'a \<Rightarrow> bool) \<Rightarrow> 'a \<Rightarrow> 'a list \<Rightarrow> 'a list" where
  "insert_by lt x [] = [x]"
| "insert_by lt x (y # ys) = (if lt y x then y # insert_by lt x ys else x # y # ys)"

definition example_sort :: "('a \<Rightarrow> 'a \<Rightarrow> bool) \<Rightarrow> 'a list \<Rightarrow> 'a list" where
  "example_sort lt xs = foldr (insert_by lt) xs []"

definition example_creator :: Creator where
  "example_creator = (new_Creator (zeros 16))\<lparr>m_compression := zimcompNone\<rparr>"

definition example_added :: CreatorData where
  "example_added = (case run_calls example_calls (fst (startZimCreation example_creator)) of Inr cd \<Rightarrow> cd | Inl _ \<Rightarrow> new_CreatorData zimcompNone 0)"

definition example_done :: CreatorData where
  "example_done = (case finish_entries example_sort example_creator example_added of Inr cd \<Rightarrow> cd | Inl _ \<Rightarrow> new_CreatorData zimcompNone 0)"

lemma example_sort_mset: "mset (example_sort lt xs) = mset xs"
proof -
  have "mset (insert_by lt x ys) = add_mset x (mset ys)" for x ys by (induction ys) auto
  then show ?thesis unfolding example_sort_def by (induction xs) auto
qed

lemma refused_items_fill_clusters:
  "case run_calls (replicate 3 (AddItem (example_page [10]))) (fst (startZimCreation (configMinClusterSize 0 example_creator))) of
     Inl _ \<Rightarrow> False | Inr cd \<Rightarrow> length (dirents cd) = 1 \<and> length (clustersList cd) = 2"
  by code_simp

lemma example_run: "run_calls example_calls (fst (startZimCreation example_creator)) = Inr example_added"
proof -
  have "\<not> isl (run_calls example_calls (fst (startZimCreation example_creator)))" by code_simp
  then show ?thesis unfolding example_added_def by (cases "run_calls example_calls (fst (startZimCreation example_creator))") simp_all
qed

lemma example_finish:
  "case finish_entries example_sort example_creator example_added of Inl _ \<Rightarrow> False | Inr cd \<Rightarrow>
     80 + length (mime_list (mimeTypesList cd)) < CLUSTER_BASE_OFFSET \<and> length (clustersList cd) = 2 \<and> length (dirents cd) = 3 \<and>
     list_all (\<lambda>k. w_compression (clusters cd ! k) = zimcompNone) (clustersList cd)"
  by code_simp

lemma example_done_facts:
  "finish_entries example_sort example_creator example_added = Inr example_done"
  "80 + length (mime_list (mimeTypesList example_done)) < CLUSTER_BASE_OFFSET" "length (clustersList example_done) = 2"
  "length (dirents example_done) = 3" "\<forall>k\<in>set (clustersList example_done). w_compression (clusters example_done ! k) = zimcompNone"
  using example_finish
  by (auto simp: example_done_def list_all_iff split: sum.splits)

lemma example_calls_ok: "\<forall>x\<in>set example_calls. call_ok example_gives x" "\<exists>x\<in>set example_calls. call_front x"
    "sum_list (map (call_size example_gives) example_calls) \<le> 2 ^ 29"
    "entries_of example_gives example_calls (67, str ''a'') = Some (str ''text/html'', [10, 11])"
proof -
  have "strings_ok (str ''a'') []" "0 \<notin> set (str ''text/html'')" "str ''text/html'' \<noteq> []" by code_simp+
  then show "\<forall>x\<in>set example_calls. call_ok example_gives x" "\<exists>x\<in>set example_calls. call_front x"
      "sum_list (map (call_size example_gives) example_calls) \<le> 2 ^ 29"
      "entries_of example_gives example_calls (67, str ''a'') = Some (str ''text/html'', [10, 11])"
    using new_StringProvider_gives [of "[10, 11]"]
    by (simp_all add: example_calls_def example_page_def new_StringProvider_def entries_of_def add_once_def item_mimetype_def)
qed

text \<open>Without compression the length of the clusters in the file is known.\<close>

lemma raw_prepared:
  assumes "wcluster_holds c bls" "w_compression c = ct" "ct \<in> {zimcompDefault, zimcompNone}" "cluster_fits False bls"
  shows "cluster_prepared (w_close erun elzma ezstd junk) junk c (cluster_info False ct # cluster_plain False bls)"
proof -
  have cl: "w_close erun elzma ezstd junk c = Inr (c\<lparr>w_closed := True\<rparr>)" using assms(2,3) by (auto simp: w_close_def)
  have "\<exists>c2 out'. w_write posix_write junk (c\<lparr>w_closed := True, w_offset := of_nat (f_pos out)\<rparr>) out = Inr (c2, out') \<and>
      file_at_end out' (pre @ cluster_info False ct # cluster_plain False bls) \<and> cluster_done c (of_nat (length pre)) c2"
    if out: "file_padded out pre" for out pre
  proof -
    obtain c2 out' where w: "w_write posix_write junk (c\<lparr>w_closed := True, w_offset := of_nat (f_pos out)\<rparr>) out = Inr (c2, out')"
        "file_at_end out' (pre @ cluster_info False ct # cluster_plain False bls)"
      using write_raw_cluster [OF assms out] by blast
    then show ?thesis using w_write_frame [OF w(1)] out by (auto simp: cluster_done_def file_padded_def)
  qed
  then show ?thesis using cl assms(1) by (auto simp: cluster_prepared_def wcluster_holds_def)
qed

lemma raw_run:
  assumes cl: "clusters_filled cd bls" and raw: "\<forall>k\<in>set (clustersList cd). w_compression (clusters cd ! k) = zimcompNone"
    and out: "file_padded out pre"
  shows "\<exists>t. (pipe_step (w_close erun elzma ezstd junk) junk)\<^sup>*\<^sup>* (pipe_start 1 (clustersList cd) (clusters cd) out) t \<and> p_main t = MainDone \<and>
    length (f_contents (out_fd t)) = length pre + (\<Sum>k\<leftarrow>clustersList cd. 1 + length (cluster_plain False (bls k)))"
proof -
  let ?close = "w_close erun elzma ezstd junk" and ?b = "\<lambda>k. cluster_info False zimcompNone # cluster_plain False (bls k)"
  have ne: "clustersList cd \<noteq> []" using cl by (simp add: clusters_filled_def)
  have prep: "all_prepared ?close junk ?b (clusters cd) (clustersList cd)"
    using cl raw by (auto simp: all_prepared_def clusters_filled_def intro!: raw_prepared)
  obtain t where t: "(pipe_step ?close junk)\<^sup>*\<^sup>* (pipe_start 1 (clustersList cd) (clusters cd) out) t" "p_main t = MainDone"
    using pipe_start_ok [OF out prep, of 1] pipe_completes [OF _ _ prep, of 1 "pipe_start 1 (clustersList cd) (clusters cd) out" pre] by auto
  note ok = pipe_reachable_ok [OF t(1) out prep]
  have "p_written t = clustersList cd" using ok t(2) by (auto simp: threads_ok_def in_writer_def)
  then have "f_contents (out_fd t) = pre @ concat (map ?b (clustersList cd))" using ok ne by (auto simp: contents_ok_def file_at_end_def)
  then have "length (f_contents (out_fd t)) = length pre + (\<Sum>k\<leftarrow>clustersList cd. 1 + length (cluster_plain False (bls k)))"
    by (simp add: length_concat comp_def)
  then show ?thesis using t by blast
qed

lemma raw_length:
  assumes f: "finished cd bls spec"
  shows "(\<Sum>k\<leftarrow>clustersList cd. 1 + length (cluster_plain False (bls k))) \<le> weight bls cd + 5 * length (clustersList cd)"
proof -
  have h: "clusters_ok cd" using f by (simp add: finished_def clusters_hold_def)
  have "1 + length (cluster_plain False (bls k)) = blobs_weight (bls k) + 5" for k
    using length_le_weight(2) [of "bls k"]
    by (simp add: cluster_plain_def cluster_table_def length_concat_32 cluster_starts_def del: map_map)
  then have "(\<Sum>k\<leftarrow>clustersList cd. 1 + length (cluster_plain False (bls k))) = (\<Sum>k\<leftarrow>clustersList cd. blobs_weight (bls k)) + 5 * length (clustersList cd)"
    by (simp add: sum_list_addf sum_list_triv)
  also have "(\<Sum>k\<leftarrow>clustersList cd. blobs_weight (bls k)) = (\<Sum>k\<in>set (clustersList cd). blobs_weight (bls k))"
    using h by (simp add: clusters_ok_def sum_list_distinct_conv_sum_set)
  also have "\<dots> \<le> weight bls cd" unfolding weight_def using h by (intro sum_mono2) (auto simp: clusters_ok_def)
  finally show ?thesis by simp
qed

lemma written_length:
  assumes w: "creator_write c h0 ctx cd out = Inr (cd', h, out')" and ready: "ready_to_write cd" "CLUSTER_BASE_OFFSET \<le> length (f_contents out)"
    and short: "\<forall>a\<in>set (dirents cd). length (wd_path (store cd a)) + length (wd_title (store cd a)) < 200"
    and len: "length (m_uuid c) = 16" "length (md5_buffer ctx) = 64"
  shows "length (f_contents out') \<le> length (f_contents out) + 264 * length (dirents cd) + 8 * length (clustersList cd) + 16"
proof -
  obtain h1 where h1: "fillHeader c cd h0 = Inr h1" using w by (auto simp: creator_write_def rbind_Inr_iff)
  have uuid: "length (uuid (final_header cd (f_contents out) h1)) = 16"
    using fillHeader_fields(2) [OF h1] len(1) by (simp add: final_header_def Let_def)
  have "f_contents out' = archive_file cd (f_contents out) (final_header cd (f_contents out) h1)"
    using creator_write_file [OF ready(1) refl ready(2) h1 len] w by auto
  moreover have "length (concat (map (entry_bytes (store cd) (\<lambda>n. clusters cd ! n)) ds)) \<le> 256 * length ds" if "set ds \<subseteq> set (dirents cd)" for ds
    using that
  proof (induction ds)
    case (Cons a ds)
    then show ?case using entry_bytes_short [of "store cd" a "\<lambda>n. clusters cd ! n"] short by fastforce
  qed simp
  ultimately show ?thesis using file_layout(6) [OF uuid ready] by fastforce
qed

definition mem_compound :: "bytes \<Rightarrow> FileCompound" where
  "mem_compound bs = \<lparr>fc_map = [(\<lparr>range_min = 0, range_max = of_nat (length bs)\<rparr>,
     \<lparr>part_filename = [], part_fhandle = mem_fd bs, part_size = of_nat (length bs)\<rparr>)], fsize = of_nat (length bs)\<rparr>"

lemma mem_compound_reader:
  assumes "length bs \<le> max_transfer"
  shows "\<exists>r. makeFileReader (mem_compound bs) 0 (of_nat (length bs)) = Inr (Some r) \<and> reader_holds r bs"
proof -
  have n: "length bs < 2 ^ 63" using assms by (simp add: max_transfer_def)
  then have "unat (of_nat (length bs) :: u64) = length bs" by (simp add: unat_of_nat_small)
  then have "reader_holds (FileReader (mem_fd bs) 0 (of_nat (length bs))) bs"
    using mem_fd_serves [OF n] by (auto simp: slice_at_def intro!: exI [of _ bs])
  then show ?thesis by (simp add: makeFileReader_def mem_compound_def is_multiPart_def)
qed


end
