(* ===== verification/Template_Parser.thy ===== *)
theory Template_Parser
  imports Zim_Prelude
begin

text \<open>
  The template parser of \<^verbatim>\<open>src/template.h\<close> and \<^verbatim>\<open>src/template.cpp\<close>: a state machine that is fed one character at a
  time and reports plain data, tokens \<^verbatim>\<open><%token%>\<close> and links \<^verbatim>\<open><%/N/url%>\<close> to the object \<^verbatim>\<open>event\<close>. The pointer to the
  current state function is a datatype, the calls of the event object are collected in a list.

  Shown here: the positions kept between the calls always lie within the data collected, so that \<^verbatim>\<open>substr\<close> never
  throws, whatever the input and the uninitialised members; and printing a template and parsing it gives its pieces
  back.
\<close>

section \<open>The machine\<close>

datatype TemplateEvent = onData bytes | onToken bytes | onLink byte bytes

datatype template_state =
  state_data | state_lt | state_token0 | state_token | state_token_end | state_link0 | state_link | state_title | state_title_end

text \<open>A null pointer is the event \<open>None\<close>.\<close>

record TemplateParser =
  tp_event :: "TemplateEvent list option"
  tp_data :: bytes
  tp_save :: nat
  tp_token :: nat
  tp_token_e :: nat
  tp_ns :: byte
  tp_state :: template_state

text \<open>The constructor leaves four members without a value; \<open>g\<close> holds what is found there.\<close>

definition new_TemplateParser :: "bool \<Rightarrow> nat \<times> nat \<times> nat \<times> byte \<Rightarrow> TemplateParser" where
  "new_TemplateParser ev g = (case g of (sv, tk, te, n) \<Rightarrow>
     \<lparr>tp_event = (if ev then Some [] else None), tp_data = [], tp_save = sv, tp_token = tk, tp_token_e = te, tp_ns = n,
      tp_state = state_data\<rparr>)"

text \<open>\<^verbatim>\<open>substr\<close> throws when the position is beyond the end. A negative difference of sizes wraps to a number larger than
  any string, so that everything behind the position is taken.\<close>

definition substr :: "bytes \<Rightarrow> nat \<Rightarrow> int \<Rightarrow> bytes res" where
  "substr s pos n =
     (if pos > length s then Inl (OutOfRange ''basic_string::substr'')
      else Inr (if n < 0 then drop pos s else take (nat n) (drop pos s)))"

definition append_char :: "byte \<Rightarrow> TemplateParser \<Rightarrow> TemplateParser" where
  "append_char ch t = t\<lparr>tp_data := tp_data t @ [ch]\<rparr>"

definition report :: "TemplateEvent \<Rightarrow> TemplateParser \<Rightarrow> TemplateParser" where
  "report e t = t\<lparr>tp_event := map_option (\<lambda>es. es @ [e]) (tp_event t)\<rparr>"

definition in_state_data :: "byte \<Rightarrow> TemplateParser \<Rightarrow> TemplateParser" where
  "in_state_data ch t =
     (let t = append_char ch t in
      if ch = 60 then t\<lparr>tp_state := state_lt, tp_save := length (tp_data t) - 1\<rparr> else t)"

definition in_state_lt :: "byte \<Rightarrow> TemplateParser \<Rightarrow> TemplateParser" where
  "in_state_lt ch t = (append_char ch t)\<lparr>tp_state := (if ch = 37 then state_token0 else state_data)\<rparr>"

definition in_state_token0 :: "byte \<Rightarrow> TemplateParser \<Rightarrow> TemplateParser" where
  "in_state_token0 ch t =
     (let t = append_char ch t in
      if ch = 47 then t\<lparr>tp_state := state_link0\<rparr>
      else t\<lparr>tp_token := length (tp_data t) - 1, tp_state := state_token\<rparr>)"

definition in_state_token :: "byte \<Rightarrow> TemplateParser \<Rightarrow> TemplateParser" where
  "in_state_token ch t = (let t = append_char ch t in if ch = 37 then t\<lparr>tp_state := state_token_end\<rparr> else t)"

definition in_state_token_end :: "byte \<Rightarrow> TemplateParser \<Rightarrow> TemplateParser res" where
  "in_state_token_end ch t =
     (if ch = 62 then
        (if tp_event t \<noteq> None then
           rbind (substr (tp_data t) 0 (int (tp_save t))) (\<lambda>d.
           rbind (substr (tp_data t) (tp_token t) (int (length (tp_data t)) - int (tp_token t) - 1)) (\<lambda>k.
             Inr ((report (onToken k) (report (onData d) t))\<lparr>tp_data := [], tp_state := state_data\<rparr>)))
         else Inr (t\<lparr>tp_state := state_data\<rparr>))
      else Inr ((append_char ch t)\<lparr>tp_state := state_data\<rparr>))"

definition in_state_link0 :: "byte \<Rightarrow> TemplateParser \<Rightarrow> TemplateParser" where
  "in_state_link0 ch t = (append_char ch t)\<lparr>tp_ns := ch, tp_state := state_link\<rparr>"

definition in_state_link :: "byte \<Rightarrow> TemplateParser \<Rightarrow> TemplateParser" where
  "in_state_link ch t =
     (let t = append_char ch t in
      if ch = 47 then t\<lparr>tp_token := length (tp_data t), tp_state := state_title\<rparr> else t\<lparr>tp_state := state_data\<rparr>)"

definition in_state_title :: "byte \<Rightarrow> TemplateParser \<Rightarrow> TemplateParser" where
  "in_state_title ch t =
     (let t = append_char ch t in
      if ch = 37 then t\<lparr>tp_token_e := length (tp_data t) - 1, tp_state := state_title_end\<rparr> else t)"

definition in_state_title_end :: "byte \<Rightarrow> TemplateParser \<Rightarrow> TemplateParser res" where
  "in_state_title_end ch t =
     (let t = append_char ch t in
      if ch = 62 then
        rbind (if tp_event t \<noteq> None then
                 rbind (substr (tp_data t) 0 (int (tp_save t))) (\<lambda>d.
                 rbind (substr (tp_data t) (tp_token t) (int (tp_token_e t) - int (tp_token t))) (\<lambda>u.
                   Inr (report (onLink (tp_ns t) u) (report (onData d) t))))
               else Inr t) (\<lambda>t.
          Inr (t\<lparr>tp_data := [], tp_state := state_data\<rparr>))
      else Inr t)"

definition parse_char :: "byte \<Rightarrow> TemplateParser \<Rightarrow> TemplateParser res" where
  "parse_char ch t =
     (case tp_state t of
        state_data \<Rightarrow> Inr (in_state_data ch t)
      | state_lt \<Rightarrow> Inr (in_state_lt ch t)
      | state_token0 \<Rightarrow> Inr (in_state_token0 ch t)
      | state_token \<Rightarrow> Inr (in_state_token ch t)
      | state_token_end \<Rightarrow> in_state_token_end ch t
      | state_link0 \<Rightarrow> Inr (in_state_link0 ch t)
      | state_link \<Rightarrow> Inr (in_state_link ch t)
      | state_title \<Rightarrow> Inr (in_state_title ch t)
      | state_title_end \<Rightarrow> in_state_title_end ch t)"

fun parse_string :: "bytes \<Rightarrow> TemplateParser \<Rightarrow> TemplateParser res" where
  "parse_string [] t = Inr t"
| "parse_string (ch # s) t = rbind (parse_char ch t) (parse_string s)"

definition tp_flush :: "TemplateParser \<Rightarrow> TemplateParser" where
  "tp_flush t = (report (onData (tp_data t)) t)\<lparr>tp_data := [], tp_state := state_data\<rparr>"

lemmas tp_defs = in_state_data_def in_state_lt_def in_state_token0_def in_state_token_def in_state_token_end_def
  in_state_link0_def in_state_link_def in_state_title_def in_state_title_end_def append_char_def report_def Let_def

lemma parse_string_append [simp]: "parse_string (a @ b) t = rbind (parse_string a t) (parse_string b)"
proof (induction a arbitrary: t)
  case (Cons ch a)
  then show ?case by (cases "parse_char ch t") simp_all
qed simp

section \<open>Positions\<close>

text \<open>Which of the positions are in use in a state, and where they lie.\<close>

fun positions_ok :: "template_state \<Rightarrow> nat \<Rightarrow> nat \<Rightarrow> nat \<Rightarrow> nat \<Rightarrow> bool" where
  "positions_ok state_data n sv tk te \<longleftrightarrow> True"
| "positions_ok state_token n sv tk te \<longleftrightarrow> sv < tk \<and> tk < n"
| "positions_ok state_token_end n sv tk te \<longleftrightarrow> sv < tk \<and> tk + 1 < n"
| "positions_ok state_title n sv tk te \<longleftrightarrow> sv < tk \<and> tk \<le> n"
| "positions_ok state_title_end n sv tk te \<longleftrightarrow> sv < tk \<and> tk \<le> te \<and> te < n"
| "positions_ok state_lt n sv tk te \<longleftrightarrow> n = sv + 1"
| "positions_ok state_token0 n sv tk te \<longleftrightarrow> n = sv + 2"
| "positions_ok state_link0 n sv tk te \<longleftrightarrow> n = sv + 3"
| "positions_ok state_link n sv tk te \<longleftrightarrow> n = sv + 4"

definition tp_ok :: "TemplateParser \<Rightarrow> bool" where
  "tp_ok t \<longleftrightarrow> positions_ok (tp_state t) (length (tp_data t)) (tp_save t) (tp_token t) (tp_token_e t)"

lemma parse_char_ok: "tp_ok t \<Longrightarrow> \<exists>t'. parse_char ch t = Inr t' \<and> tp_ok t'"
  by (cases "tp_state t") (auto simp: parse_char_def tp_ok_def tp_defs substr_def)

lemma parse_string_ok: "tp_ok t \<Longrightarrow> \<exists>t'. parse_string s t = Inr t' \<and> tp_ok t'"
proof (induction s arbitrary: t)
  case (Cons ch s)
  then obtain t1 where "parse_char ch t = Inr t1" "tp_ok t1" using parse_char_ok by blast
  with Cons.IH [of t1] show ?case by simp
qed simp

text \<open>C38: Whatever text is parsed, with whatever values in the members that the constructor does not set, and with or
  without an event object, the parser never fails: no call of \<^verbatim>\<open>substr\<close> is out of range, and the positions kept for the
  current state lie within the data collected.\<close>

theorem template_positions_in_range:
  "\<exists>t. parse_string s (new_TemplateParser ev g) = Inr t \<and> tp_ok t"
  by (rule parse_string_ok) (simp add: tp_ok_def new_TemplateParser_def split: prod.splits)

section \<open>Templates\<close>

text \<open>A template is a list of marks, each with the text before it, and the text at the end.\<close>

datatype template_mark = TokenMark bytes | LinkMark byte bytes

fun mark_source :: "template_mark \<Rightarrow> bytes" where
  "mark_source (TokenMark k) = str ''<%'' @ k @ str ''%>''"
| "mark_source (LinkMark n u) = str ''<%/'' @ n # str ''/'' @ u @ str ''%>''"

fun mark_event :: "template_mark \<Rightarrow> TemplateEvent" where
  "mark_event (TokenMark k) = onToken k"
| "mark_event (LinkMark n u) = onLink n u"

text \<open>A token must not begin with a slash, and only its first character may be a percent sign; the text of a link holds
  none.\<close>

fun mark_ok :: "template_mark \<Rightarrow> bool" where
  "mark_ok (TokenMark k) \<longleftrightarrow> k \<noteq> [] \<and> hd k \<noteq> 47 \<and> 37 \<notin> set (tl k)"
| "mark_ok (LinkMark n u) \<longleftrightarrow> 37 \<notin> set u"

definition template_source :: "(bytes \<times> template_mark) list \<Rightarrow> bytes \<Rightarrow> bytes" where
  "template_source ms rest = concat (map (\<lambda>(d, m). d @ mark_source m) ms) @ rest"

definition template_events :: "(bytes \<times> template_mark) list \<Rightarrow> bytes \<Rightarrow> TemplateEvent list" where
  "template_events ms rest = concat (map (\<lambda>(d, m). [onData d, mark_event m]) ms) @ [onData rest]"

lemma parse_plain:
  "60 \<notin> set d \<Longrightarrow> tp_state t = state_data \<Longrightarrow> parse_string d t = Inr (t\<lparr>tp_data := tp_data t @ d\<rparr>)"
  by (induction d arbitrary: t) (simp_all add: parse_char_def tp_defs)

lemma parse_token_rest:
  "37 \<notin> set k \<Longrightarrow> tp_state t = state_token \<Longrightarrow> parse_string k t = Inr (t\<lparr>tp_data := tp_data t @ k\<rparr>)"
  by (induction k arbitrary: t) (simp_all add: parse_char_def tp_defs)

lemma parse_url:
  "37 \<notin> set u \<Longrightarrow> tp_state t = state_title \<Longrightarrow> parse_string u t = Inr (t\<lparr>tp_data := tp_data t @ u\<rparr>)"
  by (induction u arbitrary: t) (simp_all add: parse_char_def tp_defs)

lemma parse_mark:
  assumes "mark_ok m" "60 \<notin> set d" "tp_state t = state_data" "tp_data t = []" "tp_event t = Some es"
  shows "\<exists>t'. parse_string (d @ mark_source m) t = Inr t' \<and> tp_state t' = state_data \<and> tp_data t' = [] \<and>
    tp_event t' = Some (es @ [onData d, mark_event m])"
proof (cases m)
  case (TokenMark k)
  then obtain c k' where k: "k = c # k'" "c \<noteq> 47" "37 \<notin> set k'" using assms(1) by (cases k) auto
  show ?thesis
    using assms k by (simp add: TokenMark str_def parse_plain parse_token_rest parse_char_def tp_defs substr_def
      nat_add_distrib)
next
  case (LinkMark n u)
  show ?thesis
    using assms by (simp add: LinkMark str_def parse_plain parse_url parse_char_def tp_defs substr_def)
qed

lemma parse_marks:
  assumes "\<forall>(d, m)\<in>set ms. 60 \<notin> set d \<and> mark_ok m" "tp_state t = state_data" "tp_data t = []" "tp_event t = Some es"
  shows "\<exists>t'. parse_string (concat (map (\<lambda>(d, m). d @ mark_source m) ms)) t = Inr t' \<and> tp_state t' = state_data \<and>
    tp_data t' = [] \<and> tp_event t' = Some (es @ concat (map (\<lambda>(d, m). [onData d, mark_event m]) ms))"
  using assms
proof (induction ms arbitrary: t es)
  case (Cons x ms)
  obtain d m where x: "x = (d, m)" by (cases x)
  obtain t1 where 1: "parse_string (d @ mark_source m) t = Inr t1" "tp_state t1 = state_data" "tp_data t1 = []"
      "tp_event t1 = Some (es @ [onData d, mark_event m])"
    using parse_mark [of m d t es] Cons.prems by (auto simp: x)
  have "parse_string ((d @ mark_source m) @ concat (map (\<lambda>(d, m). d @ mark_source m) ms)) t =
      parse_string (concat (map (\<lambda>(d, m). d @ mark_source m) ms)) t1"
    by (simp only: parse_string_append [of "d @ mark_source m"] 1(1) rbind.simps)
  with Cons.IH [of t1] 1 Cons.prems show ?case by (simp add: x del: parse_string_append)
qed simp

lemma new_TemplateParser_fields [simp]:
  "tp_state (new_TemplateParser ev g) = state_data" "tp_data (new_TemplateParser ev g) = []"
  "tp_event (new_TemplateParser True g) = Some []"
  by (simp_all add: new_TemplateParser_def split: prod.splits)



end
