(* ===== verification/Html_Parser.thy ===== *)
theory Html_Parser
  imports Zim_Tools
begin

text \<open>
  The HTML parser that prepares the text of a page for the full-text index: \<^verbatim>\<open>src/xapian/htmlparse.cc\<close>,
  \<^verbatim>\<open>src/xapian/myhtmlparse.cc\<close> and the table of \<^verbatim>\<open>src/xapian/namedentities.h\<close>. Iterators into the document are
  positions; the character at the end is the terminating zero. The conversion of a code point to UTF-8 is a function
  of the Xapian library and a parameter (\<open>utf8\<close>), as is reading a floating-point number from a string (\<open>stof\<close>).

  Shown here: the parser always comes to an end, and what it leaves for the index is a sequence of words separated by
  single blanks, whatever the document; decoding inverts the usual escaping, and so escaped text arrives in the index
  word by word.
\<close>

section \<open>Characters and searching\<close>

definition isdigit :: "byte \<Rightarrow> bool" where
  "isdigit c \<longleftrightarrow> 48 \<le> c \<and> c \<le> 57"

definition isalpha :: "byte \<Rightarrow> bool" where
  "isalpha c \<longleftrightarrow> 65 \<le> c \<and> c \<le> 90 \<or> 97 \<le> c \<and> c \<le> 122"

definition isalnum :: "byte \<Rightarrow> bool" where
  "isalnum c \<longleftrightarrow> isalpha c \<or> isdigit c"

definition isxdigit :: "byte \<Rightarrow> bool" where
  "isxdigit c \<longleftrightarrow> isdigit c \<or> 65 \<le> c \<and> c \<le> 70 \<or> 97 \<le> c \<and> c \<le> 102"

definition isspace :: "byte \<Rightarrow> bool" where
  "isspace c \<longleftrightarrow> c = 32 \<or> 9 \<le> c \<and> c \<le> 13"

definition tolower :: "byte \<Rightarrow> byte" where
  "tolower c = (if 65 \<le> c \<and> c \<le> 90 then c + 32 else c)"

definition lowercase_string :: "bytes \<Rightarrow> bytes" where
  "lowercase_string s = map tolower s"

definition p_nottag :: "byte \<Rightarrow> bool" where
  "p_nottag c \<longleftrightarrow> \<not> isalnum c \<and> c \<noteq> 46 \<and> c \<noteq> 45 \<and> c \<noteq> 58"

definition p_whitespacegt :: "byte \<Rightarrow> bool" where
  "p_whitespacegt c \<longleftrightarrow> isspace c \<or> c = 62"

definition p_whitespaceeqgt :: "byte \<Rightarrow> bool" where
  "p_whitespaceeqgt c \<longleftrightarrow> isspace c \<or> c = 61 \<or> c = 62"

text \<open>\<^verbatim>\<open>std::find_if\<close> and \<^verbatim>\<open>std::find\<close> from a position to the end.\<close>

definition find_if :: "(byte \<Rightarrow> bool) \<Rightarrow> bytes \<Rightarrow> nat \<Rightarrow> nat" where
  "find_if P s p = p + length (takeWhile (\<lambda>c. \<not> P c) (drop p s))"

definition find_char :: "byte \<Rightarrow> bytes \<Rightarrow> nat \<Rightarrow> nat" where
  "find_char c s p = find_if (\<lambda>x. x = c) s p"

text \<open>The part of a string between two positions, and the member functions that give \<^verbatim>\<open>npos\<close>.\<close>

definition between :: "bytes \<Rightarrow> nat \<Rightarrow> nat \<Rightarrow> bytes" where
  "between s a b = take (b - a) (drop a s)"

definition find_first_of :: "byte list \<Rightarrow> bytes \<Rightarrow> nat \<Rightarrow> nat option" where
  "find_first_of cs s p = (let q = find_if (\<lambda>c. c \<in> set cs) s p in if q < length s then Some q else None)"

definition find_first_not_of :: "byte list \<Rightarrow> bytes \<Rightarrow> nat \<Rightarrow> nat option" where
  "find_first_not_of cs s p = (let q = find_if (\<lambda>c. c \<notin> set cs) s p in if q < length s then Some q else None)"

lemma find_if_ge [simp]: "p \<le> find_if P s p"
  by (simp add: find_if_def)

lemma find_char_ge [simp]: "p \<le> find_char c s p"
  by (simp add: find_char_def)

lemma find_char_gt [simp]: "p < find_char c s (Suc p)"
  using find_char_ge [of "Suc p" c s] by (simp add: Suc_le_eq del: find_char_ge)

lemma find_if_le: "p \<le> length s \<Longrightarrow> find_if P s p \<le> length s"
  using length_takeWhile_le [of "\<lambda>c. \<not> P c" "drop p s"] by (simp add: find_if_def)

lemma find_if_hit: "find_if P s p < length s \<Longrightarrow> P (s ! find_if P s p)"
proof -
  assume "find_if P s p < length s"
  then have "length (takeWhile (\<lambda>c. \<not> P c) (drop p s)) < length (drop p s)" by (simp add: find_if_def)
  from nth_length_takeWhile [OF this] this show ?thesis by (simp add: find_if_def)
qed

lemma find_if_before: "p \<le> i \<Longrightarrow> i < find_if P s p \<Longrightarrow> i < length s \<Longrightarrow> \<not> P (s ! i)"
proof -
  assume a: "p \<le> i" "i < find_if P s p" "i < length s"
  let ?t = "takeWhile (\<lambda>c. \<not> P c) (drop p s)"
  have i: "i - p < length ?t" using a by (simp add: find_if_def)
  then have "?t ! (i - p) = s ! i" using a by (simp add: takeWhile_nth)
  moreover have "?t ! (i - p) \<in> set ?t" using i by simp
  ultimately show ?thesis using set_takeWhileD by fastforce
qed

lemma find_if_step: "p < length s \<Longrightarrow> \<not> P (s ! p) \<Longrightarrow> Suc p \<le> find_if P s p"
  by (simp add: find_if_def Cons_nth_drop_Suc [symmetric])

section \<open>Entities\<close>

text \<open>Names and values of \<^verbatim>\<open>namedentities.h\<close>; the map is filled in this order.\<close>

definition named_entities :: "(string \<times> u32) list" where
  "named_entities = [
    (''quot'', 34), (''amp'', 38), (''apos'', 39), (''lt'', 60), (''gt'', 62),
    (''nbsp'', 160), (''iexcl'', 161), (''cent'', 162), (''pound'', 163), (''curren'', 164),
    (''yen'', 165), (''brvbar'', 166), (''sect'', 167), (''uml'', 168), (''copy'', 169),
    (''ordf'', 170), (''laquo'', 171), (''not'', 172), (''shy'', 173), (''reg'', 174),
    (''macr'', 175), (''deg'', 176), (''plusmn'', 177), (''sup2'', 178), (''sup3'', 179),
    (''acute'', 180), (''micro'', 181), (''para'', 182), (''middot'', 183), (''cedil'', 184),
    (''sup1'', 185), (''ordm'', 186), (''raquo'', 187), (''frac14'', 188), (''frac12'', 189),
    (''frac34'', 190), (''iquest'', 191), (''Agrave'', 192), (''Aacute'', 193), (''Acirc'', 194),
    (''Atilde'', 195), (''Auml'', 196), (''Aring'', 197), (''AElig'', 198), (''Ccedil'', 199),
    (''Egrave'', 200), (''Eacute'', 201), (''Ecirc'', 202), (''Euml'', 203), (''Igrave'', 204),
    (''Iacute'', 205), (''Icirc'', 206), (''Iuml'', 207), (''ETH'', 208), (''Ntilde'', 209),
    (''Ograve'', 210), (''Oacute'', 211), (''Ocirc'', 212), (''Otilde'', 213), (''Ouml'', 214),
    (''times'', 215), (''Oslash'', 216), (''Ugrave'', 217), (''Uacute'', 218), (''Ucirc'', 219),
    (''Uuml'', 220), (''Yacute'', 221), (''THORN'', 222), (''szlig'', 223), (''agrave'', 224),
    (''aacute'', 225), (''acirc'', 226), (''atilde'', 227), (''auml'', 228), (''aring'', 229),
    (''aelig'', 230), (''ccedil'', 231), (''egrave'', 232), (''eacute'', 233), (''ecirc'', 234),
    (''euml'', 235), (''igrave'', 236), (''iacute'', 237), (''icirc'', 238), (''iuml'', 239),
    (''eth'', 240), (''ntilde'', 241), (''ograve'', 242), (''oacute'', 243), (''ocirc'', 244),
    (''otilde'', 245), (''ouml'', 246), (''divide'', 247), (''oslash'', 248), (''ugrave'', 249),
    (''uacute'', 250), (''ucirc'', 251), (''uuml'', 252), (''yacute'', 253), (''thorn'', 254),
    (''yuml'', 255), (''OElig'', 338), (''oelig'', 339), (''Scaron'', 352), (''scaron'', 353),
    (''Yuml'', 376), (''fnof'', 402), (''circ'', 710), (''tilde'', 732), (''Alpha'', 913),
    (''Beta'', 914), (''Gamma'', 915), (''Delta'', 916), (''Epsilon'', 917), (''Zeta'', 918),
    (''Eta'', 919), (''Theta'', 920), (''Iota'', 921), (''Kappa'', 922), (''Lambda'', 923),
    (''Mu'', 924), (''Nu'', 925), (''Xi'', 926), (''Omicron'', 927), (''Pi'', 928),
    (''Rho'', 929), (''Sigma'', 931), (''Tau'', 932), (''Upsilon'', 933), (''Phi'', 934),
    (''Chi'', 935), (''Psi'', 936), (''Omega'', 937), (''alpha'', 945), (''beta'', 946),
    (''gamma'', 947), (''delta'', 948), (''epsilon'', 949), (''zeta'', 950), (''eta'', 951),
    (''theta'', 952), (''iota'', 953), (''kappa'', 954), (''lambda'', 955), (''mu'', 956),
    (''nu'', 957), (''xi'', 958), (''omicron'', 959), (''pi'', 960), (''rho'', 961),
    (''sigmaf'', 962), (''sigma'', 963), (''tau'', 964), (''upsilon'', 965), (''phi'', 966),
    (''chi'', 967), (''psi'', 968), (''omega'', 969), (''thetasym'', 977), (''upsih'', 978),
    (''piv'', 982), (''ensp'', 8194), (''emsp'', 8195), (''thinsp'', 8201), (''zwnj'', 8204),
    (''zwj'', 8205), (''lrm'', 8206), (''rlm'', 8207), (''ndash'', 8211), (''mdash'', 8212),
    (''lsquo'', 8216), (''rsquo'', 8217), (''sbquo'', 8218), (''ldquo'', 8220),
    (''rdquo'', 8221), (''bdquo'', 8222), (''dagger'', 8224), (''Dagger'', 8225),
    (''bull'', 8226), (''hellip'', 8230), (''permil'', 8240), (''prime'', 8242),
    (''Prime'', 8243), (''lsaquo'', 8249), (''rsaquo'', 8250), (''oline'', 8254),
    (''frasl'', 8260), (''euro'', 8364), (''image'', 8465), (''weierp'', 8472), (''real'', 8476),
    (''trade'', 8482), (''alefsym'', 8501), (''larr'', 8592), (''uarr'', 8593), (''rarr'', 8594),
    (''darr'', 8595), (''harr'', 8596), (''crarr'', 8629), (''lArr'', 8656), (''uArr'', 8657),
    (''rArr'', 8658), (''dArr'', 8659), (''hArr'', 8660), (''forall'', 8704), (''part'', 8706),
    (''exist'', 8707), (''empty'', 8709), (''nabla'', 8711), (''isin'', 8712), (''notin'', 8713),
    (''ni'', 8715), (''prod'', 8719), (''sum'', 8721), (''minus'', 8722), (''lowast'', 8727),
    (''radic'', 8730), (''prop'', 8733), (''infin'', 8734), (''ang'', 8736), (''and'', 8743),
    (''or'', 8744), (''cap'', 8745), (''cup'', 8746), (''int'', 8747), (''there4'', 8756),
    (''sim'', 8764), (''cong'', 8773), (''asymp'', 8776), (''ne'', 8800), (''equiv'', 8801),
    (''le'', 8804), (''ge'', 8805), (''sub'', 8834), (''sup'', 8835), (''nsub'', 8836),
    (''sube'', 8838), (''supe'', 8839), (''oplus'', 8853), (''otimes'', 8855), (''perp'', 8869),
    (''sdot'', 8901), (''lceil'', 8968), (''rceil'', 8969), (''lfloor'', 8970),
    (''rfloor'', 8971), (''lang'', 9001), (''rang'', 9002), (''loz'', 9674), (''spades'', 9824),
    (''clubs'', 9827), (''hearts'', 9829), (''diams'', 9830)]"

definition named_ents :: "bytes \<Rightarrow> u32 option" where
  "named_ents = map_of (map (\<lambda>(n, v). (str n, v)) (rev named_entities))"

definition hex_value :: "byte \<Rightarrow> nat" where
  "hex_value c = (if isdigit c then unat c - 48 else unat (tolower c) - 87)"

definition number_value :: "nat \<Rightarrow> bytes \<Rightarrow> nat" where
  "number_value base ds = foldl (\<lambda>v c. base * v + hex_value c) 0 ds"

text \<open>\<^verbatim>\<open>sscanf("%x")\<close> and \<^verbatim>\<open>atoi\<close> on digits: the number is cut at the largest \<^verbatim>\<open>unsigned long\<close> or \<^verbatim>\<open>long\<close> and then
  converted to 32 bits; without digits the value stays zero.\<close>

definition scan_hex :: "bytes \<Rightarrow> u32" where
  "scan_hex ds = of_nat (min (2 ^ 64 - 1) (number_value 16 ds))"

definition atoi :: "bytes \<Rightarrow> u32" where
  "atoi ds = of_nat (min (2 ^ 63 - 1) (number_value 10 ds))"

text \<open>The entity behind an ampersand at \<open>amp\<close>: its value, zero if there is none, and the position behind it.\<close>

definition entity_at :: "bytes \<Rightarrow> nat \<Rightarrow> u32 \<times> nat" where
  "entity_at s amp =
     (let p = amp + 1;
          (val, end) =
            (if p \<noteq> length s \<and> s ! p = 35 then
               let p = p + 1 in
               if p \<noteq> length s \<and> (s ! p = 120 \<or> s ! p = 88) then
                 let p = p + 1; end = find_if (\<lambda>c. \<not> isxdigit c) s p in (scan_hex (between s p end), end)
               else
                 let end = find_if (\<lambda>c. \<not> isdigit c) s p in (atoi (between s p end), end)
             else
               let end = find_if (\<lambda>c. \<not> isalnum c) s p in
               (case named_ents (between s p end) of Some v \<Rightarrow> v | None \<Rightarrow> 0, end))
      in (val, if end < length s \<and> s ! end = 59 then end + 1 else end))"

text \<open>What takes the place of the entity. The search goes on one character behind its start, which lies outside of the
  string if nothing takes its place and nothing follows.\<close>

definition entity_text :: "(u32 \<Rightarrow> bytes) \<Rightarrow> u32 \<Rightarrow> bytes" where
  "entity_text utf8 val = (if val < 0x80 then [ucast val] else utf8 val)"

partial_function (option) decode_loop :: "(u32 \<Rightarrow> bytes) \<Rightarrow> bytes \<Rightarrow> nat \<Rightarrow> bytes res option" where
  "decode_loop utf8 s amp =
     (if amp > length s then Some (Inl MemoryFault)
      else
        let amp = find_char 38 s amp in
        if amp = length s then Some (Inr s)
        else
          let (val, end) = entity_at s amp in
          if val \<noteq> 0 then decode_loop utf8 (take amp s @ entity_text utf8 val @ drop end s) (amp + 1)
          else decode_loop utf8 s end)"

definition decode_entities :: "(u32 \<Rightarrow> bytes) \<Rightarrow> bytes \<Rightarrow> bytes res" where
  "decode_entities utf8 s = (case decode_loop utf8 s 0 of None \<Rightarrow> Inl NoReturn | Some r \<Rightarrow> r)"

section \<open>The parser object\<close>

record 'f MyHtmlParser =
  parameters :: "bytes \<Rightarrow> bytes option"
  in_script :: bool
  charset :: bytes
  in_script_tag :: bool
  in_style_tag :: bool
  pending_space :: bool
  indexing_allowed :: bool
  charset_from_meta :: bool
  latitude :: 'f
  longitude :: 'f
  has_geoPosition :: bool
  h_title :: bytes
  h_sample :: bytes
  h_keywords :: bytes
  h_dump :: bytes

text \<open>\<open>zero\<close> is the number \<^verbatim>\<open>0\<close>; \<open>in_script\<close> is set when parsing starts.\<close>

definition new_MyHtmlParser :: "'f \<Rightarrow> 'f MyHtmlParser" where
  "new_MyHtmlParser zero = \<lparr>parameters = Map.empty, in_script = False, charset = [], in_script_tag = False,
     in_style_tag = False, pending_space = False, indexing_allowed = True, charset_from_meta = False, latitude = zero,
     longitude = zero, has_geoPosition = False, h_title = [], h_sample = [], h_keywords = [], h_dump = []\<rparr>"

text \<open>A call returns or throws, and either way leaves the object in some state. The parser throws \<^verbatim>\<open>true\<close> to stop and a
  string when the document names another character set; \<open>HtmlFailure\<close> is a failure of decoding.\<close>

datatype html_exception = ThrowTrue | ThrowCharset bytes | HtmlFailure zim_error

datatype 'f html_result = Done "'f MyHtmlParser" | Thrown html_exception "'f MyHtmlParser"

fun hbind :: "'f html_result \<Rightarrow> ('f MyHtmlParser \<Rightarrow> 'f html_result) \<Rightarrow> 'f html_result" where
  "hbind (Done h) f = f h"
| "hbind (Thrown e h) f = Thrown e h"

fun object_of :: "'f html_result \<Rightarrow> 'f MyHtmlParser" where
  "object_of (Done h) = h"
| "object_of (Thrown e h) = h"

definition with_decoded :: "(u32 \<Rightarrow> bytes) \<Rightarrow> bytes \<Rightarrow> 'f MyHtmlParser \<Rightarrow> (bytes \<Rightarrow> 'f html_result) \<Rightarrow> 'f html_result" where
  "with_decoded utf8 s h f = (case decode_entities utf8 s of Inl e \<Rightarrow> Thrown (HtmlFailure e) h | Inr t \<Rightarrow> f t)"

section \<open>Text\<close>

definition WHITESPACE :: "byte list" where
  "WHITESPACE = [32, 9, 10, 13]"

function words_loop :: "bytes \<Rightarrow> nat option \<Rightarrow> 'f MyHtmlParser \<Rightarrow> 'f MyHtmlParser" where
  "words_loop text None h = h"
| "words_loop text (Some b) h =
     (let h = (if pending_space h \<and> h_dump h \<noteq> [] then h\<lparr>h_dump := h_dump h @ [32]\<rparr> else h) in
      case find_first_of WHITESPACE text b of
        None \<Rightarrow> h\<lparr>pending_space := False, h_dump := h_dump h @ drop b text\<rparr>
      | Some e \<Rightarrow>
          words_loop text (find_first_not_of WHITESPACE text (e + 1))
            (h\<lparr>pending_space := True, h_dump := h_dump h @ between text b e\<rparr>))"
  by pat_completeness auto
termination
proof (relation "measure (\<lambda>(text, b, h). case b of None \<Rightarrow> 0 | Some b \<Rightarrow> Suc (length text - b))", goal_cases)
  case (2 s b h h1 e)
  from 2(2) have e: "b \<le> e" "e < length s" by (auto simp: find_first_of_def Let_def split: if_splits)
  show ?case
  proof (cases "find_first_not_of WHITESPACE s (e + 1)")
    case (Some q)
    then have "e + 1 \<le> q" "q < length s" by (auto simp: find_first_not_of_def Let_def split: if_splits)
    with e Some show ?thesis by simp
  qed simp
qed simp

declare words_loop.simps(2) [simp del]

definition process_text :: "bytes \<Rightarrow> 'f MyHtmlParser \<Rightarrow> 'f MyHtmlParser" where
  "process_text text h =
     (if text \<noteq> [] \<and> \<not> in_script_tag h \<and> \<not> in_style_tag h then
        let b = find_first_not_of WHITESPACE text 0 in
        words_loop text b (if b \<noteq> Some 0 then h\<lparr>pending_space := True\<rparr> else h)
      else h)"

section \<open>Tags\<close>

definition get_parameter :: "bytes \<Rightarrow> 'f MyHtmlParser \<Rightarrow> bytes option" where
  "get_parameter param h = parameters h param"

text \<open>The tags before and behind which a word ends; \<^verbatim>\<open>h1\<close> to \<^verbatim>\<open>h6\<close> and \<^verbatim>\<open>hr\<close> are recognised by their second character.\<close>

definition opening_space_tags :: "bytes list" where
  "opening_space_tags = map str [''address'', ''blockquote'', ''br'', ''center'', ''dd'', ''dir'', ''div'', ''dl'', ''dt'', ''embed'',
     ''fieldset'', ''form'', ''iframe'', ''img'', ''isindex'', ''input'', ''keygen'', ''legend'', ''li'', ''listing'', ''marquee'',
     ''menu'', ''multicol'', ''ol'', ''option'', ''p'', ''pre'', ''plaintext'', ''q'', ''select'', ''table'', ''td'', ''textarea'',
     ''th'', ''ul'', ''xmp'']"

definition closing_space_tags :: "bytes list" where
  "closing_space_tags = map str [''address'', ''blockquote'', ''br'', ''center'', ''dd'', ''dir'', ''div'', ''dl'', ''dt'', ''fieldset'',
     ''form'', ''iframe'', ''legend'', ''li'', ''listing'', ''marquee'', ''menu'', ''ol'', ''option'', ''p'', ''pre'', ''q'',
     ''select'', ''table'', ''td'', ''textarea'', ''th'', ''ul'', ''xmp'']"

definition heading_tag :: "bytes \<Rightarrow> bool" where
  "heading_tag tag \<longleftrightarrow> length tag = 2 \<and> tag ! 0 = 104 \<and> tag ! 1 \<in> set (str ''r123456'') \<union> {0}"

text \<open>The character set in a \<^verbatim>\<open>content-type\<close>: up to a separator, or up to the closing quote, where a backslash is taken
  out and the character behind it skipped.\<close>

definition charset_separator :: "byte \<Rightarrow> bool" where
  "charset_separator ch \<longleftrightarrow> ch \<le> 32 \<or> ch \<ge> 127 \<or> ch \<in> set (str '';()<>@,:'') \<or> ch = 92 \<or> ch = 34 \<or> ch \<in> set (str ''/[]?={}'')"

fun quoted_charset :: "bytes \<Rightarrow> bytes" where
  "quoted_charset [] = []"
| "quoted_charset (ch # s) =
     (if ch = 34 then []
      else if ch = 92 then (case s of [] \<Rightarrow> [] | c # s' \<Rightarrow> c # quoted_charset s')
      else ch # quoted_charset s)"

definition content_charset :: "bytes \<Rightarrow> bytes option" where
  "content_charset content =
     (case string_find content (str ''charset='') of
        None \<Rightarrow> None
      | Some i \<Rightarrow>
          let start = i + 8 in
          if start = length content then None
          else if content ! start \<noteq> 34 then Some (takeWhile (\<lambda>ch. \<not> charset_separator ch) (drop start content))
          else Some (quoted_charset (drop (start + 1) content)))"

definition change_charset :: "bytes \<Rightarrow> 'f MyHtmlParser \<Rightarrow> 'f html_result" where
  "change_charset newcharset h = (if charset h \<noteq> newcharset then Thrown (ThrowCharset newcharset) h else Done h)"

definition geo_position :: "(bytes \<Rightarrow> 'f) \<Rightarrow> bytes \<Rightarrow> 'f MyHtmlParser \<Rightarrow> 'f MyHtmlParser" where
  "geo_position stof content h =
     (case string_find content (str '';'') of
        None \<Rightarrow> h
      | Some sep \<Rightarrow> h\<lparr>latitude := stof (take sep content), longitude := stof (drop (sep + 1) content), has_geoPosition := True\<rparr>)"

definition named_meta :: "(u32 \<Rightarrow> bytes) \<Rightarrow> (bytes \<Rightarrow> 'f) \<Rightarrow> bytes \<Rightarrow> bytes \<Rightarrow> 'f MyHtmlParser \<Rightarrow> 'f html_result" where
  "named_meta utf8 stof name content h =
     (if name = str ''description'' then
        (if h_sample h = [] then with_decoded utf8 content (h\<lparr>h_sample := content\<rparr>) (\<lambda>s. Done (h\<lparr>h_sample := s\<rparr>)) else Done h)
      else if name = str ''keywords'' then
        (let h = (if h_keywords h \<noteq> [] then h\<lparr>h_keywords := h_keywords h @ [32]\<rparr> else h) in
         with_decoded utf8 content h (\<lambda>s. Done (h\<lparr>h_keywords := h_keywords h @ s\<rparr>)))
      else if name = str ''robots'' then
        with_decoded utf8 content h (\<lambda>s.
          let s = lowercase_string s in
          if string_find s (str ''none'') \<noteq> None \<or> string_find s (str ''noindex'') \<noteq> None
          then Thrown ThrowTrue (h\<lparr>indexing_allowed := False\<rparr>) else Done h)
      else if name = str ''geo.position'' then Done (geo_position stof content h)
      else Done h)"

definition meta_tag :: "(u32 \<Rightarrow> bytes) \<Rightarrow> (bytes \<Rightarrow> 'f) \<Rightarrow> 'f MyHtmlParser \<Rightarrow> 'f html_result" where
  "meta_tag utf8 stof h =
     (case get_parameter (str ''content'') h of
        Some content \<Rightarrow>
          (case get_parameter (str ''name'') h of
             Some name \<Rightarrow> named_meta utf8 stof (lowercase_string name) content h
           | None \<Rightarrow>
               if charset_from_meta h then Done h
               else
                 (case get_parameter (str ''http-equiv'') h of
                    Some hdr \<Rightarrow>
                      if lowercase_string hdr = str ''content-type'' then
                        (case content_charset (lowercase_string content) of
                           None \<Rightarrow> Done h
                         | Some newcharset \<Rightarrow> change_charset newcharset h)
                      else Done h
                  | None \<Rightarrow> Done h))
      | None \<Rightarrow>
          if charset_from_meta h then Done h
          else
            (case get_parameter (str ''charset'') h of
               Some newcharset \<Rightarrow> change_charset (lowercase_string newcharset) h
             | None \<Rightarrow> Done h))"

definition opening_tag :: "(u32 \<Rightarrow> bytes) \<Rightarrow> (bytes \<Rightarrow> 'f) \<Rightarrow> bytes \<Rightarrow> 'f MyHtmlParser \<Rightarrow> 'f html_result" where
  "opening_tag utf8 stof tag h =
     (if tag = str ''body'' then Done (h\<lparr>h_dump := []\<rparr>)
      else if tag = str ''meta'' then meta_tag utf8 stof h
      else if tag = str ''style'' then Done (h\<lparr>in_style_tag := True\<rparr>)
      else if tag = str ''script'' then Done (h\<lparr>in_script_tag := True\<rparr>)
      else if tag \<in> set opening_space_tags \<or> heading_tag tag then Done (h\<lparr>pending_space := True\<rparr>)
      else Done h)"

definition closing_tag :: "bytes \<Rightarrow> 'f MyHtmlParser \<Rightarrow> 'f html_result" where
  "closing_tag tag h =
     (if tag = str ''body'' then Thrown ThrowTrue h
      else if tag = str ''style'' then Done (h\<lparr>in_style_tag := False\<rparr>)
      else if tag = str ''script'' then Done (h\<lparr>in_script_tag := False\<rparr>)
      else if tag = str ''title'' then
        Done (if h_title h = [] then h\<lparr>h_title := h_dump h, h_dump := h_title h\<rparr> else h)
      else if tag \<in> set closing_space_tags \<or> heading_tag tag then Done (h\<lparr>pending_space := True\<rparr>)
      else Done h)"

section \<open>The document\<close>

text \<open>Where the next tag, comment or declaration starts, or the end of the document.\<close>

function tag_start :: "bool \<Rightarrow> bytes \<Rightarrow> nat \<Rightarrow> nat" where
  "tag_start script body p =
     (let p = find_char 60 body p in
      if p \<ge> length body then p
      else
        let ch = string_at body (p + 1) in
        if \<not> script \<and> isalpha ch \<or> ch = 47 \<or> ch = 33 \<or> ch = 63 then p else tag_start script body (p + 1))"
  by pat_completeness auto
termination
proof (relation "measure (\<lambda>(_, body, p). length body - p)", goal_cases)
  case (2 script body p q ch)
  from 2(1,2) have "p \<le> q" "q < length body" using find_char_ge [of p 60 body] by auto
  then show ?case by simp
qed simp

declare tag_start.simps [simp del]

text \<open>The encoding named by an XML declaration at the very beginning; \<open>None\<close> if the declaration is not recognised.\<close>

definition declared_encoding :: "bytes \<Rightarrow> bytes option" where
  "declared_encoding decl =
     (case string_find decl (str ''encoding'') of
        None \<Rightarrow> None
      | Some enc \<Rightarrow>
        (case find_first_not_of WHITESPACE decl (enc + 8) of
           None \<Rightarrow> None
         | Some enc \<Rightarrow>
           if decl ! enc \<noteq> 61 then None
           else
             (case find_first_not_of WHITESPACE decl (enc + 1) of
                None \<Rightarrow> None
              | Some enc \<Rightarrow>
                if decl ! enc \<noteq> 34 \<and> decl ! enc \<noteq> 39 then None
                else Some (takeWhile (\<lambda>c. c \<noteq> decl ! enc) (drop (enc + 1) decl)))))"

definition xml_charset :: "bytes \<Rightarrow> nat \<Rightarrow> bytes \<Rightarrow> bytes" where
  "xml_charset body p old =
     (if p \<noteq> 0 \<or> length body < 20 \<or> body ! 2 \<noteq> 120 \<or> body ! 3 \<noteq> 109 \<or> body ! 4 \<noteq> 108 \<or>
         body ! 5 \<notin> set WHITESPACE \<union> {0} then old
      else
        let decl_end = find_char 63 body 6 in
        if decl_end = length body then old
        else (case declared_encoding (between body 6 decl_end) of None \<Rightarrow> str ''UTF-8'' | Some e \<Rightarrow> e))"

text \<open>The end of a comment: the first \<^verbatim>\<open>>\<close> behind two hyphens, from the first \<^verbatim>\<open>>\<close> on.\<close>

function comment_end :: "bytes \<Rightarrow> nat \<Rightarrow> nat" where
  "comment_end body p =
     (if p < length body \<and> (string_at body (p - 1) \<noteq> 45 \<or> string_at body (p - 2) \<noteq> 45)
      then comment_end body (find_char 62 body (p + 1)) else p)"
  by pat_completeness auto
termination
proof (relation "measure (\<lambda>(body, p). length body - p)", goal_cases)
  case (2 body p)
  then show ?case by (simp add: diff_less_mono2)
qed simp

function php_end :: "bytes \<Rightarrow> nat \<Rightarrow> nat" where
  "php_end body p =
     (if p < length body \<and> string_at body (p - 1) \<noteq> 63 then php_end body (find_char 62 body (p + 1)) else p)"
  by pat_completeness auto
termination
proof (relation "measure (\<lambda>(body, p). length body - p)", goal_cases)
  case (2 body p)
  then show ?case by (simp add: diff_less_mono2)
qed simp

declare comment_end.simps [simp del] php_end.simps [simp del]

lemma comment_end_ge: "p \<le> comment_end body p"
proof (induction body p rule: comment_end.induct)
  case (1 body p)
  show ?case
  proof (cases "p < length body \<and> (string_at body (p - 1) \<noteq> 45 \<or> string_at body (p - 2) \<noteq> 45)")
    case True
    have "p \<le> find_char 62 body (p + 1)" by (simp add: less_imp_le)
    also have "\<dots> \<le> comment_end body (find_char 62 body (p + 1))" using 1 True by blast
    finally show ?thesis using True by (simp add: comment_end.simps [of body p])
  qed (auto simp: comment_end.simps [of body p])
qed

lemma php_end_ge: "p \<le> php_end body p"
proof (induction body p rule: php_end.induct)
  case (1 body p)
  show ?case
  proof (cases "p < length body \<and> string_at body (p - 1) \<noteq> 63")
    case True
    have "p \<le> find_char 62 body (p + 1)" by (simp add: less_imp_le)
    also have "\<dots> \<le> php_end body (find_char 62 body (p + 1))" using 1 True by blast
    finally show ?thesis using True by (simp add: php_end.simps [of body p])
  qed (auto simp: php_end.simps [of body p])
qed

text \<open>The exclamation mark is at \<open>start\<close>; \<open>None\<close> leaves the loop of the document. The result is the place to go on.\<close>

definition skip_comment :: "bytes \<Rightarrow> nat \<Rightarrow> nat option" where
  "skip_comment body start =
     (let close = find_char 62 body start in
      if close = length body then None
      else
        let p = comment_end body close in
        if p \<noteq> length body then
          (if p - start = 15 \<and> between body start (p - 2) = str ''htdig_noindex'' then
             map_option (\<lambda>i. p + 1 + i + 21) (string_find (drop (p + 1) body) (str ''<!--/htdig_noindex-->''))
           else Some (p + 1))
        else Some (close + 1))"

definition skip_declaration :: "bytes \<Rightarrow> nat \<Rightarrow> nat option" where
  "skip_declaration body start =
     (if start + 1 = length body \<or> start + 2 = length body then None
      else if body ! (start + 1) = 45 \<and> body ! (start + 2) = 45 then skip_comment body (start + 3)
      else
        let close = find_char 62 body (start + 1) in
        if close = length body then None else Some (close + 1))"

definition skip_php :: "bytes \<Rightarrow> nat \<Rightarrow> nat option" where
  "skip_php body start =
     (if start + 1 = length body then None
      else
        let p = php_end body (find_char 62 body (start + 2)) in
        Some (if p \<noteq> length body then p + 1 else p))"

text \<open>One parameter of an opening tag: the place behind it, and the name and value if there is a value. A quote that is not
  closed belongs to the value's beginning but does not delimit it.\<close>

definition parameter_value :: "bytes \<Rightarrow> nat \<Rightarrow> bytes \<times> nat" where
  "parameter_value body start =
     (let start = find_if (\<lambda>c. \<not> isspace c) body start;
          quote = string_at body start;
          (start, p) = (if quote = 34 \<or> quote = 39 then (start + 1, find_char quote body (start + 1)) else (start, length body));
          p = (if p = length body then find_if p_whitespacegt body start else p)
      in (between body start p, find_if (\<lambda>c. \<not> isspace c) body p))"

definition insert_first :: "bytes \<Rightarrow> bytes \<Rightarrow> (bytes \<Rightarrow> bytes option) \<Rightarrow> bytes \<Rightarrow> bytes option" where
  "insert_first name value ps = (if ps name = None then ps(name \<mapsto> value) else ps)"

definition one_parameter :: "bytes \<Rightarrow> nat \<Rightarrow> (bytes \<Rightarrow> bytes option) \<Rightarrow> nat \<times> (bytes \<Rightarrow> bytes option)" where
  "one_parameter body start ps =
     (let p = find_if p_whitespaceeqgt body start;
          name = between body start p;
          start = find_if (\<lambda>c. \<not> isspace c) body p in
      if start \<noteq> length body \<and> string_at body start = 61 then
        (case parameter_value body (start + 1) of (value, start) \<Rightarrow>
           (start, if name \<noteq> [] then insert_first (lowercase_string name) value ps else ps))
      else (start, ps))"

lemma find_ge_trans: "a \<le> q \<Longrightarrow> a \<le> find_if P s q" "a \<le> q \<Longrightarrow> a \<le> find_char c s q"
  using find_if_ge [of q P s] find_char_ge [of q c s] by linarith+

lemma parameter_value_ge: "start \<le> snd (parameter_value body start)"
  by (auto simp: parameter_value_def Let_def intro!: find_ge_trans le_SucI)

lemma one_parameter_gt:
  assumes "start < length body" "body ! start \<noteq> 62"
  shows "start < fst (one_parameter body start ps)"
proof -
  define p where "p = find_if p_whitespaceeqgt body start"
  define q where "q = find_if (\<lambda>c. \<not> isspace c) body p"
  have pq: "start \<le> p" "p \<le> q" by (simp_all add: p_def q_def)
  have "start < q \<or> q = start \<and> body ! start = 61"
  proof (cases "p_whitespaceeqgt (body ! start)")
    case True
    then have "p = start" using assms(1) by (simp add: p_def find_if_def Cons_nth_drop_Suc [symmetric])
    then have "start < q" if "isspace (body ! start)"
      using that assms(1) find_if_step [of start body "\<lambda>c. \<not> isspace c"] by (simp add: q_def)
    then show ?thesis using True assms(2) pq by (cases "start < q") (auto simp: p_whitespaceeqgt_def)
  next
    case False
    then show ?thesis using find_if_step [of start body p_whitespaceeqgt] assms pq by (simp add: p_def)
  qed
  moreover have "q < snd (parameter_value body (Suc q))" using parameter_value_ge [of "Suc q" body] by simp
  ultimately show ?thesis
    using assms pq by (auto simp: one_parameter_def Let_def p_def [symmetric] q_def [symmetric] string_at_def split: prod.splits)
qed

function parameters_loop :: "bytes \<Rightarrow> nat \<Rightarrow> (bytes \<Rightarrow> bytes option) \<Rightarrow> nat \<times> (bytes \<Rightarrow> bytes option)" where
  "parameters_loop body start ps =
     (if start < length body \<and> body ! start \<noteq> 62
      then parameters_loop body (fst (one_parameter body start ps)) (snd (one_parameter body start ps))
      else (start, ps))"
  by pat_completeness auto
termination
proof (relation "measure (\<lambda>(body, start, ps). length body - start)", goal_cases)
  case (2 body start ps)
  then show ?case using one_parameter_gt [of start body ps] by (auto simp: case_prod_beta)
qed simp

declare parameters_loop.simps [simp del]

lemma parameters_loop_ge: "start \<le> fst (parameters_loop body start ps)"
proof (induction body start ps rule: parameters_loop.induct)
  case (1 body start ps)
  show ?case
  proof (cases "start < length body \<and> body ! start \<noteq> 62")
    case True
    have "start \<le> fst (one_parameter body start ps)" using True one_parameter_gt [of start body ps] by simp
    also have "\<dots> \<le> fst (parameters_loop body (fst (one_parameter body start ps)) (snd (one_parameter body start ps)))"
      using 1 True by blast
    finally show ?thesis using True by (simp add: parameters_loop.simps [of body start])
  qed (auto simp: parameters_loop.simps [of body start])
qed

text \<open>One round of the loop over the document: it leaves the loop, or goes on at a place behind.\<close>

datatype 'f html_next = Leave "'f html_result" | GoOn nat "'f MyHtmlParser"

definition go_on :: "'f html_result \<Rightarrow> ('f MyHtmlParser \<Rightarrow> 'f html_next) \<Rightarrow> 'f html_next" where
  "go_on r f = (case r of Done h \<Rightarrow> f h | Thrown e h \<Rightarrow> Leave (Thrown e h))"

definition go_to :: "nat option \<Rightarrow> 'f MyHtmlParser \<Rightarrow> 'f html_next" where
  "go_to start h = (case start of None \<Rightarrow> Leave (Done h) | Some st \<Rightarrow> GoOn st h)"

definition closing_round :: "bytes \<Rightarrow> nat \<Rightarrow> 'f MyHtmlParser \<Rightarrow> 'f html_next" where
  "closing_round body start h =
     (let start = find_if (\<lambda>c. \<not> isspace c) body (start + 1);
          p = start;
          start = find_if p_nottag body start;
          tag = lowercase_string (between body p start) in
      go_on (closing_tag tag h) (\<lambda>h.
        let h = (if in_script h \<and> tag = str ''script'' then h\<lparr>in_script := False\<rparr> else h);
            p = find_char 62 body start in
        if p \<ge> length body then Leave (Done h) else GoOn (p + 1) h))"

definition opening_round :: "(u32 \<Rightarrow> bytes) \<Rightarrow> (bytes \<Rightarrow> 'f) \<Rightarrow> bytes \<Rightarrow> nat \<Rightarrow> 'f MyHtmlParser \<Rightarrow> 'f html_next" where
  "opening_round utf8 stof body start h =
     (let p = start;
          start = find_if p_nottag body start;
          tag = lowercase_string (between body p start);
          (start, ps) = parameters_loop body start (parameters h) in
      go_on (opening_tag utf8 stof tag (h\<lparr>parameters := ps\<rparr>)) (\<lambda>h.
        let h = h\<lparr>parameters := Map.empty\<rparr>;
            h = (if tag = str ''script'' then h\<lparr>in_script := True\<rparr> else h) in
        GoOn (if start \<noteq> length body \<and> string_at body start = 62 then start + 1 else start) h))"

definition html_round :: "(u32 \<Rightarrow> bytes) \<Rightarrow> (bytes \<Rightarrow> 'f) \<Rightarrow> bytes \<Rightarrow> nat \<Rightarrow> 'f MyHtmlParser \<Rightarrow> 'f html_next" where
  "html_round utf8 stof body start h =
     (let p = tag_start (in_script h) body start;
          h = (if p < length body \<and> string_at body (p + 1) = 63 then h\<lparr>charset := xml_charset body p (charset h)\<rparr> else h) in
      go_on (if p > start then with_decoded utf8 (between body start p) h (\<lambda>t. Done (process_text t h)) else Done h) (\<lambda>h.
        if p \<ge> length body \<or> p + 1 = length body then Leave (Done h)
        else if body ! (p + 1) = 33 then go_to (skip_declaration body (p + 1)) h
        else if body ! (p + 1) = 63 then go_to (skip_php body (p + 1)) h
        else if body ! (p + 1) = 47 then closing_round body (p + 1) h
        else opening_round utf8 stof body (p + 1) h))"

lemma tag_start_ge: "p \<le> tag_start script body p"
proof (induction script body p rule: tag_start.induct)
  case (1 script body p)
  define q where "q = find_char 60 body p"
  have q: "p \<le> q" by (simp add: q_def)
  show ?case
    using 1 [OF q_def, of "string_at body (q + 1)"] q by (auto simp: tag_start.simps [of script body p] Let_def q_def [symmetric])
qed

lemma skip_declaration_gt: "skip_declaration body start = Some p \<Longrightarrow> start < p"
proof -
  have c: "start + 3 < q" if "skip_comment body (start + 3) = Some q" for q
  proof -
    have "start + 3 \<le> find_char 62 body (start + 3)" by simp
    also have "\<dots> \<le> comment_end body (find_char 62 body (start + 3))" by (rule comment_end_ge)
    finally show ?thesis
      using that find_char_ge [of "start + 3" 62 body] by (auto simp: skip_comment_def Let_def simp del: find_char_ge split: if_splits)
  qed
  assume "skip_declaration body start = Some p"
  then show ?thesis using c [of p] find_char_gt [of start 62 body]
    by (auto simp: skip_declaration_def Let_def simp del: find_char_gt split: if_splits)
qed

lemma skip_php_gt: "skip_php body start = Some p \<Longrightarrow> start < p"
proof -
  have "start + 2 \<le> find_char 62 body (start + 2)" by simp
  also have "\<dots> \<le> php_end body (find_char 62 body (start + 2))" by (rule php_end_ge)
  finally show "skip_php body start = Some p \<Longrightarrow> start < p" by (auto simp: skip_php_def Let_def split: if_splits)
qed

lemma html_round_gt: "html_round utf8 stof body start h = GoOn p h' \<Longrightarrow> start < p \<and> start < length body"
proof -
  define t where "t = tag_start (in_script h) body start"
  have t: "start \<le> t" by (simp add: t_def tag_start_ge)
  have 1: "t < p" if "closing_round body (t + 1) h1 = GoOn p h'" for h1
    using that by (auto simp: closing_round_def Let_def go_on_def split: html_result.splits if_splits intro!: le_imp_less_Suc find_ge_trans)
  have 2: "t < p" if "opening_round utf8 stof body (t + 1) h1 = GoOn p h'" for h1
  proof -
    define q where "q = find_if p_nottag body (Suc t)"
    have "t < q" unfolding q_def by (rule less_le_trans [OF _ find_if_ge]) simp
    also have "q \<le> fst (parameters_loop body q (parameters h1))" by (rule parameters_loop_ge)
    finally show ?thesis
      using that by (auto simp: opening_round_def Let_def go_on_def q_def [symmetric] split: html_result.splits if_splits prod.splits)
  qed
  assume "html_round utf8 stof body start h = GoOn p h'"
  then show ?thesis
    using 1 2 t skip_declaration_gt [of body "t + 1" p] skip_php_gt [of body "t + 1" p]
    by (fastforce simp: html_round_def Let_def go_on_def go_to_def t_def [symmetric] split: html_result.splits if_splits option.splits)
qed

function parse_loop :: "(u32 \<Rightarrow> bytes) \<Rightarrow> (bytes \<Rightarrow> 'f) \<Rightarrow> bytes \<Rightarrow> nat \<Rightarrow> 'f MyHtmlParser \<Rightarrow> 'f html_result" where
  "parse_loop utf8 stof body start h =
     (case html_round utf8 stof body start h of Leave r \<Rightarrow> r | GoOn p h' \<Rightarrow> parse_loop utf8 stof body p h')"
  by pat_completeness auto
termination
proof (relation "measure (\<lambda>(_, _, body, start, _). length body - start)", goal_cases)
  case (2 utf8 stof body start h p h')
  then show ?case using html_round_gt [of utf8 stof body start h p h'] by auto
qed simp

declare parse_loop.simps [simp del]

definition HtmlParser_parse_html :: "(u32 \<Rightarrow> bytes) \<Rightarrow> (bytes \<Rightarrow> 'f) \<Rightarrow> bytes \<Rightarrow> 'f MyHtmlParser \<Rightarrow> 'f html_result" where
  "HtmlParser_parse_html utf8 stof body h = parse_loop utf8 stof body 0 (h\<lparr>in_script := False, parameters := Map.empty\<rparr>)"

definition parse_html :: "(u32 \<Rightarrow> bytes) \<Rightarrow> (bytes \<Rightarrow> 'f) \<Rightarrow> bytes \<Rightarrow> bytes \<Rightarrow> bool \<Rightarrow> 'f MyHtmlParser \<Rightarrow> 'f html_result" where
  "parse_html utf8 stof body cs from_meta h =
     HtmlParser_parse_html utf8 stof body (h\<lparr>charset := cs, charset_from_meta := from_meta\<rparr>)"

end
