(* ===== verification/Html_Text.thy ===== *)
theory Html_Text
  imports Html_Parser
begin

text \<open>
  What the HTML parser of \<open>Html_Parser\<close> promises: decoding ends, the text it collects is normalised, and escaped text
  is collected word by word.
\<close>

section \<open>Decoding ends\<close>

text \<open>What is relied upon of the conversion to UTF-8: it yields at least one byte, none of them an ampersand.\<close>

definition utf8_ok :: "(u32 \<Rightarrow> bytes) \<Rightarrow> bool" where
  "utf8_ok utf8 \<longleftrightarrow> (\<forall>v. v \<ge> 0x80 \<longrightarrow> utf8 v \<noteq> [] \<and> 38 \<notin> set (utf8 v))"

lemma entity_at_shape:
  assumes "amp < length s"
  shows "\<exists>v r. amp < r \<and> r \<le> length s \<and> entity_at s amp = (v, if r < length s \<and> s ! r = 59 then r + 1 else r)"
proof -
  have b: "amp < find_if P s p \<and> find_if P s p \<le> length s" if "amp < p" "p \<le> length s" for P p
    using that find_if_ge [of p P s] find_if_le [of p s P] by linarith
  show ?thesis
  proof (cases "Suc amp \<noteq> length s \<and> s ! Suc amp = 35")
    case 1: True
    show ?thesis
    proof (cases "Suc (Suc amp) \<noteq> length s \<and> (s ! Suc (Suc amp) = 120 \<or> s ! Suc (Suc amp) = 88)")
      case True
      then show ?thesis using 1 assms b [of "Suc (Suc (Suc amp))" "\<lambda>c. \<not> isxdigit c"]
        by (intro exI [of _ "fst (entity_at s amp)"] exI [of _ "find_if (\<lambda>c. \<not> isxdigit c) s (Suc (Suc (Suc amp)))"])
          (simp add: entity_at_def Let_def)
    next
      case False
      then have "Suc (Suc amp) = length s \<or> s ! Suc (Suc amp) \<noteq> 120 \<and> s ! Suc (Suc amp) \<noteq> 88" by simp
      then show ?thesis using 1 assms b [of "Suc (Suc amp)" "\<lambda>c. \<not> isdigit c"]
        by (intro exI [of _ "fst (entity_at s amp)"] exI [of _ "find_if (\<lambda>c. \<not> isdigit c) s (Suc (Suc amp))"])
          (erule disjE; simp add: entity_at_def Let_def)
    qed
  next
    case False
    then have "Suc amp = length s \<or> s ! Suc amp \<noteq> 35" by simp
    then show ?thesis using assms b [of "Suc amp" "\<lambda>c. \<not> isalnum c"]
      by (intro exI [of _ "fst (entity_at s amp)"] exI [of _ "find_if (\<lambda>c. \<not> isalnum c) s (Suc amp)"])
        (erule disjE; simp add: entity_at_def Let_def)
  qed
qed

lemma entity_at_bounds:
  assumes "amp < length s"
  shows "amp < snd (entity_at s amp)" "snd (entity_at s amp) \<le> length s"
  using entity_at_shape [OF assms] by auto

lemma find_char_drop:
  assumes "find_char c s p < length s"
  shows "drop p s = takeWhile (\<lambda>x. x \<noteq> c) (drop p s) @ c # drop (Suc (find_char c s p)) s"
proof -
  let ?q = "find_char c s p"
  have "s ! ?q = c" using assms find_if_hit [of "\<lambda>x. x = c" s p] by (simp add: find_char_def)
  moreover have "dropWhile (\<lambda>x. x \<noteq> c) (drop p s) = drop ?q s"
    by (simp add: find_char_def find_if_def dropWhile_eq_drop add.commute)
  ultimately show ?thesis
    using assms by (metis Cons_nth_drop_Suc takeWhile_dropWhile_id)
qed

lemma decode_loop_returns:
  assumes "utf8_ok utf8" "amp \<le> length s"
  shows "\<exists>t. decode_loop utf8 s amp = Some (Inr t)"
  using assms(2)
proof (induction "length (filter (\<lambda>c. c = 38) (drop amp s))" arbitrary: s amp rule: less_induct)
  case less
  define q where "q = find_char 38 s amp"
  have q: "amp \<le> q" "q \<le> length s" using less.prems find_if_le by (simp_all add: q_def find_char_def)
  show ?case
  proof (cases "q = length s")
    case True
    then show ?thesis using less.prems by (simp add: decode_loop.simps [of utf8 s] Let_def q_def [symmetric])
  next
    case False
    then have ql: "q < length s" using q by simp
    obtain v e where ve: "entity_at s q = (v, e)" by (cases "entity_at s q")
    then have e: "q < e" "e \<le> length s" using entity_at_bounds [OF ql] by simp_all
    have "drop (Suc q) s = between s (Suc q) e @ drop e s"
      using e append_take_drop_id [of "e - Suc q" "drop (Suc q) s"] by (simp add: between_def)
    then obtain pre mid where parts: "drop amp s = pre @ 38 # mid @ drop e s"
      using find_char_drop [of 38 s amp] ql by (auto simp: q_def)
    have fewer: "length (filter (\<lambda>c. c = 38) (drop e s)) < length (filter (\<lambda>c. c = 38) (drop amp s))"
      by (simp add: parts less_Suc_eq_le trans_le_add2)
    show ?thesis
    proof (cases "v = 0")
      case True
      then show ?thesis
        using less.hyps [OF fewer] e less.prems False
        by (simp add: decode_loop.simps [of utf8 s] Let_def q_def [symmetric] ve)
    next
      case v: False
      define t where "t = entity_text utf8 v"
      have t: "t \<noteq> []" "38 \<notin> set (tl t)"
        using assms(1) by (auto simp: t_def entity_text_def utf8_ok_def not_less dest: list.set_sel(2) [rotated])
      let ?s = "take q s @ t @ drop e s"
      have d: "drop (q + 1) ?s = tl t @ drop e s" using t(1) ql by (cases t) simp_all
      have "length (filter (\<lambda>c. c = 38) (drop (q + 1) ?s)) < length (filter (\<lambda>c. c = 38) (drop amp s))"
        unfolding d using fewer t(2) filter_False [of "tl t" "\<lambda>c. c = 38"] by (metis (full_types) append_Nil filter_append)
      from less.hyps [OF this] t(1) ql obtain r where "decode_loop utf8 ?s (q + 1) = Some (Inr r)"
        by (cases t) auto
      then show ?thesis
        using less.prems False v by (simp add: decode_loop.simps [of utf8 s] Let_def q_def [symmetric] ve t_def [symmetric])
    qed
  qed
qed

lemma decode_entities_returns: "utf8_ok utf8 \<Longrightarrow> \<exists>t. decode_entities utf8 s = Inr t"
  using decode_loop_returns [of utf8 0 s] by (auto simp: decode_entities_def)

section \<open>Normalised text\<close>

text \<open>White space occurs as single blanks between other characters only.\<close>

fun blanks_ok :: "bytes \<Rightarrow> bool" where
  "blanks_ok [] = True"
| "blanks_ok (c # s) \<longleftrightarrow> (c \<in> set WHITESPACE \<longrightarrow> c = 32 \<and> s \<noteq> [] \<and> hd s \<notin> set WHITESPACE) \<and> blanks_ok s"

definition single_spaced :: "bytes \<Rightarrow> bool" where
  "single_spaced s \<longleftrightarrow> blanks_ok s \<and> (s \<noteq> [] \<longrightarrow> hd s \<notin> set WHITESPACE)"

definition is_word :: "bytes \<Rightarrow> bool" where
  "is_word w \<longleftrightarrow> w \<noteq> [] \<and> set w \<inter> set WHITESPACE = {}"

lemma blanks_ok_append: "blanks_ok s \<Longrightarrow> blanks_ok t \<Longrightarrow> blanks_ok (s @ t)"
  by (induction s) auto

lemma blanks_ok_word: "is_word w \<Longrightarrow> blanks_ok w"
proof -
  have "blanks_ok w" if "set w \<inter> set WHITESPACE = {}" for w using that by (induction w) auto
  then show "is_word w \<Longrightarrow> blanks_ok w" by (simp add: is_word_def)
qed

lemma is_word_hd: "is_word w \<Longrightarrow> hd w \<notin> set WHITESPACE"
  by (cases w) (auto simp: is_word_def)

lemma single_spaced_word: "single_spaced s \<Longrightarrow> is_word w \<Longrightarrow> single_spaced (s @ w)"
  by (auto simp: single_spaced_def blanks_ok_append blanks_ok_word is_word_hd hd_append)

lemma single_spaced_next_word:
  assumes "single_spaced s" "s \<noteq> []" "is_word w"
  shows "single_spaced (s @ 32 # w)"
proof -
  have "blanks_ok (32 # w)" using assms(3) by (simp add: blanks_ok_word is_word_hd is_word_def [of w])
  then show ?thesis using assms by (auto simp: single_spaced_def blanks_ok_append)
qed

text \<open>What \<open>words_loop\<close> finds from a position on: a word, or the end.\<close>

lemma word_at:
  assumes "b < length s" "s ! b \<notin> set WHITESPACE"
  shows "find_first_of WHITESPACE s b = None \<Longrightarrow> is_word (drop b s)"
    and "find_first_of WHITESPACE s b = Some e \<Longrightarrow> is_word (between s b e)"
proof -
  define q where "q = find_if (\<lambda>c. c \<in> set WHITESPACE) s b"
  have w: "between s b q = takeWhile (\<lambda>c. c \<notin> set WHITESPACE) (drop b s)"
    using takeWhile_eq_take [of "\<lambda>c. c \<notin> set WHITESPACE" "drop b s"] by (simp add: q_def find_if_def between_def)
  have "is_word (between s b q)"
    unfolding w is_word_def using assms by (auto simp: takeWhile_eq_Nil_iff hd_drop_conv_nth dest: set_takeWhileD)
  moreover have "between s b q = drop b s" if "\<not> q < length s" using that by (simp add: between_def)
  ultimately show "find_first_of WHITESPACE s b = None \<Longrightarrow> is_word (drop b s)"
      "find_first_of WHITESPACE s b = Some e \<Longrightarrow> is_word (between s b e)"
    by (auto simp: find_first_of_def Let_def q_def [symmetric] split: if_splits)
qed

lemma find_first_not_of_hit: "find_first_not_of cs s p = Some b \<Longrightarrow> p \<le> b \<and> b < length s \<and> s ! b \<notin> set cs"
  using find_if_hit [of "\<lambda>c. c \<notin> set cs" s p] by (auto simp: find_first_not_of_def Let_def split: if_splits)

definition html_ok :: "'f MyHtmlParser \<Rightarrow> bool" where
  "html_ok h \<longleftrightarrow> single_spaced (h_dump h) \<and> single_spaced (h_title h)"

lemma words_loop_ok:
  assumes "html_ok h" "\<forall>i. b = Some i \<longrightarrow> i < length s \<and> s ! i \<notin> set WHITESPACE"
  shows "html_ok (words_loop s b h)"
  using assms
proof (induction s b h rule: words_loop.induct)
  case (2 s b h)
  define h1 where "h1 = (if pending_space h \<and> h_dump h \<noteq> [] then h\<lparr>h_dump := h_dump h @ [32]\<rparr> else h)"
  have add: "html_ok (h1\<lparr>pending_space := x, h_dump := h_dump h1 @ w\<rparr>)" if "is_word w" for w x
    using 2(2) single_spaced_word [OF _ that, of "h_dump h"] single_spaced_next_word [OF _ _ that, of "h_dump h"]
    by (auto simp: html_ok_def h1_def)
  show ?case
  proof (cases "find_first_of WHITESPACE s b")
    case None
    then show ?thesis
      using add [of "drop b s" False] word_at(1) [of b s] 2(3) by (simp add: words_loop.simps(2) Let_def h1_def [symmetric])
  next
    case (Some e)
    let ?b = "find_first_not_of WHITESPACE s (e + 1)"
    have "html_ok (words_loop s ?b (h1\<lparr>pending_space := True, h_dump := h_dump h1 @ between s b e\<rparr>))"
      using 2(1) [OF h1_def Some] add [of "between s b e" True] word_at(2) [of b s e] 2(3) Some find_first_not_of_hit by blast
    then show ?thesis using Some by (simp add: words_loop.simps(2) Let_def h1_def [symmetric])
  qed
qed simp

lemma process_text_ok: "html_ok h \<Longrightarrow> html_ok (process_text s h)"
  using find_first_not_of_hit [of WHITESPACE s 0]
  by (auto simp: process_text_def Let_def html_ok_def [of "_\<lparr>pending_space := _\<rparr>"] html_ok_def [of h] intro!: words_loop_ok)

lemma single_spaced_Nil [simp]: "single_spaced []"
  by (simp add: single_spaced_def)

lemma with_decoded_ok:
  "(\<And>t. html_ok (object_of (f t))) \<Longrightarrow> html_ok h \<Longrightarrow> html_ok (object_of (with_decoded utf8 s h f))"
  by (simp add: with_decoded_def split: sum.splits)

lemma named_meta_ok: "html_ok h \<Longrightarrow> html_ok (object_of (named_meta utf8 stof name content h))"
  by (auto simp: named_meta_def Let_def geo_position_def html_ok_def with_decoded_def split: sum.splits option.splits)

lemma opening_tag_ok: "html_ok h \<Longrightarrow> html_ok (object_of (opening_tag utf8 stof tag h))"
  using named_meta_ok [of h]
  by (auto simp: opening_tag_def meta_tag_def change_charset_def html_ok_def split: option.splits)

lemma closing_tag_ok: "html_ok h \<Longrightarrow> html_ok (object_of (closing_tag tag h))"
  by (auto simp: closing_tag_def html_ok_def)

fun next_object :: "'f html_next \<Rightarrow> 'f MyHtmlParser" where
  "next_object (Leave r) = object_of r"
| "next_object (GoOn p h) = h"

lemma go_on_ok:
  assumes "html_ok (object_of r)" "\<And>h. r = Done h \<Longrightarrow> html_ok (next_object (f h))"
  shows "html_ok (next_object (go_on r f))"
  using assms by (cases r) (simp_all add: go_on_def)

lemma closing_round_ok: "html_ok h \<Longrightarrow> html_ok (next_object (closing_round body start h))"
  unfolding closing_round_def Let_def
proof (rule go_on_ok, goal_cases)
  case 1
  then show ?case by (rule closing_tag_ok)
next
  case (2 h1)
  from closing_tag_ok [OF 2(1)] 2(2) have "html_ok h1" by (metis object_of.simps(1))
  then show ?case by (simp add: html_ok_def)
qed

lemma opening_round_ok:
  assumes "html_ok h"
  shows "html_ok (next_object (opening_round utf8 stof body start h))"
proof -
  obtain st ps where st: "parameters_loop body (find_if p_nottag body start) (parameters h) = (st, ps)"
    by (cases "parameters_loop body (find_if p_nottag body start) (parameters h)")
  have ok: "html_ok (object_of (opening_tag utf8 stof tag (h\<lparr>parameters := ps\<rparr>)))" for tag
    using assms by (intro opening_tag_ok) (simp add: html_ok_def)
  then have "html_ok h1" if "opening_tag utf8 stof tag (h\<lparr>parameters := ps\<rparr>) = Done h1" for tag h1
    using that by (metis object_of.simps(1))
  then have "html_ok (if tag = tag' then h1\<lparr>parameters := Map.empty, in_script := True\<rparr> else h1\<lparr>parameters := Map.empty\<rparr>)"
    if "opening_tag utf8 stof tag (h\<lparr>parameters := ps\<rparr>) = Done h1" for tag tag' h1
    using that by (simp add: html_ok_def)
  with ok show ?thesis
    unfolding opening_round_def Let_def st case_prod_conv by (intro go_on_ok) (auto simp del: fun_upd_apply)
qed

lemma html_round_ok: "html_ok h \<Longrightarrow> html_ok (next_object (html_round utf8 stof body start h))"
proof -
  assume h: "html_ok h"
  define t where "t = tag_start (in_script h) body start"
  define h0 where "h0 = (if t < length body \<and> string_at body (t + 1) = 63 then h\<lparr>charset := xml_charset body t (charset h)\<rparr> else h)"
  have h0: "html_ok h0" using h by (simp add: html_ok_def h0_def)
  define r where "r = (if t > start then with_decoded utf8 (between body start t) h0 (\<lambda>t. Done (process_text t h0)) else Done h0)"
  have r: "html_ok (object_of r)" using h0 by (simp add: r_def process_text_ok with_decoded_ok)
  then have "html_ok h1" if "r = Done h1" for h1 using that by simp
  then have "html_ok (next_object (go_on r (\<lambda>h.
      if t \<ge> length body \<or> t + 1 = length body then Leave (Done h)
      else if body ! (t + 1) = 33 then go_to (skip_declaration body (t + 1)) h
      else if body ! (t + 1) = 63 then go_to (skip_php body (t + 1)) h
      else if body ! (t + 1) = 47 then closing_round body (t + 1) h
      else opening_round utf8 stof body (t + 1) h)))"
    using r by (intro go_on_ok) (auto simp: go_to_def closing_round_ok opening_round_ok split: option.splits)
  then show ?thesis by (simp only: html_round_def Let_def t_def [symmetric] h0_def [symmetric] r_def [symmetric])
qed

lemma parse_loop_ok: "html_ok h \<Longrightarrow> html_ok (object_of (parse_loop utf8 stof body start h))"
proof (induction utf8 stof body start h rule: parse_loop.induct)
  case (1 utf8 stof body start h)
  from html_round_ok [OF 1(2), of utf8 stof body start] 1(1) show ?case
    by (subst parse_loop.simps) (auto split: html_next.splits)
qed

text \<open>C35: Whatever document is parsed, and however parsing ends (at the end of the document, at the end of its body, by an
  exception), the text and the title collected for the index are normalised: their white space consists of single blanks
  between words, with none at either end.\<close>

theorem html_text_is_normalised:
  "single_spaced (h_dump (object_of (parse_html utf8 stof body cs from_meta (new_MyHtmlParser zero)))) \<and>
   single_spaced (h_title (object_of (parse_html utf8 stof body cs from_meta (new_MyHtmlParser zero))))"
  unfolding parse_html_def HtmlParser_parse_html_def html_ok_def [symmetric]
  by (rule parse_loop_ok) (simp add: html_ok_def new_MyHtmlParser_def)

section \<open>No failures\<close>

fun no_failure :: "'f html_result \<Rightarrow> bool" where
  "no_failure (Thrown (HtmlFailure e) h) = False"
| "no_failure r = True"

lemma with_decoded_no_failure:
  "utf8_ok utf8 \<Longrightarrow> (\<And>t. no_failure (f t)) \<Longrightarrow> no_failure (with_decoded utf8 s h f)"
  using decode_entities_returns [of utf8 s] by (auto simp: with_decoded_def)

lemma named_meta_no_failure: "utf8_ok utf8 \<Longrightarrow> no_failure (named_meta utf8 stof name content h)"
  by (simp add: named_meta_def Let_def with_decoded_no_failure)

lemma opening_tag_no_failure: "utf8_ok utf8 \<Longrightarrow> no_failure (opening_tag utf8 stof tag h)"
  by (simp add: opening_tag_def meta_tag_def change_charset_def named_meta_no_failure split: option.split)

lemma html_round_no_failure:
  assumes "utf8_ok utf8" "html_round utf8 stof body start h = Leave r"
  shows "no_failure r"
proof -
  have 1: "no_failure r" if "go_on q f = Leave r" "no_failure q" "\<And>h. f h = Leave r \<Longrightarrow> no_failure r" for q f
    using that by (cases q) (auto simp: go_on_def)
  have 2: "no_failure r" if "go_to p h = Leave r" for p h using that by (auto simp: go_to_def split: option.splits)
  have 3: "no_failure r" if "closing_round body p h = Leave r" for p h
    by (rule 1 [OF that [unfolded closing_round_def Let_def]]) (auto simp: closing_tag_def split: if_splits)
  have 4: "no_failure r" if "opening_round utf8 stof body p h = Leave r" for p h
    using that opening_tag_no_failure [OF assms(1)]
    by (auto simp: opening_round_def Let_def split: prod.splits elim!: 1)
  show ?thesis
    by (rule 1 [OF assms(2) [unfolded html_round_def Let_def]])
      (auto intro!: with_decoded_no_failure [OF assms(1)] dest: 2 3 4 split: if_splits)
qed

lemma parse_loop_no_failure: "utf8_ok utf8 \<Longrightarrow> no_failure (parse_loop utf8 stof body start h)"
proof (induction utf8 stof body start h rule: parse_loop.induct)
  case (1 utf8 stof body start h)
  then show ?case
    using html_round_no_failure [OF 1(2), of stof body start h] by (subst parse_loop.simps) (auto split: html_next.splits)
qed


text \<open>The encoding of UTF-8 in one to four bytes, as a conversion that satisfies the hypothesis.\<close>

definition utf8_tail :: "u32 \<Rightarrow> nat \<Rightarrow> byte" where
  "utf8_tail v n = 0x80 OR (ucast (drop_bit n v) AND 0x3f)"

definition utf8_encode :: "u32 \<Rightarrow> bytes" where
  "utf8_encode v =
     (if v < 0x800 then [0xc0 OR (ucast (drop_bit 6 v) AND 0x1f), utf8_tail v 0]
      else if v < 0x10000 then [0xe0 OR (ucast (drop_bit 12 v) AND 0x0f), utf8_tail v 6, utf8_tail v 0]
      else [0xf0 OR (ucast (drop_bit 18 v) AND 0x07), utf8_tail v 12, utf8_tail v 6, utf8_tail v 0])"

lemma high_bit_not_ampersand: "bit (a :: byte) 7 \<Longrightarrow> a OR b \<noteq> 38"
proof
  assume "bit a 7" "a OR b = 38"
  then have "bit (38 :: byte) 7" by (metis bit_or_iff)
  then show False by simp
qed

lemma utf8_encode_ok: "utf8_ok utf8_encode"
  using high_bit_not_ampersand
  by (simp add: utf8_ok_def utf8_encode_def utf8_tail_def)


section \<open>Escaped text\<close>

text \<open>The words of a text, and the text with single blanks.\<close>

function words_of :: "bytes \<Rightarrow> bytes list" where
  "words_of s =
     (let s = dropWhile (\<lambda>c. c \<in> set WHITESPACE) s in
      if s = [] then []
      else takeWhile (\<lambda>c. c \<notin> set WHITESPACE) s # words_of (dropWhile (\<lambda>c. c \<notin> set WHITESPACE) s))"
  by pat_completeness auto
termination
proof (relation "measure length", goal_cases)
  case (2 s t)
  then have "hd t \<notin> set WHITESPACE" using hd_dropWhile [of "\<lambda>c. c \<in> set WHITESPACE" s] by simp
  then have "length (dropWhile (\<lambda>c. c \<notin> set WHITESPACE) t) < length t"
    using 2(2) length_dropWhile_le [of "\<lambda>c. c \<notin> set WHITESPACE" "tl t"] by (cases t) simp_all
  also have "length t \<le> length s" using 2(1) by (simp add: length_dropWhile_le)
  finally show ?case by simp
qed simp

declare words_of.simps [simp del]

fun unwords :: "bytes list \<Rightarrow> bytes" where
  "unwords [] = []"
| "unwords [w] = w"
| "unwords (w # ws) = w @ 32 # unwords ws"

definition escape_char :: "byte \<Rightarrow> bytes" where
  "escape_char c =
     (if c = 38 then str ''&amp;'' else if c = 60 then str ''&lt;'' else if c = 62 then str ''&gt;''
      else if c = 34 then str ''&quot;'' else [c])"

definition escape_html :: "bytes \<Rightarrow> bytes" where
  "escape_html s = concat (map escape_char s)"

lemma inj_str: "inj str"
proof -
  have "inj (of_char :: char \<Rightarrow> byte)"
  proof (rule injI)
    fix c d assume "(of_char c :: byte) = of_char d"
    then have "unat (of_nat (of_char c) :: byte) = unat (of_nat (of_char d) :: byte)" by (simp add: of_nat_of_char)
    then show "c = d" by (simp add: unat_of_nat)
  qed
  then show ?thesis by (simp add: inj_def str_def inj_map_eq_map)
qed

lemma named_entsI: "map_of (rev named_entities) n = Some v \<Longrightarrow> named_ents (str n) = Some v"
  unfolding named_ents_def by (rule map_of_mapk_SomeI [OF inj_str])

lemma named_ents_escapes:
  "named_ents (str ''amp'') = Some 38" "named_ents (str ''lt'') = Some 60"
  "named_ents (str ''gt'') = Some 62" "named_ents (str ''quot'') = Some 34"
  by (rule named_entsI, code_simp)+

lemma entity_at_named:
  assumes "named_ents name = Some v" "\<forall>c\<in>set name. isalnum c"
  shows "entity_at (pre @ 38 # name @ 59 # rest) (length pre) = (v, length pre + length name + 2)"
proof -
  let ?s = "pre @ 38 # name @ 59 # rest"
  have "\<not> isalnum 59" "\<not> isalnum 35" by (simp_all add: isalnum_def isalpha_def isdigit_def)
  then have n: "takeWhile isalnum (name @ 59 # rest) = name" "(name @ 59 # rest) ! 0 \<noteq> 35"
    using assms(2) by (cases name, auto)+
  then have f: "find_if (\<lambda>c. \<not> isalnum c) ?s (Suc (length pre)) = Suc (length pre) + length name"
    by (simp add: find_if_def)
  have b: "between ?s (Suc (length pre)) (Suc (length pre) + length name) = name" by (simp add: between_def)
  have "?s ! (Suc (length pre) + length name) = 59" by (simp add: nth_append)
  moreover have "?s ! Suc (length pre) \<noteq> 35" using n(2) by (simp add: nth_append)
  ultimately show ?thesis using f b assms(1) by (simp add: entity_at_def Let_def)
qed

lemma decode_named:
  assumes "named_ents name = Some v" "\<forall>c\<in>set name. isalnum c" "v \<noteq> 0" "v < 0x80"
  shows "decode_loop utf8 (pre @ 38 # name @ 59 # rest) (length pre) =
    decode_loop utf8 (pre @ ucast v # rest) (length pre + 1)"
proof -
  let ?s = "pre @ 38 # name @ 59 # rest"
  have "find_char 38 ?s (length pre) = length pre" by (simp add: find_char_def find_if_def)
  then show ?thesis
    using entity_at_named [OF assms(1,2), of pre rest] assms(3,4)
    by (subst decode_loop.simps) (simp add: Let_def entity_text_def)
qed

lemma decode_plain:
  assumes "c \<noteq> 38"
  shows "decode_loop utf8 (pre @ c # rest) (length pre) = decode_loop utf8 (pre @ c # rest) (length pre + 1)"
proof -
  have "find_char 38 (pre @ c # rest) (length pre) = find_char 38 (pre @ c # rest) (length pre + 1)"
    using assms by (simp add: find_char_def find_if_def)
  then show ?thesis
    by (simp add: decode_loop.simps [of utf8 "pre @ c # rest" "length pre"]
        decode_loop.simps [of utf8 "pre @ c # rest" "Suc (length pre)"])
qed

lemma decode_char:
  "decode_loop utf8 (pre @ escape_char c @ rest) (length pre) = decode_loop utf8 (pre @ c # rest) (length pre + 1)"
proof -
  have s: "str ''&amp;'' = 38 # str ''amp'' @ [59]" "str ''&lt;'' = 38 # str ''lt'' @ [59]"
      "str ''&gt;'' = 38 # str ''gt'' @ [59]" "str ''&quot;'' = 38 # str ''quot'' @ [59]"
    by (simp_all add: str_def)
  have a: "\<forall>c\<in>set (str ''amp''). isalnum c" "\<forall>c\<in>set (str ''lt''). isalnum c" "\<forall>c\<in>set (str ''gt''). isalnum c"
      "\<forall>c\<in>set (str ''quot''). isalnum c"
    by (simp_all add: str_def isalnum_def isalpha_def)
  consider "c = 38" | "c = 60" | "c = 62" | "c = 34" | "c \<notin> {38, 60, 62, 34}" by blast
  then show ?thesis
  proof cases
    case 1
    then show ?thesis using decode_named [OF named_ents_escapes(1) a(1), of utf8 pre rest] by (simp add: escape_char_def s)
  next
    case 2
    then show ?thesis using decode_named [OF named_ents_escapes(2) a(2), of utf8 pre rest] by (simp add: escape_char_def s)
  next
    case 3
    then show ?thesis using decode_named [OF named_ents_escapes(3) a(3), of utf8 pre rest] by (simp add: escape_char_def s)
  next
    case 4
    then show ?thesis using decode_named [OF named_ents_escapes(4) a(4), of utf8 pre rest] by (simp add: escape_char_def s)
  next
    case 5
    then show ?thesis using decode_plain [of c utf8 pre rest] by (simp add: escape_char_def)
  qed
qed

lemma decode_escaped_loop: "decode_loop utf8 (pre @ escape_html s) (length pre) = Some (Inr (pre @ s))"
proof (induction s arbitrary: pre)
  case Nil
  then show ?case by (simp add: escape_html_def decode_loop.simps [of utf8 pre] find_char_def find_if_def)
next
  case (Cons c s)
  have "decode_loop utf8 (pre @ escape_html (c # s)) (length pre) = decode_loop utf8 ((pre @ [c]) @ escape_html s) (length (pre @ [c]))"
    using decode_char [of utf8 pre c "escape_html s"] by (simp add: escape_html_def)
  then show ?case using Cons [of "pre @ [c]"] by simp
qed

lemma decode_escaped: "decode_entities utf8 (escape_html s) = Inr s"
  using decode_escaped_loop [of utf8 "[]" s] by (simp add: decode_entities_def)

text \<open>What \<open>words_loop\<close> appends to the text collected.\<close>

definition append_words :: "bytes \<Rightarrow> bool \<Rightarrow> bytes list \<Rightarrow> bytes" where
  "append_words d space ws = (if ws = [] then d else d @ (if space \<and> d \<noteq> [] then [32] else []) @ unwords ws)"

lemma unwords_Cons: "unwords (w # ws) = w @ (if ws = [] then [] else 32 # unwords ws)"
  by (cases ws) simp_all

lemma drop_find_if: "drop (find_if P s p) s = dropWhile (\<lambda>c. \<not> P c) (drop p s)"
  by (simp add: find_if_def dropWhile_eq_drop add.commute)

lemma words_of_skip: "words_of (dropWhile (\<lambda>c. c \<in> set WHITESPACE) s) = words_of s"
  by (simp add: words_of.simps [of s] words_of.simps [of "dropWhile (\<lambda>c. c \<in> set WHITESPACE) s"])

lemma words_of_find:
  "words_of (drop p s) = (case find_first_not_of WHITESPACE s p of None \<Rightarrow> [] | Some b \<Rightarrow> words_of (drop b s))"
proof -
  have "drop (find_if (\<lambda>c. c \<notin> set WHITESPACE) s p) s = dropWhile (\<lambda>c. c \<in> set WHITESPACE) (drop p s)"
    by (simp add: drop_find_if)
  then show ?thesis
    using words_of_skip [of "drop p s"] by (auto simp: find_first_not_of_def Let_def not_less words_of.simps [of "[]"])
qed

lemma words_of_word:
  assumes "b < length s" "s ! b \<notin> set WHITESPACE"
  shows "words_of (drop b s) =
    (case find_first_of WHITESPACE s b of None \<Rightarrow> [drop b s] | Some e \<Rightarrow> between s b e # words_of (drop (e + 1) s))"
proof -
  define q where "q = find_if (\<lambda>c. c \<in> set WHITESPACE) s b"
  have d: "dropWhile (\<lambda>c. c \<in> set WHITESPACE) (drop b s) = drop b s"
    using assms by (simp add: Cons_nth_drop_Suc [symmetric])
  have w: "takeWhile (\<lambda>c. c \<notin> set WHITESPACE) (drop b s) = between s b q"
    using takeWhile_eq_take [of "\<lambda>c. c \<notin> set WHITESPACE" "drop b s"] by (simp add: q_def find_if_def between_def)
  have r: "dropWhile (\<lambda>c. c \<notin> set WHITESPACE) (drop b s) = drop q s" by (simp add: q_def drop_find_if)
  have 1: "words_of (drop b s) = between s b q # words_of (drop q s)"
    using assms(1) by (simp add: words_of.simps [of "drop b s"] d w r)
  have 2: "words_of (drop q s) = words_of (drop (Suc q) s)" if "q < length s"
    using that find_if_hit [of "\<lambda>c. c \<in> set WHITESPACE" s b] words_of_skip [of "drop q s"] words_of_skip [of "drop (Suc q) s"]
    by (simp add: q_def Cons_nth_drop_Suc [symmetric])
  have 3: "between s b q = drop b s" "words_of (drop q s) = []" if "\<not> q < length s"
    using that by (simp_all add: between_def words_of.simps [of "[]"])
  show ?thesis using 1 2 3 by (auto simp: find_first_of_def Let_def q_def [symmetric])
qed

lemma words_loop_words:
  assumes "\<forall>i. b = Some i \<longrightarrow> i < length s \<and> s ! i \<notin> set WHITESPACE"
  shows "h_dump (words_loop s b h) =
    append_words (h_dump h) (pending_space h) (case b of None \<Rightarrow> [] | Some i \<Rightarrow> words_of (drop i s))"
  using assms
proof (induction s b h rule: words_loop.induct)
  case (2 s b h)
  define h1 where "h1 = (if pending_space h \<and> h_dump h \<noteq> [] then h\<lparr>h_dump := h_dump h @ [32]\<rparr> else h)"
  have b: "b < length s" "s ! b \<notin> set WHITESPACE" using 2(2) by simp_all
  have h1: "h_dump h1 = h_dump h @ (if pending_space h \<and> h_dump h \<noteq> [] then [32] else [])" by (simp add: h1_def)
  show ?case
  proof (cases "find_first_of WHITESPACE s b")
    case None
    then show ?thesis
      using words_of_word [OF b] h1 by (simp add: words_loop.simps(2) Let_def h1_def [symmetric] append_words_def)
  next
    case (Some e)
    let ?b = "find_first_not_of WHITESPACE s (e + 1)" and ?w = "between s b e"
    have w: "?w \<noteq> []" using word_at(2) [OF b Some] by (simp add: is_word_def)
    have "h_dump (words_loop s ?b (h1\<lparr>pending_space := True, h_dump := h_dump h1 @ ?w\<rparr>)) =
        append_words (h_dump h1 @ ?w) True (words_of (drop (e + 1) s))"
      using 2(1) [OF h1_def Some] find_first_not_of_hit words_of_find [of "e + 1" s] by simp
    also have "\<dots> = append_words (h_dump h) (pending_space h) (?w # words_of (drop (e + 1) s))"
      using w by (simp add: append_words_def h1 unwords_Cons)
    finally show ?thesis
      using Some words_of_word [OF b] by (simp add: words_loop.simps(2) Let_def h1_def [symmetric])
  qed
qed (simp add: append_words_def)

lemma process_text_words:
  assumes "\<not> in_script_tag h" "\<not> in_style_tag h" "h_dump h = []"
  shows "h_dump (process_text s h) = unwords (words_of s)"
proof -
  let ?b = "find_first_not_of WHITESPACE s 0"
  have "h_dump (words_loop s ?b h1) = unwords (words_of s)" if "h_dump h1 = []" for h1 :: "'a MyHtmlParser"
    using words_loop_words [of ?b s h1] find_first_not_of_hit [of WHITESPACE s 0] words_of_find [of 0 s] that
    by (auto simp: append_words_def)
  then show ?thesis using assms by (auto simp: process_text_def Let_def words_of.simps [of "[]"])
qed

lemma escape_html_no_tag: "60 \<notin> set (escape_html s)"
  by (auto simp: escape_html_def escape_char_def str_def split: if_splits)

text \<open>Text that is escaped as usual in HTML arrives in the index as its words: from a document that consists of a text
  with ampersands, angle brackets and quotes escaped, the parser collects the words of the text, separated by single
  blanks.\<close>

lemma parse_escaped_text:
  "\<exists>h. parse_html utf8 stof (escape_html s) cs from_meta (new_MyHtmlParser zero) = Done h \<and>
    h_dump h = unwords (words_of s)"
proof -
  let ?body = "escape_html s"
  define h where "h = (new_MyHtmlParser zero)\<lparr>charset := cs, charset_from_meta := from_meta, in_script := False, parameters := Map.empty\<rparr>"
  have h: "\<not> in_script_tag h" "\<not> in_style_tag h" "h_dump h = []" by (simp_all add: h_def new_MyHtmlParser_def)
  have "takeWhile (\<lambda>c. c \<noteq> 60) ?body = ?body" using escape_html_no_tag [of s] by (subst takeWhile_eq_all_conv) blast
  then have "find_char 60 ?body 0 = length ?body" by (simp only: find_char_def find_if_def drop_0 add_0)
  then have t: "tag_start (in_script h) ?body 0 = length ?body" by (simp add: tag_start.simps [of _ ?body 0] Let_def)
  have "parse_loop utf8 stof ?body 0 h = Done (process_text s h)" if "s \<noteq> []"
  proof -
    have "0 < length ?body" using that by (cases s) (auto simp: escape_html_def escape_char_def str_def)
    then show ?thesis
      by (subst parse_loop.simps) (simp add: html_round_def Let_def t go_on_def with_decoded_def between_def decode_escaped)
  qed
  moreover have "parse_loop utf8 stof ?body 0 h = Done (process_text s h)" if "s = []"
    using that t by (subst parse_loop.simps) (simp add: html_round_def Let_def go_on_def escape_html_def process_text_def)
  ultimately have "parse_loop utf8 stof ?body 0 h = Done (process_text s h)" by blast
  then show ?thesis
    using process_text_words [OF h, of s] by (simp add: parse_html_def HtmlParser_parse_html_def h_def)
qed

end
