(* ===== verification/Index_Data.thy ===== *)
theory Index_Data
  imports Html_Text Cluster_Writer
begin

text \<open>
  What an item gives to the full-text index: \<^verbatim>\<open>src/writer/item.cpp\<close> and the items of \<^verbatim>\<open>include/zim/writer/item.h\<close>, in the build
  with Xapian. Removing accents is a function of the ICU library and a parameter.

  Shown here: the index gets the words of the item's content whatever provider delivers it, and the number of words it
  is told, which is one more than there are.
\<close>

section \<open>Index data\<close>

record 'f DefaultIndexData =
  htmlParser :: "'f MyHtmlParser"
  ix_title :: bytes

text \<open>The constructor swallows every exception of the parser and keeps what was collected until then; a failure that is not
  an exception stays one.\<close>

definition new_DefaultIndexData :: "(u32 \<Rightarrow> bytes) \<Rightarrow> (bytes \<Rightarrow> 'f) \<Rightarrow> 'f \<Rightarrow> bytes \<Rightarrow> bytes \<Rightarrow> 'f DefaultIndexData res" where
  "new_DefaultIndexData utf8 stof zero htmlData title =
     (case parse_html utf8 stof htmlData (str ''UTF-8'') True (new_MyHtmlParser zero) of
        Thrown (HtmlFailure e) h \<Rightarrow> Inl e
      | r \<Rightarrow> Inr \<lparr>htmlParser = object_of r, ix_title = title\<rparr>)"

definition hasIndexData :: "'f DefaultIndexData \<Rightarrow> bool" where
  "hasIndexData x \<longleftrightarrow> string_find (h_dump (htmlParser x)) (str ''NOINDEX'') = None"

definition ix_getTitle :: "(bytes \<Rightarrow> bytes) \<Rightarrow> 'f DefaultIndexData \<Rightarrow> bytes" where
  "ix_getTitle removeAccents x = removeAccents (ix_title x)"

definition ix_getContent :: "(bytes \<Rightarrow> bytes) \<Rightarrow> 'f DefaultIndexData \<Rightarrow> bytes" where
  "ix_getContent removeAccents x = removeAccents (h_dump (htmlParser x))"

definition ix_getKeywords :: "(bytes \<Rightarrow> bytes) \<Rightarrow> 'f DefaultIndexData \<Rightarrow> bytes" where
  "ix_getKeywords removeAccents x = removeAccents (h_keywords (htmlParser x))"

definition ix_getWordCount :: "'f DefaultIndexData \<Rightarrow> u32 option" where
  "ix_getWordCount x = countWords (h_dump (htmlParser x))"

definition ix_getGeoPosition :: "'f \<Rightarrow> 'f DefaultIndexData \<Rightarrow> bool \<times> 'f \<times> 'f" where
  "ix_getGeoPosition zero x =
     (if has_geoPosition (htmlParser x) then (True, latitude (htmlParser x), longitude (htmlParser x)) else (False, zero, zero))"

section \<open>Items\<close>

record BasicItem =
  bi_path :: bytes
  bi_mimetype :: bytes
  bi_title :: bytes

record StringItem = BasicItem +
  si_content :: bytes

record FileItem = BasicItem +
  fi_filepath :: bytes

definition StringItem_getContentProvider :: "StringItem \<Rightarrow> ContentProvider" where
  "StringItem_getContentProvider it = new_SharedStringProvider (si_content it)"

definition FileItem_getContentProvider :: "(bytes \<Rightarrow> FD option) \<Rightarrow> FileItem \<Rightarrow> ContentProvider res" where
  "FileItem_getContentProvider open_file it = new_FileProvider open_file (fi_filepath it)"

text \<open>\<^verbatim>\<open>Item::getIndexData\<close> reads the whole content first; \<^verbatim>\<open>StringItem\<close> has it at hand.\<close>

definition Item_getIndexData ::
    "(u32 \<Rightarrow> bytes) \<Rightarrow> (bytes \<Rightarrow> 'f) \<Rightarrow> 'f \<Rightarrow> (nat \<Rightarrow> byte) \<Rightarrow> ContentProvider \<Rightarrow> bytes \<Rightarrow> 'f DefaultIndexData res" where
  "Item_getIndexData utf8 stof zero junk provider title =
     rbind (feed_all junk provider) (\<lambda>(blobs, _). new_DefaultIndexData utf8 stof zero (concat blobs) title)"

definition StringItem_getIndexData ::
    "(u32 \<Rightarrow> bytes) \<Rightarrow> (bytes \<Rightarrow> 'f) \<Rightarrow> 'f \<Rightarrow> StringItem \<Rightarrow> 'f DefaultIndexData res" where
  "StringItem_getIndexData utf8 stof zero it = new_DefaultIndexData utf8 stof zero (si_content it) (bi_title it)"

section \<open>The number of words\<close>

lemma count_loop_end: "\<not> i < len \<Longrightarrow> count_loop s len i n = Some n"
  by (simp add: count_loop.simps)

lemma count_loop_words:
  assumes "\<forall>w\<in>set ws. is_word w" "ws \<noteq> []" "length (pre @ unwords ws) < 2 ^ 32 - 1"
  shows "count_loop (pre @ unwords ws) (of_nat (length (pre @ unwords ws))) (of_nat (length pre)) n = Some (n + of_nat (length ws))"
  using assms
proof (induction ws arbitrary: pre n)
  case (Cons w ws)
  let ?s = "pre @ unwords (w # ws)"
  define rest where "rest = (if ws = [] then [] else 32 # unwords ws)"
  have s: "?s = pre @ w @ rest" by (simp add: rest_def unwords_Cons)
  have w: "w \<noteq> []" "32 \<notin> set w" using Cons.prems(1) by (auto simp: is_word_def WHITESPACE_def)
  have l: "length (pre @ w @ rest) < 2 ^ 32" using Cons.prems(3) s by simp
  have less: "(of_nat (length pre) :: u32) < of_nat (length (pre @ w @ rest))"
    using w l by (intro of_nat_less_u32) simp_all
  have e: "word_end (pre @ w @ rest) (of_nat (length (pre @ w @ rest))) (of_nat (length pre)) = of_nat (length pre + length w)"
    using w(2) l by (intro word_end_word) (simp_all add: rest_def)
  have step: "count_loop (pre @ w @ rest) (of_nat (length (pre @ w @ rest))) (of_nat (length pre)) n =
      count_loop (pre @ w @ rest) (of_nat (length (pre @ w @ rest))) (of_nat (length pre + length w) + 1) (n + 1)"
    by (subst count_loop.simps) (simp only: less e if_True)
  show ?case
  proof (cases "ws = []")
    case True
    have "(of_nat (length pre + length w) :: u32) < of_nat (length pre + length w + 1)"
      using Cons.prems(3) True by (intro of_nat_less_u32) (simp_all add: unwords_Cons)
    then have "\<not> (of_nat (length pre + length w) + 1 :: u32) < of_nat (length (pre @ w @ rest))"
      using True by (simp add: rest_def add.commute)
    then show ?thesis using True step s by (simp add: count_loop_end)
  next
    case False
    have eq: "pre @ w @ rest = (pre @ w @ [32]) @ unwords ws" using False by (simp add: rest_def)
    have "count_loop ((pre @ w @ [32]) @ unwords ws) (of_nat (length ((pre @ w @ [32]) @ unwords ws)))
        (of_nat (length (pre @ w @ [32]))) (n + 1) = Some (n + 1 + of_nat (length ws))"
      using Cons.prems False by (intro Cons.IH) (simp_all add: unwords_Cons)
    then show ?thesis unfolding s step unfolding eq by (simp add: algebra_simps)
  qed
qed simp

lemma words_of_words: "w \<in> set (words_of s) \<Longrightarrow> is_word w"
proof (induction s rule: words_of.induct)
  case (1 s)
  define t where "t = dropWhile (\<lambda>c. c \<in> set WHITESPACE) s"
  show ?case
  proof (cases "t = []")
    case True
    then show ?thesis using 1(2) by (simp add: words_of.simps [of s] t_def [symmetric])
  next
    case False
    then have "hd t \<notin> set WHITESPACE" using hd_dropWhile [of "\<lambda>c. c \<in> set WHITESPACE" s] by (simp add: t_def)
    with False have "is_word (takeWhile (\<lambda>c. c \<notin> set WHITESPACE) t)"
      by (cases t) (auto simp: is_word_def dest: set_takeWhileD)
    moreover have "words_of s = takeWhile (\<lambda>c. c \<notin> set WHITESPACE) t # words_of (dropWhile (\<lambda>c. c \<notin> set WHITESPACE) t)"
      using False by (simp add: words_of.simps [of s] t_def [symmetric])
    ultimately show ?thesis using 1(1) [OF t_def False] 1(2) by auto
  qed
qed

lemma countWords_unwords:
  assumes "\<forall>w\<in>set ws. is_word w" "length (unwords ws) < 2 ^ 32 - 1"
  shows "countWords (unwords ws) = Some (of_nat (length ws) + 1)"
proof (cases "ws = []")
  case True
  then show ?thesis by (simp add: countWords_def count_loop_end)
next
  case False
  then show ?thesis using count_loop_words [of ws "[]" 1] assms by (simp add: countWords_def add.commute)
qed

section \<open>What the index is told\<close>

lemma index_data_of_text:
  "\<exists>x. new_DefaultIndexData utf8 stof zero (escape_html s) title = Inr x \<and>
     h_dump (htmlParser x) = unwords (words_of s) \<and> ix_title x = title"
proof -
  let ?r = "parse_html utf8 stof (escape_html s) (str ''UTF-8'') True (new_MyHtmlParser zero)"
  obtain h where "?r = Done h" "h_dump h = unwords (words_of s)"
    using parse_escaped_text [of utf8 stof s "str ''UTF-8''" True zero] by blast
  then show ?thesis by (simp add: new_DefaultIndexData_def)
qed

text \<open>C37: The data of an item for the index. If the content of an item is an escaped text, then for every provider that
  delivers it, in whatever pieces, the index gets the words of the text separated by single blanks and the title of the
  item, and as the number of words it is told one more than there are (in a text shorter than four gigabytes).\<close>

theorem index_data_of_item:
  assumes "feed_all junk provider = Inr (blobs, p)" and "concat blobs = escape_html s"
    and "length (unwords (words_of s)) < 2 ^ 32 - 1"
  shows "\<exists>x. Item_getIndexData utf8 stof zero junk provider title = Inr x \<and>
    ix_getContent removeAccents x = removeAccents (unwords (words_of s)) \<and>
    ix_getTitle removeAccents x = removeAccents title \<and>
    ix_getWordCount x = Some (of_nat (length (words_of s)) + 1)"
  using assms index_data_of_text [of utf8 stof zero s title] countWords_unwords [of "words_of s"] words_of_words
  by (auto simp: Item_getIndexData_def ix_getContent_def ix_getTitle_def ix_getWordCount_def)

theorem index_data_of_item_witness:
  "\<exists>x. Item_getIndexData utf8_encode (\<lambda>_. 0 :: int) 0 (\<lambda>_. 0) (CustomProvider 13 [str ''to be &a'', str ''mp; not ''])
      (str ''Title'') = Inr x \<and>
    ix_getContent id x = str ''to be & not'' \<and> ix_getTitle id x = str ''Title'' \<and> ix_getWordCount x = Some 5"
proof -
  have f: "feed_all (\<lambda>_. 0) (CustomProvider 13 [str ''to be &a'', str ''mp; not '']) =
      Inr ([str ''to be &a'', str ''mp; not ''], CustomProvider 13 [])"
    by (simp add: feed_all.simps str_def)
  have e: "concat [str ''to be &a'', str ''mp; not ''] = escape_html (str ''to be & not '')"
    by (simp add: escape_html_def escape_char_def str_def)
  have w: "words_of (str ''to be & not '') = [str ''to'', str ''be'', str ''&'', str ''not'']"
    by (simp add: words_of.simps str_def WHITESPACE_def Let_def)
  have u: "unwords [str ''to'', str ''be'', str ''&'', str ''not''] = str ''to be & not''" by (simp add: str_def)
  from index_data_of_item [OF f e, of utf8_encode "\<lambda>_. 0 :: int" 0 "str ''Title''" id] show ?thesis
    by (simp add: w u) (simp add: str_def)
qed

end
