(* ===== verification/Uuids.thy ===== *)
theory Uuids
  imports Md5 Html_Parser
begin

unbundle bit_operations_syntax

text \<open>
  Identifiers of archives: \<^verbatim>\<open>include/zim/uuid.h\<close> and \<^verbatim>\<open>src/uuid.cpp\<close>. The time that a random identifier is made from
  (the bytes of the \<^verbatim>\<open>clock_t\<close> and of the \<^verbatim>\<open>timeval\<close>) is an argument.

  Shown here: an identifier made from a value is its MD5 digest, and the printed form of an identifier determines it.
\<close>

type_synonym Uuid = bytes

definition nil_Uuid :: Uuid where
  "nil_Uuid = replicate 16 0"

text \<open>\<open>ctx\<close> is the uninitialised context on the stack; the length of the value is cut to 32 bits by the call.\<close>

definition uuid_generate :: "zim_MD5_CTX \<Rightarrow> bytes \<Rightarrow> bytes \<Rightarrow> bytes \<Rightarrow> Uuid res" where
  "uuid_generate ctx clock tv value =
     (let md5ctx = zim_MD5Init ctx in
      rbind (if value = [] then
               rbind (zim_MD5Update md5ctx clock (of_nat (length clock))) (\<lambda>md5ctx.
                 zim_MD5Update md5ctx tv (of_nat (length tv)))
             else zim_MD5Update md5ctx value (of_nat (length value))) (\<lambda>md5ctx.
      rbind (zim_MD5Final md5ctx) (\<lambda>(digest, _). Inr digest)))"

definition hex_chars :: bytes where
  "hex_chars = str ''0123456789abcdef''"

definition uuid_hi :: "byte \<Rightarrow> byte" where
  "uuid_hi v = hex_chars ! unat (signed_drop_bit 4 v AND 0xf)"

definition uuid_lo :: "byte \<Rightarrow> byte" where
  "uuid_lo v = hex_chars ! unat (v AND 0xf)"

definition print_bytes :: "Uuid \<Rightarrow> nat \<Rightarrow> nat \<Rightarrow> bytes" where
  "print_bytes uuid a b = concat (map (\<lambda>n. [uuid_hi (uuid ! n), uuid_lo (uuid ! n)]) [a..<b])"

definition uuid_print :: "Uuid \<Rightarrow> bytes" where
  "uuid_print uuid = print_bytes uuid 0 4 @ [45] @ print_bytes uuid 4 6 @ [45] @ print_bytes uuid 6 8 @ [45] @
     print_bytes uuid 8 10 @ [45] @ print_bytes uuid 10 16"

section \<open>Properties\<close>

text \<open>An identifier generated from a value is the MD5 digest of the value, so that the same value always gives the
  same identifier; without a value it is the digest of the time.\<close>

theorem uuid_generate_is_digest:
  assumes "length (md5_buffer ctx) = 64" and "length value + 63 < 2 ^ 32" and "length clock + 63 < 2 ^ 32" and "length tv + 63 < 2 ^ 32"
  shows "uuid_generate ctx clock tv value = Inr (rfc1321_md5 (if value = [] then clock @ tv else value))"
proof -
  have "\<exists>c. rbind (rfoldl md5_feed (zim_MD5Init ctx) chunks) zim_MD5Final = Inr (rfc1321_md5 (concat chunks), c)"
    if "\<forall>x\<in>set chunks. md5_chunk_ok x" for chunks
    using md5.digest_of_chunks [OF md5_absorbed_init [OF assms(1)], of chunks] that by simp
  from this [of "[clock, tv]"] this [of "[value]"] assms(2-4) show ?thesis
    by (auto simp: uuid_generate_def Let_def md5_feed_def md5_chunk_ok_def rbind_assoc split: sum.splits elim!: rbind_InrE)
qed

text \<open>Reading hexadecimal digits back in pairs.\<close>

fun read_hex :: "bytes \<Rightarrow> bytes" where
  "read_hex (a # b # t) = of_nat (16 * hex_value a + hex_value b) # read_hex t"
| "read_hex _ = []"

lemma hex_chars_value:
  assumes "n < 16"
  shows "hex_value (hex_chars ! n) = n" "hex_chars ! n \<noteq> 45"
proof -
  have "\<forall>n\<in>set [0..<16]. hex_value (hex_chars ! n) = n \<and> hex_chars ! n \<noteq> 45" by code_simp
  with assms show "hex_value (hex_chars ! n) = n" "hex_chars ! n \<noteq> 45" by auto
qed

lemma uuid_digits:
  "hex_value (uuid_hi v) = unat v div 16" "hex_value (uuid_lo v) = unat v mod 16" "uuid_hi v \<noteq> 45" "uuid_lo v \<noteq> 45"
proof -
  have m: "(0xf :: byte) = mask 4" by (simp add: mask_eq_exp_minus_1)
  have "signed_drop_bit 4 v AND 0xf = drop_bit 4 v"
  proof (rule bit_word_eqI)
    fix n :: nat
    show "bit (signed_drop_bit 4 v AND 0xf) n = bit (drop_bit 4 v) n"
      unfolding m using bit_imp_le_length [of v "4 + n"] by (auto simp: bit_simps)
  qed
  then have hi: "unat (signed_drop_bit 4 v AND 0xf) = unat v div 16" by (simp add: unat_drop_bit_eq drop_bit_eq_div [of _ "unat v"])
  have lo: "unat (v AND 0xf) = unat v mod 16"
    unfolding m by (simp add: take_bit_eq_mask [symmetric] unsigned_take_bit_eq take_bit_eq_mod [of _ "unat v"])
  have "unat v div 16 < 16" using unsigned_less [of v, where 'a = nat] by simp
  then show "hex_value (uuid_hi v) = unat v div 16" "uuid_hi v \<noteq> 45"
    using hex_chars_value [of "unat v div 16"] by (simp_all add: uuid_hi_def hi)
  show "hex_value (uuid_lo v) = unat v mod 16" "uuid_lo v \<noteq> 45"
    using hex_chars_value [of "unat v mod 16"] by (simp_all add: uuid_lo_def lo)
qed

lemma of_nat_div_mod_16: "(of_nat (16 * (unat v div 16) + unat v mod 16) :: byte) = v"
  by (simp only: mult_div_mod_eq of_nat_unat ucast_id)

lemma read_hex_print:
  "read_hex (concat (map (\<lambda>v. [uuid_hi v, uuid_lo v]) vs)) = vs"
  by (induction vs) (simp_all add: uuid_digits of_nat_div_mod_16 del: of_nat_add of_nat_mult)

lemma print_bytes_filter: "filter (\<lambda>c. c \<noteq> 45) (print_bytes uuid a b) = print_bytes uuid a b"
  by (simp add: print_bytes_def filter_id_conv uuid_digits)

lemma print_bytes_append: "a \<le> b \<Longrightarrow> b \<le> c \<Longrightarrow> print_bytes uuid a b @ print_bytes uuid b c = print_bytes uuid a c"
  using upt_add_eq_append [of a b "c - b"] by (simp add: print_bytes_def flip: concat_append map_append)

text \<open>C40: The printed form of an identifier has 36 characters, its groups of 8, 4, 4, 4 and 12 hexadecimal digits are
  separated by hyphens, and the digits read in pairs are the bytes of the identifier; so different identifiers print
  differently.\<close>

theorem uuid_text_roundtrip:
  assumes "length uuid = 16"
  shows "length (uuid_print uuid) = 36 \<and> {i. i < 36 \<and> uuid_print uuid ! i = 45} = {8, 13, 18, 23} \<and>
    read_hex (filter (\<lambda>c. c \<noteq> 45) (uuid_print uuid)) = uuid"
proof -
  have "filter (\<lambda>c. c \<noteq> 45) (uuid_print uuid) = print_bytes uuid 0 16"
    by (simp add: uuid_print_def print_bytes_filter print_bytes_append flip: append_assoc)
  also have "\<dots> = concat (map (\<lambda>v. [uuid_hi v, uuid_lo v]) uuid)"
    using assms map_nth [of uuid] list.map_comp [of "\<lambda>v. [uuid_hi v, uuid_lo v]" "nth uuid" "[0..<16]"]
    by (simp add: print_bytes_def comp_def)
  finally have r: "read_hex (filter (\<lambda>c. c \<noteq> 45) (uuid_print uuid)) = uuid" by (simp add: read_hex_print)
  have p: "uuid_print uuid = (let d = \<lambda>n. [uuid_hi (uuid ! n), uuid_lo (uuid ! n)] in
      concat [d 0, d 1, d 2, d 3, [45], d 4, d 5, [45], d 6, d 7, [45], d 8, d 9, [45], d 10, d 11, d 12, d 13, d 14, d 15])"
    by (simp add: uuid_print_def print_bytes_def upt_rec numeral_eq_Suc)
  have "i \<in> {8, 13, 18, 23}" if "i < 36" "uuid_print uuid ! i = 45" for i
    using that by (auto simp: p Let_def nth_Cons' uuid_digits split: if_splits)
  moreover have "uuid_print uuid ! i = 45" if "i \<in> {8, 13, 18, 23}" for i
    using that by (auto simp: p Let_def nth_Cons')
  moreover have "length (uuid_print uuid) = 36" by (simp add: p Let_def)
  ultimately show ?thesis using r by auto
qed

theorem uuid_text_roundtrip_witness:
  "length (uuid_print (rfc1321_md5 (str ''zim''))) = 36 \<and>
   read_hex (filter (\<lambda>c. c \<noteq> 45) (uuid_print (rfc1321_md5 (str ''zim'')))) = rfc1321_md5 (str ''zim'')"
  using uuid_text_roundtrip [of "rfc1321_md5 (str ''zim'')"] by (simp add: rfc1321_md5_def split: prod.split)

theorem uuid_generate_is_digest_witness:
  "uuid_generate \<lparr>md5_state = (0, 0, 0, 0), md5_count = (0, 0), md5_buffer = replicate 64 7\<rparr> [1] [2] (str ''zim'') =
     Inr (rfc1321_md5 (str ''zim''))"
  using uuid_generate_is_digest [of "\<lparr>md5_state = (0, 0, 0, 0), md5_count = (0, 0), md5_buffer = replicate 64 7\<rparr>"
      "str ''zim''" "[1]" "[2]"]
  by (simp add: str_def)

end
