(* ===== verification/Env_Values.thy ===== *)
theory Env_Values
  imports Html_Parser
begin

text \<open>
  Settings from the environment, \<^verbatim>\<open>src/envvalue.cpp\<close>: the sizes of the caches and the memory for LZMA. The variable is
  given by its value, \<open>None\<close> if it is not set.

  Shown here: what a setting of digits with an optional unit means, modulo the width of the result.
\<close>

text \<open>\<^verbatim>\<open>stream >> number\<close> for an \<^verbatim>\<open>unsigned int\<close> as the standard library defines it: white space is skipped; at the end of
  the stream nothing is assigned; without a digit zero is assigned; a number that is too large gives the largest one; a
  minus sign negates modulo the width. The second component is what is left in the stream, \<open>None\<close> if the stream has
  failed or is at its end.\<close>

definition extract_unsigned :: "bytes \<Rightarrow> u32 \<Rightarrow> u32 \<times> bytes option" where
  "extract_unsigned s def =
     (case dropWhile isspace s of
        [] \<Rightarrow> (def, None)
      | c # t \<Rightarrow>
          let u = (if c = 43 \<or> c = 45 then t else c # t);
              digits = takeWhile isdigit u;
              rest = dropWhile isdigit u;
              v = number_value 10 digits in
          if digits = [] then (0, None)
          else if v \<ge> 2 ^ 32 then (- 1, None)
          else (if c = 45 then - of_nat v else of_nat v, if rest = [] then None else Some rest))"

text \<open>\<^verbatim>\<open>stream >> unit\<close> for a character.\<close>

definition extract_char :: "bytes option \<Rightarrow> byte \<Rightarrow> byte" where
  "extract_char s def =
     (case s of None \<Rightarrow> def | Some s \<Rightarrow> (case dropWhile isspace s of [] \<Rightarrow> def | c # _ \<Rightarrow> c))"

definition envValue :: "bytes option \<Rightarrow> u32 \<Rightarrow> u32" where
  "envValue v def = (case v of None \<Rightarrow> def | Some s \<Rightarrow> fst (extract_unsigned s def))"

definition unit_factor :: "byte \<Rightarrow> u32" where
  "unit_factor c =
     (if c = 107 \<or> c = 75 then 1024
      else if c = 109 \<or> c = 77 then 1024 * 1024
      else if c = 103 \<or> c = 71 then 1024 * 1024 * 1024 else 1)"

definition envMemSize :: "bytes option \<Rightarrow> u32 \<Rightarrow> u32" where
  "envMemSize v def =
     (case v of
        None \<Rightarrow> def
      | Some s \<Rightarrow> (case extract_unsigned s def of (n, rest) \<Rightarrow> n * unit_factor (extract_char rest 0)))"

lemma extract_digits:
  assumes "ds \<noteq> []" "\<forall>c\<in>set ds. isdigit c" "rest = [] \<or> \<not> isdigit (hd rest)" "number_value 10 ds < 2 ^ 32"
  shows "extract_unsigned (ds @ rest) def = (of_nat (number_value 10 ds), if rest = [] then None else Some rest)"
proof -
  obtain c t where ds: "ds = c # t" using assms(1) by (cases ds) auto
  have c: "isdigit c" using assms(2) ds by simp
  then have "\<not> isspace c" "c \<noteq> 43" "c \<noteq> 45" by (auto simp: isdigit_def isspace_def word_le_nat_alt)
  moreover have "takeWhile isdigit (c # t @ rest) = c # t" "dropWhile isdigit (c # t @ rest) = rest"
    using assms(2,3) ds by (cases rest, auto)+
  ultimately show ?thesis using assms(4) ds c by (simp add: extract_unsigned_def Let_def)
qed

text \<open>A memory size written as decimal digits and a unit means the number times the unit, modulo \<open>2 ^ 32\<close>; so four
  gigabytes, \<^verbatim>\<open>4G\<close>, mean zero.\<close>

theorem envMemSize_value:
  assumes "ds \<noteq> []" and "\<forall>c\<in>set ds. isdigit c" and "number_value 10 ds < 2 ^ 32" and "\<not> isdigit u" and "\<not> isspace u"
  shows "envMemSize (Some (ds @ [u])) def = of_nat (number_value 10 ds) * unit_factor u \<and>
    envMemSize (Some ds) def = of_nat (number_value 10 ds)"
  using extract_digits [OF assms(1,2) _ assms(3), of "[u]" def] extract_digits [OF assms(1,2) _ assms(3), of "[]" def] assms(4,5)
  by (simp add: envMemSize_def extract_char_def unit_factor_def)

theorem envMemSize_value_witness: "envMemSize (Some (str ''4G'')) 128 = 0 \<and> envMemSize (Some (str ''4'')) 128 = 4"
proof -
  have "str ''4G'' = str ''4'' @ [71]" by (simp add: str_def)
  then show ?thesis
    using envMemSize_value [of "str ''4''" 71 128]
    by (simp add: str_def isdigit_def isspace_def number_value_def hex_value_def unit_factor_def)
qed

end
