(* ===== verification/Spec2Isabelle.thy ===== *)
theory Spec2Isabelle
  imports Md5 Concurrent_Cache File_Header Dirent_Lookup Creator_Entries Creator_Pipeline Archive_Built Template_Parser Index_Data Uuids Env_Values
begin

text \<open>
  A verification development for libzim, the library that writes and reads ZIM archives.

  \<^bold>\<open>The program.\<close> An archive is one file, possibly cut into parts: a header of 80 bytes, a list of mime types, the
  clusters (each a byte of flags and a stream, compressed or not, that holds a table of offsets and the contents),
  the directory of entries sorted by namespace and path, the list of pointers to the entries, listings of titles, the
  list of pointers to the clusters, and an MD5 digest. \<^verbatim>\<open>zim::writer::Creator\<close> collects items, metadata and redirections,
  fills clusters that worker threads compress and a writer thread writes, and at last writes directory, lists,
  header and digest. \<^verbatim>\<open>zim::Archive\<close> opens such a file, finds entries by path and by title, follows redirections and
  hands out contents, through caches that threads share.

  \<^bold>\<open>Conventions.\<close> Machine integers are words of their width; a buffer is a list of bytes. A call that may throw gives a
  value of \<open>'a res = zim_error + 'a\<close> (\<open>Zim_Prelude\<close>), \<open>Inl\<close> for the exception; what C++ leaves undefined and the
  model meets (an access outside of a buffer, a null pointer) is the failure \<open>MemoryFault\<close>, and a loop that never
  ends is \<open>None\<close> of a \<open>partial_function\<close> or the failure \<open>NoReturn\<close>. The content of fresh memory is the argument \<open>junk\<close>.
  System calls, compression libraries and the user's content providers are arguments; what is relied upon is stated as
  \<open>fd_serves\<close>, \<open>encoder_ok\<close>, \<open>decoder_ok\<close>. No definition has fuel: loops are structural, have a measure, or are
  \<open>partial_function (option)\<close> with a lemma that they return where they do.

  \<^bold>\<open>Foundations.\<close>
  \<^item> \<open>Zim_Prelude\<close>: types, failures, generic lemmas. \<open>Endian_Tools\<close>: \<^verbatim>\<open>src/endian_tools.h\<close>, \<^verbatim>\<open>src/bufferstreamer.h\<close>;
    encoder and decoder are inverse in both directions.
  \<^item> \<open>Block_Hash\<close>, \<open>Md5\<close>: \<^verbatim>\<open>src/md5.c\<close>; the unrolled transformation is the loop of RFC 1321, and any chunking of a
    message gives the RFC digest (locale of an incremental digest).
  \<^item> \<open>Lru_Cache\<close>, \<open>Concurrent_Cache\<close>: \<^verbatim>\<open>src/lrucache.h\<close>, \<^verbatim>\<open>src/concurrent_cache.h\<close>; list and map agree, refinement to
    association lists; the thread-safe cache as a step relation: a caller gets a value for its own key and nobody
    waits for a computation that nobody runs.
  \<^item> \<open>Zim_Tools\<close>: \<^verbatim>\<open>src/tools.cpp\<close>; mime types, long paths, word count.
  \<^item> \<open>Uuids\<close>, \<open>Env_Values\<close>, \<open>Template_Parser\<close>: \<^verbatim>\<open>src/uuid.cpp\<close>, \<^verbatim>\<open>src/envvalue.cpp\<close>, \<^verbatim>\<open>src/template.*\<close>; identifiers are
    digests and print reversibly, what a setting means, the template machine keeps its positions in range and inverts
    printing.

  \<^bold>\<open>Reading.\<close>
  \<^item> \<open>Readers\<close>: \<^verbatim>\<open>src/buffer.*\<close>, \<^verbatim>\<open>src/reader.h\<close>, \<^verbatim>\<open>src/buffer_reader.*\<close>, \<^verbatim>\<open>src/file_reader.*\<close>, \<^verbatim>\<open>src/file_compound.*\<close>,
    \<^verbatim>\<open>src/file_part.h\<close>, \<^verbatim>\<open>src/fs_unix.*\<close>; the contract of a reader is a locale interpreted for each class, so that an
    archive in parts reads as their concatenation.
  \<^item> \<open>Compression\<close>, \<open>Stream_Readers\<close>: \<^verbatim>\<open>src/compression.*\<close>, \<^verbatim>\<open>src/istreamreader.*\<close>, \<^verbatim>\<open>src/rawstreamreader.h\<close>,
    \<^verbatim>\<open>src/decoderstreamreader.h\<close>; streams deliver the next bytes in order, raw or decoded.
  \<^item> \<open>Clusters\<close>: \<^verbatim>\<open>src/cluster.*\<close>, \<^verbatim>\<open>src/blob.cpp\<close>; an opened cluster serves every sequence of requests.
  \<^item> \<open>File_Header\<close>, \<open>Dirents\<close>, \<open>Narrow_Down\<close>, \<open>Dirent_Lookup\<close>: \<^verbatim>\<open>src/fileheader.*\<close>, \<^verbatim>\<open>src/dirent.cpp\<close>,
    \<^verbatim>\<open>src/dirent_accessor.*\<close>, \<^verbatim>\<open>src/narrowdown.h\<close>, \<^verbatim>\<open>src/dirent_lookup.h\<close>; parsing inverts writing, the search by
    path is correct and ends, namespaces are delimited.
  \<^item> \<open>File_Impl\<close>, \<open>File_Archive\<close>: \<^verbatim>\<open>src/fileimpl.*\<close>; opening, search by title, order by cluster, checksum, checks.
  \<^item> \<open>Archive_Api\<close>, \<open>Archive_Lookup\<close>: \<^verbatim>\<open>src/archive.cpp\<close>, \<^verbatim>\<open>src/entry.cpp\<close>, \<^verbatim>\<open>src/item.cpp\<close>, \<^verbatim>\<open>include/zim/archive.h\<close>;
    entries by path, ranges by prefix, iteration, redirections, contents (locale of an ordered directory).
  \<^item> \<open>Archive_Image\<close>: the file format as a predicate on the bytes of a file, and that the reader opens every such file.

  \<^bold>\<open>Writing.\<close>
  \<^item> \<open>Cluster_Writer\<close>: \<^verbatim>\<open>src/writer/cluster.*\<close>, \<^verbatim>\<open>src/writer/contentProvider.*\<close>; a cluster filled, closed and written
    is for the reader the list of its contents.
  \<^item> \<open>Writer_Dirents\<close>, \<open>Creator_Data\<close>, \<open>Creator_Entries\<close>: \<^verbatim>\<open>src/writer/_dirent.h\<close>, \<^verbatim>\<open>src/writer/direntPool.h\<close>,
    \<^verbatim>\<open>src/writer/creatordata.h\<close>, \<^verbatim>\<open>src/writer/titleListingHandler.*\<close>, the adding half of \<^verbatim>\<open>src/writer/creator.cpp\<close>; order
    of the entries, precedence, numbering, resolution of redirections and mime types.
  \<^item> \<open>Creator_Pipeline\<close>: \<^verbatim>\<open>src/writer/queue.h\<close>, \<^verbatim>\<open>src/writer/workers.cpp\<close>, \<^verbatim>\<open>src/writer/clusterWorker.*\<close>; all
    interleavings of the threads end with every cluster written once and in order, and the queues are bounded.
  \<^item> \<open>Creator_Finish\<close>: \<^verbatim>\<open>include/zim/writer/creator.h\<close>, \<^verbatim>\<open>finishZimCreation\<close>, \<^verbatim>\<open>fillHeader\<close>, \<^verbatim>\<open>write\<close>; the layout of the
    file, that the reader finds header and entries in it, and that its digest verifies.

  \<^bold>\<open>From end to end.\<close>
  \<^item> \<open>Archive_Written\<close>: what the threads and \<^verbatim>\<open>Creator::write\<close> leave behind is a file of the format of \<open>Archive_Image\<close>.
  \<^item> \<open>Creator_Contents\<close>, \<open>Creator_Calls\<close>, \<open>Creator_Finished\<close>: the calls of an application as data, what they mean as a map
    from places to mime types and contents, and the invariant that ties the creator to that map, along the calls and
    through every part of \<^verbatim>\<open>finishZimCreation\<close>.
  \<^item> \<open>Archive_Built\<close>: the composition. An archive that was built, finished, written and opened again gives back, by path, what
    was first added there.

  \<^bold>\<open>Indexing.\<close>
  \<^item> \<open>Html_Parser\<close>, \<open>Html_Text\<close>: \<^verbatim>\<open>src/xapian/htmlparse.cc\<close>, \<^verbatim>\<open>src/xapian/myhtmlparse.cc\<close>, \<^verbatim>\<open>src/xapian/namedentities.h\<close>;
    every document is parsed to the end, the text collected is normalised, decoding inverts escaping.
  \<^item> \<open>Index_Data\<close>: \<^verbatim>\<open>src/writer/item.cpp\<close>, \<^verbatim>\<open>include/zim/writer/item.h\<close>; what an item tells the index.

  \<^bold>\<open>Not modelled.\<close> Full-text search, suggestions and the writing of the index, which are calls of the Xapian library (the
  creator is modelled in the build without it, the data for the index in the build with it), the Windows file layer, logging, tests, the example program,
  and the vendored zstd and googletest. The caches of \<^verbatim>\<open>FileImpl\<close> are verified on their own and left out of
  \<open>File_Impl\<close>.
\<close>

end
